(* ===== verification/Prelude.thy ===== *)
theory Prelude
  imports Main "HOL-Library.Word"
begin

text \<open>
  Shared vocabulary of the development: Rust's machine integers as words, byte
  strings, \<open>Result\<close> as a sum type, and the generic lemmas on lists, options and
  words that the component theories rely on.

  \<^item> Fixed-width integers are \<open>HOL-Library.Word\<close> words, so \<open>+\<close> wraps as it
    does in the release profile of the workspace (no overflow checks) and as
    \<open>wrapping_add\<close> always does. Vector lengths (\<open>usize\<close> values that count
    elements in memory) are \<open>nat\<close>; where a \<open>usize\<close> is computed from client input
    it is a 64-bit word (the supported targets are 64-bit).
  \<^item> \<open>Result<T, E>\<close> is \<open>'e + 't\<close> with \<open>Inl\<close> the error, and the \<open>?\<close> operator is
    \<open>and_then\<close>.
\<close>

unbundle bit_operations_syntax

named_theorems wire_len
  \<open>lengths of encoded fields\<close>
named_theorems wire_dec
  \<open>decoding an encoded field followed by more input\<close>
named_theorems map_laws
  \<open>lookup laws of the collection models\<close>

type_synonym u8 = "8 word"
type_synonym u16 = "16 word"
type_synonym u32 = "32 word"
type_synonym u64 = "64 word"
type_synonym i32 = "32 word"
type_synonym i64 = "64 word"
type_synonym usize = "64 word"
type_synonym bytes = "8 word list"
type_synonym slot = "64 word"
type_synonym bank_id = "64 word"

text \<open>\<open>Result\<close>: the \<open>?\<close> operator, iteration with early return, \<open>Option::ok_or\<close>.\<close>

definition and_then :: "'e + 'a \<Rightarrow> ('a \<Rightarrow> 'e + 'b) \<Rightarrow> 'e + 'b" where
  "and_then r f = (case r of Inl e \<Rightarrow> Inl e | Inr x \<Rightarrow> f x)"

definition map_err :: "('e \<Rightarrow> 'f) \<Rightarrow> 'e + 'a \<Rightarrow> 'f + 'a" where
  "map_err g r = (case r of Inl e \<Rightarrow> Inl (g e) | Inr x \<Rightarrow> Inr x)"

definition map_ok :: "('a \<Rightarrow> 'b) \<Rightarrow> 'e + 'a \<Rightarrow> 'e + 'b" where
  "map_ok f r = (case r of Inl e \<Rightarrow> Inl e | Inr x \<Rightarrow> Inr (f x))"

definition ok_or :: "'e \<Rightarrow> 'a option \<Rightarrow> 'e + 'a" where
  "ok_or e r = (case r of None \<Rightarrow> Inl e | Some x \<Rightarrow> Inr x)"

definition is_ok :: "'e + 'a \<Rightarrow> bool" where
  "is_ok r = (case r of Inl _ \<Rightarrow> False | Inr _ \<Rightarrow> True)"

text \<open>\<open>for x in xs { f(x)?; }\<close> and \<open>iter.map(f).collect::<Result<_, _>>()\<close>.\<close>

fun for_each_ok :: "('a \<Rightarrow> 'e + unit) \<Rightarrow> 'a list \<Rightarrow> 'e + unit" where
  "for_each_ok f [] = Inr ()"
| "for_each_ok f (x # xs) = and_then (f x) (\<lambda>_. for_each_ok f xs)"

fun collect_ok :: "('a \<Rightarrow> 'e + 'b) \<Rightarrow> 'a list \<Rightarrow> 'e + 'b list" where
  "collect_ok f [] = Inr []"
| "collect_ok f (x # xs) = and_then (f x) (\<lambda>y. map_ok (\<lambda>ys. y # ys) (collect_ok f xs))"

text \<open>\<open>ensure c e\<close> is \<open>if !c { return Err(e) }\<close>.\<close>

definition ensure :: "bool \<Rightarrow> 'e \<Rightarrow> 'e + unit" where
  "ensure c e = (if c then Inr () else Inl e)"

text \<open>\<open>Option::map_or(0, f)\<close>, the shape of every optional field of an encoded length.\<close>

definition len_opt :: "('a \<Rightarrow> nat) \<Rightarrow> 'a option \<Rightarrow> nat" where
  "len_opt f v = (case v of None \<Rightarrow> 0 | Some x \<Rightarrow> f x)"

definition enc_opt :: "('a \<Rightarrow> bytes) \<Rightarrow> 'a option \<Rightarrow> bytes" where
  "enc_opt f v = (case v of None \<Rightarrow> [] | Some x \<Rightarrow> f x)"

text \<open>Slicing \<open>&xs[start..end]\<close>; \<open>None\<close> is the out-of-range panic.\<close>

definition slice :: "nat \<Rightarrow> nat \<Rightarrow> 'a list \<Rightarrow> 'a list option" where
  "slice a b xs = (if a \<le> b \<and> b \<le> length xs then Some (take (b - a) (drop a xs)) else None)"

text \<open>\<open>usize::next_power_of_two\<close>: the least power of two that is at least \<open>n\<close>.\<close>

function next_pow2_from :: "nat \<Rightarrow> nat \<Rightarrow> nat" where
  "next_pow2_from k n = (if n \<le> 2 ^ k then 2 ^ k else next_pow2_from (Suc k) n)"
  by pat_completeness auto
termination
proof (relation "measure (\<lambda>(k, n). n - k)")
  fix k n :: nat
  assume "\<not> n \<le> 2 ^ k"
  then have "k < n" using less_exp [of k] by linarith
  then show "((Suc k, n), (k, n)) \<in> measure (\<lambda>(k, n). n - k)" by simp
qed simp

declare next_pow2_from.simps [simp del]

definition next_power_of_two :: "nat \<Rightarrow> nat" where
  "next_power_of_two n = next_pow2_from 0 n"

text \<open>Lemmas on the result type.\<close>

lemma and_then_simps [simp]:
  "and_then (Inl e) f = Inl e"
  "and_then (Inr x) f = f x"
  by (simp_all add: and_then_def)

lemma and_then_Inr_iff: "and_then r f = Inr y \<longleftrightarrow> (\<exists>x. r = Inr x \<and> f x = Inr y)"
  by (cases r) auto

lemma map_err_simps [simp]:
  "map_err g (Inl e) = Inl (g e)"
  "map_err g (Inr x) = Inr x"
  by (simp_all add: map_err_def)

lemma map_err_Inr_iff [simp]: "map_err g r = Inr y \<longleftrightarrow> r = Inr y"
  by (cases r) auto

lemma map_ok_simps [simp]:
  "map_ok f (Inl e) = Inl e"
  "map_ok f (Inr x) = Inr (f x)"
  by (simp_all add: map_ok_def)

lemma map_ok_Inr_iff: "map_ok f r = Inr y \<longleftrightarrow> (\<exists>x. r = Inr x \<and> y = f x)"
  by (cases r) auto

lemma ok_or_simps [simp]:
  "ok_or e None = Inl e"
  "ok_or e (Some x) = Inr x"
  by (simp_all add: ok_or_def)

lemma ensure_Inr_iff [simp]: "ensure c e = Inr u \<longleftrightarrow> c"
  by (simp add: ensure_def)

lemma ensure_simps [simp]:
  "ensure True e = Inr ()"
  "ensure False e = Inl e"
  by (simp_all add: ensure_def)

lemma for_each_ok_iff: "for_each_ok f xs = Inr u \<longleftrightarrow> (\<forall>x\<in>set xs. f x = Inr ())"
  by (induction xs) (auto simp: and_then_Inr_iff)

lemma collect_ok_map: "(\<And>x. x \<in> set xs \<Longrightarrow> f (g x) = Inr (h x)) \<Longrightarrow>
  collect_ok f (map g xs) = Inr (map h xs)"
  by (induction xs) auto

lemma collect_ok_length: "collect_ok f xs = Inr ys \<Longrightarrow> length ys = length xs"
  by (induction xs arbitrary: ys) (auto simp: and_then_Inr_iff map_ok_Inr_iff)

lemma len_opt_simps [simp]:
  "len_opt f None = 0"
  "len_opt f (Some x) = f x"
  by (simp_all add: len_opt_def)

lemma enc_opt_simps [simp]:
  "enc_opt f None = []"
  "enc_opt f (Some x) = f x"
  by (simp_all add: enc_opt_def)

lemma length_enc_opt [wire_len]:
  "(\<And>x. length (f x) = g x) \<Longrightarrow> length (enc_opt f v) = len_opt g v"
  by (cases v) simp_all

text \<open>Slices.\<close>

lemma slice_append [simp]:
  "slice (length xs) (length xs + length ys) (xs @ ys @ zs) = Some ys"
  by (simp add: slice_def)

lemma slice_length: "slice a b xs = Some ys \<Longrightarrow> length ys = b - a"
  by (auto simp: slice_def split: if_splits)

lemma slice_whole [simp]: "slice 0 (length xs) xs = Some xs"
  by (simp add: slice_def)

text \<open>Powers of two and index masks.\<close>

lemma next_pow2_from_pow: "\<exists>j \<ge> k. next_pow2_from k n = 2 ^ j"
proof (induction k n rule: next_pow2_from.induct)
  case (1 k n)
  show ?case
  proof (cases "n \<le> 2 ^ k")
    case True
    then show ?thesis by (auto simp: next_pow2_from.simps [of k n])
  next
    case False
    with "1.IH" obtain j where "j \<ge> Suc k" and "next_pow2_from (Suc k) n = 2 ^ j" by blast
    with False show ?thesis
      by (metis Suc_leD next_pow2_from.simps)
  qed
qed

lemma next_pow2_from_ge: "n \<le> next_pow2_from k n"
proof (induction k n rule: next_pow2_from.induct)
  case (1 k n)
  then show ?case by (subst next_pow2_from.simps) auto
qed

lemma next_power_of_two_pow: "\<exists>j. next_power_of_two n = 2 ^ j"
  using next_pow2_from_pow [of 0 n] by (auto simp: next_power_of_two_def)

lemma next_power_of_two_ge: "n \<le> next_power_of_two n"
  by (simp add: next_power_of_two_def next_pow2_from_ge)

lemma next_power_of_two_pow_self: "next_power_of_two (2 ^ k) = 2 ^ k"
proof -
  have "next_pow2_from i (2 ^ k) = 2 ^ k" if "i \<le> k" for i
    using that
  proof (induction "k - i" arbitrary: i)
    case 0
    then show ?case by (subst next_pow2_from.simps) simp
  next
    case (Suc d)
    then have "i < k" and "next_pow2_from (Suc i) (2 ^ k) = 2 ^ k" by auto
    then show ?case by (subst next_pow2_from.simps) simp
  qed
  then show ?thesis by (simp add: next_power_of_two_def)
qed

lemma unat_of_nat_u64: "n < 2 ^ 64 \<Longrightarrow> unat (of_nat n :: u64) = n"
  by (simp add: unat_of_nat)

lemma unat_less_2p: "unat (w :: 'a::len word) < 2 ^ LENGTH('a)"
  by (rule unsigned_less)

lemma unat_and_mask:
  fixes p :: "'a::len word"
  shows "unat (p AND mask k) = unat p mod 2 ^ k"
  by (simp only: take_bit_eq_mask [symmetric] unsigned_take_bit_eq) (simp add: take_bit_eq_mod)

lemma unat_inc_bound:
  fixes w :: "'a::len word"
  assumes "Suc (unat w) < 2 ^ LENGTH('a)"
  shows "unat (w + 1) = Suc (unat w)"
  using assms by (simp add: unat_word_ariths)

lemma unat_inc:
  fixes w v :: "'a::len word"
  assumes "w < v"
  shows "unat (w + 1) = Suc (unat w)"
proof (rule unat_inc_bound)
  have "unat w < unat v" using assms by (simp add: word_less_nat_alt)
  then show "Suc (unat w) < 2 ^ LENGTH('a)" using unat_less_2p [of v] by linarith
qed

lemma next_pow2_from_le: "n \<le> 2 ^ j \<Longrightarrow> k \<le> j \<Longrightarrow> next_pow2_from k n \<le> 2 ^ j"
proof (induction k n rule: next_pow2_from.induct)
  case (1 k n)
  show ?case
  proof (cases "n \<le> 2 ^ k")
    case True
    then show ?thesis using "1.prems" by (simp add: next_pow2_from.simps [of k n])
  next
    case False
    then have "k \<noteq> j" using "1.prems" by auto
    then have "next_pow2_from (Suc k) n \<le> 2 ^ j" using "1.IH" False "1.prems" by simp
    then show ?thesis using False by (subst next_pow2_from.simps) simp
  qed
qed

lemma next_power_of_two_le: "n \<le> 2 ^ j \<Longrightarrow> next_power_of_two n \<le> 2 ^ j"
  by (simp add: next_power_of_two_def next_pow2_from_le)

end
