(* ===== verification/Ordered_Map.thy ===== *)
theory Ordered_Map
  imports Prelude
begin

text \<open>
  The part of Rust's \<open>BTreeMap\<close> that the program uses, as key-sorted association
  lists: \<open>get\<close>, \<open>insert\<close>, \<open>remove\<close>, \<open>entry(..).or_insert_with\<close>,
  \<open>first_key_value\<close>, \<open>last_key_value\<close>, \<open>pop_first\<close>, \<open>range(k..)\<close> and the
  ``remove from the front while'' loop that every retention path is written with.
  The contract is the locale \<open>ordered_map\<close>; the list operations interpret it.
\<close>

type_synonym ('k, 'v) btree = "('k \<times> 'v) list"

definition bt_ok :: "('k::linorder, 'v) btree \<Rightarrow> bool" where
  "bt_ok m = sorted_wrt (<) (map fst m)"

definition bt_get :: "('k, 'v) btree \<Rightarrow> 'k \<Rightarrow> 'v option" where
  "bt_get m = map_of m"

fun bt_insert :: "'k::linorder \<Rightarrow> 'v \<Rightarrow> ('k, 'v) btree \<Rightarrow> ('k, 'v) btree" where
  "bt_insert k v [] = [(k, v)]"
| "bt_insert k v ((a, b) # m) =
     (if k < a then (k, v) # (a, b) # m
      else if k = a then (k, v) # m
      else (a, b) # bt_insert k v m)"

definition bt_remove :: "'k \<Rightarrow> ('k, 'v) btree \<Rightarrow> ('k, 'v) btree" where
  "bt_remove k m = filter (\<lambda>kv. fst kv \<noteq> k) m"

definition bt_first_key :: "('k, 'v) btree \<Rightarrow> 'k option" where
  "bt_first_key m = (case m of [] \<Rightarrow> None | kv # _ \<Rightarrow> Some (fst kv))"

definition bt_last_key :: "('k, 'v) btree \<Rightarrow> 'k option" where
  "bt_last_key m = (if m = [] then None else Some (fst (last m)))"

definition bt_range_from :: "'k::linorder \<Rightarrow> ('k, 'v) btree \<Rightarrow> ('k, 'v) btree" where
  "bt_range_from k m = filter (\<lambda>kv. k \<le> fst kv) m"

text \<open>\<open>entry(k).or_insert_with(|| v)\<close> and \<open>entry(k).and_modify(f).or_insert(v)\<close>.\<close>

definition bt_or_insert :: "'k::linorder \<Rightarrow> 'v \<Rightarrow> ('k, 'v) btree \<Rightarrow> ('k, 'v) btree" where
  "bt_or_insert k v m = (case bt_get m k of None \<Rightarrow> bt_insert k v m | Some _ \<Rightarrow> m)"

definition bt_update :: "'k::linorder \<Rightarrow> ('v \<Rightarrow> 'v) \<Rightarrow> ('k, 'v) btree \<Rightarrow> ('k, 'v) btree" where
  "bt_update k f m = (case bt_get m k of None \<Rightarrow> m | Some v \<Rightarrow> bt_insert k (f v) m)"

text \<open>
  \<open>loop { match m.first_key_value() { Some((k, _)) if P(k) => m.remove(k), _ => break } }\<close>
\<close>

fun bt_pop_while :: "('k \<Rightarrow> bool) \<Rightarrow> ('k, 'v) btree \<Rightarrow> ('k, 'v) btree" where
  "bt_pop_while P [] = []"
| "bt_pop_while P (kv # m) = (if P (fst kv) then bt_pop_while P m else kv # m)"

locale ordered_map =
  fixes get :: "'m \<Rightarrow> 'k::linorder \<Rightarrow> 'v option"
    and insert :: "'k \<Rightarrow> 'v \<Rightarrow> 'm \<Rightarrow> 'm"
    and remove :: "'k \<Rightarrow> 'm \<Rightarrow> 'm"
    and first_key :: "'m \<Rightarrow> 'k option"
    and last_key :: "'m \<Rightarrow> 'k option"
    and invar :: "'m \<Rightarrow> bool"
  assumes get_insert: "invar m \<Longrightarrow> get (insert k v m) = (get m)(k \<mapsto> v)"
    and get_remove: "invar m \<Longrightarrow> get (remove k m) = (get m)(k := None)"
    and first_None: "invar m \<Longrightarrow> first_key m = None \<longleftrightarrow> get m = Map.empty"
    and first_Some: "invar m \<Longrightarrow> first_key m = Some k \<Longrightarrow>
          get m k \<noteq> None \<and> (\<forall>k'. get m k' \<noteq> None \<longrightarrow> k \<le> k')"
    and last_None: "invar m \<Longrightarrow> last_key m = None \<longleftrightarrow> get m = Map.empty"
    and last_Some: "invar m \<Longrightarrow> last_key m = Some k \<Longrightarrow>
          get m k \<noteq> None \<and> (\<forall>k'. get m k' \<noteq> None \<longrightarrow> k' \<le> k)"
    and invar_insert: "invar m \<Longrightarrow> invar (insert k v m)"
    and invar_remove: "invar m \<Longrightarrow> invar (remove k m)"
begin

lemma get_or_insert:
  assumes "invar m"
  shows "get (case get m k of None \<Rightarrow> insert k v m | Some _ \<Rightarrow> m) =
    (get m)(k \<mapsto> (case get m k of None \<Rightarrow> v | Some w \<Rightarrow> w))"
  using assms by (auto simp: get_insert fun_eq_iff split: option.split)

lemma get_update:
  assumes "invar m"
  shows "get (case get m k of None \<Rightarrow> m | Some v \<Rightarrow> insert k (f v) m) =
    (get m)(k := map_option f (get m k))"
  using assms by (auto simp: get_insert fun_eq_iff split: option.split)

lemma invar_or_insert:
  "invar m \<Longrightarrow> invar (case get m k of None \<Rightarrow> insert k v m | Some _ \<Rightarrow> m)"
  by (simp add: invar_insert split: option.split)

lemma invar_update:
  "invar m \<Longrightarrow> invar (case get m k of None \<Rightarrow> m | Some v \<Rightarrow> insert k (f v) m)"
  by (simp add: invar_insert split: option.split)

lemma first_le_last:
  assumes "invar m" and "first_key m = Some a" and "last_key m = Some b"
  shows "a \<le> b"
  using assms first_Some last_Some by blast

lemma first_insert:
  assumes "invar m" and "first_key (insert k v m) = Some a"
  shows "a \<le> k" and "\<And>b. first_key m = Some b \<Longrightarrow> a = min k b"
proof -
  have inv: "invar (insert k v m)" using assms(1) by (rule invar_insert)
  note a = first_Some [OF inv assms(2)]
  show "a \<le> k" using a assms(1) by (simp add: get_insert)
  fix b assume b: "first_key m = Some b"
  note b' = first_Some [OF assms(1) b]
  have "a \<le> b" using a b' assms(1) by (auto simp: get_insert)
  moreover have "a = k \<or> b \<le> a" using a b' assms(1) by (auto simp: get_insert split: if_splits)
  ultimately show "a = min k b" using \<open>a \<le> k\<close> by auto
qed

end

lemma bt_ok_Nil [simp]: "bt_ok []"
  by (simp add: bt_ok_def)

lemma bt_ok_Cons: "bt_ok (kv # m) \<longleftrightarrow> bt_ok m \<and> (\<forall>k\<in>fst ` set m. fst kv < k)"
  by (auto simp: bt_ok_def)

lemma bt_ok_distinct: "bt_ok m \<Longrightarrow> distinct (map fst m)"
  by (simp add: bt_ok_def strict_sorted_iff)

lemma bt_get_Nil [simp]: "bt_get [] = Map.empty"
  by (simp add: bt_get_def)

lemma bt_get_Cons: "bt_get (kv # m) = (bt_get m)(fst kv \<mapsto> snd kv)"
  by (simp add: bt_get_def split_def)

lemma bt_get_in_set: "bt_get m k = Some v \<Longrightarrow> (k, v) \<in> set m"
  by (simp add: bt_get_def map_of_SomeD)

lemma bt_get_Some_iff: "bt_ok m \<Longrightarrow> bt_get m k = Some v \<longleftrightarrow> (k, v) \<in> set m"
  by (simp add: bt_get_def bt_ok_distinct)

lemma bt_get_None_iff: "bt_get m k = None \<longleftrightarrow> k \<notin> fst ` set m"
  by (simp add: bt_get_def map_of_eq_None_iff)

lemma keys_bt_insert: "fst ` set (bt_insert k v m) = insert k (fst ` set m)"
  by (induction k v m rule: bt_insert.induct) auto

lemma bt_ok_insert: "bt_ok m \<Longrightarrow> bt_ok (bt_insert k v m)"
proof (induction k v m rule: bt_insert.induct)
  case (1 k v)
  then show ?case by (simp add: bt_ok_Cons)
next
  case (2 k v a b m)
  then show ?case
    by (auto simp: bt_ok_Cons keys_bt_insert)
qed

lemma bt_get_insert: "bt_get (bt_insert k v m) = (bt_get m)(k \<mapsto> v)"
  by (induction k v m rule: bt_insert.induct) (auto simp: bt_get_Cons fun_eq_iff)

lemma bt_get_remove: "bt_get (bt_remove k m) = (bt_get m)(k := None)"
  by (induction m) (auto simp: bt_remove_def bt_get_Cons fun_eq_iff)

lemma bt_ok_filter: "bt_ok m \<Longrightarrow> bt_ok (filter P m)"
  by (induction m) (auto simp: bt_ok_Cons)

lemma bt_ok_remove: "bt_ok m \<Longrightarrow> bt_ok (bt_remove k m)"
  by (simp add: bt_remove_def bt_ok_filter)

lemma bt_first_props:
  assumes "bt_ok m" and "bt_first_key m = Some k"
  shows "bt_get m k \<noteq> None" and "bt_get m k' \<noteq> None \<Longrightarrow> k \<le> k'"
  using assms
  by (auto simp: bt_first_key_def bt_ok_Cons bt_get_Cons bt_get_def map_of_eq_None_iff
        dest!: map_of_SomeD split: list.splits if_splits intro: less_imp_le)

lemma bt_last_props:
  assumes "bt_ok m" and "bt_last_key m = Some k"
  shows "bt_get m k \<noteq> None" and "bt_get m k' \<noteq> None \<Longrightarrow> k' \<le> k"
proof -
  from assms(2) obtain ys v where m: "m = ys @ [(k, v)]"
    by (cases m rule: rev_cases) (auto simp: bt_last_key_def)
  show "bt_get m k \<noteq> None" by (simp add: bt_get_None_iff m)
  from assms(1) have "\<forall>a\<in>fst ` set ys. a < k"
    by (simp add: bt_ok_def m sorted_wrt_append)
  then show "bt_get m k' \<noteq> None \<Longrightarrow> k' \<le> k"
    by (auto simp: bt_get_def m map_add_def dest!: map_of_SomeD split: if_splits option.splits)
qed

interpretation bt: ordered_map bt_get bt_insert bt_remove bt_first_key bt_last_key bt_ok
proof unfold_locales
  fix m :: "('a \<times> 'b) list" and k :: 'a and v :: 'b
  show "bt_get (bt_insert k v m) = (bt_get m)(k \<mapsto> v)" by (rule bt_get_insert)
  show "bt_get (bt_remove k m) = (bt_get m)(k := None)" by (rule bt_get_remove)
  show "bt_first_key m = None \<longleftrightarrow> bt_get m = Map.empty"
    by (auto simp: bt_first_key_def bt_get_Cons split: list.splits)
  show "bt_last_key m = None \<longleftrightarrow> bt_get m = Map.empty"
    by (cases m) (auto simp: bt_last_key_def bt_get_Cons)
  assume ok: "bt_ok m"
  show "bt_ok (bt_insert k v m)" using ok by (rule bt_ok_insert)
  show "bt_ok (bt_remove k m)" using ok by (rule bt_ok_remove)
  { assume "bt_first_key m = Some k"
    with ok show "bt_get m k \<noteq> None \<and> (\<forall>k'. bt_get m k' \<noteq> None \<longrightarrow> k \<le> k')"
      using bt_first_props by blast }
  { assume "bt_last_key m = Some k"
    with ok show "bt_get m k \<noteq> None \<and> (\<forall>k'. bt_get m k' \<noteq> None \<longrightarrow> k' \<le> k)"
      using bt_last_props by blast }
qed

lemma bt_get_or_insert:
  "bt_ok m \<Longrightarrow> bt_get (bt_or_insert k v m) =
    (bt_get m)(k \<mapsto> (case bt_get m k of None \<Rightarrow> v | Some w \<Rightarrow> w))"
  unfolding bt_or_insert_def by (rule bt.get_or_insert)

lemma bt_ok_or_insert: "bt_ok m \<Longrightarrow> bt_ok (bt_or_insert k v m)"
  unfolding bt_or_insert_def by (rule bt.invar_or_insert)

lemma bt_get_update: "bt_ok m \<Longrightarrow> bt_get (bt_update k f m) = (bt_get m)(k := map_option f (bt_get m k))"
  unfolding bt_update_def by (rule bt.get_update)

lemma bt_ok_update: "bt_ok m \<Longrightarrow> bt_ok (bt_update k f m)"
  unfolding bt_update_def by (rule bt.invar_update)

lemma bt_pop_while_eq: "bt_pop_while P m = dropWhile (\<lambda>kv. P (fst kv)) m"
  by (induction P m rule: bt_pop_while.induct) auto

lemma bt_ok_pop_while: "bt_ok m \<Longrightarrow> bt_ok (bt_pop_while P m)"
  by (induction m) (auto simp: bt_ok_Cons)

text \<open>The retention loop removes exactly the keys up to the bound.\<close>

lemma bt_pop_upto_eq_filter:
  "bt_ok m \<Longrightarrow> bt_pop_while (\<lambda>k. k \<le> b) m = filter (\<lambda>kv. b < fst kv) m"
proof (induction m)
  case (Cons kv m)
  show ?case
  proof (cases "fst kv \<le> b")
    case True
    with Cons show ?thesis by (simp add: bt_ok_Cons)
  next
    case False
    then have "\<forall>x\<in>set (kv # m). b < fst x"
      using Cons.prems by (auto simp: bt_ok_Cons not_le intro: less_trans)
    then have "filter (\<lambda>kv. b < fst kv) (kv # m) = kv # m" by simp
    with False show ?thesis by simp
  qed
qed simp

lemma bt_get_filter_key: "bt_get (filter (\<lambda>kv. P (fst kv)) m) k = (if P k then bt_get m k else None)"
  by (induction m) (auto simp: bt_get_Cons)

lemma bt_get_pop_upto:
  "bt_ok m \<Longrightarrow> bt_get (bt_pop_while (\<lambda>k. k \<le> b) m) k = (if b < k then bt_get m k else None)"
  by (simp add: bt_pop_upto_eq_filter bt_get_filter_key)

lemmas bt_oks = bt_ok_insert bt_ok_remove bt_ok_or_insert bt_ok_update bt_ok_pop_while

declare bt_get_insert [map_laws] bt_get_remove [map_laws] bt_get_or_insert [map_laws]
  bt_get_update [map_laws] bt_get_pop_upto [map_laws]

end
