(* ===== verification/Ring.thy ===== *)
theory Ring
  imports Ordered_Map
begin

text \<open>
  The ring buffer that both broadcast channels of the program are built on: a
  power-of-two array of cells, a position counter whose low bits select the cell, and
  the window \<open>head..tail\<close> of positions whose cells hold data. The locale \<open>ring_cell\<close> is
  what a channel's cell type provides (its position, its slot, its data, writing and
  \<open>data.take()\<close>); its lemmas carry the window invariant over the two operations that
  change a ring, and relate them to a bounded log.
\<close>

definition get_idx :: "u64 \<Rightarrow> u64 \<Rightarrow> nat" where
  "get_idx m pos = unat (pos AND m)"

text \<open>Positions are compared as natural numbers. A fresh channel of \<open>N\<close> cells has
  \<open>tail = N\<close> and \<open>head = N + 1\<close>, and its cell 0 has position 0 although the window
  maps position \<open>N\<close> to it.\<close>

definition ring_ok ::
    "('c \<Rightarrow> u64) \<Rightarrow> ('c \<Rightarrow> 'd option) \<Rightarrow> 'c list \<Rightarrow> nat \<Rightarrow> nat \<Rightarrow> bool" where
  "ring_ok pos dat buf h t \<longleftrightarrow>
     0 < length buf \<and> length buf < h \<and> h \<le> Suc t \<and> Suc t \<le> h + length buf \<and> t < 2 ^ 64 \<and>
     (\<forall>p. t < p + length buf \<and> p \<le> t \<longrightarrow>
        unat (pos (buf ! (p mod length buf))) = (if p = length buf then 0 else p) \<and>
        (dat (buf ! (p mod length buf)) \<noteq> None \<longleftrightarrow> h \<le> p))"

text \<open>The log that a ring holds: the cells of the window, oldest first.\<close>

definition ring_cells :: "'c list \<Rightarrow> nat \<Rightarrow> nat \<Rightarrow> 'c list" where
  "ring_cells buf h t = map (\<lambda>p. buf ! (p mod length buf)) [h..<Suc t]"

text \<open>Where the first message of each known slot is.\<close>

definition heads_ok ::
    "('c \<Rightarrow> slot) \<Rightarrow> ('v \<Rightarrow> u64) \<Rightarrow> 'c list \<Rightarrow> nat \<Rightarrow> nat \<Rightarrow> (slot, 'v) btree \<Rightarrow> bool" where
  "heads_ok slot_of head_of buf h t m \<longleftrightarrow>
     (\<forall>s v. bt_get m s = Some v \<longrightarrow>
        h \<le> unat (head_of v) \<and> unat (head_of v) \<le> t \<and>
        slot_of (buf ! (unat (head_of v) mod length buf)) = s)"

text \<open>The slot of the newest evicted message so far (\<open>removed_max_slot\<close>).\<close>

definition note_removed :: "slot option \<Rightarrow> slot \<Rightarrow> slot option" where
  "note_removed r s = Some (case r of Some r' \<Rightarrow> max s r' | None \<Rightarrow> s)"

definition removed_covers :: "slot option \<Rightarrow> slot \<Rightarrow> bool" where
  "removed_covers r s \<longleftrightarrow> (case r of None \<Rightarrow> False | Some r' \<Rightarrow> s \<le> r')"

text \<open>\<open>heads_ok\<close> while an eviction is under way: entries of evicted messages are still in
  the map, and are covered by \<open>removed_max_slot\<close>.\<close>

definition heads_upto ::
    "('c \<Rightarrow> slot) \<Rightarrow> ('v \<Rightarrow> u64) \<Rightarrow> slot option \<Rightarrow> 'c list \<Rightarrow> nat \<Rightarrow> nat \<Rightarrow> (slot, 'v) btree \<Rightarrow> bool" where
  "heads_upto slot_of head_of r buf h t m \<longleftrightarrow>
     (\<forall>s v. bt_get m s = Some v \<longrightarrow> removed_covers r s \<or>
        (h \<le> unat (head_of v) \<and> unat (head_of v) \<le> t \<and>
         slot_of (buf ! (unat (head_of v) mod length buf)) = s))"

lemma get_idx_mod: "m = mask k \<Longrightarrow> get_idx m p = unat p mod 2 ^ k"
  by (simp add: get_idx_def unat_and_mask)

lemma note_removed_covers: "removed_covers (note_removed r s) s"
  by (cases r) (simp_all add: removed_covers_def note_removed_def)

lemma note_removed_mono: "removed_covers r s \<Longrightarrow> removed_covers (note_removed r s') s"
  by (cases r) (auto simp: removed_covers_def note_removed_def max_def)

lemma map_update_same: "f x = f (xs ! i) \<Longrightarrow> map f (xs[i := x]) = map f xs"
  by (metis list_update_id map_update)

lemma mod_window_less:
  fixes p q n :: nat
  assumes "p mod n = q mod n" and "p < q"
  shows "p + n \<le> q"
proof -
  have "n dvd q - p" using assms by (metis less_imp_le mod_eq_dvd_iff_nat)
  then have "n \<le> q - p" using assms(2) by (simp add: dvd_imp_le)
  then show ?thesis using assms(2) by linarith
qed

lemma mod_window_inj:
  fixes p q n :: nat
  assumes "p mod n = q mod n" and "p < q + n" and "q < p + n"
  shows "p = q"
  using assms mod_window_less [of p n q] mod_window_less [of q n p] by linarith

lemma heads_upto_final:
  assumes up: "heads_upto slot_of head_of r buf h t m" and ok: "bt_ok m"
  shows "heads_ok slot_of head_of buf h t
    (case r of None \<Rightarrow> m | Some u \<Rightarrow> bt_pop_while (\<lambda>s. s \<le> u) m)"
proof (cases r)
  case None
  with up show ?thesis by (simp add: heads_ok_def heads_upto_def removed_covers_def)
next
  case (Some u)
  { fix s v assume "bt_get (bt_pop_while (\<lambda>s. s \<le> u) m) s = Some v"
    then have "bt_get m s = Some v" and "\<not> s \<le> u"
      using ok by (auto simp: bt_get_pop_upto split: if_splits)
    then have "h \<le> unat (head_of v) \<and> unat (head_of v) \<le> t \<and>
        slot_of (buf ! (unat (head_of v) mod length buf)) = s"
      using up Some by (auto simp: heads_upto_def removed_covers_def) }
  with Some show ?thesis by (simp add: heads_ok_def)
qed

lemma heads_upto_covers:
  "heads_upto slot_of head_of r buf h t m \<Longrightarrow> (\<And>s. removed_covers r s \<Longrightarrow> removed_covers r' s) \<Longrightarrow>
   heads_upto slot_of head_of r' buf h t m"
  by (auto simp: heads_upto_def)

text \<open>New entries of the slot map point to the cell just written.\<close>

lemma heads_upto_new:
  assumes "heads_upto slot_of head_of r buf h t m"
    and "\<And>s v. bt_get m' s = Some v \<Longrightarrow>
      (\<exists>v0. bt_get m s = Some v0 \<and> head_of v = head_of v0) \<or> (s = sl \<and> unat (head_of v) = t)"
    and "h \<le> t" and "slot_of (buf ! (t mod length buf)) = sl"
  shows "heads_upto slot_of head_of r buf h t m'"
  unfolding heads_upto_def
proof (intro allI impI)
  fix s v assume "bt_get m' s = Some v"
  from assms(2) [OF this]
  show "removed_covers r s \<or> h \<le> unat (head_of v) \<and> unat (head_of v) \<le> t \<and>
      slot_of (buf ! (unat (head_of v) mod length buf)) = s"
  proof
    assume "\<exists>v0. bt_get m s = Some v0 \<and> head_of v = head_of v0"
    then obtain v0 where "bt_get m s = Some v0" and e: "head_of v = head_of v0" by blast
    then show ?thesis using assms(1) unfolding e heads_upto_def by blast
  next
    assume "s = sl \<and> unat (head_of v) = t"
    then show ?thesis using assms(3,4) by simp
  qed
qed

text \<open>The interface of a cell type.\<close>

locale ring_cell =
  fixes pos :: "'c \<Rightarrow> u64"
    and slot_of :: "'c \<Rightarrow> slot"
    and dat :: "'c \<Rightarrow> 'd option"
    and put :: "'x \<Rightarrow> u64 \<Rightarrow> slot \<Rightarrow> 'd \<Rightarrow> 'c \<Rightarrow> 'c"
    and clear :: "'c \<Rightarrow> 'c"
  assumes pos_write: "pos (put x p s d c) = p"
    and slot_write: "slot_of (put x p s d c) = s"
    and dat_write: "dat (put x p s d c) = Some d"
    and pos_clear: "pos (clear c) = pos c"
    and slot_clear: "slot_of (clear c) = slot_of c"
    and dat_clear: "dat (clear c) = None"
begin

lemma ring_cellD:
  assumes "ring_ok pos dat buf h t" and "t < p + length buf" and "p \<le> t"
  shows "dat (buf ! (p mod length buf)) \<noteq> None \<longleftrightarrow> h \<le> p"
    and "unat (pos (buf ! (p mod length buf))) = (if p = length buf then 0 else p)"
  using assms by (auto simp: ring_ok_def)

lemma ring_overwritten:
  assumes ok: "ring_ok pos dat buf h t" and q: "0 < q" "q + length buf \<le> t"
  shows "q < unat (pos (buf ! (q mod length buf)))"
proof -
  let ?n = "length buf" and ?d = "(t - q) div length buf"
  let ?p = "q + ?n * ?d"
  have n: "0 < ?n" using ok by (simp add: ring_ok_def)
  have e: "t - q = ?n * ?d + (t - q) mod ?n" by simp
  have m: "(t - q) mod ?n < ?n" using n by simp
  have "0 < ?d" using q n by (simp add: div_greater_zero_iff)
  then have lt: "?n \<le> ?n * ?d" by simp
  have "?p mod ?n = q mod ?n" by simp
  moreover have "t < ?p + ?n" and "?p \<le> t" using e m q(2) by linarith+
  moreover have "?p \<noteq> ?n" using lt q(1) by linarith
  ultimately have "unat (pos (buf ! (q mod ?n))) = ?p" using ring_cellD(2) [OF ok, of ?p] by simp
  then show ?thesis using lt n by linarith
qed

lemma ring_next_full:
  assumes "ring_ok pos dat buf h t"
  shows "dat (buf ! (Suc t mod length buf)) \<noteq> None \<longleftrightarrow> Suc t = h + length buf"
proof -
  have b: "length buf < h" "h \<le> Suc t" "Suc t \<le> h + length buf" "0 < length buf"
    using assms by (auto simp: ring_ok_def)
  then have m: "Suc t mod length buf = (Suc t - length buf) mod length buf"
    by (simp add: le_mod_geq)
  have "dat (buf ! ((Suc t - length buf) mod length buf)) \<noteq> None \<longleftrightarrow> h \<le> Suc t - length buf"
    using b by (intro ring_cellD(1) [OF assms]) linarith+
  with m b show ?thesis by auto
qed

lemma ring_write:
  assumes ok: "ring_ok pos dat buf h t" and t: "Suc t < 2 ^ 64"
    and h': "h' = (if dat (buf ! (Suc t mod length buf)) = None then h else Suc h)"
    and c: "unat (pos c) = Suc t" "dat c \<noteq> None"
  shows "ring_ok pos dat (buf[Suc t mod length buf := c]) h' (Suc t)"
proof -
  let ?n = "length buf" and ?i = "Suc t mod length buf"
  have b: "?n < h" "h \<le> Suc t" "Suc t \<le> h + ?n" "Suc 0 \<le> ?n"
    using ok by (auto simp: ring_ok_def Suc_le_eq)
  have i: "?i < ?n" using b(4) by (simp only: Suc_le_eq mod_less_divisor)
  have h'': "h' = (if Suc t = h + ?n then Suc h else h)"
    using ring_next_full [OF ok] h' by auto
  { fix p assume p: "Suc t < p + ?n" "p \<le> Suc t"
    have "unat (pos (buf[?i := c] ! (p mod ?n))) = (if p = ?n then 0 else p) \<and>
        (dat (buf[?i := c] ! (p mod ?n)) \<noteq> None \<longleftrightarrow> h' \<le> p)"
    proof (cases "p = Suc t")
      case True
      then show ?thesis using i c b h'' by auto
    next
      case False
      then have "p mod ?n \<noteq> ?i" using p mod_window_inj [of p ?n "Suc t"] by auto
      moreover have "t < p + ?n" "p \<le> t" using p False by auto
      moreover have "h' \<le> p \<longleftrightarrow> h \<le> p" using p h'' by auto
      ultimately show ?thesis using ring_cellD [OF ok, of p] by auto
    qed }
  then show ?thesis using b t h'' by (auto simp: ring_ok_def)
qed

lemma ring_write_cells:
  assumes ok: "ring_ok pos dat buf h t"
    and h': "h' = (if dat (buf ! (Suc t mod length buf)) = None then h else Suc h)"
  shows "ring_cells (buf[Suc t mod length buf := c]) h' (Suc t) =
    drop (h' - h) (ring_cells buf h t) @ [c]"
proof -
  let ?n = "length buf" and ?i = "Suc t mod length buf"
  have b: "?n < h" "h \<le> Suc t" "Suc t \<le> h + ?n" "Suc 0 \<le> ?n"
    using ok by (auto simp: ring_ok_def Suc_le_eq)
  have h'': "h' = (if Suc t = h + ?n then Suc h else h)"
    using ring_next_full [OF ok] h' by auto
  have "map (\<lambda>p. buf[?i := c] ! (p mod ?n)) [h'..<Suc t] = map (\<lambda>p. buf ! (p mod ?n)) [h'..<Suc t]"
  proof (rule map_cong [OF refl])
    fix p assume "p \<in> set [h'..<Suc t]"
    then have "p mod ?n \<noteq> ?i" using b h'' mod_window_inj [of p ?n "Suc t"] by (auto split: if_splits)
    then show "buf[?i := c] ! (p mod ?n) = buf ! (p mod ?n)" by simp
  qed
  moreover have "h + (h' - h) = h'" using h'' by simp
  then have "drop (h' - h) [h..<Suc t] = [h'..<Suc t]" by (simp only: drop_upt)
  moreover have "h' \<le> Suc t" using b h'' by auto
  moreover have "?i < ?n" using b(4) by (simp only: Suc_le_eq mod_less_divisor)
  ultimately show ?thesis
    by (simp only: ring_cells_def drop_map upt_Suc_append [of h' "Suc t"] map_append list.map
        length_list_update nth_list_update_eq)
qed

lemma ring_clear:
  assumes ok: "ring_ok pos dat buf h t" and h: "h \<le> t"
  shows "ring_ok pos dat (buf[h mod length buf := clear (buf ! (h mod length buf))]) (Suc h) t"
proof -
  let ?n = "length buf" and ?i = "h mod length buf"
  have b: "?n < h" "h \<le> Suc t" "Suc t \<le> h + ?n" "Suc 0 \<le> ?n"
    using ok by (auto simp: ring_ok_def Suc_le_eq)
  have i: "?i < ?n" using b(4) by (simp only: Suc_le_eq mod_less_divisor)
  { fix p assume p: "t < p + ?n" "p \<le> t"
    have "unat (pos (buf[?i := clear (buf ! ?i)] ! (p mod ?n))) = (if p = ?n then 0 else p) \<and>
        (dat (buf[?i := clear (buf ! ?i)] ! (p mod ?n)) \<noteq> None \<longleftrightarrow> Suc h \<le> p)"
    proof (cases "p = h")
      case True
      then show ?thesis using i p ring_cellD [OF ok, of p] by (simp add: pos_clear dat_clear)
    next
      case False
      then have "p mod ?n \<noteq> ?i" using p b h mod_window_inj [of p ?n h] by auto
      then show ?thesis using False p ring_cellD [OF ok, of p] by auto
    qed }
  then show ?thesis using ok h by (auto simp: ring_ok_def)
qed

lemma ring_clear_cells:
  assumes ok: "ring_ok pos dat buf h t" and h: "h \<le> t"
  shows "ring_cells (buf[h mod length buf := c]) (Suc h) t = tl (ring_cells buf h t)"
proof -
  let ?n = "length buf" and ?i = "h mod length buf"
  have b: "?n < h" "h \<le> Suc t" "Suc t \<le> h + ?n" "Suc 0 \<le> ?n"
    using ok by (auto simp: ring_ok_def Suc_le_eq)
  have "map (\<lambda>p. buf[?i := c] ! (p mod ?n)) [Suc h..<Suc t] = map (\<lambda>p. buf ! (p mod ?n)) [Suc h..<Suc t]"
  proof (rule map_cong [OF refl])
    fix p assume "p \<in> set [Suc h..<Suc t]"
    then have "p mod ?n \<noteq> ?i" using b mod_window_inj [of p ?n h] by auto
    then show "buf[?i := c] ! (p mod ?n) = buf ! (p mod ?n)" by simp
  qed
  moreover have "[h..<Suc t] = h # [Suc h..<Suc t]" using h by (simp add: upt_rec)
  ultimately show ?thesis by (simp add: ring_cells_def)
qed

text \<open>Slot heads across a write and a removal.\<close>

lemma heads_write:
  assumes ok: "ring_ok pos dat buf h t" and hd: "heads_ok slot_of head_of buf h t m"
    and h': "h' = (if dat (buf ! (Suc t mod length buf)) = None then h else Suc h)"
    and r: "r = (if dat (buf ! (Suc t mod length buf)) = None then None
                 else Some (slot_of (buf ! (Suc t mod length buf))))"
  shows "heads_upto slot_of head_of r (buf[Suc t mod length buf := c]) h' (Suc t) m"
proof -
  let ?n = "length buf" and ?i = "Suc t mod length buf"
  have b: "?n < h" "h \<le> Suc t" "Suc t \<le> h + ?n" "Suc 0 \<le> ?n"
    using ok by (auto simp: ring_ok_def Suc_le_eq)
  have full: "dat (buf ! ?i) \<noteq> None \<longleftrightarrow> Suc t = h + ?n" by (rule ring_next_full [OF ok])
  { fix s v assume sv: "bt_get m s = Some v"
    let ?q = "unat (head_of v)"
    have q: "h \<le> ?q" "?q \<le> t" "slot_of (buf ! (?q mod ?n)) = s"
      using hd sv by (auto simp: heads_ok_def)
    have "removed_covers r s \<or> (h' \<le> ?q \<and> ?q \<le> Suc t \<and> slot_of (buf[?i := c] ! (?q mod ?n)) = s)"
    proof (cases "?q mod ?n = ?i")
      case True
      then have "?q + ?n \<le> Suc t" using q mod_window_less [of ?q ?n "Suc t"] by simp
      then have e: "Suc t = h + ?n" using q b by linarith
      with full q True have "removed_covers r s" by (simp add: r removed_covers_def)
      then show ?thesis by simp
    next
      case False
      then have "h' \<le> ?q" using q h' full by (cases "?q = h") (auto split: if_splits)
      with False q show ?thesis by simp
    qed }
  then show ?thesis by (simp add: heads_upto_def)
qed

lemma heads_clear:
  assumes hd: "heads_upto slot_of head_of r buf h t m" and h: "h \<le> t"
    and r': "r' = note_removed r (slot_of (buf ! (h mod length buf)))"
  shows "heads_upto slot_of head_of r' (buf[h mod length buf := clear (buf ! (h mod length buf))]) (Suc h) t m"
proof -
  let ?n = "length buf" and ?i = "h mod length buf"
  { fix s v assume sv: "bt_get m s = Some v"
    let ?q = "unat (head_of v)"
    have "removed_covers r' s \<or> (Suc h \<le> ?q \<and> ?q \<le> t \<and>
        slot_of (buf[?i := clear (buf ! ?i)] ! (?q mod ?n)) = s)"
    proof (cases "removed_covers r s")
      case True
      then show ?thesis by (simp add: r' note_removed_mono)
    next
      case False
      with hd sv have q: "h \<le> ?q" "?q \<le> t" "slot_of (buf ! (?q mod ?n)) = s"
        by (auto simp: heads_upto_def)
      show ?thesis
      proof (cases "?q = h")
        case True
        with q show ?thesis by (simp add: r' note_removed_covers)
      next
        case ne: False
        with q show ?thesis
          by (cases "?i < ?n") (auto simp: slot_clear nth_list_update list_update_beyond)
      qed
    qed }
  then show ?thesis by (simp add: heads_upto_def)
qed

end

end
