(* ===== verification/Prost_Wire.thy ===== *)
theory Prost_Wire
  imports Prelude
begin

text \<open>
  The interface of the third-party crates \<open>prost\<close> and \<open>prost-types\<close>, which the
  encoders and decoders of the program call and whose code is not part of the
  repository. Every definition that uses it takes a value of the record \<open>prost\<close>;
  the documented behaviour it relies on is the locale \<open>prost_codec\<close>: a field is its
  key followed by its value, \<open>encoded_len\<close> is the number of bytes written, decoding
  an encoded value returns it and the remaining input, and a decoder consumes a
  prefix of its input. \<open>prost_ref\<close> is the wire format of the Protocol Buffers
  specification (base-128 varints) and interprets the locale.
\<close>

datatype wire_type =
  Varint | SixtyFourBit | LengthDelimited | StartGroup | EndGroup | ThirtyTwoBit

text \<open>\<open>prost::DecodeError\<close>: a description and the stack of (message, field) pairs
  pushed while the error is propagated.\<close>

datatype decode_error = DecodeError string "(string \<times> string) list"

fun error_push :: "string \<Rightarrow> string \<Rightarrow> decode_error \<Rightarrow> decode_error" where
  "error_push m f (DecodeError d st) = DecodeError d (st @ [(m, f)])"

text \<open>A value that implements \<open>prost::Message\<close>: what its two encoding methods return.\<close>

record message_obj =
  mo_len :: nat
  mo_raw :: bytes

definition message_ok :: "message_obj \<Rightarrow> bool" where
  "message_ok m \<longleftrightarrow> mo_len m = length (mo_raw m)"

record timestamp =
  ts_seconds :: i64
  ts_nanos :: i32

definition timestamp_default :: timestamp where
  "timestamp_default = \<lparr>ts_seconds = 0, ts_nanos = 0\<rparr>"

record prost =
  encode_varint :: "u64 \<Rightarrow> bytes"
  encoded_len_varint :: "u64 \<Rightarrow> nat"
  decode_varint :: "bytes \<Rightarrow> decode_error + (u64 \<times> bytes)"
  encode_key :: "u32 \<Rightarrow> wire_type \<Rightarrow> bytes"
  key_len :: "u32 \<Rightarrow> nat"
  decode_key :: "bytes \<Rightarrow> decode_error + ((u32 \<times> wire_type) \<times> bytes)"
  check_wire_type :: "wire_type \<Rightarrow> wire_type \<Rightarrow> decode_error + unit"
  skip_field :: "wire_type \<Rightarrow> u32 \<Rightarrow> bytes \<Rightarrow> decode_error + bytes"
  uint64_encode :: "u32 \<Rightarrow> u64 \<Rightarrow> bytes"
  uint64_encoded_len :: "u32 \<Rightarrow> u64 \<Rightarrow> nat"
  uint64_merge :: "wire_type \<Rightarrow> bytes \<Rightarrow> decode_error + (u64 \<times> bytes)"
  uint32_encode :: "u32 \<Rightarrow> u32 \<Rightarrow> bytes"
  uint32_encoded_len :: "u32 \<Rightarrow> u32 \<Rightarrow> nat"
  int64_encode :: "u32 \<Rightarrow> i64 \<Rightarrow> bytes"
  int64_encoded_len :: "u32 \<Rightarrow> i64 \<Rightarrow> nat"
  int32_encode :: "u32 \<Rightarrow> i32 \<Rightarrow> bytes"
  int32_encoded_len :: "u32 \<Rightarrow> i32 \<Rightarrow> nat"
  int32_merge :: "wire_type \<Rightarrow> bytes \<Rightarrow> decode_error + (i32 \<times> bytes)"
  bool_encode :: "u32 \<Rightarrow> bool \<Rightarrow> bytes"
  bool_encoded_len :: "u32 \<Rightarrow> bool \<Rightarrow> nat"
  bool_merge :: "wire_type \<Rightarrow> bytes \<Rightarrow> decode_error + (bool \<times> bytes)"
  string_encode :: "u32 \<Rightarrow> bytes \<Rightarrow> bytes"
  string_encoded_len :: "u32 \<Rightarrow> bytes \<Rightarrow> nat"
  message_encode :: "u32 \<Rightarrow> message_obj \<Rightarrow> bytes"
  message_encoded_len :: "u32 \<Rightarrow> message_obj \<Rightarrow> nat"
  message_encode_repeated :: "u32 \<Rightarrow> message_obj list \<Rightarrow> bytes"
  message_encoded_len_repeated :: "u32 \<Rightarrow> message_obj list \<Rightarrow> nat"
  timestamp_msg :: "timestamp \<Rightarrow> message_obj"
  timestamp_merge :: "wire_type \<Rightarrow> timestamp \<Rightarrow> bytes \<Rightarrow> decode_error + (timestamp \<times> bytes)"
  string_encode_repeated :: "u32 \<Rightarrow> bytes list \<Rightarrow> bytes"
  string_encoded_len_repeated :: "u32 \<Rightarrow> bytes list \<Rightarrow> nat"
  uint64_encode_packed :: "u32 \<Rightarrow> u64 list \<Rightarrow> bytes"
  uint64_encoded_len_packed :: "u32 \<Rightarrow> u64 list \<Rightarrow> nat"
  double_encode :: "u32 \<Rightarrow> u64 \<Rightarrow> bytes"
  double_encoded_len :: "u32 \<Rightarrow> u64 \<Rightarrow> nat"
  pbytes_encode :: "u32 \<Rightarrow> bytes \<Rightarrow> bytes"
  pbytes_encoded_len :: "u32 \<Rightarrow> bytes \<Rightarrow> nat"

text \<open>Field numbers that the wire format can carry.\<close>

definition valid_tag :: "u32 \<Rightarrow> bool" where
  "valid_tag t \<longleftrightarrow> 1 \<le> unat t \<and> unat t < 2 ^ 29"

lemma message_ok_mk [simp]: "message_ok \<lparr>mo_len = n, mo_raw = d\<rparr> \<longleftrightarrow> n = length d"
  by (simp add: message_ok_def)

lemma ucast_scast_i32: "ucast (scast (x :: i32) :: u64) = x"
proof (rule bit_word_eqI)
  fix n assume "n < LENGTH(32)"
  then have "min 31 n = n" by simp
  with \<open>n < LENGTH(32)\<close> show "bit (ucast (scast x :: u64) :: i32) n = bit x n"
    by (simp add: bit_unsigned_iff bit_signed_iff)
qed

locale prost_codec =
  fixes P :: "prost"
  assumes varint_len: "encoded_len_varint P v = length (encode_varint P v)"
    and varint_decode: "decode_varint P (encode_varint P v @ r) = Inr (v, r)"
    and varint_prefix: "decode_varint P b = Inr (v, r) \<Longrightarrow> \<exists>p. p \<noteq> [] \<and> b = p @ r"
    and key_length: "key_len P t = length (encode_key P t w)"
    and key_decode: "valid_tag t \<Longrightarrow> decode_key P (encode_key P t w @ r) = Inr ((t, w), r)"
    and key_prefix: "decode_key P b = Inr (k, r) \<Longrightarrow> \<exists>p. p \<noteq> [] \<and> b = p @ r"
    and wire_type_same: "check_wire_type P w w = Inr ()"
    and wire_type_diff: "w \<noteq> w' \<Longrightarrow> \<exists>e. check_wire_type P w w' = Inl e"
    and skip_varint: "skip_field P Varint t (encode_varint P v @ r) = Inr r"
    and skip_bytes: "length d = unat n \<Longrightarrow>
          skip_field P LengthDelimited t (encode_varint P n @ d @ r) = Inr r"
    and skip_prefix: "skip_field P w t b = Inr r \<Longrightarrow> \<exists>p. b = p @ r"
    and uint64_field: "uint64_encode P t v = encode_key P t Varint @ encode_varint P v"
    and uint64_len: "uint64_encoded_len P t v = key_len P t + encoded_len_varint P v"
    and uint64_read: "uint64_merge P Varint b = decode_varint P b"
    and uint64_type: "w \<noteq> Varint \<Longrightarrow> \<exists>e. uint64_merge P w b = Inl e"
    and uint32_field: "uint32_encode P t x = encode_key P t Varint @ encode_varint P (ucast x)"
    and uint32_len: "uint32_encoded_len P t x = key_len P t + encoded_len_varint P (ucast x)"
    and int64_field: "int64_encode P t v = encode_key P t Varint @ encode_varint P v"
    and int64_len: "int64_encoded_len P t v = key_len P t + encoded_len_varint P v"
    and int32_field: "int32_encode P t x = encode_key P t Varint @ encode_varint P (scast x)"
    and int32_len: "int32_encoded_len P t x = key_len P t + encoded_len_varint P (scast x)"
    and int32_read: "int32_merge P Varint b = map_ok (\<lambda>(v, r). (ucast v, r)) (decode_varint P b)"
    and int32_type: "w \<noteq> Varint \<Longrightarrow> \<exists>e. int32_merge P w b = Inl e"
    and bool_field: "bool_encode P t c = encode_key P t Varint @ encode_varint P (if c then 1 else 0)"
    and bool_len: "bool_encoded_len P t c = key_len P t + encoded_len_varint P (if c then 1 else 0)"
    and bool_read: "bool_merge P Varint b = map_ok (\<lambda>(v, r). (v \<noteq> 0, r)) (decode_varint P b)"
    and bool_type: "w \<noteq> Varint \<Longrightarrow> \<exists>e. bool_merge P w b = Inl e"
    and string_field: "string_encode P t s =
          encode_key P t LengthDelimited @ encode_varint P (of_nat (length s)) @ s"
    and string_len: "string_encoded_len P t s =
          key_len P t + encoded_len_varint P (of_nat (length s)) + length s"
    and message_field: "message_encode P t m =
          encode_key P t LengthDelimited @ encode_varint P (of_nat (mo_len m)) @ mo_raw m"
    and message_len: "message_encoded_len P t m =
          key_len P t + encoded_len_varint P (of_nat (mo_len m)) + mo_len m"
    and repeated_field: "message_encode_repeated P t ms = concat (map (message_encode P t) ms)"
    and repeated_len: "message_encoded_len_repeated P t ms = key_len P t * length ms +
          sum_list (map (\<lambda>m. mo_len m + encoded_len_varint P (of_nat (mo_len m))) ms)"
    and timestamp_ok: "message_ok (timestamp_msg P ts)"
    and timestamp_small: "mo_len (timestamp_msg P ts) < 2 ^ 64"
    and timestamp_read: "timestamp_merge P LengthDelimited timestamp_default
          (encode_varint P (of_nat (mo_len (timestamp_msg P ts))) @ mo_raw (timestamp_msg P ts) @ r) =
          Inr (ts, r)"
    and timestamp_prefix: "timestamp_merge P w old b = Inr (ts, r) \<Longrightarrow> \<exists>p. b = p @ r"
    and strings_field: "string_encode_repeated P t ss = concat (map (string_encode P t) ss)"
    and strings_len: "string_encoded_len_repeated P t ss = key_len P t * length ss +
          sum_list (map (\<lambda>s. encoded_len_varint P (of_nat (length s)) + length s) ss)"
    and packed_field: "uint64_encode_packed P t vs = (if vs = [] then [] else
          encode_key P t LengthDelimited @
          encode_varint P (of_nat (sum_list (map (encoded_len_varint P) vs))) @
          concat (map (encode_varint P) vs))"
    and packed_len: "uint64_encoded_len_packed P t vs = (if vs = [] then 0 else
          key_len P t + encoded_len_varint P (of_nat (sum_list (map (encoded_len_varint P) vs))) +
          sum_list (map (encoded_len_varint P) vs))"
    and double_field: "\<exists>d8. length d8 = 8 \<and> double_encode P t v = encode_key P t SixtyFourBit @ d8"
    and double_len: "double_encoded_len P t v = key_len P t + 8"
    and pbytes_field: "pbytes_encode P t d =
          encode_key P t LengthDelimited @ encode_varint P (of_nat (length d)) @ d"
    and pbytes_len: "pbytes_encoded_len P t d =
          key_len P t + encoded_len_varint P (of_nat (length d)) + length d"
begin

text \<open>Every field writer writes as many bytes as its length function announces.\<close>

lemma uint64_wire [wire_len]: "length (uint64_encode P t v) = uint64_encoded_len P t v"
  by (simp add: uint64_field uint64_len varint_len key_length [of t Varint])

lemma uint32_wire [wire_len]: "length (uint32_encode P t x) = uint32_encoded_len P t x"
  by (simp add: uint32_field uint32_len varint_len key_length [of t Varint])

lemma int64_wire [wire_len]: "length (int64_encode P t v) = int64_encoded_len P t v"
  by (simp add: int64_field int64_len varint_len key_length [of t Varint])

lemma int32_wire [wire_len]: "length (int32_encode P t x) = int32_encoded_len P t x"
  by (simp add: int32_field int32_len varint_len key_length [of t Varint])

lemma bool_wire [wire_len]: "length (bool_encode P t c) = bool_encoded_len P t c"
  by (simp add: bool_field bool_len varint_len key_length [of t Varint])

lemma string_wire [wire_len]: "length (string_encode P t s) = string_encoded_len P t s"
  by (simp add: string_field string_len varint_len key_length [of t LengthDelimited])

lemma pbytes_wire [wire_len]: "length (pbytes_encode P t d) = pbytes_encoded_len P t d"
  by (simp add: pbytes_field pbytes_len varint_len key_length [of t LengthDelimited])

lemma message_wire [wire_len]:
  "message_ok m \<Longrightarrow> length (message_encode P t m) = message_encoded_len P t m"
  by (simp add: message_field message_len varint_len key_length [of t LengthDelimited] message_ok_def)

lemma repeated_wire [wire_len]:
  assumes "\<forall>m\<in>set ms. message_ok m"
  shows "length (message_encode_repeated P t ms) = message_encoded_len_repeated P t ms"
  using assms
  by (induction ms)
    (simp_all add: repeated_field repeated_len message_wire message_len algebra_simps)

lemma strings_wire [wire_len]:
  "length (string_encode_repeated P t ss) = string_encoded_len_repeated P t ss"
  by (induction ss) (simp_all add: strings_field strings_len string_wire string_len)

lemma packed_wire [wire_len]:
  "length (uint64_encode_packed P t vs) = uint64_encoded_len_packed P t vs"
proof -
  have "encoded_len_varint P = (\<lambda>v. length (encode_varint P v))"
    by (simp add: varint_len fun_eq_iff)
  then show ?thesis
    by (simp add: packed_field packed_len key_length [of t LengthDelimited] length_concat comp_def)
qed

lemma double_wire [wire_len]: "length (double_encode P t x) = double_encoded_len P t x"
  using double_field [of t x] by (auto simp: double_len key_length [of t SixtyFourBit])

text \<open>Reading back a scalar that was written.\<close>

lemma uint64_back [wire_dec]: "uint64_merge P Varint (encode_varint P v @ r) = Inr (v, r)"
  by (simp add: uint64_read varint_decode)

lemma int32_back [wire_dec]: "int32_merge P Varint (encode_varint P (scast x) @ r) = Inr (x, r)"
  by (simp add: int32_read varint_decode ucast_scast_i32)

lemma bool_back [wire_dec]:
  "bool_merge P Varint (encode_varint P (if c then 1 else 0) @ r) = Inr (c, r)"
  by (simp add: bool_read varint_decode)

text \<open>Readers consume a prefix, so what remains is never longer than the input.\<close>

lemma varint_shorter: "decode_varint P b = Inr (v, r) \<Longrightarrow> length r < length b"
  using varint_prefix by fastforce

lemma key_shorter: "decode_key P b = Inr (k, r) \<Longrightarrow> length r < length b"
  using key_prefix by fastforce

lemma skip_shorter: "skip_field P w t b = Inr r \<Longrightarrow> length r \<le> length b"
  using skip_prefix by fastforce

lemma uint64_shorter: "uint64_merge P w b = Inr (v, r) \<Longrightarrow> length r < length b"
  by (metis Inr_not_Inl uint64_read uint64_type varint_shorter)

lemma int32_shorter: "int32_merge P w b = Inr (x, r) \<Longrightarrow> length r < length b"
proof -
  assume a: "int32_merge P w b = Inr (x, r)"
  then have "w = Varint" using int32_type by (metis Inr_not_Inl)
  with a obtain v where "decode_varint P b = Inr (v, r)"
    by (auto simp: int32_read map_ok_Inr_iff)
  then show ?thesis by (rule varint_shorter)
qed

lemma bool_shorter: "bool_merge P w b = Inr (c, r) \<Longrightarrow> length r < length b"
proof -
  assume a: "bool_merge P w b = Inr (c, r)"
  then have "w = Varint" using bool_type by (metis Inr_not_Inl)
  with a obtain v where "decode_varint P b = Inr (v, r)"
    by (auto simp: bool_read map_ok_Inr_iff)
  then show ?thesis by (rule varint_shorter)
qed

lemma timestamp_shorter: "timestamp_merge P w old b = Inr (ts, r) \<Longrightarrow> length r \<le> length b"
  using timestamp_prefix by fastforce

lemma check_ok_iff: "check_wire_type P w w' = Inr u \<longleftrightarrow> w = w'"
  by (metis (full_types) Inr_not_Inl old.unit.exhaust wire_type_diff wire_type_same)

end

text \<open>A varint carries seven bits per byte.\<close>

locale prost_varint = prost_codec +
  assumes varint_bits: "0 < k \<Longrightarrow> length (encode_varint P v) \<le> k \<longleftrightarrow> unat v < 128 ^ k"
begin

lemma varint_nonempty: "0 < length (encode_varint P v)"
  using varint_prefix [of "encode_varint P v" v "[]"] varint_decode [of v "[]"] by auto

lemma varint_max: "length (encode_varint P v) \<le> 10"
proof -
  have "unat v < 2 ^ 64" using unsigned_less [of v] by simp
  also have "(2 :: nat) ^ 64 \<le> 128 ^ 10" by simp
  finally show ?thesis by (simp add: varint_bits)
qed

lemma varint_growth:
  assumes "unat v \<le> unat u + 9"
  shows "length (encode_varint P v) \<le> length (encode_varint P u) + 1"
proof -
  let ?k = "length (encode_varint P u)"
  have u: "unat u < 128 ^ ?k" using varint_bits [of ?k u] varint_nonempty [of u] by simp
  have "(128 :: nat) \<le> 128 ^ ?k" using varint_nonempty [of u] self_le_power [of 128 ?k] by simp
  with u assms have "unat v < 128 ^ ?k * 128" by linarith
  then show ?thesis using varint_bits [of "?k + 1" v] by simp
qed

end

end
