(* ===== verification/Plugin_Encoding.thy ===== *)
theory Plugin_Encoding
  imports Prost_Wire
begin

text \<open>
  The hand-written Protobuf encoders of the Geyser plugin
  (\<open>plugin-agave/src/protobuf/encoding/\<close>), less transactions, which have their own
  theory. Each \<open>impl Message for X\<close> is a pair of definitions \<open>X_encode_raw\<close> and
  \<open>X_encoded_len\<close> and the object \<open>X_msg\<close> that bundles them for
  \<open>prost::encoding::message::encode\<close>. A \<open>String\<close> or \<open>&str\<close> is its UTF-8 bytes. The
  replica structs of the validator's plugin interface are records with the fields the
  encoders read. Serializers of other crates (\<open>wincode\<close>, \<open>bincode\<close>) and the
  generated messages built by \<open>richat_proto::convert_to\<close> are fields of \<open>plugin_env\<close>.
  The lemmas show that every encoder writes exactly the number of bytes its length
  function announces.
\<close>

datatype slot_status =
  SS_Processed | SS_Rooted | SS_Confirmed | SS_FirstShredReceived | SS_Completed
  | SS_CreatedBank | SS_Dead bytes

datatype reward_type = RT_Fee | RT_Rent | RT_Staking | RT_Voting | RT_DeactivatedStake | RT_VATDebit

record reward =
  rw_pubkey :: bytes
  rw_lamports :: i64
  rw_post_balance :: u64
  rw_reward_type :: "reward_type option"
  rw_commission :: "u8 option"
  rw_commission_bps :: "u16 option"

record replica_account =
  ra_pubkey :: bytes
  ra_lamports :: u64
  ra_owner :: bytes
  ra_executable :: bool
  ra_rent_epoch :: u64
  ra_data :: bytes
  ra_write_version :: u64
  ra_txn :: "bytes option"

record replica_entry =
  re_slot :: slot
  re_index :: u64
  re_num_hashes :: u64
  re_hash :: bytes
  re_executed_transaction_count :: u64
  re_starting_transaction_index :: u64

record rewards_partitions =
  rp_rewards :: "reward list"
  rp_num_partitions :: "u64 option"

record replica_block =
  rb_parent_slot :: slot
  rb_parent_blockhash :: bytes
  rb_slot :: slot
  rb_blockhash :: bytes
  rb_rewards :: rewards_partitions
  rb_block_time :: "i64 option"
  rb_block_height :: "u64 option"
  rb_executed_transaction_count :: u64
  rb_entry_count :: u64

record replica_entry_update_parent =
  eu_slot :: slot
  eu_cleared_bank_id :: bank_id
  eu_parent_slot :: slot
  eu_parent_block_id :: bytes

record replica_deshred_update_parent =
  du_slot :: slot
  du_update_parent_fec_set_index :: u32
  du_parent_slot :: slot
  du_parent_block_id :: bytes

text \<open>\<open>solana_entry::block_component::VersionedBlockFooter\<close>, whose only variant is \<open>V1\<close>.\<close>

record block_footer_v1 =
  bf_bank_hash :: bytes
  bf_block_producer_time_nanos :: u64
  bf_block_user_agent :: bytes

datatype versioned_block_footer = FooterV1 block_footer_v1

record block_footer_view =
  bv_version :: u32
  bv_bank_hash :: bytes
  bv_block_producer_time_nanos :: u64
  bv_block_user_agent :: bytes
  bv_footer :: bytes

text \<open>A socket address is given by the pieces its \<open>Display\<close> implementation writes.\<close>

type_synonym socket_addr = "bytes list"

record replica_contact_info =
  ci_pubkey :: bytes
  ci_wallclock :: u64
  ci_outset :: u64
  ci_shred_version :: u16
  ci_version_major :: u16
  ci_version_minor :: u16
  ci_version_patch :: u16
  ci_version_commit :: u32
  ci_version_feature_set :: u32
  ci_version_client_id :: u16
  ci_gossip :: "socket_addr option"
  ci_tpu_quic :: "socket_addr option"
  ci_tpu_forwards_quic :: "socket_addr option"
  ci_tpu_vote_udp :: "socket_addr option"
  ci_tpu_vote_quic :: "socket_addr option"
  ci_tvu_udp :: "socket_addr option"
  ci_tvu_quic :: "socket_addr option"
  ci_serve_repair_udp :: "socket_addr option"
  ci_serve_repair_quic :: "socket_addr option"
  ci_rpc :: "socket_addr option"
  ci_rpc_pubsub :: "socket_addr option"
  ci_alpenglow :: "socket_addr option"

text \<open>What other crates contribute; \<open>None\<close> from \<open>wincode\<close> is its error result.\<close>

record 'e plugin_env =
  unix_timestamp_msg :: "i64 \<Rightarrow> message_obj"
  block_height_msg :: "u64 \<Rightarrow> message_obj"
  num_partitions_msg :: "u64 \<Rightarrow> message_obj"
  wincode_serialize :: "versioned_block_footer \<Rightarrow> bytes option"
  bincode_tx_error :: "'e \<Rightarrow> bytes"

text \<open>The generated messages keep the contract of \<open>prost::Message\<close>.\<close>

definition plugin_env_ok :: "'e plugin_env \<Rightarrow> bool" where
  "plugin_env_ok E \<longleftrightarrow> (\<forall>x. message_ok (unix_timestamp_msg E x)) \<and>
     (\<forall>x. message_ok (block_height_msg E x)) \<and> (\<forall>x. message_ok (num_partitions_msg E x))"

subsection \<open>\<open>encoding/mod.rs\<close>\<close>

definition bytes_encode :: "prost \<Rightarrow> u32 \<Rightarrow> bytes \<Rightarrow> bytes" where
  "bytes_encode P tag value =
     encode_key P tag LengthDelimited @ encode_varint P (of_nat (length value)) @ value"

definition bytes_encoded_len :: "prost \<Rightarrow> u32 \<Rightarrow> bytes \<Rightarrow> nat" where
  "bytes_encoded_len P tag value =
     key_len P tag + encoded_len_varint P (of_nat (length value)) + length value"

definition ascii :: "string \<Rightarrow> bytes" where
  "ascii s = map of_char s"

text \<open>\<open>NUM_STRINGS\<close>: the decimal strings of 0 to 255, as the table lists them in rows
  that share their leading digits.\<close>

definition NUM_STRINGS :: "bytes list" where
  "NUM_STRINGS =
     map ascii (concat (map (\<lambda>p. map (\<lambda>d. p @ d)
       [''0'', ''1'', ''2'', ''3'', ''4'', ''5'', ''6'', ''7'', ''8'', ''9''])
      ['''', ''1'', ''2'', ''3'', ''4'', ''5'', ''6'', ''7'', ''8'', ''9'',
       ''10'', ''11'', ''12'', ''13'', ''14'', ''15'', ''16'', ''17'', ''18'', ''19'',
       ''20'', ''21'', ''22'', ''23'', ''24''])
      @ [''250'', ''251'', ''252'', ''253'', ''254'', ''255''])"

definition u8_to_static_str :: "u8 \<Rightarrow> bytes" where
  "u8_to_static_str num = NUM_STRINGS ! unat num"

definition U16_MAX_DIGITS :: nat where
  "U16_MAX_DIGITS = 5"

text \<open>The digit loop fills the buffer from the end; \<open>None\<close> is the panic of
  \<open>index -= 1\<close> below zero.\<close>

function u16_to_str_loop :: "nat \<Rightarrow> u16 \<Rightarrow> bytes \<Rightarrow> bytes option" where
  "u16_to_str_loop index num out =
     (if index = 0 then None
      else let out' = (48 + ucast (num mod 10)) # out; num' = num div 10
           in if num' = 0 then Some out' else u16_to_str_loop (index - 1) num' out')"
  by pat_completeness auto
termination
  by (relation "measure (\<lambda>(index, num, out). index)") auto

declare u16_to_str_loop.simps [simp del]

definition u16_to_str :: "u16 \<Rightarrow> bytes option" where
  "u16_to_str num = u16_to_str_loop U16_MAX_DIGITS num []"

fun reward_type_as_i32 :: "reward_type option \<Rightarrow> i32" where
  "reward_type_as_i32 None = 0"
| "reward_type_as_i32 (Some RT_Fee) = 1"
| "reward_type_as_i32 (Some RT_Rent) = 2"
| "reward_type_as_i32 (Some RT_Staking) = 3"
| "reward_type_as_i32 (Some RT_Voting) = 4"
| "reward_type_as_i32 (Some RT_DeactivatedStake) = 5"
| "reward_type_as_i32 (Some RT_VATDebit) = 6"

text \<open>A \<open>u16\<close> has at most five digits (\<open>u16_to_str_total\<close>), so the panic branch of
  \<open>u16_to_str\<close> is not reachable and the encoders use its value.\<close>

definition bps_str :: "u16 \<Rightarrow> bytes" where
  "bps_str c = (case u16_to_str c of Some s \<Rightarrow> s | None \<Rightarrow> [])"

definition reward_encode_raw :: "prost \<Rightarrow> reward \<Rightarrow> bytes" where
  "reward_encode_raw P r =
     (if rw_pubkey r \<noteq> [] then string_encode P 1 (rw_pubkey r) else []) @
     (if rw_lamports r \<noteq> 0 then int64_encode P 2 (rw_lamports r) else []) @
     (if rw_post_balance r \<noteq> 0 then uint64_encode P 3 (rw_post_balance r) else []) @
     (if rw_reward_type r \<noteq> None then int32_encode P 4 (reward_type_as_i32 (rw_reward_type r)) else []) @
     enc_opt (\<lambda>c. bytes_encode P 5 (u8_to_static_str c)) (rw_commission r) @
     enc_opt (\<lambda>c. bytes_encode P 6 (bps_str c)) (rw_commission_bps r)"

definition reward_encoded_len :: "prost \<Rightarrow> reward \<Rightarrow> nat" where
  "reward_encoded_len P r =
     (if rw_pubkey r \<noteq> [] then string_encoded_len P 1 (rw_pubkey r) else 0) +
     (if rw_lamports r \<noteq> 0 then int64_encoded_len P 2 (rw_lamports r) else 0) +
     (if rw_post_balance r \<noteq> 0 then uint64_encoded_len P 3 (rw_post_balance r) else 0) +
     (if rw_reward_type r \<noteq> None then int32_encoded_len P 4 (reward_type_as_i32 (rw_reward_type r)) else 0) +
     len_opt (\<lambda>c. bytes_encoded_len P 5 (u8_to_static_str c)) (rw_commission r) +
     len_opt (\<lambda>c. bytes_encoded_len P 6 (bps_str c)) (rw_commission_bps r)"

definition reward_msg :: "prost \<Rightarrow> reward \<Rightarrow> message_obj" where
  "reward_msg P r = \<lparr>mo_len = reward_encoded_len P r, mo_raw = reward_encode_raw P r\<rparr>"

subsection \<open>\<open>encoding/slot.rs\<close>\<close>

fun slot_status_as_i32 :: "slot_status \<Rightarrow> i32" where
  "slot_status_as_i32 SS_Processed = 0"
| "slot_status_as_i32 SS_Rooted = 2"
| "slot_status_as_i32 SS_Confirmed = 1"
| "slot_status_as_i32 SS_FirstShredReceived = 3"
| "slot_status_as_i32 SS_Completed = 4"
| "slot_status_as_i32 SS_CreatedBank = 5"
| "slot_status_as_i32 (SS_Dead e) = 6"

fun slot_status_as_dead_error :: "slot_status \<Rightarrow> bytes option" where
  "slot_status_as_dead_error (SS_Dead dead) = Some dead"
| "slot_status_as_dead_error _ = None"

text \<open>\<open>CommitmentLevel::default() as i32\<close> is 0 (\<open>PROCESSED\<close>).\<close>

definition slot_encode_raw ::
    "prost \<Rightarrow> slot \<Rightarrow> u64 option \<Rightarrow> slot_status \<Rightarrow> bank_id option \<Rightarrow> bytes" where
  "slot_encode_raw P sl parent st bank =
     (let status = slot_status_as_i32 st; dead_error = slot_status_as_dead_error st in
      (if sl \<noteq> 0 then uint64_encode P 1 sl else []) @
      enc_opt (uint64_encode P 2) parent @
      (if status \<noteq> 0 then int32_encode P 3 status else []) @
      enc_opt (string_encode P 4) dead_error @
      enc_opt (uint64_encode P 5) bank)"

definition slot_encoded_len ::
    "prost \<Rightarrow> slot \<Rightarrow> u64 option \<Rightarrow> slot_status \<Rightarrow> bank_id option \<Rightarrow> nat" where
  "slot_encoded_len P sl parent st bank =
     (let status = slot_status_as_i32 st; dead_error = slot_status_as_dead_error st in
      (if sl \<noteq> 0 then uint64_encoded_len P 1 sl else 0) +
      len_opt (uint64_encoded_len P 2) parent +
      (if status \<noteq> 0 then int32_encoded_len P 3 status else 0) +
      len_opt (string_encoded_len P 4) dead_error +
      len_opt (uint64_encoded_len P 5) bank)"

definition slot_msg ::
    "prost \<Rightarrow> slot \<Rightarrow> u64 option \<Rightarrow> slot_status \<Rightarrow> bank_id option \<Rightarrow> message_obj" where
  "slot_msg P sl parent st bank =
     \<lparr>mo_len = slot_encoded_len P sl parent st bank, mo_raw = slot_encode_raw P sl parent st bank\<rparr>"

subsection \<open>\<open>encoding/entry.rs\<close>\<close>

definition entry_encode_raw :: "prost \<Rightarrow> replica_entry \<Rightarrow> bank_id \<Rightarrow> bytes" where
  "entry_encode_raw P e bank =
     (if re_slot e \<noteq> 0 then uint64_encode P 1 (re_slot e) else []) @
     (if re_index e \<noteq> 0 then uint64_encode P 2 (re_index e) else []) @
     (if re_num_hashes e \<noteq> 0 then uint64_encode P 3 (re_num_hashes e) else []) @
     bytes_encode P 4 (re_hash e) @
     (if re_executed_transaction_count e \<noteq> 0
      then uint64_encode P 5 (re_executed_transaction_count e) else []) @
     (if re_starting_transaction_index e \<noteq> 0
      then uint64_encode P 6 (re_starting_transaction_index e) else []) @
     (if bank \<noteq> 0 then uint64_encode P 7 bank else [])"

definition entry_encoded_len :: "prost \<Rightarrow> replica_entry \<Rightarrow> bank_id \<Rightarrow> nat" where
  "entry_encoded_len P e bank =
     (if re_slot e \<noteq> 0 then uint64_encoded_len P 1 (re_slot e) else 0) +
     (if re_index e \<noteq> 0 then uint64_encoded_len P 2 (re_index e) else 0) +
     (if re_num_hashes e \<noteq> 0 then uint64_encoded_len P 3 (re_num_hashes e) else 0) +
     bytes_encoded_len P 4 (re_hash e) +
     (if re_executed_transaction_count e \<noteq> 0
      then uint64_encoded_len P 5 (re_executed_transaction_count e) else 0) +
     (if re_starting_transaction_index e \<noteq> 0
      then uint64_encoded_len P 6 (re_starting_transaction_index e) else 0) +
     (if bank \<noteq> 0 then uint64_encoded_len P 7 bank else 0)"

definition entry_msg :: "prost \<Rightarrow> replica_entry \<Rightarrow> bank_id \<Rightarrow> message_obj" where
  "entry_msg P e bank = \<lparr>mo_len = entry_encoded_len P e bank, mo_raw = entry_encode_raw P e bank\<rparr>"

subsection \<open>\<open>encoding/account.rs\<close>\<close>

definition account_info_encode_raw :: "prost \<Rightarrow> replica_account \<Rightarrow> bytes" where
  "account_info_encode_raw P a =
     bytes_encode P 1 (ra_pubkey a) @
     (if ra_lamports a \<noteq> 0 then uint64_encode P 2 (ra_lamports a) else []) @
     bytes_encode P 3 (ra_owner a) @
     (if ra_executable a then bool_encode P 4 (ra_executable a) else []) @
     (if ra_rent_epoch a \<noteq> 0 then uint64_encode P 5 (ra_rent_epoch a) else []) @
     (if ra_data a \<noteq> [] then bytes_encode P 6 (ra_data a) else []) @
     (if ra_write_version a \<noteq> 0 then uint64_encode P 7 (ra_write_version a) else []) @
     enc_opt (bytes_encode P 8) (ra_txn a)"

definition account_info_encoded_len :: "prost \<Rightarrow> replica_account \<Rightarrow> nat" where
  "account_info_encoded_len P a =
     bytes_encoded_len P 1 (ra_pubkey a) +
     (if ra_lamports a \<noteq> 0 then uint64_encoded_len P 2 (ra_lamports a) else 0) +
     bytes_encoded_len P 3 (ra_owner a) +
     (if ra_executable a then bool_encoded_len P 4 (ra_executable a) else 0) +
     (if ra_rent_epoch a \<noteq> 0 then uint64_encoded_len P 5 (ra_rent_epoch a) else 0) +
     (if ra_data a \<noteq> [] then bytes_encoded_len P 6 (ra_data a) else 0) +
     (if ra_write_version a \<noteq> 0 then uint64_encoded_len P 7 (ra_write_version a) else 0) +
     len_opt (bytes_encoded_len P 8) (ra_txn a)"

definition account_info_msg :: "prost \<Rightarrow> replica_account \<Rightarrow> message_obj" where
  "account_info_msg P a =
     \<lparr>mo_len = account_info_encoded_len P a, mo_raw = account_info_encode_raw P a\<rparr>"

definition account_encode_raw :: "prost \<Rightarrow> slot \<Rightarrow> bank_id option \<Rightarrow> replica_account \<Rightarrow> bytes" where
  "account_encode_raw P sl bank a =
     message_encode P 1 (account_info_msg P a) @
     (if sl \<noteq> 0 then uint64_encode P 2 sl else []) @
     enc_opt (uint64_encode P 4) bank"

definition account_encoded_len :: "prost \<Rightarrow> slot \<Rightarrow> bank_id option \<Rightarrow> replica_account \<Rightarrow> nat" where
  "account_encoded_len P sl bank a =
     message_encoded_len P 1 (account_info_msg P a) +
     (if sl \<noteq> 0 then uint64_encoded_len P 2 sl else 0) +
     len_opt (uint64_encoded_len P 4) bank"

definition account_msg :: "prost \<Rightarrow> slot \<Rightarrow> bank_id option \<Rightarrow> replica_account \<Rightarrow> message_obj" where
  "account_msg P sl bank a =
     \<lparr>mo_len = account_encoded_len P sl bank a, mo_raw = account_encode_raw P sl bank a\<rparr>"

subsection \<open>\<open>encoding/block_meta.rs\<close>\<close>

definition rewards_encode_raw :: "prost \<Rightarrow> 'e plugin_env \<Rightarrow> rewards_partitions \<Rightarrow> bytes" where
  "rewards_encode_raw P E r =
     message_encode_repeated P 1 (map (reward_msg P) (rp_rewards r)) @
     enc_opt (\<lambda>n. message_encode P 2 (num_partitions_msg E n)) (rp_num_partitions r)"

definition rewards_encoded_len :: "prost \<Rightarrow> 'e plugin_env \<Rightarrow> rewards_partitions \<Rightarrow> nat" where
  "rewards_encoded_len P E r =
     message_encoded_len_repeated P 1 (map (reward_msg P) (rp_rewards r)) +
     len_opt (\<lambda>n. message_encoded_len P 2 (num_partitions_msg E n)) (rp_num_partitions r)"

definition rewards_msg :: "prost \<Rightarrow> 'e plugin_env \<Rightarrow> rewards_partitions \<Rightarrow> message_obj" where
  "rewards_msg P E r = \<lparr>mo_len = rewards_encoded_len P E r, mo_raw = rewards_encode_raw P E r\<rparr>"

definition block_meta_encode_raw :: "prost \<Rightarrow> 'e plugin_env \<Rightarrow> replica_block \<Rightarrow> bank_id \<Rightarrow> bytes" where
  "block_meta_encode_raw P E b bank =
     (if rb_slot b \<noteq> 0 then uint64_encode P 1 (rb_slot b) else []) @
     (if rb_blockhash b \<noteq> [] then bytes_encode P 2 (rb_blockhash b) else []) @
     message_encode P 3 (rewards_msg P E (rb_rewards b)) @
     enc_opt (\<lambda>t. message_encode P 4 (unix_timestamp_msg E t)) (rb_block_time b) @
     enc_opt (\<lambda>h. message_encode P 5 (block_height_msg E h)) (rb_block_height b) @
     (if rb_parent_slot b \<noteq> 0 then uint64_encode P 6 (rb_parent_slot b) else []) @
     (if rb_parent_blockhash b \<noteq> [] then bytes_encode P 7 (rb_parent_blockhash b) else []) @
     (if rb_executed_transaction_count b \<noteq> 0
      then uint64_encode P 8 (rb_executed_transaction_count b) else []) @
     (if rb_entry_count b \<noteq> 0 then uint64_encode P 9 (rb_entry_count b) else []) @
     (if bank \<noteq> 0 then uint64_encode P 10 bank else [])"

definition block_meta_encoded_len :: "prost \<Rightarrow> 'e plugin_env \<Rightarrow> replica_block \<Rightarrow> bank_id \<Rightarrow> nat" where
  "block_meta_encoded_len P E b bank =
     (if rb_slot b \<noteq> 0 then uint64_encoded_len P 1 (rb_slot b) else 0) +
     (if rb_blockhash b \<noteq> [] then bytes_encoded_len P 2 (rb_blockhash b) else 0) +
     message_encoded_len P 3 (rewards_msg P E (rb_rewards b)) +
     len_opt (\<lambda>t. message_encoded_len P 4 (unix_timestamp_msg E t)) (rb_block_time b) +
     len_opt (\<lambda>h. message_encoded_len P 5 (block_height_msg E h)) (rb_block_height b) +
     (if rb_parent_slot b \<noteq> 0 then uint64_encoded_len P 6 (rb_parent_slot b) else 0) +
     (if rb_parent_blockhash b \<noteq> [] then bytes_encoded_len P 7 (rb_parent_blockhash b) else 0) +
     (if rb_executed_transaction_count b \<noteq> 0
      then uint64_encoded_len P 8 (rb_executed_transaction_count b) else 0) +
     (if rb_entry_count b \<noteq> 0 then uint64_encoded_len P 9 (rb_entry_count b) else 0) +
     (if bank \<noteq> 0 then uint64_encoded_len P 10 bank else 0)"

definition block_meta_msg :: "prost \<Rightarrow> 'e plugin_env \<Rightarrow> replica_block \<Rightarrow> bank_id \<Rightarrow> message_obj" where
  "block_meta_msg P E b bank =
     \<lparr>mo_len = block_meta_encoded_len P E b bank, mo_raw = block_meta_encode_raw P E b bank\<rparr>"

subsection \<open>\<open>encoding/update_parent.rs\<close>\<close>

definition entry_update_parent_encode_raw :: "prost \<Rightarrow> replica_entry_update_parent \<Rightarrow> bytes" where
  "entry_update_parent_encode_raw P i =
     (if eu_slot i \<noteq> 0 then uint64_encode P 1 (eu_slot i) else []) @
     (if eu_cleared_bank_id i \<noteq> 0 then uint64_encode P 2 (eu_cleared_bank_id i) else []) @
     (if eu_parent_slot i \<noteq> 0 then uint64_encode P 3 (eu_parent_slot i) else []) @
     bytes_encode P 4 (eu_parent_block_id i)"

definition entry_update_parent_encoded_len :: "prost \<Rightarrow> replica_entry_update_parent \<Rightarrow> nat" where
  "entry_update_parent_encoded_len P i =
     (if eu_slot i \<noteq> 0 then uint64_encoded_len P 1 (eu_slot i) else 0) +
     (if eu_cleared_bank_id i \<noteq> 0 then uint64_encoded_len P 2 (eu_cleared_bank_id i) else 0) +
     (if eu_parent_slot i \<noteq> 0 then uint64_encoded_len P 3 (eu_parent_slot i) else 0) +
     bytes_encoded_len P 4 (eu_parent_block_id i)"

definition entry_update_parent_msg :: "prost \<Rightarrow> replica_entry_update_parent \<Rightarrow> message_obj" where
  "entry_update_parent_msg P i =
     \<lparr>mo_len = entry_update_parent_encoded_len P i, mo_raw = entry_update_parent_encode_raw P i\<rparr>"

definition deshred_update_parent_encode_raw :: "prost \<Rightarrow> replica_deshred_update_parent \<Rightarrow> bytes" where
  "deshred_update_parent_encode_raw P i =
     (if du_slot i \<noteq> 0 then uint64_encode P 1 (du_slot i) else []) @
     (if du_update_parent_fec_set_index i \<noteq> 0
      then uint32_encode P 2 (du_update_parent_fec_set_index i) else []) @
     (if du_parent_slot i \<noteq> 0 then uint64_encode P 3 (du_parent_slot i) else []) @
     bytes_encode P 4 (du_parent_block_id i)"

definition deshred_update_parent_encoded_len :: "prost \<Rightarrow> replica_deshred_update_parent \<Rightarrow> nat" where
  "deshred_update_parent_encoded_len P i =
     (if du_slot i \<noteq> 0 then uint64_encoded_len P 1 (du_slot i) else 0) +
     (if du_update_parent_fec_set_index i \<noteq> 0
      then uint32_encoded_len P 2 (du_update_parent_fec_set_index i) else 0) +
     (if du_parent_slot i \<noteq> 0 then uint64_encoded_len P 3 (du_parent_slot i) else 0) +
     bytes_encoded_len P 4 (du_parent_block_id i)"

definition deshred_update_parent_msg :: "prost \<Rightarrow> replica_deshred_update_parent \<Rightarrow> message_obj" where
  "deshred_update_parent_msg P i =
     \<lparr>mo_len = deshred_update_parent_encoded_len P i, mo_raw = deshred_update_parent_encode_raw P i\<rparr>"

subsection \<open>\<open>encoding/block_footer.rs\<close>\<close>

fun block_footer_view_new :: "'e plugin_env \<Rightarrow> versioned_block_footer \<Rightarrow> block_footer_view" where
  "block_footer_view_new E (FooterV1 v1) =
     \<lparr>bv_version = 1,
      bv_bank_hash = bf_bank_hash v1,
      bv_block_producer_time_nanos = bf_block_producer_time_nanos v1,
      bv_block_user_agent = bf_block_user_agent v1,
      bv_footer = (case wincode_serialize E (FooterV1 v1) of Some d \<Rightarrow> d | None \<Rightarrow> [])\<rparr>"

definition block_footer_encode_raw :: "prost \<Rightarrow> slot \<Rightarrow> bank_id \<Rightarrow> block_footer_view \<Rightarrow> bytes" where
  "block_footer_encode_raw P sl bank v =
     (if sl \<noteq> 0 then uint64_encode P 1 sl else []) @
     (if bank \<noteq> 0 then uint64_encode P 2 bank else []) @
     (if bv_version v \<noteq> 0 then uint32_encode P 3 (bv_version v) else []) @
     bytes_encode P 4 (bv_bank_hash v) @
     (if bv_block_producer_time_nanos v \<noteq> 0
      then uint64_encode P 5 (bv_block_producer_time_nanos v) else []) @
     (if bv_block_user_agent v \<noteq> [] then bytes_encode P 6 (bv_block_user_agent v) else []) @
     (if bv_footer v \<noteq> [] then bytes_encode P 7 (bv_footer v) else [])"

definition block_footer_encoded_len :: "prost \<Rightarrow> slot \<Rightarrow> bank_id \<Rightarrow> block_footer_view \<Rightarrow> nat" where
  "block_footer_encoded_len P sl bank v =
     (if sl \<noteq> 0 then uint64_encoded_len P 1 sl else 0) +
     (if bank \<noteq> 0 then uint64_encoded_len P 2 bank else 0) +
     (if bv_version v \<noteq> 0 then uint32_encoded_len P 3 (bv_version v) else 0) +
     bytes_encoded_len P 4 (bv_bank_hash v) +
     (if bv_block_producer_time_nanos v \<noteq> 0
      then uint64_encoded_len P 5 (bv_block_producer_time_nanos v) else 0) +
     (if bv_block_user_agent v = [] then 0 else bytes_encoded_len P 6 (bv_block_user_agent v)) +
     (if bv_footer v = [] then 0 else bytes_encoded_len P 7 (bv_footer v))"

definition block_footer_msg ::
    "prost \<Rightarrow> 'e plugin_env \<Rightarrow> slot \<Rightarrow> bank_id \<Rightarrow> versioned_block_footer \<Rightarrow> message_obj" where
  "block_footer_msg P E sl bank f = (let v = block_footer_view_new E f in
     \<lparr>mo_len = block_footer_encoded_len P sl bank v, mo_raw = block_footer_encode_raw P sl bank v\<rparr>)"

subsection \<open>\<open>encoding/contact_info.rs\<close>\<close>

definition SOCKET_ADDR_MAX_LEN :: nat where
  "SOCKET_ADDR_MAX_LEN = 58"

text \<open>\<open>SocketAddrBuffer\<close>: the bytes written so far; \<open>write_str\<close> fails when a piece does
  not fit, and \<open>format\<close> turns that failure into a panic (\<open>None\<close>).\<close>

definition write_str :: "bytes \<Rightarrow> bytes \<Rightarrow> bytes option" where
  "write_str buf s = (let end' = length buf + length s in
     if end' > SOCKET_ADDR_MAX_LEN then None else Some (buf @ s))"

fun socket_addr_write :: "bytes \<Rightarrow> socket_addr \<Rightarrow> bytes option" where
  "socket_addr_write buf [] = Some buf"
| "socket_addr_write buf (s # ss) = Option.bind (write_str buf s) (\<lambda>buf'. socket_addr_write buf' ss)"

definition socket_addr_format :: "socket_addr \<Rightarrow> bytes option" where
  "socket_addr_format addr = socket_addr_write [] addr"

definition socket_addr_encode :: "prost \<Rightarrow> u32 \<Rightarrow> socket_addr option \<Rightarrow> bytes option" where
  "socket_addr_encode P tag addr = (case addr of None \<Rightarrow> Some []
     | Some a \<Rightarrow> map_option (bytes_encode P tag) (socket_addr_format a))"

definition socket_addr_encoded_len :: "prost \<Rightarrow> u32 \<Rightarrow> socket_addr option \<Rightarrow> nat option" where
  "socket_addr_encoded_len P tag addr = (case addr of None \<Rightarrow> Some 0
     | Some a \<Rightarrow> map_option (bytes_encoded_len P tag) (socket_addr_format a))"

definition u16_encode :: "prost \<Rightarrow> u32 \<Rightarrow> u16 \<Rightarrow> bytes" where
  "u16_encode P tag value = (if value \<noteq> 0 then uint32_encode P tag (ucast value) else [])"

definition u16_encoded_len :: "prost \<Rightarrow> u32 \<Rightarrow> u16 \<Rightarrow> nat" where
  "u16_encoded_len P tag value = (if value \<noteq> 0 then uint32_encoded_len P tag (ucast value) else 0)"

definition u32_encode :: "prost \<Rightarrow> u32 \<Rightarrow> u32 \<Rightarrow> bytes" where
  "u32_encode P tag value = (if value \<noteq> 0 then uint32_encode P tag value else [])"

definition u32_encoded_len :: "prost \<Rightarrow> u32 \<Rightarrow> u32 \<Rightarrow> nat" where
  "u32_encoded_len P tag value = (if value \<noteq> 0 then uint32_encoded_len P tag value else 0)"

definition u64_encode :: "prost \<Rightarrow> u32 \<Rightarrow> u64 \<Rightarrow> bytes" where
  "u64_encode P tag value = (if value \<noteq> 0 then uint64_encode P tag value else [])"

definition u64_encoded_len :: "prost \<Rightarrow> u32 \<Rightarrow> u64 \<Rightarrow> nat" where
  "u64_encoded_len P tag value = (if value \<noteq> 0 then uint64_encoded_len P tag value else 0)"

text \<open>The twelve socket fields with their tags, in the order both functions list them.\<close>

definition contact_info_sockets :: "replica_contact_info \<Rightarrow> (u32 \<times> socket_addr option) list" where
  "contact_info_sockets i =
     [(11, ci_gossip i), (12, ci_tpu_quic i), (13, ci_tpu_forwards_quic i), (14, ci_tpu_vote_udp i),
      (15, ci_tpu_vote_quic i), (16, ci_tvu_udp i), (17, ci_tvu_quic i), (18, ci_serve_repair_udp i),
      (19, ci_serve_repair_quic i), (20, ci_rpc i), (21, ci_rpc_pubsub i), (22, ci_alpenglow i)]"

fun encode_sockets :: "prost \<Rightarrow> (u32 \<times> socket_addr option) list \<Rightarrow> bytes option" where
  "encode_sockets P [] = Some []"
| "encode_sockets P ((t, a) # rest) = Option.bind (socket_addr_encode P t a)
     (\<lambda>d. map_option (\<lambda>ds. d @ ds) (encode_sockets P rest))"

fun sockets_encoded_len :: "prost \<Rightarrow> (u32 \<times> socket_addr option) list \<Rightarrow> nat option" where
  "sockets_encoded_len P [] = Some 0"
| "sockets_encoded_len P ((t, a) # rest) = Option.bind (socket_addr_encoded_len P t a)
     (\<lambda>d. map_option (\<lambda>ds. d + ds) (sockets_encoded_len P rest))"

definition contact_info_encode_raw :: "prost \<Rightarrow> replica_contact_info \<Rightarrow> bytes option" where
  "contact_info_encode_raw P i = map_option (\<lambda>sockets.
     (if ci_pubkey i \<noteq> [] then bytes_encode P 1 (ci_pubkey i) else []) @
     u64_encode P 2 (ci_wallclock i) @ u64_encode P 3 (ci_outset i) @
     u16_encode P 4 (ci_shred_version i) @ u16_encode P 5 (ci_version_major i) @
     u16_encode P 6 (ci_version_minor i) @ u16_encode P 7 (ci_version_patch i) @
     u32_encode P 8 (ci_version_commit i) @ u32_encode P 9 (ci_version_feature_set i) @
     u16_encode P 10 (ci_version_client_id i) @ sockets)
     (encode_sockets P (contact_info_sockets i))"

definition contact_info_encoded_len :: "prost \<Rightarrow> replica_contact_info \<Rightarrow> nat option" where
  "contact_info_encoded_len P i = map_option (\<lambda>sockets.
     (if ci_pubkey i = [] then 0 else bytes_encoded_len P 1 (ci_pubkey i)) +
     u64_encoded_len P 2 (ci_wallclock i) + u64_encoded_len P 3 (ci_outset i) +
     u16_encoded_len P 4 (ci_shred_version i) + u16_encoded_len P 5 (ci_version_major i) +
     u16_encoded_len P 6 (ci_version_minor i) + u16_encoded_len P 7 (ci_version_patch i) +
     u32_encoded_len P 8 (ci_version_commit i) + u32_encoded_len P 9 (ci_version_feature_set i) +
     u16_encoded_len P 10 (ci_version_client_id i) + sockets)
     (sockets_encoded_len P (contact_info_sockets i))"

definition contact_info_msg :: "prost \<Rightarrow> replica_contact_info \<Rightarrow> message_obj option" where
  "contact_info_msg P i = Option.bind (contact_info_encoded_len P i)
     (\<lambda>n. map_option (\<lambda>d. \<lparr>mo_len = n, mo_raw = d\<rparr>) (contact_info_encode_raw P i))"

definition contact_info_removed_encode_raw :: "prost \<Rightarrow> bytes \<Rightarrow> bytes" where
  "contact_info_removed_encode_raw P pubkey = (if pubkey \<noteq> [] then bytes_encode P 1 pubkey else [])"

definition contact_info_removed_encoded_len :: "prost \<Rightarrow> bytes \<Rightarrow> nat" where
  "contact_info_removed_encoded_len P pubkey = (if pubkey = [] then 0 else bytes_encoded_len P 1 pubkey)"

definition contact_info_removed_msg :: "prost \<Rightarrow> bytes \<Rightarrow> message_obj" where
  "contact_info_removed_msg P pubkey = \<lparr>mo_len = contact_info_removed_encoded_len P pubkey,
     mo_raw = contact_info_removed_encode_raw P pubkey\<rparr>"

subsection \<open>Lemmas\<close>

lemma length_if_enc [wire_len]: "length (if c then xs else []) = (if c then length xs else 0)"
  by simp

text \<open>Decimal formatting: the loop never underflows the buffer and prints the number.\<close>

definition dec_value :: "bytes \<Rightarrow> nat" where
  "dec_value s = foldl (\<lambda>a d. 10 * a + (unat d - 48)) 0 s"

lemma dec_value_snoc: "dec_value (s @ [d]) = 10 * dec_value s + (unat d - 48)"
  by (simp add: dec_value_def)

lemma unat_digit:
  "unat (48 + ucast (num mod 10 :: u16) :: u8) = 48 + unat num mod 10"
proof -
  have m: "unat (num mod 10) = unat num mod 10" by (simp add: unat_mod)
  then have lt: "unat (num mod 10) < 10" by simp
  then have "unat (ucast (num mod 10) :: u8) = unat (num mod 10)"
    by (simp add: unsigned_ucast_eq take_bit_eq_mod)
  with lt m show ?thesis by (simp add: unat_word_ariths)
qed

lemma u16_loop_value:
  assumes "unat num < 10 ^ Suc k" and "k < index"
  shows "\<exists>ds. u16_to_str_loop index num out = Some (ds @ out) \<and> dec_value ds = unat num \<and>
    length ds \<le> Suc k"
  using assms
proof (induction k arbitrary: index num out)
  case 0
  then have "num div 10 = 0" and m: "unat num mod 10 = unat num"
    by (simp_all add: word_eq_iff_unsigned unat_div word_unat_eq_iff)
  with 0 show ?case
    by (intro exI [of _ "[48 + ucast (num mod 10)]"])
      (simp add: u16_to_str_loop.simps [of index] Let_def dec_value_def unat_digit)
next
  case (Suc k)
  let ?d = "48 + ucast (num mod 10) :: u8"
  show ?case
  proof (cases "num div 10 = 0")
    case True
    then have "unat (num div 10) = 0" by simp
    then have "unat num div 10 = 0" by (simp add: unat_div)
    then have "unat num mod 10 = unat num" by simp
    with True Suc.prems show ?thesis
      by (intro exI [of _ "[?d]"])
        (simp add: u16_to_str_loop.simps [of index] Let_def dec_value_def unat_digit)
  next
    case False
    have "unat (num div 10) = unat num div 10" by (simp add: unat_div)
    then have "unat (num div 10) < 10 ^ Suc k" using Suc.prems(1) by simp
    moreover have "k < index - 1" using Suc.prems(2) by simp
    ultimately obtain ds where
      ds: "u16_to_str_loop (index - 1) (num div 10) (?d # out) = Some (ds @ ?d # out)"
        "dec_value ds = unat (num div 10)" "length ds \<le> Suc k"
      using Suc.IH [of "num div 10" "index - 1" "?d # out"] by blast
    have "dec_value (ds @ [?d]) = unat num"
      using ds(2) by (simp add: dec_value_snoc unat_digit unat_div)
    then show ?thesis using ds False Suc.prems
      by (intro exI [of _ "ds @ [?d]"]) (simp add: u16_to_str_loop.simps [of index] Let_def)
  qed
qed

lemma u16_to_str_total: "\<exists>s. u16_to_str n = Some s \<and> dec_value s = unat n \<and> length s \<le> U16_MAX_DIGITS"
proof -
  have "unat n < 10 ^ Suc 4" using unat_less_2p [of n] by simp
  from u16_loop_value [OF this, of 5 "[]"] show ?thesis
    by (auto simp: u16_to_str_def U16_MAX_DIGITS_def)
qed

lemma NUM_STRINGS_table: "list_all (\<lambda>n. u16_to_str (of_nat n) = Some (NUM_STRINGS ! n)) [0..<256]"
  by code_simp

lemma u8_table_agrees: "u16_to_str (ucast c) = Some (u8_to_static_str c)"
proof -
  have lt: "unat c < 256" using unat_less_2p [of c] by simp
  have "\<forall>n<256. u16_to_str (of_nat n) = Some (NUM_STRINGS ! n)"
    using NUM_STRINGS_table by (simp add: list_all_iff)
  with lt have "u16_to_str (of_nat (unat c)) = Some (NUM_STRINGS ! unat c)" by blast
  then show ?thesis by (simp add: u8_to_static_str_def)
qed

text \<open>Each encoder keeps the contract of \<open>prost::Message\<close>.\<close>

context prost_codec
begin

lemma bytes_encode_wire [wire_len]: "length (bytes_encode P t v) = bytes_encoded_len P t v"
  by (simp add: bytes_encode_def bytes_encoded_len_def varint_len key_length [of t LengthDelimited])

lemma reward_ok: "message_ok (reward_msg P r)"
  by (simp add: reward_msg_def reward_encode_raw_def reward_encoded_len_def wire_len
      cong: if_cong split del: if_split)

lemma slot_ok: "message_ok (slot_msg P sl parent st bank)"
  by (simp add: slot_msg_def slot_encode_raw_def slot_encoded_len_def Let_def wire_len
      cong: if_cong split del: if_split)

lemma entry_ok: "message_ok (entry_msg P e bank)"
  by (simp add: entry_msg_def entry_encode_raw_def entry_encoded_len_def wire_len
      cong: if_cong split del: if_split)

lemma account_info_ok: "message_ok (account_info_msg P a)"
  by (simp add: account_info_msg_def account_info_encode_raw_def
      account_info_encoded_len_def wire_len cong: if_cong split del: if_split)

lemma account_ok: "message_ok (account_msg P sl bank a)"
  using account_info_ok [of a]
  by (simp add: account_msg_def account_encode_raw_def
      account_encoded_len_def wire_len cong: if_cong split del: if_split)

lemma rewards_ok:
  assumes "plugin_env_ok E"
  shows "message_ok (rewards_msg P E r)"
proof -
  have "\<forall>m\<in>set (map (reward_msg P) (rp_rewards r)). message_ok m" by (simp add: reward_ok)
  moreover have "length (message_encode P 2 (num_partitions_msg E n)) =
      message_encoded_len P 2 (num_partitions_msg E n)" for n
    using assms by (simp add: plugin_env_ok_def message_wire)
  ultimately show ?thesis
    by (simp add: rewards_msg_def rewards_encode_raw_def
        rewards_encoded_len_def wire_len)
qed

lemma block_meta_ok:
  assumes "plugin_env_ok E"
  shows "message_ok (block_meta_msg P E b bank)"
proof -
  have "length (message_encode P 4 (unix_timestamp_msg E n)) =
      message_encoded_len P 4 (unix_timestamp_msg E n)" for n
    using assms by (simp add: plugin_env_ok_def message_wire)
  moreover have "length (message_encode P 5 (block_height_msg E n)) =
      message_encoded_len P 5 (block_height_msg E n)" for n
    using assms by (simp add: plugin_env_ok_def message_wire)
  ultimately show ?thesis
    using rewards_ok [OF assms]
    by (simp add: block_meta_msg_def
        block_meta_encode_raw_def block_meta_encoded_len_def wire_len cong: if_cong split del: if_split)
qed

lemma entry_update_parent_ok: "message_ok (entry_update_parent_msg P i)"
  by (simp add: entry_update_parent_msg_def entry_update_parent_encode_raw_def
      entry_update_parent_encoded_len_def wire_len cong: if_cong split del: if_split)

lemma deshred_update_parent_ok: "message_ok (deshred_update_parent_msg P i)"
  by (simp add: deshred_update_parent_msg_def deshred_update_parent_encode_raw_def
      deshred_update_parent_encoded_len_def wire_len cong: if_cong split del: if_split)

lemma block_footer_ok: "message_ok (block_footer_msg P E sl bank f)"
  by (simp add: block_footer_msg_def block_footer_encode_raw_def Let_def
      block_footer_encoded_len_def wire_len if_not_P)

lemma u_fields_wire [wire_len]:
  "length (u16_encode P t a) = u16_encoded_len P t a"
  "length (u32_encode P t b) = u32_encoded_len P t b"
  "length (u64_encode P t c) = u64_encoded_len P t c"
  by (simp_all add: u16_encode_def u16_encoded_len_def u32_encode_def u32_encoded_len_def
      u64_encode_def u64_encoded_len_def wire_len)

lemma socket_addr_wire: "socket_addr_encoded_len P t a = map_option length (socket_addr_encode P t a)"
  by (cases a) (simp_all add: socket_addr_encoded_len_def socket_addr_encode_def option.map_comp
      comp_def wire_len)

lemma sockets_wire: "sockets_encoded_len P ss = map_option length (encode_sockets P ss)"
proof (induction ss)
  case (Cons ta ss)
  then show ?case
    by (cases ta; cases "socket_addr_encode P (fst ta) (snd ta)"; cases "encode_sockets P ss")
      (simp_all add: socket_addr_wire)
qed simp

lemma contact_info_ok:
  assumes "contact_info_msg P i = Some m"
  shows "message_ok m"
  using assms
  by (cases "encode_sockets P (contact_info_sockets i)")
    (auto simp: contact_info_msg_def contact_info_encoded_len_def contact_info_encode_raw_def
      sockets_wire message_ok_def wire_len)

lemma contact_info_removed_ok: "message_ok (contact_info_removed_msg P k)"
  by (simp add: contact_info_removed_msg_def contact_info_removed_encode_raw_def
      contact_info_removed_encoded_len_def wire_len)

end

text \<open>Formatting a socket address does not panic when its text fits the buffer.\<close>

lemma socket_addr_write_fits:
  "length buf + sum_list (map length ss) \<le> SOCKET_ADDR_MAX_LEN \<Longrightarrow>
   socket_addr_write buf ss = Some (buf @ concat ss)"
  by (induction ss arbitrary: buf) (simp_all add: write_str_def Let_def)

lemma socket_addr_format_fits:
  "length (concat a) \<le> SOCKET_ADDR_MAX_LEN \<Longrightarrow> socket_addr_format a = Some (concat a)"
  by (simp add: socket_addr_format_def socket_addr_write_fits length_concat)

end
