(* ===== verification/Plugin_Transaction.thy ===== *)
theory Plugin_Transaction
  imports Plugin_Encoding
begin

text \<open>
  The transaction encoders of the Geyser plugin
  (\<open>plugin-agave/src/protobuf/encoding/transaction.rs\<close> and
  \<open>deshred_transaction.rs\<close>). The structs of the Solana crates are records with the
  fields the encoders read; signatures, public keys and hashes are byte strings, and
  \<open>transaction_sized\<close> states the array lengths that their Rust types fix. An \<open>f64\<close> is
  its 64-bit pattern. The thread-local \<open>BUFFER\<close> that carries a serialized transaction
  error from \<open>encoded_len\<close> to \<open>encode_raw\<close> is an explicit byte string.
\<close>

record message_header =
  mh_num_required_signatures :: u8
  mh_num_readonly_signed_accounts :: u8
  mh_num_readonly_unsigned_accounts :: u8

record compiled_instruction =
  cx_program_id_index :: u8
  cx_accounts :: bytes
  cx_data :: bytes

record address_table_lookup =
  al_account_key :: bytes
  al_writable_indexes :: bytes
  al_readonly_indexes :: bytes

record transaction_config =
  tc_priority_fee :: "u64 option"
  tc_compute_unit_limit :: "u32 option"
  tc_loaded_accounts_data_size_limit :: "u32 option"
  tc_heap_size :: "u32 option"

record legacy_message =
  lm_header :: message_header
  lm_account_keys :: "bytes list"
  lm_recent_blockhash :: bytes
  lm_instructions :: "compiled_instruction list"

record v0_message =
  m0_header :: message_header
  m0_account_keys :: "bytes list"
  m0_recent_blockhash :: bytes
  m0_instructions :: "compiled_instruction list"
  m0_address_table_lookups :: "address_table_lookup list"

record v1_message =
  m1_header :: message_header
  m1_account_keys :: "bytes list"
  m1_lifetime_specifier :: bytes
  m1_instructions :: "compiled_instruction list"
  m1_config :: transaction_config

datatype versioned_message =
  VM_Legacy legacy_message
| VM_V0 v0_message
| VM_V1 v1_message

record versioned_transaction =
  vt_signatures :: "bytes list"
  vt_message :: versioned_message

record inner_instruction =
  ii_instruction :: compiled_instruction
  ii_stack_height :: "u32 option"

record inner_instructions =
  is_index :: u8
  is_instructions :: "inner_instruction list"

record ui_token_amount =
  ut_ui_amount :: "u64 option"
  ut_decimals :: u8
  ut_amount :: bytes
  ut_ui_amount_string :: bytes

record token_balance =
  tb_account_index :: u8
  tb_mint :: bytes
  tb_ui_token_amount :: ui_token_amount
  tb_owner :: bytes
  tb_program_id :: bytes

record return_data =
  rd_program_id :: bytes
  rd_data :: bytes

record 'e transaction_status_meta =
  tm_status :: "'e + unit"
  tm_fee :: u64
  tm_pre_balances :: "u64 list"
  tm_post_balances :: "u64 list"
  tm_inner_instructions :: "inner_instructions list option"
  tm_log_messages :: "bytes list option"
  tm_pre_token_balances :: "token_balance list option"
  tm_post_token_balances :: "token_balance list option"
  tm_rewards :: "reward list option"
  tm_loaded_writable :: "bytes list"
  tm_loaded_readonly :: "bytes list"
  tm_return_data :: "return_data option"
  tm_compute_units_consumed :: "u64 option"
  tm_cost_units :: "u64 option"

record 'e replica_transaction =
  rt_signature :: bytes
  rt_is_vote :: bool
  rt_transaction :: versioned_transaction
  rt_meta :: "'e transaction_status_meta"
  rt_index :: u64

record replica_deshred_transaction =
  rdt_signature :: bytes
  rdt_is_vote :: bool
  rdt_transaction :: versioned_transaction
  rdt_loaded_addresses :: "(bytes list \<times> bytes list) option"
  rdt_completed_data_set_starting_shred_index :: u32
  rdt_completed_data_set_ending_shred_index_exclusive :: u32

definition SIGNATURE_BYTES :: nat where
  "SIGNATURE_BYTES = 64"

definition PUBKEY_BYTES :: nat where
  "PUBKEY_BYTES = 32"

subsection \<open>Instructions, lookups, headers\<close>

definition signatures_encode :: "prost \<Rightarrow> u32 \<Rightarrow> bytes list \<Rightarrow> bytes" where
  "signatures_encode P tag sigs = concat (map (bytes_encode P tag) sigs)"

definition signatures_encoded_len :: "prost \<Rightarrow> u32 \<Rightarrow> bytes list \<Rightarrow> nat" where
  "signatures_encoded_len P tag sigs =
     (key_len P tag + encoded_len_varint P (of_nat SIGNATURE_BYTES) + SIGNATURE_BYTES) * length sigs"

definition pubkeys_encode :: "prost \<Rightarrow> u32 \<Rightarrow> bytes list \<Rightarrow> bytes" where
  "pubkeys_encode P tag pubkeys = concat (map (bytes_encode P tag) pubkeys)"

definition pubkeys_encoded_len :: "prost \<Rightarrow> u32 \<Rightarrow> bytes list \<Rightarrow> nat" where
  "pubkeys_encoded_len P tag pubkeys =
     (key_len P tag + encoded_len_varint P (of_nat PUBKEY_BYTES) + PUBKEY_BYTES) * length pubkeys"

definition versioned_encode :: "prost \<Rightarrow> u32 \<Rightarrow> bool \<Rightarrow> bytes" where
  "versioned_encode P tag versioned = (if versioned then bool_encode P tag versioned else [])"

definition versioned_encoded_len :: "prost \<Rightarrow> u32 \<Rightarrow> bool \<Rightarrow> nat" where
  "versioned_encoded_len P tag versioned =
     (if versioned then bool_encoded_len P tag versioned else 0)"

definition message_header_encode_raw :: "prost \<Rightarrow> message_header \<Rightarrow> bytes" where
  "message_header_encode_raw P h =
     (let rs = ucast (mh_num_required_signatures h) :: u32;
          ros = ucast (mh_num_readonly_signed_accounts h) :: u32;
          rou = ucast (mh_num_readonly_unsigned_accounts h) :: u32 in
      (if rs \<noteq> 0 then uint32_encode P 1 rs else []) @
      (if ros \<noteq> 0 then uint32_encode P 2 ros else []) @
      (if rou \<noteq> 0 then uint32_encode P 3 rou else []))"

definition message_header_encoded_len :: "prost \<Rightarrow> message_header \<Rightarrow> nat" where
  "message_header_encoded_len P h =
     (let rs = ucast (mh_num_required_signatures h) :: u32;
          ros = ucast (mh_num_readonly_signed_accounts h) :: u32;
          rou = ucast (mh_num_readonly_unsigned_accounts h) :: u32 in
      (if rs \<noteq> 0 then uint32_encoded_len P 1 rs else 0) +
      (if ros \<noteq> 0 then uint32_encoded_len P 2 ros else 0) +
      (if rou \<noteq> 0 then uint32_encoded_len P 3 rou else 0))"

definition message_header_msg :: "prost \<Rightarrow> message_header \<Rightarrow> message_obj" where
  "message_header_msg P h =
     \<lparr>mo_len = message_header_encoded_len P h, mo_raw = message_header_encode_raw P h\<rparr>"

definition compiled_instruction_encode_raw :: "prost \<Rightarrow> compiled_instruction \<Rightarrow> bytes" where
  "compiled_instruction_encode_raw P c =
     (let program_id_index = ucast (cx_program_id_index c) :: u32 in
      (if program_id_index \<noteq> 0 then uint32_encode P 1 program_id_index else []) @
      (if cx_accounts c \<noteq> [] then bytes_encode P 2 (cx_accounts c) else []) @
      (if cx_data c \<noteq> [] then bytes_encode P 3 (cx_data c) else []))"

definition compiled_instruction_encoded_len :: "prost \<Rightarrow> compiled_instruction \<Rightarrow> nat" where
  "compiled_instruction_encoded_len P c =
     (let program_id_index = ucast (cx_program_id_index c) :: u32 in
      (if program_id_index \<noteq> 0 then uint32_encoded_len P 1 program_id_index else 0) +
      (if cx_accounts c \<noteq> [] then bytes_encoded_len P 2 (cx_accounts c) else 0) +
      (if cx_data c \<noteq> [] then bytes_encoded_len P 3 (cx_data c) else 0))"

definition compiled_instruction_msg :: "prost \<Rightarrow> compiled_instruction \<Rightarrow> message_obj" where
  "compiled_instruction_msg P c =
     \<lparr>mo_len = compiled_instruction_encoded_len P c, mo_raw = compiled_instruction_encode_raw P c\<rparr>"

definition address_table_lookup_encode_raw :: "prost \<Rightarrow> address_table_lookup \<Rightarrow> bytes" where
  "address_table_lookup_encode_raw P l =
     bytes_encode P 1 (al_account_key l) @
     (if al_writable_indexes l \<noteq> [] then bytes_encode P 2 (al_writable_indexes l) else []) @
     (if al_readonly_indexes l \<noteq> [] then bytes_encode P 3 (al_readonly_indexes l) else [])"

definition address_table_lookup_encoded_len :: "prost \<Rightarrow> address_table_lookup \<Rightarrow> nat" where
  "address_table_lookup_encoded_len P l =
     bytes_encoded_len P 1 (al_account_key l) +
     (if al_writable_indexes l \<noteq> [] then bytes_encoded_len P 2 (al_writable_indexes l) else 0) +
     (if al_readonly_indexes l \<noteq> [] then bytes_encoded_len P 3 (al_readonly_indexes l) else 0)"

definition address_table_lookup_msg :: "prost \<Rightarrow> address_table_lookup \<Rightarrow> message_obj" where
  "address_table_lookup_msg P l =
     \<lparr>mo_len = address_table_lookup_encoded_len P l, mo_raw = address_table_lookup_encode_raw P l\<rparr>"

definition transaction_config_encode_raw :: "prost \<Rightarrow> transaction_config \<Rightarrow> bytes" where
  "transaction_config_encode_raw P c =
     enc_opt (uint64_encode P 1) (tc_priority_fee c) @
     enc_opt (uint32_encode P 2) (tc_compute_unit_limit c) @
     enc_opt (uint32_encode P 3) (tc_loaded_accounts_data_size_limit c) @
     enc_opt (uint32_encode P 4) (tc_heap_size c)"

definition transaction_config_encoded_len :: "prost \<Rightarrow> transaction_config \<Rightarrow> nat" where
  "transaction_config_encoded_len P c =
     len_opt (uint64_encoded_len P 1) (tc_priority_fee c) +
     len_opt (uint32_encoded_len P 2) (tc_compute_unit_limit c) +
     len_opt (uint32_encoded_len P 3) (tc_loaded_accounts_data_size_limit c) +
     len_opt (uint32_encoded_len P 4) (tc_heap_size c)"

definition transaction_config_msg :: "prost \<Rightarrow> transaction_config \<Rightarrow> message_obj" where
  "transaction_config_msg P c =
     \<lparr>mo_len = transaction_config_encoded_len P c, mo_raw = transaction_config_encode_raw P c\<rparr>"

subsection \<open>Messages and transactions\<close>

fun versioned_message_encode_raw :: "prost \<Rightarrow> versioned_message \<Rightarrow> bytes" where
  "versioned_message_encode_raw P (VM_Legacy m) =
     message_encode P 1 (message_header_msg P (lm_header m)) @
     pubkeys_encode P 2 (lm_account_keys m) @
     bytes_encode P 3 (lm_recent_blockhash m) @
     message_encode_repeated P 4 (map (compiled_instruction_msg P) (lm_instructions m)) @
     versioned_encode P 5 False @
     message_encode_repeated P 6 (map (address_table_lookup_msg P) [])"
| "versioned_message_encode_raw P (VM_V0 m) =
     message_encode P 1 (message_header_msg P (m0_header m)) @
     pubkeys_encode P 2 (m0_account_keys m) @
     bytes_encode P 3 (m0_recent_blockhash m) @
     message_encode_repeated P 4 (map (compiled_instruction_msg P) (m0_instructions m)) @
     versioned_encode P 5 True @
     message_encode_repeated P 6 (map (address_table_lookup_msg P) (m0_address_table_lookups m))"
| "versioned_message_encode_raw P (VM_V1 m) =
     message_encode P 1 (message_header_msg P (m1_header m)) @
     pubkeys_encode P 2 (m1_account_keys m) @
     bytes_encode P 3 (m1_lifetime_specifier m) @
     message_encode_repeated P 4 (map (compiled_instruction_msg P) (m1_instructions m)) @
     versioned_encode P 5 True @
     message_encode P 7 (transaction_config_msg P (m1_config m))"

fun versioned_message_encoded_len :: "prost \<Rightarrow> versioned_message \<Rightarrow> nat" where
  "versioned_message_encoded_len P (VM_Legacy m) =
     message_encoded_len P 1 (message_header_msg P (lm_header m)) +
     pubkeys_encoded_len P 2 (lm_account_keys m) +
     bytes_encoded_len P 3 (lm_recent_blockhash m) +
     message_encoded_len_repeated P 4 (map (compiled_instruction_msg P) (lm_instructions m)) +
     versioned_encoded_len P 5 False +
     message_encoded_len_repeated P 6 (map (address_table_lookup_msg P) [])"
| "versioned_message_encoded_len P (VM_V0 m) =
     message_encoded_len P 1 (message_header_msg P (m0_header m)) +
     pubkeys_encoded_len P 2 (m0_account_keys m) +
     bytes_encoded_len P 3 (m0_recent_blockhash m) +
     message_encoded_len_repeated P 4 (map (compiled_instruction_msg P) (m0_instructions m)) +
     versioned_encoded_len P 5 True +
     message_encoded_len_repeated P 6 (map (address_table_lookup_msg P) (m0_address_table_lookups m))"
| "versioned_message_encoded_len P (VM_V1 m) =
     message_encoded_len P 1 (message_header_msg P (m1_header m)) +
     pubkeys_encoded_len P 2 (m1_account_keys m) +
     bytes_encoded_len P 3 (m1_lifetime_specifier m) +
     message_encoded_len_repeated P 4 (map (compiled_instruction_msg P) (m1_instructions m)) +
     versioned_encoded_len P 5 True +
     message_encoded_len P 7 (transaction_config_msg P (m1_config m))"

definition versioned_message_msg :: "prost \<Rightarrow> versioned_message \<Rightarrow> message_obj" where
  "versioned_message_msg P m =
     \<lparr>mo_len = versioned_message_encoded_len P m, mo_raw = versioned_message_encode_raw P m\<rparr>"

definition versioned_transaction_encode_raw :: "prost \<Rightarrow> versioned_transaction \<Rightarrow> bytes" where
  "versioned_transaction_encode_raw P t =
     signatures_encode P 1 (vt_signatures t) @
     message_encode P 2 (versioned_message_msg P (vt_message t))"

definition versioned_transaction_encoded_len :: "prost \<Rightarrow> versioned_transaction \<Rightarrow> nat" where
  "versioned_transaction_encoded_len P t =
     signatures_encoded_len P 1 (vt_signatures t) +
     message_encoded_len P 2 (versioned_message_msg P (vt_message t))"

definition versioned_transaction_msg :: "prost \<Rightarrow> versioned_transaction \<Rightarrow> message_obj" where
  "versioned_transaction_msg P t =
     \<lparr>mo_len = versioned_transaction_encoded_len P t, mo_raw = versioned_transaction_encode_raw P t\<rparr>"

subsection \<open>Status meta\<close>

text \<open>\<open>TransactionErrorWrapper\<close>: \<open>encoded_len\<close> clears the thread's \<open>BUFFER\<close>, serializes
  the error into it and returns the new buffer with the length; \<open>encode_raw\<close> writes
  whatever the buffer holds. \<open>message::encode\<close> calls the first before the second.\<close>

definition transaction_error_encoded_len ::
    "prost \<Rightarrow> 'e plugin_env \<Rightarrow> bytes \<Rightarrow> 'e \<Rightarrow> nat \<times> bytes" where
  "transaction_error_encoded_len P E buffer err =
     (let buffer1 = []; buffer2 = buffer1 @ bincode_tx_error E err in
      (if buffer2 \<noteq> [] then pbytes_encoded_len P 1 buffer2 else 0, buffer2))"

definition transaction_error_encode_raw :: "prost \<Rightarrow> bytes \<Rightarrow> bytes" where
  "transaction_error_encode_raw P buffer = (if buffer \<noteq> [] then pbytes_encode P 1 buffer else [])"

definition transaction_error_msg :: "prost \<Rightarrow> 'e plugin_env \<Rightarrow> bytes \<Rightarrow> 'e \<Rightarrow> message_obj" where
  "transaction_error_msg P E buffer err =
     (let (n, buffer') = transaction_error_encoded_len P E buffer err in
      \<lparr>mo_len = n, mo_raw = transaction_error_encode_raw P buffer'\<rparr>)"

definition inner_instruction_encode_raw :: "prost \<Rightarrow> inner_instruction \<Rightarrow> bytes" where
  "inner_instruction_encode_raw P i =
     (let program_id_index = ucast (cx_program_id_index (ii_instruction i)) :: u32 in
      (if program_id_index \<noteq> 0 then uint32_encode P 1 program_id_index else []) @
      (if cx_accounts (ii_instruction i) \<noteq> []
       then bytes_encode P 2 (cx_accounts (ii_instruction i)) else []) @
      (if cx_data (ii_instruction i) \<noteq> [] then bytes_encode P 3 (cx_data (ii_instruction i)) else []) @
      enc_opt (uint32_encode P 4) (ii_stack_height i))"

definition inner_instruction_encoded_len :: "prost \<Rightarrow> inner_instruction \<Rightarrow> nat" where
  "inner_instruction_encoded_len P i =
     (let program_id_index = ucast (cx_program_id_index (ii_instruction i)) :: u32 in
      (if program_id_index \<noteq> 0 then uint32_encoded_len P 1 program_id_index else 0) +
      (if cx_accounts (ii_instruction i) \<noteq> []
       then bytes_encoded_len P 2 (cx_accounts (ii_instruction i)) else 0) +
      (if cx_data (ii_instruction i) \<noteq> []
       then bytes_encoded_len P 3 (cx_data (ii_instruction i)) else 0) +
      len_opt (uint32_encoded_len P 4) (ii_stack_height i))"

definition inner_instruction_msg :: "prost \<Rightarrow> inner_instruction \<Rightarrow> message_obj" where
  "inner_instruction_msg P i =
     \<lparr>mo_len = inner_instruction_encoded_len P i, mo_raw = inner_instruction_encode_raw P i\<rparr>"

definition inner_instructions_encode_raw :: "prost \<Rightarrow> inner_instructions \<Rightarrow> bytes" where
  "inner_instructions_encode_raw P i =
     (let index = ucast (is_index i) :: u32 in
      (if index \<noteq> 0 then uint32_encode P 1 index else []) @
      message_encode_repeated P 2 (map (inner_instruction_msg P) (is_instructions i)))"

definition inner_instructions_encoded_len :: "prost \<Rightarrow> inner_instructions \<Rightarrow> nat" where
  "inner_instructions_encoded_len P i =
     (let index = ucast (is_index i) :: u32 in
      (if index \<noteq> 0 then uint32_encoded_len P 1 index else 0) +
      message_encoded_len_repeated P 2 (map (inner_instruction_msg P) (is_instructions i)))"

definition inner_instructions_msg :: "prost \<Rightarrow> inner_instructions \<Rightarrow> message_obj" where
  "inner_instructions_msg P i =
     \<lparr>mo_len = inner_instructions_encoded_len P i, mo_raw = inner_instructions_encode_raw P i\<rparr>"

text \<open>\<open>ui_amount != 0f64\<close> on the bit pattern: both zeros of IEEE 754 compare equal to 0.\<close>

definition f64_is_zero :: "u64 \<Rightarrow> bool" where
  "f64_is_zero x \<longleftrightarrow> x = 0 \<or> x = 2 ^ 63"

definition ui_amount_or_default :: "ui_token_amount \<Rightarrow> u64" where
  "ui_amount_or_default a = (case ut_ui_amount a of Some x \<Rightarrow> x | None \<Rightarrow> 0)"

definition ui_token_amount_encode_raw :: "prost \<Rightarrow> ui_token_amount \<Rightarrow> bytes" where
  "ui_token_amount_encode_raw P a =
     (let ui_amount = ui_amount_or_default a; decimals = ucast (ut_decimals a) :: u32 in
      (if \<not> f64_is_zero ui_amount then double_encode P 1 ui_amount else []) @
      (if decimals \<noteq> 0 then uint32_encode P 2 decimals else []) @
      (if ut_amount a \<noteq> [] then string_encode P 3 (ut_amount a) else []) @
      (if ut_ui_amount_string a \<noteq> [] then string_encode P 4 (ut_ui_amount_string a) else []))"

definition ui_token_amount_encoded_len :: "prost \<Rightarrow> ui_token_amount \<Rightarrow> nat" where
  "ui_token_amount_encoded_len P a =
     (let ui_amount = ui_amount_or_default a; decimals = ucast (ut_decimals a) :: u32 in
      (if \<not> f64_is_zero ui_amount then double_encoded_len P 1 ui_amount else 0) +
      (if decimals \<noteq> 0 then uint32_encoded_len P 2 decimals else 0) +
      (if ut_amount a \<noteq> [] then string_encoded_len P 3 (ut_amount a) else 0) +
      (if ut_ui_amount_string a \<noteq> [] then string_encoded_len P 4 (ut_ui_amount_string a) else 0))"

definition ui_token_amount_msg :: "prost \<Rightarrow> ui_token_amount \<Rightarrow> message_obj" where
  "ui_token_amount_msg P a =
     \<lparr>mo_len = ui_token_amount_encoded_len P a, mo_raw = ui_token_amount_encode_raw P a\<rparr>"

definition token_balance_encode_raw :: "prost \<Rightarrow> token_balance \<Rightarrow> bytes" where
  "token_balance_encode_raw P b =
     (let account_index = ucast (tb_account_index b) :: u32 in
      (if account_index \<noteq> 0 then uint32_encode P 1 account_index else []) @
      (if tb_mint b \<noteq> [] then string_encode P 2 (tb_mint b) else []) @
      message_encode P 3 (ui_token_amount_msg P (tb_ui_token_amount b)) @
      (if tb_owner b \<noteq> [] then string_encode P 4 (tb_owner b) else []) @
      (if tb_program_id b \<noteq> [] then string_encode P 5 (tb_program_id b) else []))"

definition token_balance_encoded_len :: "prost \<Rightarrow> token_balance \<Rightarrow> nat" where
  "token_balance_encoded_len P b =
     (let account_index = ucast (tb_account_index b) :: u32 in
      (if account_index \<noteq> 0 then uint32_encoded_len P 1 account_index else 0) +
      (if tb_mint b \<noteq> [] then string_encoded_len P 2 (tb_mint b) else 0) +
      message_encoded_len P 3 (ui_token_amount_msg P (tb_ui_token_amount b)) +
      (if tb_owner b \<noteq> [] then string_encoded_len P 4 (tb_owner b) else 0) +
      (if tb_program_id b \<noteq> [] then string_encoded_len P 5 (tb_program_id b) else 0))"

definition token_balance_msg :: "prost \<Rightarrow> token_balance \<Rightarrow> message_obj" where
  "token_balance_msg P b =
     \<lparr>mo_len = token_balance_encoded_len P b, mo_raw = token_balance_encode_raw P b\<rparr>"

definition return_data_encode_raw :: "prost \<Rightarrow> return_data \<Rightarrow> bytes" where
  "return_data_encode_raw P r =
     bytes_encode P 1 (rd_program_id r) @
     (if rd_data r \<noteq> [] then bytes_encode P 2 (rd_data r) else [])"

definition return_data_encoded_len :: "prost \<Rightarrow> return_data \<Rightarrow> nat" where
  "return_data_encoded_len P r =
     bytes_encoded_len P 1 (rd_program_id r) +
     (if rd_data r \<noteq> [] then bytes_encoded_len P 2 (rd_data r) else 0)"

definition return_data_msg :: "prost \<Rightarrow> return_data \<Rightarrow> message_obj" where
  "return_data_msg P r = \<lparr>mo_len = return_data_encoded_len P r, mo_raw = return_data_encode_raw P r\<rparr>"

text \<open>\<open>TransactionStatusMetaWrapper\<close>; \<open>B\<close> is the thread's buffer before the call.\<close>

definition status_meta_encode_raw ::
    "prost \<Rightarrow> 'e plugin_env \<Rightarrow> bytes \<Rightarrow> 'e transaction_status_meta \<Rightarrow> bytes" where
  "status_meta_encode_raw P E B m =
     (case tm_status m of
        Inl err \<Rightarrow> message_encode P 1 (transaction_error_msg P E B err) | Inr _ \<Rightarrow> []) @
     (if tm_fee m \<noteq> 0 then uint64_encode P 2 (tm_fee m) else []) @
     uint64_encode_packed P 3 (tm_pre_balances m) @
     uint64_encode_packed P 4 (tm_post_balances m) @
     enc_opt (\<lambda>xs. message_encode_repeated P 5 (map (inner_instructions_msg P) xs))
       (tm_inner_instructions m) @
     enc_opt (string_encode_repeated P 6) (tm_log_messages m) @
     enc_opt (\<lambda>xs. message_encode_repeated P 7 (map (token_balance_msg P) xs))
       (tm_pre_token_balances m) @
     enc_opt (\<lambda>xs. message_encode_repeated P 8 (map (token_balance_msg P) xs))
       (tm_post_token_balances m) @
     enc_opt (\<lambda>xs. message_encode_repeated P 9 (map (reward_msg P) xs)) (tm_rewards m) @
     (if tm_inner_instructions m = None
      then bool_encode P 10 (tm_inner_instructions m = None) else []) @
     (if tm_log_messages m = None then bool_encode P 11 (tm_log_messages m = None) else []) @
     pubkeys_encode P 12 (tm_loaded_writable m) @
     pubkeys_encode P 13 (tm_loaded_readonly m) @
     enc_opt (\<lambda>r. message_encode P 14 (return_data_msg P r)) (tm_return_data m) @
     (if tm_return_data m = None then bool_encode P 15 (tm_return_data m = None) else []) @
     enc_opt (uint64_encode P 16) (tm_compute_units_consumed m) @
     enc_opt (uint64_encode P 17) (tm_cost_units m)"

definition status_meta_encoded_len ::
    "prost \<Rightarrow> 'e plugin_env \<Rightarrow> bytes \<Rightarrow> 'e transaction_status_meta \<Rightarrow> nat" where
  "status_meta_encoded_len P E B m =
     (case tm_status m of
        Inl err \<Rightarrow> message_encoded_len P 1 (transaction_error_msg P E B err) | Inr _ \<Rightarrow> 0) +
     (if tm_fee m \<noteq> 0 then uint64_encoded_len P 2 (tm_fee m) else 0) +
     uint64_encoded_len_packed P 3 (tm_pre_balances m) +
     uint64_encoded_len_packed P 4 (tm_post_balances m) +
     len_opt (\<lambda>xs. message_encoded_len_repeated P 5 (map (inner_instructions_msg P) xs))
       (tm_inner_instructions m) +
     len_opt (string_encoded_len_repeated P 6) (tm_log_messages m) +
     len_opt (\<lambda>xs. message_encoded_len_repeated P 7 (map (token_balance_msg P) xs))
       (tm_pre_token_balances m) +
     len_opt (\<lambda>xs. message_encoded_len_repeated P 8 (map (token_balance_msg P) xs))
       (tm_post_token_balances m) +
     len_opt (\<lambda>xs. message_encoded_len_repeated P 9 (map (reward_msg P) xs)) (tm_rewards m) +
     (if tm_inner_instructions m = None
      then bool_encoded_len P 10 (tm_inner_instructions m = None) else 0) +
     (if tm_log_messages m = None then bool_encoded_len P 11 (tm_log_messages m = None) else 0) +
     pubkeys_encoded_len P 12 (tm_loaded_writable m) +
     pubkeys_encoded_len P 13 (tm_loaded_readonly m) +
     len_opt (\<lambda>r. message_encoded_len P 14 (return_data_msg P r)) (tm_return_data m) +
     (if tm_return_data m = None then bool_encoded_len P 15 (tm_return_data m = None) else 0) +
     len_opt (uint64_encoded_len P 16) (tm_compute_units_consumed m) +
     len_opt (uint64_encoded_len P 17) (tm_cost_units m)"

definition status_meta_msg ::
    "prost \<Rightarrow> 'e plugin_env \<Rightarrow> bytes \<Rightarrow> 'e transaction_status_meta \<Rightarrow> message_obj" where
  "status_meta_msg P E B m =
     \<lparr>mo_len = status_meta_encoded_len P E B m, mo_raw = status_meta_encode_raw P E B m\<rparr>"

subsection \<open>Updates\<close>

definition replica_transaction_encode_raw ::
    "prost \<Rightarrow> 'e plugin_env \<Rightarrow> bytes \<Rightarrow> 'e replica_transaction \<Rightarrow> bytes" where
  "replica_transaction_encode_raw P E B t =
     (let index = rt_index t in
      bytes_encode P 1 (rt_signature t) @
      (if rt_is_vote t then bool_encode P 2 (rt_is_vote t) else []) @
      message_encode P 3 (versioned_transaction_msg P (rt_transaction t)) @
      message_encode P 4 (status_meta_msg P E B (rt_meta t)) @
      (if index \<noteq> 0 then uint64_encode P 5 index else []))"

definition replica_transaction_encoded_len ::
    "prost \<Rightarrow> 'e plugin_env \<Rightarrow> bytes \<Rightarrow> 'e replica_transaction \<Rightarrow> nat" where
  "replica_transaction_encoded_len P E B t =
     (let index = rt_index t in
      bytes_encoded_len P 1 (rt_signature t) +
      (if rt_is_vote t then bool_encoded_len P 2 (rt_is_vote t) else 0) +
      message_encoded_len P 3 (versioned_transaction_msg P (rt_transaction t)) +
      message_encoded_len P 4 (status_meta_msg P E B (rt_meta t)) +
      (if index \<noteq> 0 then uint64_encoded_len P 5 index else 0))"

definition replica_transaction_msg ::
    "prost \<Rightarrow> 'e plugin_env \<Rightarrow> bytes \<Rightarrow> 'e replica_transaction \<Rightarrow> message_obj" where
  "replica_transaction_msg P E B t =
     \<lparr>mo_len = replica_transaction_encoded_len P E B t, mo_raw = replica_transaction_encode_raw P E B t\<rparr>"

definition transaction_encode_raw ::
    "prost \<Rightarrow> 'e plugin_env \<Rightarrow> bytes \<Rightarrow> slot \<Rightarrow> bank_id \<Rightarrow> 'e replica_transaction \<Rightarrow> bytes" where
  "transaction_encode_raw P E B sl bank t =
     message_encode P 1 (replica_transaction_msg P E B t) @
     (if sl \<noteq> 0 then uint64_encode P 2 sl else []) @
     (if bank \<noteq> 0 then uint64_encode P 3 bank else [])"

definition transaction_encoded_len ::
    "prost \<Rightarrow> 'e plugin_env \<Rightarrow> bytes \<Rightarrow> slot \<Rightarrow> bank_id \<Rightarrow> 'e replica_transaction \<Rightarrow> nat" where
  "transaction_encoded_len P E B sl bank t =
     message_encoded_len P 1 (replica_transaction_msg P E B t) +
     (if sl \<noteq> 0 then uint64_encoded_len P 2 sl else 0) +
     (if bank \<noteq> 0 then uint64_encoded_len P 3 bank else 0)"

definition transaction_msg ::
    "prost \<Rightarrow> 'e plugin_env \<Rightarrow> bytes \<Rightarrow> slot \<Rightarrow> bank_id \<Rightarrow> 'e replica_transaction \<Rightarrow> message_obj" where
  "transaction_msg P E B sl bank t = \<lparr>mo_len = transaction_encoded_len P E B sl bank t,
     mo_raw = transaction_encode_raw P E B sl bank t\<rparr>"

definition replica_deshred_encode_raw :: "prost \<Rightarrow> replica_deshred_transaction \<Rightarrow> bytes" where
  "replica_deshred_encode_raw P tx =
     bytes_encode P 1 (rdt_signature tx) @
     (if rdt_is_vote tx then bool_encode P 2 (rdt_is_vote tx) else []) @
     message_encode P 3 (versioned_transaction_msg P (rdt_transaction tx)) @
     enc_opt (\<lambda>(writable, readonly). pubkeys_encode P 4 writable @ pubkeys_encode P 5 readonly)
       (rdt_loaded_addresses tx) @
     (if rdt_completed_data_set_starting_shred_index tx \<noteq> 0
      then uint32_encode P 6 (rdt_completed_data_set_starting_shred_index tx) else []) @
     (if rdt_completed_data_set_ending_shred_index_exclusive tx \<noteq> 0
      then uint32_encode P 7 (rdt_completed_data_set_ending_shred_index_exclusive tx) else [])"

definition replica_deshred_encoded_len :: "prost \<Rightarrow> replica_deshred_transaction \<Rightarrow> nat" where
  "replica_deshred_encoded_len P tx =
     bytes_encoded_len P 1 (rdt_signature tx) +
     (if rdt_is_vote tx then bool_encoded_len P 2 (rdt_is_vote tx) else 0) +
     message_encoded_len P 3 (versioned_transaction_msg P (rdt_transaction tx)) +
     len_opt (\<lambda>(writable, readonly). pubkeys_encoded_len P 4 writable + pubkeys_encoded_len P 5 readonly)
       (rdt_loaded_addresses tx) +
     (if rdt_completed_data_set_starting_shred_index tx \<noteq> 0
      then uint32_encoded_len P 6 (rdt_completed_data_set_starting_shred_index tx) else 0) +
     (if rdt_completed_data_set_ending_shred_index_exclusive tx \<noteq> 0
      then uint32_encoded_len P 7 (rdt_completed_data_set_ending_shred_index_exclusive tx) else 0)"

definition replica_deshred_msg :: "prost \<Rightarrow> replica_deshred_transaction \<Rightarrow> message_obj" where
  "replica_deshred_msg P tx =
     \<lparr>mo_len = replica_deshred_encoded_len P tx, mo_raw = replica_deshred_encode_raw P tx\<rparr>"

definition deshred_transaction_encode_raw :: "prost \<Rightarrow> slot \<Rightarrow> replica_deshred_transaction \<Rightarrow> bytes" where
  "deshred_transaction_encode_raw P sl tx =
     message_encode P 1 (replica_deshred_msg P tx) @
     (if sl \<noteq> 0 then uint64_encode P 2 sl else [])"

definition deshred_transaction_encoded_len :: "prost \<Rightarrow> slot \<Rightarrow> replica_deshred_transaction \<Rightarrow> nat" where
  "deshred_transaction_encoded_len P sl tx =
     message_encoded_len P 1 (replica_deshred_msg P tx) +
     (if sl \<noteq> 0 then uint64_encoded_len P 2 sl else 0)"

definition deshred_transaction_msg :: "prost \<Rightarrow> slot \<Rightarrow> replica_deshred_transaction \<Rightarrow> message_obj" where
  "deshred_transaction_msg P sl tx = \<lparr>mo_len = deshred_transaction_encoded_len P sl tx,
     mo_raw = deshred_transaction_encode_raw P sl tx\<rparr>"

subsection \<open>Array lengths\<close>

text \<open>\<open>Signature\<close> is a \<open>[u8; 64]\<close> and \<open>Pubkey\<close> a \<open>[u8; 32]\<close>; the two length functions
  that multiply by the number of elements rely on it.\<close>

definition keys_sized :: "bytes list \<Rightarrow> bool" where
  "keys_sized ks \<longleftrightarrow> (\<forall>k\<in>set ks. length k = PUBKEY_BYTES)"

definition signatures_sized :: "bytes list \<Rightarrow> bool" where
  "signatures_sized ss \<longleftrightarrow> (\<forall>s\<in>set ss. length s = SIGNATURE_BYTES)"

fun message_sized :: "versioned_message \<Rightarrow> bool" where
  "message_sized (VM_Legacy m) = keys_sized (lm_account_keys m)"
| "message_sized (VM_V0 m) = keys_sized (m0_account_keys m)"
| "message_sized (VM_V1 m) = keys_sized (m1_account_keys m)"

definition transaction_sized :: "versioned_transaction \<Rightarrow> bool" where
  "transaction_sized t \<longleftrightarrow> signatures_sized (vt_signatures t) \<and> message_sized (vt_message t)"

definition replica_transaction_sized :: "'e replica_transaction \<Rightarrow> bool" where
  "replica_transaction_sized t \<longleftrightarrow> transaction_sized (rt_transaction t) \<and>
     keys_sized (tm_loaded_writable (rt_meta t)) \<and> keys_sized (tm_loaded_readonly (rt_meta t))"

definition replica_deshred_sized :: "replica_deshred_transaction \<Rightarrow> bool" where
  "replica_deshred_sized t \<longleftrightarrow> transaction_sized (rdt_transaction t) \<and>
     (case rdt_loaded_addresses t of None \<Rightarrow> True
      | Some (writable, readonly) \<Rightarrow> keys_sized writable \<and> keys_sized readonly)"

subsection \<open>Lemmas\<close>

lemma transaction_error_buffer: "transaction_error_msg P E B err = transaction_error_msg P E B' err"
  by (simp add: transaction_error_msg_def transaction_error_encoded_len_def)

context prost_codec
begin

lemma same_length_fields:
  assumes "\<forall>k\<in>set ks. length k = n"
  shows "length (concat (map (bytes_encode P t) ks)) =
    (key_len P t + encoded_len_varint P (of_nat n) + n) * length ks"
  using assms
  by (induction ks) (simp_all add: bytes_encode_wire bytes_encoded_len_def algebra_simps)

lemma pubkeys_wire [wire_len]:
  "keys_sized ks \<Longrightarrow> length (pubkeys_encode P t ks) = pubkeys_encoded_len P t ks"
  by (simp add: keys_sized_def pubkeys_encode_def pubkeys_encoded_len_def same_length_fields)

lemma signatures_wire [wire_len]:
  "signatures_sized ss \<Longrightarrow> length (signatures_encode P t ss) = signatures_encoded_len P t ss"
  by (simp add: signatures_sized_def signatures_encode_def signatures_encoded_len_def
      same_length_fields)

lemma versioned_wire [wire_len]: "length (versioned_encode P t c) = versioned_encoded_len P t c"
  by (simp add: versioned_encode_def versioned_encoded_len_def wire_len)

lemma repeated_map_wire:
  assumes "\<And>x. message_ok (f x)"
  shows "length (message_encode_repeated P t (map f xs)) = message_encoded_len_repeated P t (map f xs)"
  by (rule repeated_wire) (simp add: assms)

lemma message_header_ok: "message_ok (message_header_msg P h)"
  by (simp add: message_header_msg_def message_header_encode_raw_def message_header_encoded_len_def
      Let_def wire_len cong: if_cong split del: if_split)

lemma compiled_instruction_ok: "message_ok (compiled_instruction_msg P c)"
  by (simp add: compiled_instruction_msg_def compiled_instruction_encode_raw_def
      compiled_instruction_encoded_len_def Let_def wire_len cong: if_cong split del: if_split)

lemma address_table_lookup_ok: "message_ok (address_table_lookup_msg P l)"
  by (simp add: address_table_lookup_msg_def address_table_lookup_encode_raw_def
      address_table_lookup_encoded_len_def wire_len cong: if_cong split del: if_split)

lemma transaction_config_ok: "message_ok (transaction_config_msg P c)"
  by (simp add: transaction_config_msg_def transaction_config_encode_raw_def
      transaction_config_encoded_len_def wire_len)

lemma inner_instruction_ok: "message_ok (inner_instruction_msg P i)"
  by (simp add: inner_instruction_msg_def inner_instruction_encode_raw_def
      inner_instruction_encoded_len_def Let_def wire_len cong: if_cong split del: if_split)

lemma inner_instructions_ok: "message_ok (inner_instructions_msg P i)"
  by (simp add: inner_instructions_msg_def inner_instructions_encode_raw_def
      inner_instructions_encoded_len_def Let_def wire_len repeated_map_wire inner_instruction_ok
      cong: if_cong split del: if_split)

lemma ui_token_amount_ok: "message_ok (ui_token_amount_msg P a)"
  by (simp add: ui_token_amount_msg_def ui_token_amount_encode_raw_def
      ui_token_amount_encoded_len_def Let_def wire_len cong: if_cong split del: if_split)

lemma token_balance_ok: "message_ok (token_balance_msg P b)"
  by (simp add: token_balance_msg_def token_balance_encode_raw_def token_balance_encoded_len_def
      Let_def wire_len ui_token_amount_ok cong: if_cong split del: if_split)

lemma return_data_ok: "message_ok (return_data_msg P r)"
  by (simp add: return_data_msg_def return_data_encode_raw_def return_data_encoded_len_def wire_len
      cong: if_cong split del: if_split)

lemma transaction_error_ok: "message_ok (transaction_error_msg P E B err)"
  by (simp add: transaction_error_msg_def transaction_error_encoded_len_def
      transaction_error_encode_raw_def Let_def wire_len)

lemma status_meta_ok:
  assumes "keys_sized (tm_loaded_writable m)" and "keys_sized (tm_loaded_readonly m)"
  shows "message_ok (status_meta_msg P E B m)"
proof -
  have "length (case tm_status m of
      Inl err \<Rightarrow> message_encode P 1 (transaction_error_msg P E B err) | Inr _ \<Rightarrow> []) =
    (case tm_status m of
      Inl err \<Rightarrow> message_encoded_len P 1 (transaction_error_msg P E B err) | Inr _ \<Rightarrow> 0)"
    by (cases "tm_status m") (simp_all add: message_wire transaction_error_ok)
  with assms show ?thesis
    by (simp add: status_meta_msg_def status_meta_encode_raw_def status_meta_encoded_len_def
        wire_len repeated_map_wire inner_instructions_ok token_balance_ok reward_ok return_data_ok
        cong: if_cong split del: if_split)
qed

lemma versioned_message_ok:
  assumes "message_sized m"
  shows "message_ok (versioned_message_msg P m)"
  using assms
  by (cases m) (simp_all add: versioned_message_msg_def wire_len message_header_ok
      compiled_instruction_ok address_table_lookup_ok transaction_config_ok repeated_map_wire)

lemma versioned_transaction_ok:
  assumes "transaction_sized t"
  shows "message_ok (versioned_transaction_msg P t)"
  using assms
  by (simp add: transaction_sized_def versioned_transaction_msg_def
      versioned_transaction_encode_raw_def versioned_transaction_encoded_len_def wire_len
      versioned_message_ok)

lemma replica_transaction_ok:
  assumes "replica_transaction_sized t"
  shows "message_ok (replica_transaction_msg P E B t)"
  using assms
  by (simp add: replica_transaction_sized_def replica_transaction_msg_def Let_def
      replica_transaction_encode_raw_def replica_transaction_encoded_len_def wire_len
      versioned_transaction_ok status_meta_ok cong: if_cong split del: if_split)

lemma transaction_ok:
  assumes "replica_transaction_sized t"
  shows "message_ok (transaction_msg P E B sl bank t)"
  using replica_transaction_ok [OF assms, of E B]
  by (simp add: transaction_msg_def transaction_encode_raw_def transaction_encoded_len_def wire_len
      cong: if_cong split del: if_split)

lemma deshred_transaction_ok:
  assumes "replica_deshred_sized t"
  shows "message_ok (deshred_transaction_msg P sl t)"
proof -
  have "message_ok (replica_deshred_msg P t)"
    using assms
    by (cases "rdt_loaded_addresses t")
      (auto simp: replica_deshred_sized_def replica_deshred_msg_def
        replica_deshred_encode_raw_def replica_deshred_encoded_len_def wire_len
        versioned_transaction_ok cong: if_cong split del: if_split)
  then show ?thesis
    by (simp add: deshred_transaction_msg_def deshred_transaction_encode_raw_def
        deshred_transaction_encoded_len_def wire_len cong: if_cong split del: if_split)
qed

end

end
