(* ===== verification/Prost_Reference.thy ===== *)
theory Prost_Reference
  imports Prost_Wire
begin

text \<open>
  The Protocol Buffers wire format as a concrete value of the \<open>prost\<close> interface:
  little-endian base-128 varints of at most ten bytes, keys \<open>(tag << 3) | type\<close>, and
  length-delimited payloads. It shows that the laws of \<open>prost_codec\<close> can hold
  together and it is the instance at which the properties are exercised.
\<close>

fun leb :: "nat \<Rightarrow> bytes" where
  "leb n = (if n < 128 then [of_nat n] else of_nat (128 + n mod 128) # leb (n div 128))"

declare leb.simps [simp del]

fun unleb :: "nat \<Rightarrow> bytes \<Rightarrow> (nat \<times> bytes) option" where
  "unleb 0 b = None"
| "unleb (Suc k) [] = None"
| "unleb (Suc k) (x # b) =
     (if unat x < 128 then Some (unat x, b)
      else case unleb k b of None \<Rightarrow> None | Some (n, r) \<Rightarrow> Some (unat x - 128 + 128 * n, r))"

definition ref_encode_varint :: "u64 \<Rightarrow> bytes" where
  "ref_encode_varint v = leb (unat v)"

definition ref_decode_varint :: "bytes \<Rightarrow> decode_error + (u64 \<times> bytes)" where
  "ref_decode_varint b = (case unleb 10 b of
     None \<Rightarrow> Inl (DecodeError ''invalid varint'' [])
   | Some (n, r) \<Rightarrow> if n < 2 ^ 64 then Inr (of_nat n, r) else Inl (DecodeError ''invalid varint'' []))"

fun wire_code :: "wire_type \<Rightarrow> nat" where
  "wire_code Varint = 0"
| "wire_code SixtyFourBit = 1"
| "wire_code LengthDelimited = 2"
| "wire_code StartGroup = 3"
| "wire_code EndGroup = 4"
| "wire_code ThirtyTwoBit = 5"

definition code_wire :: "nat \<Rightarrow> wire_type option" where
  "code_wire n = (if n = 0 then Some Varint else if n = 1 then Some SixtyFourBit
     else if n = 2 then Some LengthDelimited else if n = 3 then Some StartGroup
     else if n = 4 then Some EndGroup else if n = 5 then Some ThirtyTwoBit else None)"

definition ref_encode_key :: "u32 \<Rightarrow> wire_type \<Rightarrow> bytes" where
  "ref_encode_key t w = ref_encode_varint (of_nat (8 * unat t + wire_code w))"

definition ref_decode_key :: "bytes \<Rightarrow> decode_error + ((u32 \<times> wire_type) \<times> bytes)" where
  "ref_decode_key b = and_then (ref_decode_varint b) (\<lambda>(k, r).
     if unat k \<ge> 2 ^ 32 then Inl (DecodeError ''invalid key value'' [])
     else case code_wire (unat k mod 8) of
       None \<Rightarrow> Inl (DecodeError ''invalid wire type value'' [])
     | Some w \<Rightarrow> if unat k div 8 = 0 then Inl (DecodeError ''invalid tag value: 0'' [])
         else Inr ((of_nat (unat k div 8), w), r))"

definition ref_check_wire_type :: "wire_type \<Rightarrow> wire_type \<Rightarrow> decode_error + unit" where
  "ref_check_wire_type w w' = ensure (w = w') (DecodeError ''invalid wire type'' [])"

definition ref_skip_bytes :: "nat \<Rightarrow> bytes \<Rightarrow> decode_error + bytes" where
  "ref_skip_bytes n b = (if n \<le> length b then Inr (drop n b)
     else Inl (DecodeError ''buffer underflow'' []))"

fun ref_skip_field :: "wire_type \<Rightarrow> u32 \<Rightarrow> bytes \<Rightarrow> decode_error + bytes" where
  "ref_skip_field Varint t b = map_ok snd (ref_decode_varint b)"
| "ref_skip_field SixtyFourBit t b = ref_skip_bytes 8 b"
| "ref_skip_field ThirtyTwoBit t b = ref_skip_bytes 4 b"
| "ref_skip_field LengthDelimited t b =
     and_then (ref_decode_varint b) (\<lambda>(n, r). ref_skip_bytes (unat n) r)"
| "ref_skip_field StartGroup t b = Inl (DecodeError ''groups are not used'' [])"
| "ref_skip_field EndGroup t b = Inl (DecodeError ''unexpected end group tag'' [])"

definition ref_scalar :: "u32 \<Rightarrow> u64 \<Rightarrow> bytes" where
  "ref_scalar t v = ref_encode_key t Varint @ ref_encode_varint v"

definition ref_read :: "wire_type \<Rightarrow> bytes \<Rightarrow> decode_error + (u64 \<times> bytes)" where
  "ref_read w b = and_then (ref_check_wire_type Varint w) (\<lambda>_. ref_decode_varint b)"

definition ref_message :: "u32 \<Rightarrow> message_obj \<Rightarrow> bytes" where
  "ref_message t m =
     ref_encode_key t LengthDelimited @ ref_encode_varint (of_nat (mo_len m)) @ mo_raw m"

definition ref_message_len :: "u32 \<Rightarrow> message_obj \<Rightarrow> nat" where
  "ref_message_len t m = length (ref_encode_key t LengthDelimited) +
     length (ref_encode_varint (of_nat (mo_len m))) + mo_len m"

text \<open>\<open>google.protobuf.Timestamp\<close>: \<open>int64 seconds = 1; int32 nanos = 2;\<close>\<close>

definition ref_timestamp_raw :: "timestamp \<Rightarrow> bytes" where
  "ref_timestamp_raw ts =
     (if ts_seconds ts \<noteq> 0 then ref_scalar 1 (ts_seconds ts) else []) @
     (if ts_nanos ts \<noteq> 0 then ref_scalar 2 (scast (ts_nanos ts)) else [])"

fun ref_timestamp_fields :: "nat \<Rightarrow> timestamp \<Rightarrow> bytes \<Rightarrow> decode_error + timestamp" where
  "ref_timestamp_fields 0 ts b = Inl (DecodeError ''too many fields'' [])"
| "ref_timestamp_fields (Suc k) ts b =
     (if b = [] then Inr ts else
      and_then (ref_decode_key b) (\<lambda>((t, w), r). and_then (ref_read w r) (\<lambda>(v, r').
        if t = 1 then ref_timestamp_fields k (ts\<lparr>ts_seconds := v\<rparr>) r'
        else if t = 2 then ref_timestamp_fields k (ts\<lparr>ts_nanos := ucast v\<rparr>) r'
        else ref_timestamp_fields k ts r')))"

definition ref_timestamp_merge ::
    "wire_type \<Rightarrow> timestamp \<Rightarrow> bytes \<Rightarrow> decode_error + (timestamp \<times> bytes)" where
  "ref_timestamp_merge w old b = and_then (ref_check_wire_type LengthDelimited w) (\<lambda>_.
     and_then (ref_decode_varint b) (\<lambda>(n, r).
       if unat n \<le> length r
       then map_ok (\<lambda>ts. (ts, drop (unat n) r))
              (ref_timestamp_fields (Suc (unat n)) old (take (unat n) r))
       else Inl (DecodeError ''buffer underflow'' [])))"

fun ref_le_bytes :: "nat \<Rightarrow> u64 \<Rightarrow> bytes" where
  "ref_le_bytes 0 v = []"
| "ref_le_bytes (Suc k) v = ucast v # ref_le_bytes k (drop_bit 8 v)"

definition prost_ref :: prost where
  "prost_ref = \<lparr>
     encode_varint = ref_encode_varint,
     encoded_len_varint = (\<lambda>v. length (ref_encode_varint v)),
     decode_varint = ref_decode_varint,
     encode_key = ref_encode_key,
     key_len = (\<lambda>t. length (ref_encode_key t Varint)),
     decode_key = ref_decode_key,
     check_wire_type = ref_check_wire_type,
     skip_field = ref_skip_field,
     uint64_encode = ref_scalar,
     uint64_encoded_len = (\<lambda>t v. length (ref_scalar t v)),
     uint64_merge = ref_read,
     uint32_encode = (\<lambda>t x. ref_scalar t (ucast x)),
     uint32_encoded_len = (\<lambda>t x. length (ref_scalar t (ucast x))),
     int64_encode = ref_scalar,
     int64_encoded_len = (\<lambda>t v. length (ref_scalar t v)),
     int32_encode = (\<lambda>t x. ref_scalar t (scast x)),
     int32_encoded_len = (\<lambda>t x. length (ref_scalar t (scast x))),
     int32_merge = (\<lambda>w b. map_ok (\<lambda>(v, r). (ucast v, r)) (ref_read w b)),
     bool_encode = (\<lambda>t c. ref_scalar t (if c then 1 else 0)),
     bool_encoded_len = (\<lambda>t c. length (ref_scalar t (if c then 1 else 0))),
     bool_merge = (\<lambda>w b. map_ok (\<lambda>(v, r). (v \<noteq> 0, r)) (ref_read w b)),
     string_encode = (\<lambda>t s. ref_message t \<lparr>mo_len = length s, mo_raw = s\<rparr>),
     string_encoded_len = (\<lambda>t s. ref_message_len t \<lparr>mo_len = length s, mo_raw = s\<rparr>),
     message_encode = ref_message,
     message_encoded_len = ref_message_len,
     message_encode_repeated = (\<lambda>t ms. concat (map (ref_message t) ms)),
     message_encoded_len_repeated = (\<lambda>t ms. sum_list (map (ref_message_len t) ms)),
     timestamp_msg = (\<lambda>ts. \<lparr>mo_len = length (ref_timestamp_raw ts), mo_raw = ref_timestamp_raw ts\<rparr>),
     timestamp_merge = ref_timestamp_merge,
     string_encode_repeated =
       (\<lambda>t ss. concat (map (\<lambda>s. ref_message t \<lparr>mo_len = length s, mo_raw = s\<rparr>) ss)),
     string_encoded_len_repeated =
       (\<lambda>t ss. sum_list (map (\<lambda>s. ref_message_len t \<lparr>mo_len = length s, mo_raw = s\<rparr>) ss)),
     uint64_encode_packed = (\<lambda>t vs. if vs = [] then [] else
       (let d = concat (map ref_encode_varint vs) in ref_message t \<lparr>mo_len = length d, mo_raw = d\<rparr>)),
     uint64_encoded_len_packed = (\<lambda>t vs. if vs = [] then 0 else
       (let d = concat (map ref_encode_varint vs) in ref_message_len t \<lparr>mo_len = length d, mo_raw = d\<rparr>)),
     double_encode = (\<lambda>t x. ref_encode_key t SixtyFourBit @ ref_le_bytes 8 x),
     double_encoded_len = (\<lambda>t x. length (ref_encode_key t Varint) + 8),
     pbytes_encode = (\<lambda>t s. ref_message t \<lparr>mo_len = length s, mo_raw = s\<rparr>),
     pbytes_encoded_len = (\<lambda>t s. ref_message_len t \<lparr>mo_len = length s, mo_raw = s\<rparr>)\<rparr>"

lemma leb_length: "n < 128 ^ k \<Longrightarrow> 0 < k \<Longrightarrow> length (leb n) \<le> k"
proof (induction n arbitrary: k rule: leb.induct)
  case (1 n)
  show ?case
  proof (cases "n < 128")
    case True
    then show ?thesis using "1.prems" by (simp add: leb.simps [of n])
  next
    case False
    with "1.prems" obtain j where k: "k = Suc j" and j: "0 < j"
      by (cases k; cases "k - 1") auto
    then have "n div 128 < 128 ^ j" using "1.prems" by (simp add: div_less_iff_less_mult mult.commute)
    then have "length (leb (n div 128)) \<le> j" using "1.IH" False j by blast
    then show ?thesis using False k by (simp add: leb.simps [of n])
  qed
qed

lemma unat_low_byte: "unat (of_nat (128 + n mod 128) :: u8) = 128 + n mod 128"
  by (simp add: unat_of_nat del: of_nat_add)

lemma unleb_leb: "n < 128 ^ k \<Longrightarrow> 0 < k \<Longrightarrow> unleb k (leb n @ r) = Some (n, r)"
proof (induction n arbitrary: k rule: leb.induct)
  case (1 n)
  show ?case
  proof (cases "n < 128")
    case True
    then show ?thesis using "1.prems" by (cases k) (simp_all add: leb.simps [of n] unat_of_nat)
  next
    case False
    with "1.prems" obtain j where k: "k = Suc j" and j: "0 < j"
      by (cases k; cases "k - 1") auto
    then have "n div 128 < 128 ^ j" using "1.prems" by (simp add: div_less_iff_less_mult mult.commute)
    then have "unleb j (leb (n div 128) @ r) = Some (n div 128, r)" using "1.IH" False j by blast
    then show ?thesis
      using False k by (simp add: leb.simps [of n] unat_low_byte del: of_nat_add)
  qed
qed

lemma unleb_prefix: "unleb k b = Some (n, r) \<Longrightarrow> \<exists>p. p \<noteq> [] \<and> b = p @ r"
proof (induction k b arbitrary: n r rule: unleb.induct)
  case (3 k x b)
  show ?case
  proof (cases "unat x < 128")
    case True
    with "3.prems" have "x # b = [x] @ r" by simp
    then show ?thesis by blast
  next
    case False
    with "3.prems" obtain m where "unleb k b = Some (m, r)" by (auto split: option.splits)
    with "3.IH" False obtain p where "b = p @ r" by blast
    then have "x # b = (x # p) @ r" by simp
    then show ?thesis by blast
  qed
qed simp_all

lemma ref_decode_encode [simp]: "ref_decode_varint (ref_encode_varint v @ r) = Inr (v, r)"
proof -
  have lt: "unat v < 2 ^ 64" using unat_less_2p [of v] by simp
  then have "unleb 10 (leb (unat v) @ r) = Some (unat v, r)" by (intro unleb_leb) auto
  with lt show ?thesis by (simp add: ref_decode_varint_def ref_encode_varint_def)
qed

lemma ref_decode_prefix: "ref_decode_varint b = Inr (v, r) \<Longrightarrow> \<exists>p. p \<noteq> [] \<and> b = p @ r"
  by (auto simp: ref_decode_varint_def dest: unleb_prefix split: option.splits if_splits)

lemma ref_varint_length: "length (ref_encode_varint v) \<le> 10"
proof -
  have "unat v < 128 ^ 10" using unat_less_2p [of v] by simp
  then show ?thesis by (simp add: ref_encode_varint_def leb_length)
qed

lemma wire_code_less: "wire_code w < 8"
  by (cases w) simp_all

lemma code_wire_code [simp]: "code_wire (wire_code w) = Some w"
  by (cases w) (simp_all add: code_wire_def)

lemma ref_key_num:
  fixes t :: u32
  shows "unat (of_nat (8 * unat t + wire_code w) :: u64) = 8 * unat t + wire_code w"
proof -
  have "unat t < 2 ^ 32" using unat_less_2p [of t] by simp
  then have "8 * unat t + wire_code w < 2 ^ 64" using wire_code_less [of w] by simp
  then show ?thesis by (simp add: unat_of_nat del: of_nat_add)
qed

lemma leb_length_key:
  "length (leb (8 * n + wire_code w)) = length (leb (8 * n + wire_code w'))"
proof (cases "n < 16")
  case True
  then have "8 * n + wire_code w < 128" and "8 * n + wire_code w' < 128"
    using wire_code_less [of w] wire_code_less [of w'] by linarith+
  then show ?thesis by (simp add: leb.simps)
next
  case False
  then have ge: "\<not> 8 * n + wire_code w < 128" "\<not> 8 * n + wire_code w' < 128" by simp_all
  have "(8 * n + c) div 128 = n div 16" if "c < 8" for c :: nat
  proof -
    have "(8 * n + c) div 128 = (8 * n + c) div 8 div 16" by (simp add: div_mult2_eq)
    also have "(8 * n + c) div 8 = n" using that by simp
    finally show ?thesis .
  qed
  then have "(8 * n + wire_code w) div 128 = (8 * n + wire_code w') div 128"
    by (metis wire_code_less)
  then show ?thesis
    using ge by (simp add: leb.simps [of "8 * n + wire_code w"] leb.simps [of "8 * n + wire_code w'"])
qed

lemma ref_key_length: "length (ref_encode_key t w) = length (ref_encode_key t w')"
  by (simp add: ref_encode_key_def ref_encode_varint_def ref_key_num leb_length_key
      del: of_nat_add of_nat_mult)

lemma ref_decode_encode_key:
  assumes "valid_tag t"
  shows "ref_decode_key (ref_encode_key t w @ r) = Inr ((t, w), r)"
proof -
  let ?k = "8 * unat t + wire_code w"
  have "?k < 2 ^ 32" and "?k mod 8 = wire_code w" and "?k div 8 = unat t" and "unat t \<noteq> 0"
    using assms wire_code_less [of w] by (auto simp: valid_tag_def)
  then show ?thesis
    by (simp add: ref_decode_key_def ref_encode_key_def ref_key_num del: of_nat_add of_nat_mult)
qed

lemma ref_key_prefix: "ref_decode_key b = Inr (k, r) \<Longrightarrow> \<exists>p. p \<noteq> [] \<and> b = p @ r"
  by (auto simp: ref_decode_key_def and_then_Inr_iff split: if_splits option.splits
      dest: ref_decode_prefix)

lemma ref_skip_prefix: "ref_skip_field w t b = Inr r \<Longrightarrow> \<exists>p. b = p @ r"
  by (cases w)
    (auto simp: ref_skip_bytes_def and_then_Inr_iff map_ok_Inr_iff split: if_splits
      dest!: ref_decode_prefix intro: append_take_drop_id [symmetric],
     (metis append_assoc append_take_drop_id)+)

lemma ref_read_back: "ref_read Varint (ref_encode_varint v @ r) = Inr (v, r)"
  by (simp add: ref_read_def ref_check_wire_type_def)

lemma valid_tag_12 [simp]: "valid_tag 1" "valid_tag 2"
  by (simp_all add: valid_tag_def)

lemma ref_scalar_nonempty: "ref_scalar t v \<noteq> []"
  by (simp add: ref_scalar_def ref_encode_varint_def leb.simps [of "unat v"])

lemma ref_timestamp_scalar:
  assumes "valid_tag t"
  shows "ref_timestamp_fields (Suc k) ts (ref_scalar t v @ r) =
    (if t = 1 then ref_timestamp_fields k (ts\<lparr>ts_seconds := v\<rparr>) r
     else if t = 2 then ref_timestamp_fields k (ts\<lparr>ts_nanos := ucast v\<rparr>) r
     else ref_timestamp_fields k ts r)"
proof -
  have "ref_scalar t v @ r \<noteq> []" using ref_scalar_nonempty by simp
  moreover have "ref_decode_key (ref_scalar t v @ r) = Inr ((t, Varint), ref_encode_varint v @ r)"
    using assms by (simp add: ref_scalar_def ref_decode_encode_key)
  ultimately show ?thesis
    unfolding ref_timestamp_fields.simps(2) by (simp only: if_False and_then_simps prod.case ref_read_back)
qed

lemma ref_timestamp_back:
  assumes "2 < k"
  shows "ref_timestamp_fields k timestamp_default (ref_timestamp_raw ts) = Inr ts"
proof -
  from assms have "k = Suc (Suc (Suc (k - 3)))" by simp
  then obtain j where k: "k = Suc (Suc (Suc j))" by blast
  note [simp del] = ref_timestamp_fields.simps(2)
  have nil: "ref_timestamp_fields (Suc i) t [] = Inr t" for i t
    by (simp add: ref_timestamp_fields.simps(2))
  have one: "ref_timestamp_fields (Suc (Suc i)) t (ref_scalar 2 (scast n)) = Inr (t\<lparr>ts_nanos := n\<rparr>)"
    for i t and n :: i32
    using ref_timestamp_scalar [of 2 "Suc i" t "scast n" "[]"] by (simp add: nil ucast_scast_i32)
  have two: "ref_timestamp_fields (Suc (Suc i)) t (ref_scalar 1 v) = Inr (t\<lparr>ts_seconds := v\<rparr>)" for i t v
    using ref_timestamp_scalar [of 1 "Suc i" t v "[]"] by (simp add: nil)
  show ?thesis
    by (cases ts) (simp add: ref_timestamp_raw_def timestamp_default_def k nil one two
        ref_timestamp_scalar)
qed

text \<open>The reference instance satisfies the documented laws.\<close>

lemma ref_scalar_length_len:
  "length (ref_scalar t v) = length (ref_encode_key t Varint) + length (ref_encode_varint v)"
  by (simp add: ref_scalar_def)

lemma ref_timestamp_raw_length: "length (ref_timestamp_raw ts) < 2 ^ 64"
proof -
  have "length (ref_encode_key t w) \<le> 10" for t w
    by (simp add: ref_encode_key_def ref_varint_length)
  then have b: "length (ref_scalar t v) \<le> 20" for t v
    using ref_varint_length [of v] by (simp add: ref_scalar_def add_mono [of _ 10 _ 10, simplified])
  have "length (ref_timestamp_raw ts) \<le> 40"
    using b [of 1 "ts_seconds ts"] b [of 2 "scast (ts_nanos ts)"] by (simp add: ref_timestamp_raw_def)
  then show ?thesis by simp
qed

lemma ref_timestamp_merge_back:
  "ref_timestamp_merge LengthDelimited timestamp_default
     (ref_encode_varint (of_nat (length (ref_timestamp_raw ts))) @ ref_timestamp_raw ts @ r) = Inr (ts, r)"
proof -
  let ?n = "length (ref_timestamp_raw ts)"
  have n: "unat (of_nat ?n :: u64) = ?n"
    using ref_timestamp_raw_length [of ts] by (simp add: unat_of_nat)
  have "ref_timestamp_fields (Suc ?n) timestamp_default (ref_timestamp_raw ts) = Inr ts"
  proof (cases "?n < 2")
    case True
    have "2 \<le> length (ref_scalar t v)" for t v
      by (simp add: ref_scalar_def ref_encode_key_def ref_encode_varint_def
          leb.simps [of "unat v"] leb.simps [of "unat (_ :: u64)"])
    with True have "ts_seconds ts = 0" and "ts_nanos ts = 0"
      by (auto simp: ref_timestamp_raw_def not_less split: if_splits)
        (metis add_lessD1 add.commute not_less)+
    then show ?thesis by (cases ts) (simp add: ref_timestamp_raw_def timestamp_default_def)
  next
    case False
    then show ?thesis by (intro ref_timestamp_back) simp
  qed
  then show ?thesis
    by (simp add: ref_timestamp_merge_def ref_check_wire_type_def n)
qed

lemma ref_timestamp_prefix:
  assumes "ref_timestamp_merge w old b = Inr (ts, r)"
  shows "\<exists>p. b = p @ r"
proof -
  from assms obtain n r0 where "ref_decode_varint b = Inr (n, r0)" and r: "r = drop (unat n) r0"
    by (auto simp: ref_timestamp_merge_def and_then_Inr_iff map_ok_Inr_iff split: if_splits
        simp del: ref_timestamp_fields.simps)
  then obtain p where "b = p @ r0" using ref_decode_prefix by blast
  then have "b = (p @ take (unat n) r0) @ r" by (simp add: r)
  then show ?thesis by blast
qed

lemma ref_repeated_len:
  "sum_list (map (ref_message_len t) ms) = length (ref_encode_key t Varint) * length ms +
     sum_list (map (\<lambda>m. mo_len m + length (ref_encode_varint (of_nat (mo_len m)))) ms)"
  by (induction ms) (simp_all add: ref_message_len_def ref_key_length [of t LengthDelimited Varint])

lemma ref_strings_len:
  "sum_list (map (\<lambda>s. ref_message_len t \<lparr>mo_len = length s, mo_raw = s\<rparr>) ss) =
     length (ref_encode_key t Varint) * length ss +
     sum_list (map (\<lambda>s. length (ref_encode_varint (of_nat (length s))) + length s) ss)"
  by (induction ss) (simp_all add: ref_message_len_def ref_key_length [of t LengthDelimited Varint])

lemma ref_le_bytes_length: "length (ref_le_bytes k v) = k"
  by (induction k arbitrary: v) simp_all

lemmas prost_ref_simps = prost.select_convs prost_ref_def

interpretation reference: prost_codec prost_ref
proof (unfold_locales, goal_cases)
  case (3 b v r) then show ?case by (simp add: prost_ref_simps ref_decode_prefix)
next
  case (4 t w) show ?case by (simp add: prost_ref_simps ref_key_length [of t w Varint])
next
  case (5 t w r) then show ?case by (simp add: prost_ref_simps ref_decode_encode_key)
next
  case (6 b k r) then show ?case by (simp add: prost_ref_simps ref_key_prefix)
next
  case (8 w w') then show ?case by (simp add: prost_ref_simps ref_check_wire_type_def)
next
  case (10 d n t r) then show ?case by (simp add: prost_ref_simps ref_skip_bytes_def)
next
  case (11 w t b r) then show ?case by (simp add: prost_ref_simps ref_skip_prefix)
next
  case (15 w b) then show ?case by (simp add: prost_ref_simps ref_read_def ref_check_wire_type_def)
next
  case (23 w b) then show ?case by (simp add: prost_ref_simps ref_read_def ref_check_wire_type_def)
next
  case (27 w b) then show ?case by (simp add: prost_ref_simps ref_read_def ref_check_wire_type_def)
next
  case (33 t ms) show ?case by (simp add: prost_ref_simps ref_repeated_len)
next
  case (35 ts) show ?case using ref_timestamp_raw_length [of ts] by (simp add: prost_ref_simps)
next
  case (37 w old b ts r) then show ?case by (simp add: prost_ref_simps ref_timestamp_prefix)
next
  case (39 t ss) show ?case by (simp add: prost_ref_simps ref_strings_len)
next
  case (40 t vs) show ?case by (simp add: prost_ref_simps ref_message_def Let_def length_concat comp_def)
next
  case (41 t vs)
  show ?case
    by (simp add: prost_ref_simps ref_message_len_def Let_def length_concat comp_def
        ref_key_length [of t LengthDelimited Varint])
next
  case (42 t x)
  have "length (ref_le_bytes 8 x) = 8" by (simp add: ref_le_bytes_length)
  then show ?case by (auto simp: prost_ref_simps)
qed (simp_all add: prost_ref_simps ref_check_wire_type_def ref_scalar_def ref_read_def
    ref_message_def ref_message_len_def ref_key_length [of _ LengthDelimited Varint]
    message_ok_def ref_timestamp_merge_back)

lemma leb_length_iff: "0 < k \<Longrightarrow> length (leb n) \<le> k \<longleftrightarrow> n < 128 ^ k"
proof (induction n arbitrary: k rule: leb.induct)
  case (1 n)
  show ?case
  proof (cases "n < 128")
    case True
    have "(128 :: nat) \<le> 128 ^ k" using "1.prems" self_le_power [of 128 k] by simp
    with True "1.prems" show ?thesis by (simp add: leb.simps [of n])
  next
    case False
    obtain j where k: "k = Suc j" using "1.prems" by (cases k) auto
    show ?thesis
    proof (cases "j = 0")
      case True
      then show ?thesis using False k by (simp add: leb.simps [of n] leb.simps [of "n div 128"])
    next
      case j: False
      have "n < 128 ^ k \<longleftrightarrow> n div 128 < 128 ^ j" using k by (simp add: div_less_iff_less_mult mult.commute)
      then show ?thesis using "1.IH" [OF False, of j] j k False by (simp add: leb.simps [of n])
    qed
  qed
qed

interpretation reference_varint: prost_varint prost_ref
  by unfold_locales (simp add: prost_ref_def ref_encode_varint_def leb_length_iff)

end
