(* ===== verification/Plugin_Message.thy ===== *)
theory Plugin_Message
  imports Plugin_Transaction Prost_Reference
begin

text \<open>
  The outer message of the Geyser plugin (\<open>plugin-agave/src/protobuf/message.rs\<close>):
  \<open>ProtobufMessage\<close>, its slot and its \<open>encode_raw\<close>. The panic of a socket address that does
  not fit its buffer is \<open>None\<close>.
\<close>

datatype 'e protobuf_message =
  PM_Account slot "bank_id option" replica_account
| PM_Slot slot "u64 option" slot_status "bank_id option"
| PM_Transaction slot bank_id "'e replica_transaction"
| PM_Entry bank_id replica_entry
| PM_BlockMeta bank_id replica_block
| PM_DeshredTransaction slot replica_deshred_transaction
| PM_ContactInfo replica_contact_info
| PM_ContactInfoRemoved bytes
| PM_BlockFooter slot bank_id versioned_block_footer
| PM_EntryUpdateParent replica_entry_update_parent
| PM_DeshredUpdateParent replica_deshred_update_parent

fun get_slot :: "'e protobuf_message \<Rightarrow> slot option" where
  "get_slot (PM_Account sl _ _) = Some sl"
| "get_slot (PM_Slot sl _ _ _) = Some sl"
| "get_slot (PM_Transaction sl _ _) = Some sl"
| "get_slot (PM_Entry _ entry) = Some (re_slot entry)"
| "get_slot (PM_BlockMeta _ blockinfo) = Some (rb_slot blockinfo)"
| "get_slot (PM_DeshredTransaction sl _) = Some sl"
| "get_slot (PM_ContactInfo _) = None"
| "get_slot (PM_ContactInfoRemoved _) = None"
| "get_slot (PM_BlockFooter sl _ _) = Some sl"
| "get_slot (PM_EntryUpdateParent info) = Some (eu_slot info)"
| "get_slot (PM_DeshredUpdateParent info) = Some (du_slot info)"

text \<open>The tag and message of each variant, as \<open>encode_raw\<close> lists them; \<open>B\<close> is the
  thread-local buffer of the transaction encoder.\<close>

fun raw_message :: "prost \<Rightarrow> 'e plugin_env \<Rightarrow> bytes \<Rightarrow> 'e protobuf_message \<Rightarrow>
    (u32 \<times> message_obj) option" where
  "raw_message P E B (PM_Account sl bank account) = Some (2, account_msg P sl bank account)"
| "raw_message P E B (PM_Slot sl parent status bank) = Some (3, slot_msg P sl parent status bank)"
| "raw_message P E B (PM_Transaction sl bank transaction) =
     Some (4, transaction_msg P E B sl bank transaction)"
| "raw_message P E B (PM_BlockMeta bank blockinfo) = Some (7, block_meta_msg P E blockinfo bank)"
| "raw_message P E B (PM_Entry bank entry) = Some (8, entry_msg P entry bank)"
| "raw_message P E B (PM_DeshredTransaction sl transaction) =
     Some (100, deshred_transaction_msg P sl transaction)"
| "raw_message P E B (PM_ContactInfo info) = map_option (Pair 101) (contact_info_msg P info)"
| "raw_message P E B (PM_ContactInfoRemoved pubkey) = Some (102, contact_info_removed_msg P pubkey)"
| "raw_message P E B (PM_BlockFooter sl bank block_footer) =
     Some (103, block_footer_msg P E sl bank block_footer)"
| "raw_message P E B (PM_EntryUpdateParent info) = Some (104, entry_update_parent_msg P info)"
| "raw_message P E B (PM_DeshredUpdateParent info) = Some (105, deshred_update_parent_msg P info)"

text \<open>The capacity the vector is created with, and the bytes written to it.\<close>

definition encode_raw_size :: "prost \<Rightarrow> u32 \<Rightarrow> message_obj \<Rightarrow> timestamp \<Rightarrow> nat" where
  "encode_raw_size P tag msg created_at =
     message_encoded_len P tag msg + message_encoded_len P 11 (timestamp_msg P created_at)"

definition encode_raw_bytes :: "prost \<Rightarrow> u32 \<Rightarrow> message_obj \<Rightarrow> timestamp \<Rightarrow> bytes" where
  "encode_raw_bytes P tag msg created_at =
     (if tag < 11
      then message_encode P tag msg @ message_encode P 11 (timestamp_msg P created_at)
      else message_encode P 11 (timestamp_msg P created_at) @ message_encode P tag msg)"

definition message_encode_raw ::
    "prost \<Rightarrow> 'e plugin_env \<Rightarrow> bytes \<Rightarrow> 'e protobuf_message \<Rightarrow> timestamp \<Rightarrow> bytes option" where
  "message_encode_raw P E B m created_at =
     map_option (\<lambda>(tag, msg). encode_raw_bytes P tag msg created_at) (raw_message P E B m)"

definition message_encode_capacity ::
    "prost \<Rightarrow> 'e plugin_env \<Rightarrow> bytes \<Rightarrow> 'e protobuf_message \<Rightarrow> timestamp \<Rightarrow> nat option" where
  "message_encode_capacity P E B m created_at =
     map_option (\<lambda>(tag, msg). encode_raw_size P tag msg created_at) (raw_message P E B m)"

fun message_input_ok :: "'e protobuf_message \<Rightarrow> bool" where
  "message_input_ok (PM_Transaction _ _ t) = replica_transaction_sized t"
| "message_input_ok (PM_DeshredTransaction _ t) = replica_deshred_sized t"
| "message_input_ok _ = True"

text \<open>The generated messages of an environment that writes nothing, for concrete runs.\<close>

definition empty_env :: "unit plugin_env" where
  "empty_env = \<lparr>unix_timestamp_msg = (\<lambda>_. \<lparr>mo_len = 0, mo_raw = []\<rparr>),
     block_height_msg = (\<lambda>_. \<lparr>mo_len = 0, mo_raw = []\<rparr>),
     num_partitions_msg = (\<lambda>_. \<lparr>mo_len = 0, mo_raw = []\<rparr>),
     wincode_serialize = (\<lambda>_. Some []), bincode_tx_error = (\<lambda>_. [8, 0, 0, 0])\<rparr>"

subsection \<open>The text of a socket address\<close>

text \<open>\<open>SocketAddrBuffer::format\<close> receives the text of a \<open>SocketAddr\<close> in pieces. What these
  pieces spell is fixed by the \<open>Display\<close> instances of the standard library, written out
  here: decimal octets, the \<open>::ffff:\<close> form of an IPv4-mapped address, the longest run of
  zero segments replaced by \<open>::\<close>, lower-case hexadecimal segments, the scope of an IPv6
  socket when it is not 0, and the port. A segment list has the eight segments of the address.\<close>

datatype socket_address =
  SocketV4 u8 u8 u8 u8 u16
| SocketV6 "u16 list" u32 u16

definition digit_char :: "nat \<Rightarrow> u8" where
  "digit_char d = (if d < 10 then 48 + of_nat d else 87 + of_nat d)"

function digits :: "nat \<Rightarrow> nat \<Rightarrow> bytes" where
  "digits base n = (if base < 2 \<or> n < base then [digit_char n]
     else digits base (n div base) @ [digit_char (n mod base)])"
  by pat_completeness auto
termination
  by (relation "measure snd") auto

declare digits.simps [simp del]

definition ipv4_display :: "u8 \<Rightarrow> u8 \<Rightarrow> u8 \<Rightarrow> u8 \<Rightarrow> bytes" where
  "ipv4_display a b c d = digits 10 (unat a) @ [46] @ digits 10 (unat b) @ [46] @
     digits 10 (unat c) @ [46] @ digits 10 (unat d)"

text \<open>The longest run of zero segments: start and length of the longest and of the current run.\<close>

fun zero_span :: "nat \<Rightarrow> nat \<times> nat \<Rightarrow> nat \<times> nat \<Rightarrow> u16 list \<Rightarrow> nat \<times> nat" where
  "zero_span i longest current [] = longest"
| "zero_span i longest current (s # ss) =
     (if s = 0 then
        let current' = (if snd current = 0 then i else fst current, Suc (snd current))
        in zero_span (Suc i) (if snd current' > snd longest then current' else longest) current' ss
      else zero_span (Suc i) longest (0, 0) ss)"

fun segments_display :: "u16 list \<Rightarrow> bytes" where
  "segments_display [] = []"
| "segments_display [s] = digits 16 (unat s)"
| "segments_display (s # ss) = digits 16 (unat s) @ [58] @ segments_display ss"

definition ipv6_display :: "u16 list \<Rightarrow> bytes" where
  "ipv6_display segs =
     (if take 5 segs = [0, 0, 0, 0, 0] \<and> segs ! 5 = 65535 then
        [58, 58, 102, 102, 102, 102, 58] @
        ipv4_display (ucast (drop_bit 8 (segs ! 6))) (ucast (segs ! 6))
          (ucast (drop_bit 8 (segs ! 7))) (ucast (segs ! 7))
      else case zero_span 0 (0, 0) (0, 0) segs of (start, len) \<Rightarrow>
        if len > 1 then segments_display (take start segs) @ [58, 58] @ segments_display (drop (start + len) segs)
        else segments_display segs)"

fun socket_display :: "socket_address \<Rightarrow> bytes" where
  "socket_display (SocketV4 a b c d port) = ipv4_display a b c d @ [58] @ digits 10 (unat port)"
| "socket_display (SocketV6 segs scope port) =
     [91] @ ipv6_display segs @ (if scope = 0 then [] else [37] @ digits 10 (unat scope)) @
     [93, 58] @ digits 10 (unat port)"

fun socket_address_ok :: "socket_address \<Rightarrow> bool" where
  "socket_address_ok (SocketV4 _ _ _ _ _) = True"
| "socket_address_ok (SocketV6 segs _ _) = (length segs = 8)"

text \<open>The pieces that the formatting of a contact info writes spell socket addresses.\<close>

fun sockets_displayed :: "'e protobuf_message \<Rightarrow> bool" where
  "sockets_displayed (PM_ContactInfo i) =
     (\<forall>(t, a)\<in>set (contact_info_sockets i).
        case a of None \<Rightarrow> True | Some s \<Rightarrow> \<exists>x. socket_address_ok x \<and> concat s = socket_display x)"
| "sockets_displayed _ = True"

subsection \<open>Lemmas\<close>

text \<open>The longest text of a socket address has 58 bytes.\<close>

lemma length_digits:
  assumes "1 < base" and "n < base ^ Suc k"
  shows "length (digits base n) \<le> Suc k"
  using assms(2)
proof (induction k arbitrary: n)
  case 0
  then show ?case by (simp add: digits.simps [of base n])
next
  case (Suc k)
  show ?case
  proof (cases "n < base")
    case False
    have "n div base < base ^ Suc k"
      using less_mult_imp_div_less [of n "base ^ Suc k" base] Suc.prems by (simp add: mult.commute)
    then show ?thesis using Suc.IH [of "n div base"] False assms(1) by (simp add: digits.simps [of base n])
  qed (simp add: digits.simps [of base n])
qed

lemma length_word_digits:
  "length (digits 10 (unat (b :: u8))) \<le> 3" "length (digits 10 (unat (p :: u16))) \<le> 5"
  "length (digits 10 (unat (q :: u32))) \<le> 10" "length (digits 16 (unat (p :: u16))) \<le> 4"
  using length_digits [of 10 "unat b" 2] length_digits [of 10 "unat p" 4] length_digits [of 10 "unat q" 9]
    length_digits [of 16 "unat p" 3] unat_less_2p [of b] unat_less_2p [of p] unat_less_2p [of q]
  by simp_all

lemma length_ipv4_display: "length (ipv4_display a b c d) \<le> 15"
  using length_word_digits(1) [of a] length_word_digits(1) [of b] length_word_digits(1) [of c]
    length_word_digits(1) [of d] by (simp add: ipv4_display_def)

lemma length_segments_display: "length (segments_display ss) \<le> 5 * length ss - 1"
proof (induction ss rule: segments_display.induct)
  case (2 s)
  show ?case using length_word_digits(4) [of s] by simp
next
  case (3 s x xs)
  then show ?case using length_word_digits(4) [of s] by simp
qed simp

lemma zero_span_bounds:
  assumes "fst longest + snd longest \<le> i" and "snd current \<noteq> 0 \<Longrightarrow> fst current + snd current = i"
  shows "fst (zero_span i longest current ss) + snd (zero_span i longest current ss) \<le> i + length ss"
  using assms
proof (induction i longest current ss rule: zero_span.induct)
  case (2 i longest current s ss)
  show ?case
  proof (cases "s = 0")
    case True
    let ?c = "(if snd current = 0 then i else fst current, Suc (snd current))"
    have "fst (zero_span (Suc i) (if snd ?c > snd longest then ?c else longest) ?c ss) +
        snd (zero_span (Suc i) (if snd ?c > snd longest then ?c else longest) ?c ss) \<le> Suc i + length ss"
      using 2(3,4) by (intro 2(1) [OF True HOL.refl]) auto
    with True show ?thesis by (simp add: Let_def)
  next
    case False
    then show ?thesis using 2(2) [OF False] 2(3) by simp
  qed
qed simp

lemma length_ipv6_display:
  assumes "length segs = 8"
  shows "length (ipv6_display segs) \<le> 39"
proof (cases "take 5 segs = [0, 0, 0, 0, 0] \<and> segs ! 5 = 65535")
  case True
  then show ?thesis
    using length_ipv4_display [of "ucast (drop_bit 8 (segs ! 6))" "ucast (segs ! 6)"
        "ucast (drop_bit 8 (segs ! 7))" "ucast (segs ! 7)"] by (simp add: ipv6_display_def)
next
  case False
  obtain start len where z: "zero_span 0 (0, 0) (0, 0) segs = (start, len)" by fastforce
  then have "start + len \<le> 8" using zero_span_bounds [of "(0, 0)" 0 "(0, 0)" segs] assms by simp
  then show ?thesis using False z assms length_segments_display [of segs]
      length_segments_display [of "take start segs"] length_segments_display [of "drop (start + len) segs"]
    by (auto simp: ipv6_display_def)
qed

lemma length_socket_display: "socket_address_ok x \<Longrightarrow> length (socket_display x) \<le> 58"
proof (cases x)
  case (SocketV4 a b c d p)
  then show ?thesis using length_ipv4_display [of a b c d] length_word_digits(2) [of p] by simp
next
  case (SocketV6 segs scope p)
  moreover assume "socket_address_ok x"
  ultimately show ?thesis
    using length_ipv6_display [of segs] length_word_digits(3) [of scope] length_word_digits(2) [of p] by simp
qed

lemma longest_socket_display:
  "length (socket_display (SocketV6 [65535, 65535, 65535, 65535, 65535, 65535, 65535, 65535] 4294967295 65535)) = 58"
proof -
  have "digits 16 65535 = [102, 102, 102, 102]" "length (digits 10 65535) = 5" "length (digits 10 4294967295) = 10"
    by (simp_all add: digits.simps digit_char_def)
  then show ?thesis by (simp add: ipv6_display_def)
qed

lemma plugin_env_ok_empty_env [simp]: "plugin_env_ok empty_env"
  by (simp add: plugin_env_ok_def empty_env_def)

context prost_codec
begin

lemma raw_message_ok:
  assumes "plugin_env_ok E" and "message_input_ok m" and "raw_message P E B m = Some (tag, msg)"
  shows "message_ok msg"
  using assms
  by (cases m) (auto simp: account_ok slot_ok transaction_ok entry_ok block_meta_ok
      deshred_transaction_ok contact_info_ok contact_info_removed_ok block_footer_ok
      entry_update_parent_ok deshred_update_parent_ok)

lemma encode_raw_bytes_size:
  assumes "message_ok msg"
  shows "length (encode_raw_bytes P tag msg ts) = encode_raw_size P tag msg ts"
  using assms by (simp add: encode_raw_bytes_def encode_raw_size_def wire_len timestamp_ok)

end

lemma displayed: "socket_address_ok x \<Longrightarrow> \<exists>y. socket_address_ok y \<and> socket_display x = socket_display y"
  by blast

lemma sockets_displayed_fit:
  "sockets_displayed (PM_ContactInfo i) \<Longrightarrow> \<forall>(t, a)\<in>set (contact_info_sockets i).
     case a of None \<Rightarrow> True | Some s \<Rightarrow> length (concat s) \<le> SOCKET_ADDR_MAX_LEN"
  using length_socket_display by (fastforce simp: SOCKET_ADDR_MAX_LEN_def split: option.splits)

lemma encode_sockets_some:
  "\<forall>(t, a)\<in>set ss. case a of None \<Rightarrow> True | Some s \<Rightarrow> length (concat s) \<le> SOCKET_ADDR_MAX_LEN \<Longrightarrow>
   \<exists>d. encode_sockets P ss = Some d"
proof (induction ss)
  case (Cons ta ss)
  obtain t a where ta: "ta = (t, a)" by (cases ta)
  with Cons obtain d where d: "encode_sockets P ss = Some d" by auto
  show ?case
  proof (cases a)
    case None
    with d ta show ?thesis by (simp add: socket_addr_encode_def)
  next
    case (Some s)
    with Cons.prems ta have "socket_addr_format s = Some (concat s)"
      by (simp add: socket_addr_format_fits)
    with d ta Some show ?thesis by (simp add: socket_addr_encode_def)
  qed
qed simp

text \<open>\<^bold>\<open>C6.\<close> For every update the plugin serves, the buffer allocated from
  \<open>encoded_len\<close> has exactly the size of what \<open>encode_raw\<close> then writes, whatever the
  thread-local buffer held: no field is counted and not written, or written and not
  counted, in any of the eleven message kinds, so a length-delimited field of the output
  never announces a wrong length and the vector is never reallocated.\<close>

theorem message_encode_exact:
  assumes "prost_codec P" and "plugin_env_ok E" and "message_input_ok m"
  shows "message_encode_capacity P E B m ts = map_option length (message_encode_raw P E B m ts)"
proof -
  have "length (encode_raw_bytes P tag msg ts) = encode_raw_size P tag msg ts"
    if "raw_message P E B m = Some (tag, msg)" for tag msg
    using prost_codec.encode_raw_bytes_size [OF assms(1)]
      prost_codec.raw_message_ok [OF assms that] by blast
  then show ?thesis
    by (cases "raw_message P E B m") (auto simp: message_encode_capacity_def message_encode_raw_def)
qed

theorem message_encode_exact_witness:
  "message_encode_capacity prost_ref empty_env [1, 2]
     (PM_Slot 5 (Some 4) (SS_Dead [100, 101]) None) \<lparr>ts_seconds = 7, ts_nanos = 9\<rparr> =
   map_option length (message_encode_raw prost_ref empty_env [1, 2]
     (PM_Slot 5 (Some 4) (SS_Dead [100, 101]) None) \<lparr>ts_seconds = 7, ts_nanos = 9\<rparr>)"
  by (rule message_encode_exact [OF reference.prost_codec_axioms plugin_env_ok_empty_env]) simp

text \<open>\<^bold>\<open>C7.\<close> Encoding does not panic. The buffer of 58 bytes takes the text of every socket
  address that the standard library can display, IPv6 addresses with a scope included (an
  address with eight full segments, scope and port needs all 58 bytes,
  \<open>longest_socket_display\<close>), so every message kind is encoded.\<close>

theorem message_encode_total:
  assumes "sockets_displayed m" and "prost_codec P"
  shows "\<exists>d. message_encode_raw P E B m ts = Some d"
proof -
  have "\<exists>x. raw_message P E B m = Some x"
  proof (cases m)
    case (PM_ContactInfo i)
    then have "sockets_displayed (PM_ContactInfo i)" using assms(1) by simp
    from encode_sockets_some [OF sockets_displayed_fit [OF this]]
    obtain d where "encode_sockets P (contact_info_sockets i) = Some d" by blast
    with PM_ContactInfo show ?thesis
      by (simp add: contact_info_msg_def contact_info_encoded_len_def contact_info_encode_raw_def
          prost_codec.sockets_wire [OF assms(2)])
  qed simp_all
  then show ?thesis by (auto simp: message_encode_raw_def)
qed

definition example_contact_info :: replica_contact_info where
  "example_contact_info = \<lparr>ci_pubkey = [7], ci_wallclock = 1, ci_outset = 2, ci_shred_version = 3,
     ci_version_major = 4, ci_version_minor = 0, ci_version_patch = 1, ci_version_commit = 5,
     ci_version_feature_set = 6, ci_version_client_id = 0,
     ci_gossip = Some [[49, 48], [46], [48], [46], [48], [46], [49], [58], [56, 48, 48, 49]],
     ci_tpu_quic = Some [socket_display (SocketV6 [65535, 65535, 65535, 65535, 65535, 65535, 65535, 65535] 4294967295 65535)],
     ci_tpu_forwards_quic = None, ci_tpu_vote_udp = None,
     ci_tpu_vote_quic = None, ci_tvu_udp = None, ci_tvu_quic = None, ci_serve_repair_udp = None,
     ci_serve_repair_quic = None, ci_rpc = None, ci_rpc_pubsub = None, ci_alpenglow = None\<rparr>"

theorem message_encode_total_witness:
  "\<exists>d. message_encode_raw prost_ref empty_env [] (PM_ContactInfo example_contact_info)
     \<lparr>ts_seconds = 7, ts_nanos = 9\<rparr> = Some d"
proof (rule message_encode_total [OF _ reference.prost_codec_axioms])
  have "socket_display (SocketV4 10 0 0 1 8001) = [49, 48, 46, 48, 46, 48, 46, 49, 58, 56, 48, 48, 49]"
    by (simp add: ipv4_display_def digits.simps digit_char_def)
  then have "\<exists>x. socket_address_ok x \<and> [49, 48, 46, 48, 46, 48, 46, 49, 58, 56, 48, 48, 49] = socket_display x"
    by (metis socket_address_ok.simps(1))
  moreover have "\<exists>x. socket_address_ok x \<and>
      socket_display (SocketV6 [65535, 65535, 65535, 65535, 65535, 65535, 65535, 65535] 4294967295 65535) = socket_display x"
    by (rule displayed) simp
  ultimately show "sockets_displayed (PM_ContactInfo example_contact_info)"
    by (simp add: example_contact_info_def contact_info_sockets_def)
qed

end
