(* ===== verification/Plugin_Channel.thy ===== *)
theory Plugin_Channel
  imports Ring Plugin_Message
begin

text \<open>
  The broadcast channel of the Geyser plugin (\<open>plugin-agave/src/channel.rs\<close>): the
  sender that stores encoded messages in a ring, bounded by a number of messages and of
  bytes, and the receivers that read it. \<open>Shared\<close> with its \<open>State\<close> is an explicit
  record; a panic or a loop that does not end is \<open>None\<close>. Wakers are values of a type
  parameter, and \<open>message.encode(encoder)\<close>, which stamps the current time, is a function
  argument of \<open>push\<close>. Every operation holds the state lock or a cell lock while it reads
  what decides its result, so operations are atomic steps here.
\<close>

datatype plugin_notification =
  PN_Slot | PN_Account | PN_Transaction | PN_Entry | PN_BlockMeta
| PN_DeshredTransaction | PN_ContactInfo | PN_BlockFooter | PN_EntryUpdateParent

fun plugin_notification_from :: "'e protobuf_message \<Rightarrow> plugin_notification" where
  "plugin_notification_from (PM_Account _ _ _) = PN_Account"
| "plugin_notification_from (PM_Slot _ _ _ _) = PN_Slot"
| "plugin_notification_from (PM_Transaction _ _ _) = PN_Transaction"
| "plugin_notification_from (PM_Entry _ _) = PN_Entry"
| "plugin_notification_from (PM_BlockMeta _ _) = PN_BlockMeta"
| "plugin_notification_from (PM_DeshredTransaction _ _) = PN_DeshredTransaction"
| "plugin_notification_from (PM_DeshredUpdateParent _) = PN_DeshredTransaction"
| "plugin_notification_from (PM_ContactInfo _) = PN_ContactInfo"
| "plugin_notification_from (PM_ContactInfoRemoved _) = PN_ContactInfo"
| "plugin_notification_from (PM_BlockFooter _ _ _) = PN_BlockFooter"
| "plugin_notification_from (PM_EntryUpdateParent _) = PN_EntryUpdateParent"

datatype recv_error = Lagged | Closed

datatype subscribe_error = NotInitialized | SlotNotAvailable slot

datatype 'a poll = Pending | Ready 'a

record slot_info =
  si_head :: u64
  si_parent_slot :: "slot option"
  si_confirmed :: bool
  si_finalized :: bool

record item =
  it_pos :: u64
  it_slot :: slot
  it_data :: "(plugin_notification \<times> bytes) option"
  it_closed :: bool

record 'w state =
  st_head :: u64
  st_tail :: u64
  st_slots :: "(slot, slot_info) btree"
  st_bytes_total :: usize
  st_bytes_max :: usize
  st_wakers :: "'w list"

record 'w shared =
  sh_state :: "'w state"
  sh_mask :: u64
  sh_buffer :: "item list"

record richat_filter =
  rf_disable_accounts :: bool
  rf_disable_transactions :: bool
  rf_disable_entries :: bool
  rf_enable_deshred_transactions :: bool
  rf_enable_contact_info :: bool
  rf_enable_block_footers :: bool
  rf_enable_entry_update_parents :: bool

record receiver =
  rc_next :: u64
  rc_finished :: bool
  rc_accounts :: bool
  rc_transactions :: bool
  rc_entries :: bool
  rc_deshred_transactions :: bool
  rc_contact_info :: bool
  rc_block_footers :: bool
  rc_entry_update_parents :: bool

text \<open>\<open>RichatFilter::default()\<close>: every \<open>bool\<close> of a Protobuf message defaults to false.\<close>

definition richat_filter_default :: richat_filter where
  "richat_filter_default = \<lparr>rf_disable_accounts = False, rf_disable_transactions = False,
     rf_disable_entries = False, rf_enable_deshred_transactions = False,
     rf_enable_contact_info = False, rf_enable_block_footers = False,
     rf_enable_entry_update_parents = False\<rparr>"

subsection \<open>The sender\<close>

definition sender_new :: "nat \<Rightarrow> usize \<Rightarrow> 'w shared" where
  "sender_new config_max_messages config_max_bytes =
     (let max_messages = next_power_of_two config_max_messages in
      \<lparr>sh_state = \<lparr>st_head = of_nat max_messages + 1, st_tail = of_nat max_messages,
         st_slots = [], st_bytes_total = 0, st_bytes_max = config_max_bytes, st_wakers = []\<rparr>,
       sh_mask = of_nat (max_messages - 1),
       sh_buffer = map (\<lambda>i. \<lparr>it_pos = of_nat i, it_slot = 0, it_data = None, it_closed = False\<rparr>)
         [0..<max_messages]\<rparr>)"

text \<open>\<open>&self.buffer[idx]\<close>; out of range is a panic.\<close>

definition buffer_idx :: "'c list \<Rightarrow> nat \<Rightarrow> 'c option" where
  "buffer_idx buf idx = (if idx < length buf then Some (buf ! idx) else None)"

text \<open>``update slots info'' of \<open>push_msg\<close>: the slot the message is stored under, and the
  slot map.\<close>

definition update_slot_entry :: "'e protobuf_message \<Rightarrow> slot_info \<Rightarrow> slot_info" where
  "update_slot_entry m entry = (case m of
     PM_Slot _ parent status _ \<Rightarrow>
       (let entry1 = (case parent of Some p \<Rightarrow> entry\<lparr>si_parent_slot := Some p\<rparr> | None \<Rightarrow> entry) in
        if status = SS_Confirmed then entry1\<lparr>si_confirmed := True\<rparr>
        else if status = SS_Rooted then entry1\<lparr>si_finalized := True\<rparr>
        else entry1)
   | _ \<Rightarrow> entry)"

definition push_msg_slot ::
    "'e protobuf_message \<Rightarrow> u64 \<Rightarrow> (slot, slot_info) btree \<Rightarrow> slot \<times> (slot, slot_info) btree" where
  "push_msg_slot m tail slots = (case get_slot m of
     Some sl \<Rightarrow> (sl, bt_update sl (update_slot_entry m) (bt_or_insert sl
       \<lparr>si_head = tail, si_parent_slot = None, si_confirmed = False, si_finalized = False\<rparr> slots))
   | None \<Rightarrow> (case bt_last_key slots of Some sl \<Rightarrow> sl | None \<Rightarrow> 0, slots))"

text \<open>``drop extra messages by max bytes''.\<close>

function drop_by_bytes :: "u64 \<Rightarrow> item list \<Rightarrow> 'w state \<Rightarrow> slot option \<Rightarrow> bytes list \<Rightarrow>
    (item list \<times> 'w state \<times> slot option \<times> bytes list) option" where
  "drop_by_bytes msk buf st removed evicted =
     (if st_bytes_max st \<le> st_bytes_total st \<and> st_head st < st_tail st
      then let idx = get_idx msk (st_head st) in
        (case buffer_idx buf idx of None \<Rightarrow> None | Some it \<Rightarrow>
          (case it_data it of None \<Rightarrow> None
           | Some (_, data) \<Rightarrow>
               drop_by_bytes msk (buf[idx := it\<lparr>it_data := None\<rparr>])
                 (st\<lparr>st_head := st_head st + 1,
                     st_bytes_total := st_bytes_total st - of_nat (length data)\<rparr>)
                 (note_removed removed (it_slot it)) (evicted @ [data])))
      else Some (buf, st, removed, evicted))"
  by pat_completeness auto
termination
proof (relation "measure (\<lambda>(msk, buf, st, r, ev). unat (st_tail st) - unat (st_head st))")
  fix st :: "'w state"
  assume "st_bytes_max st \<le> st_bytes_total st \<and> st_head st < st_tail st"
  then have lt: "st_head st < st_tail st" by simp
  then have "unat (st_head st + 1) = Suc (unat (st_head st))" by (rule unat_inc)
  with lt show "((msk', buf', st\<lparr>st_head := st_head st + 1, st_bytes_total := b\<rparr>, r', ev'), msk, buf, st, r, ev)
      \<in> measure (\<lambda>(msk, buf, st, r, ev). unat (st_tail st) - unat (st_head st))" for msk' buf' b r' ev' msk buf r ev
    by (simp add: word_less_nat_alt)
qed simp

declare drop_by_bytes.simps [simp del]

text \<open>The first part of \<open>push_msg\<close>, up to the release of the cell.\<close>

definition push_write :: "'w shared \<Rightarrow> 'e protobuf_message \<Rightarrow> bytes \<Rightarrow> bytes list \<Rightarrow>
    (item list \<times> 'w state \<times> slot option \<times> bytes list) option" where
  "push_write sh m data evicted =
     (let st1 = (sh_state sh)\<lparr>st_tail := st_tail (sh_state sh) + 1\<rparr>;
          (sl, slots) = push_msg_slot m (st_tail st1) (st_slots st1);
          st2 = st1\<lparr>st_slots := slots, st_bytes_total := st_bytes_total st1 + of_nat (length data)\<rparr>;
          idx = get_idx (sh_mask sh) (st_tail st2) in
      case buffer_idx (sh_buffer sh) idx of None \<Rightarrow> None
      | Some it \<Rightarrow>
        (let (st3, removed, evicted3) =
               (case it_data it of
                  Some (_, old) \<Rightarrow>
                    (st2\<lparr>st_head := st_head st2 + 1,
                         st_bytes_total := st_bytes_total st2 - of_nat (length old)\<rparr>,
                     Some (it_slot it), evicted @ [old])
                | None \<Rightarrow> (st2, None, evicted));
             it' = it\<lparr>it_pos := st_tail st3, it_slot := sl,
               it_data := Some (plugin_notification_from m, data)\<rparr> in
         Some ((sh_buffer sh)[idx := it'], st3, removed, evicted3)))"

definition push_msg :: "'w shared \<Rightarrow> 'e protobuf_message \<Rightarrow> bytes \<Rightarrow> bytes list \<Rightarrow>
    ('w shared \<times> bytes list) option" where
  "push_msg sh m data evicted =
     Option.bind (push_write sh m data evicted) (\<lambda>(buf3, st3, removed3, evicted3).
     Option.bind (drop_by_bytes (sh_mask sh) buf3 st3 removed3 evicted3)
       (\<lambda>(buf4, st4, removed4, evicted4).
         Some (sh\<lparr>sh_state := st4\<lparr>st_slots := (case removed4 of
                    Some remove_upto \<Rightarrow> bt_pop_while (\<lambda>s. s \<le> remove_upto) (st_slots st4)
                  | None \<Rightarrow> st_slots st4)\<rparr>,
                  sh_buffer := buf4\<rparr>, evicted4)))"

text \<open>The search for ancestors whose status update was missed.\<close>

definition status_missed :: "slot_status \<Rightarrow> slot_info \<Rightarrow> bool" where
  "status_missed status entry \<longleftrightarrow>
     (status = SS_Confirmed \<and> \<not> si_confirmed entry) \<or> (status = SS_Rooted \<and> \<not> si_finalized entry)"

partial_function (option) missed_walk ::
    "(slot, slot_info) btree \<Rightarrow> slot_status \<Rightarrow> slot \<Rightarrow> (slot \<times> slot option) list option" where
  "missed_walk slots status sl =
     (case bt_get slots sl of None \<Rightarrow> Some [] | Some e \<Rightarrow>
       (case si_parent_slot e of None \<Rightarrow> Some [] | Some parent \<Rightarrow>
         (case bt_get slots parent of None \<Rightarrow> Some [] | Some entry \<Rightarrow>
           if status_missed status entry
           then Option.bind (missed_walk slots status parent)
                  (\<lambda>rest. Some ((parent, si_parent_slot entry) # rest))
           else Some [])))"

definition push_messages :: "(slot, slot_info) btree \<Rightarrow> 'e protobuf_message \<Rightarrow>
    'e protobuf_message list option" where
  "push_messages slots m = (case m of
     PM_Slot sl _ status _ \<Rightarrow>
       map_option (\<lambda>missed. m # map (\<lambda>(parent, pp). PM_Slot parent pp status None) missed)
         (missed_walk slots status sl)
   | _ \<Rightarrow> Some [m])"

fun push_all :: "('e protobuf_message \<Rightarrow> bytes) \<Rightarrow> 'w shared \<Rightarrow> 'e protobuf_message list \<Rightarrow> bytes list \<Rightarrow>
    ('w shared \<times> bytes list) option" where
  "push_all encode sh [] evicted = Some (sh, evicted)"
| "push_all encode sh (m # ms) evicted = Option.bind (push_msg sh m (encode m) evicted)
     (\<lambda>(sh', evicted'). push_all encode sh' ms evicted')"

text \<open>\<open>Sender::push\<close>: the new channel, the wakers that are woken and the evicted items.\<close>

definition push :: "('e protobuf_message \<Rightarrow> bytes) \<Rightarrow> 'w shared \<Rightarrow> 'e protobuf_message \<Rightarrow>
    ('w shared \<times> 'w list \<times> bytes list) option" where
  "push encode sh m =
     Option.bind (push_messages (st_slots (sh_state sh)) m) (\<lambda>messages.
     Option.bind (push_all encode sh (rev messages) []) (\<lambda>(sh', evicted).
       Some (sh'\<lparr>sh_state := (sh_state sh')\<lparr>st_wakers := []\<rparr>\<rparr>, st_wakers (sh_state sh'), evicted)))"

definition close :: "'w shared \<Rightarrow> 'w shared \<times> 'w list" where
  "close sh = (sh\<lparr>sh_buffer := map (\<lambda>it. it\<lparr>it_closed := True\<rparr>) (sh_buffer sh),
     sh_state := (sh_state sh)\<lparr>st_wakers := []\<rparr>\<rparr>, st_wakers (sh_state sh))"

subsection \<open>The receivers\<close>

definition subscribe ::
    "'w shared \<Rightarrow> slot option \<Rightarrow> richat_filter option \<Rightarrow> subscribe_error + receiver" where
  "subscribe sh replay_from_slot filter_opt =
     and_then (case replay_from_slot of
         Some sl \<Rightarrow> ok_or (case bt_first_key (st_slots (sh_state sh)) of
             Some key \<Rightarrow> SlotNotAvailable key | None \<Rightarrow> NotInitialized)
           (map_option si_head (bt_get (st_slots (sh_state sh)) sl))
       | None \<Rightarrow> Inr (st_tail (sh_state sh)))
     (\<lambda>nxt. let f = (case filter_opt of Some f \<Rightarrow> f | None \<Rightarrow> richat_filter_default) in
       Inr \<lparr>rc_next = nxt, rc_finished = False,
         rc_accounts = (\<not> rf_disable_accounts f), rc_transactions = (\<not> rf_disable_transactions f),
         rc_entries = (\<not> rf_disable_entries f),
         rc_deshred_transactions = rf_enable_deshred_transactions f,
         rc_contact_info = rf_enable_contact_info f, rc_block_footers = rf_enable_block_footers f,
         rc_entry_update_parents = rf_enable_entry_update_parents f\<rparr>)"

fun notification_enabled :: "receiver \<Rightarrow> plugin_notification \<Rightarrow> bool" where
  "notification_enabled r PN_Account = rc_accounts r"
| "notification_enabled r PN_Transaction = rc_transactions r"
| "notification_enabled r PN_Entry = rc_entries r"
| "notification_enabled r PN_DeshredTransaction = rc_deshred_transactions r"
| "notification_enabled r PN_ContactInfo = rc_contact_info r"
| "notification_enabled r PN_BlockFooter = rc_block_footers r"
| "notification_enabled r PN_EntryUpdateParent = rc_entry_update_parents r"
| "notification_enabled r PN_Slot = True"
| "notification_enabled r PN_BlockMeta = True"

definition push_waker :: "'w \<Rightarrow> 'w shared \<Rightarrow> 'w shared" where
  "push_waker w sh = sh\<lparr>sh_state := (sh_state sh)\<lparr>st_wakers := st_wakers (sh_state sh) @ [w]\<rparr>\<rparr>"

partial_function (option) recv_ref :: "'w shared \<Rightarrow> receiver \<Rightarrow> 'w \<Rightarrow>
    ((recv_error + bytes option) \<times> receiver \<times> 'w shared) option" where
  "recv_ref sh r w =
     (case buffer_idx (sh_buffer sh) (get_idx (sh_mask sh) (rc_next r)) of None \<Rightarrow> None
      | Some it \<Rightarrow>
        if it_closed it then Some (Inl Closed, r, sh)
        else if it_pos it \<noteq> rc_next r
        then (if it_pos it < rc_next r then Some (Inr None, r, push_waker w sh)
              else Some (Inl Lagged, r, sh))
        else let r' = r\<lparr>rc_next := rc_next r + 1\<rparr> in
          (case it_data it of None \<Rightarrow> Some (Inl Lagged, r', sh)
           | Some nd \<Rightarrow> if notification_enabled r (fst nd) then Some (Inr (Some (snd nd)), r', sh)
                        else recv_ref sh r' w))"

text \<open>\<open>Future::poll\<close> of \<open>Recv\<close> and \<open>Stream::poll_next\<close>.\<close>

definition recv_poll :: "'w shared \<Rightarrow> receiver \<Rightarrow> 'w \<Rightarrow>
    ((recv_error + bytes) poll \<times> receiver \<times> 'w shared) option" where
  "recv_poll sh r w = map_option (\<lambda>(res, r', sh'). (case res of
       Inr (Some value) \<Rightarrow> Ready (Inr value)
     | Inr None \<Rightarrow> Pending
     | Inl error \<Rightarrow> Ready (Inl error), r', sh')) (recv_ref sh r w)"

definition poll_next :: "'w shared \<Rightarrow> receiver \<Rightarrow> 'w \<Rightarrow>
    ((recv_error + bytes) option poll \<times> receiver \<times> 'w shared) option" where
  "poll_next sh r w =
     (if rc_finished r then Some (Ready None, r, sh)
      else map_option (\<lambda>(res, r', sh'). (case res of
          Inr (Some value) \<Rightarrow> (Ready (Some (Inr value)), r', sh')
        | Inr None \<Rightarrow> (Pending, r', sh')
        | Inl error \<Rightarrow> (Ready (Some (Inl error)), r'\<lparr>rc_finished := True\<rparr>, sh'))) (recv_ref sh r w))"

subsection \<open>The abstract channel: a bounded log\<close>

type_synonym log_entry = "plugin_notification \<times> bytes"

definition log_bytes :: "log_entry list \<Rightarrow> usize" where
  "log_bytes l = of_nat (sum_list (map (\<lambda>x. length (snd x)) l))"

fun trim_log :: "usize \<Rightarrow> log_entry list \<Rightarrow> log_entry list" where
  "trim_log mx (x # y # l) =
     (if mx \<le> log_bytes (x # y # l) then trim_log mx (y # l) else x # y # l)"
| "trim_log mx l = l"

text \<open>Appending to a log of at most \<open>n\<close> messages and less than \<open>mx\<close> bytes, where the newest
  message always stays.\<close>

definition log_push :: "nat \<Rightarrow> usize \<Rightarrow> log_entry list \<Rightarrow> log_entry \<Rightarrow> log_entry list" where
  "log_push n mx l x = trim_log mx (drop (Suc (length l) - n) (l @ [x]))"

definition log_of :: "item list \<Rightarrow> nat \<Rightarrow> nat \<Rightarrow> log_entry list" where
  "log_of buf h t = map (\<lambda>it. the (it_data it)) (ring_cells buf h t)"

definition channel_log :: "'w shared \<Rightarrow> log_entry list" where
  "channel_log sh =
     log_of (sh_buffer sh) (unat (st_head (sh_state sh))) (unat (st_tail (sh_state sh)))"

definition ring_state_ok :: "u64 \<Rightarrow> item list \<Rightarrow> 'w state \<Rightarrow> bool" where
  "ring_state_ok msk buf st \<longleftrightarrow> (\<exists>k. msk = mask k \<and> length buf = 2 ^ k) \<and>
     ring_ok it_pos it_data buf (unat (st_head st)) (unat (st_tail st)) \<and>
     st_bytes_total st = log_bytes (log_of buf (unat (st_head st)) (unat (st_tail st)))"

definition channel_ok :: "'w shared \<Rightarrow> bool" where
  "channel_ok sh \<longleftrightarrow> ring_state_ok (sh_mask sh) (sh_buffer sh) (sh_state sh) \<and>
     bt_ok (st_slots (sh_state sh)) \<and>
     heads_ok it_slot si_head (sh_buffer sh) (unat (st_head (sh_state sh)))
       (unat (st_tail (sh_state sh))) (st_slots (sh_state sh))"

text \<open>What one call of a receiver finds in the messages it has not read: the first enabled
  one, and how many it moved over.\<close>

fun scan :: "receiver \<Rightarrow> log_entry list \<Rightarrow> bytes option \<times> nat" where
  "scan r [] = (None, 0)"
| "scan r (x # l) = (if notification_enabled r (fst x) then (Some (snd x), 1)
     else (fst (scan r l), Suc (snd (scan r l))))"

text \<open>Repeated calls, until one finds nothing, fails or \<open>k\<close> are done.\<close>

fun recv_many :: "nat \<Rightarrow> 'w shared \<Rightarrow> receiver \<Rightarrow> 'w \<Rightarrow> bytes list" where
  "recv_many 0 sh r w = []"
| "recv_many (Suc k) sh r w = (case recv_ref sh r w of
     Some (Inr (Some d), r', sh') \<Rightarrow> d # recv_many k sh' r' w | _ \<Rightarrow> [])"

definition channel_open :: "'w shared \<Rightarrow> bool" where
  "channel_open sh \<longleftrightarrow> (\<forall>it\<in>set (sh_buffer sh). \<not> it_closed it)"

text \<open>Slots come after their parents.\<close>

definition parents_below :: "(slot, slot_info) btree \<Rightarrow> bool" where
  "parents_below slots \<longleftrightarrow>
     (\<forall>s e p. bt_get slots s = Some e \<longrightarrow> si_parent_slot e = Some p \<longrightarrow> p < s)"

fun message_parent_ok :: "'e protobuf_message \<Rightarrow> bool" where
  "message_parent_ok (PM_Slot sl (Some p) _ _) = (p < sl)"
| "message_parent_ok _ = True"

text \<open>Which statuses an ancestor still lacks.\<close>

definition lacks_status :: "slot_status \<Rightarrow> slot_info \<Rightarrow> bool" where
  "lacks_status status e \<longleftrightarrow> (case status of SS_Confirmed \<Rightarrow> \<not> si_confirmed e | SS_Rooted \<Rightarrow> \<not> si_finalized e | _ \<Rightarrow> False)"

text \<open>\<open>missed\<close> lists ancestors of \<open>sl\<close>, nearest first: each is the recorded parent of the one
  before, its entry is known and lacks the status, and the list cannot be extended.\<close>

fun missed_chain :: "(slot, slot_info) btree \<Rightarrow> slot_status \<Rightarrow> slot \<Rightarrow> (slot \<times> slot option) list \<Rightarrow> bool" where
  "missed_chain slots status sl [] \<longleftrightarrow>
     \<not> (\<exists>e p pe. bt_get slots sl = Some e \<and> si_parent_slot e = Some p \<and>
          bt_get slots p = Some pe \<and> lacks_status status pe)"
| "missed_chain slots status sl ((p, pp) # rest) \<longleftrightarrow>
     (\<exists>e pe. bt_get slots sl = Some e \<and> si_parent_slot e = Some p \<and>
        bt_get slots p = Some pe \<and> lacks_status status pe \<and> si_parent_slot pe = pp) \<and>
     missed_chain slots status p rest"

subsection \<open>Lemmas\<close>

interpretation plugin_ring: ring_cell it_pos it_slot it_data
  "\<lambda>_ p s d it. it\<lparr>it_pos := p, it_slot := s, it_data := Some d\<rparr>" "\<lambda>it. it\<lparr>it_data := None\<rparr>"
  by unfold_locales simp_all

lemma log_bytes_simps [simp]:
  "log_bytes [] = 0"
  "log_bytes (x # l) = of_nat (length (snd x)) + log_bytes l"
  "log_bytes (l @ l') = log_bytes l + log_bytes l'"
  by (simp_all add: log_bytes_def)

lemma length_log_of: "length (log_of buf h t) = Suc t - h"
  unfolding log_of_def ring_cells_def by (simp only: length_map length_upt)

lemma log_of_Cons:
  assumes "h \<le> t"
  shows "log_of buf h t = the (it_data (buf ! (h mod length buf))) # tl (log_of buf h t)"
  using assms by (simp add: log_of_def ring_cells_def upt_rec [of h])

lemma trim_log_suffix: "\<exists>d. l = d @ trim_log mx l"
proof (induction mx l rule: trim_log.induct)
  case (1 mx x y l)
  show ?case
  proof (cases "mx \<le> log_bytes (x # y # l)")
    case True
    with 1 obtain d where "y # l = d @ trim_log mx (y # l)" by blast
    then have "x # y # l = (x # d) @ trim_log mx (x # y # l)" using True by simp
    then show ?thesis ..
  qed simp
qed auto

lemma ring_state_idx:
  assumes "ring_state_ok msk buf st"
  shows "get_idx msk p = unat p mod length buf" and "buffer_idx buf (get_idx msk p) = Some (buf ! (unat p mod length buf))"
proof -
  obtain k where k: "msk = mask k" "length buf = 2 ^ k" using assms by (auto simp: ring_state_ok_def)
  then show e: "get_idx msk p = unat p mod length buf" by (simp add: get_idx_mod)
  show "buffer_idx buf (get_idx msk p) = Some (buf ! (unat p mod length buf))"
    unfolding e buffer_idx_def using k by simp
qed

lemma drop_step_ok:
  assumes ok: "ring_state_ok msk buf st" and lt: "st_head st < st_tail st"
    and it: "it = buf ! (unat (st_head st) mod length buf)"
    and buf': "buf' = buf[unat (st_head st) mod length buf := it\<lparr>it_data := None\<rparr>]"
    and st': "st' = st\<lparr>st_head := st_head st + 1,
      st_bytes_total := st_bytes_total st - of_nat (length (snd (the (it_data it))))\<rparr>"
  shows "it_data it \<noteq> None" and "ring_state_ok msk buf' st'"
    and "log_of buf (unat (st_head st)) (unat (st_tail st)) =
      the (it_data it) # log_of buf' (unat (st_head st')) (unat (st_tail st'))"
proof -
  let ?h = "unat (st_head st)" and ?t = "unat (st_tail st)"
  have r: "ring_ok it_pos it_data buf ?h ?t" using ok by (simp add: ring_state_ok_def)
  have h: "?h < ?t" using lt by (simp add: word_less_nat_alt)
  have h1: "unat (st_head st + 1) = Suc ?h" using lt by (rule unat_inc)
  show "it_data it \<noteq> None"
    using plugin_ring.ring_cellD(1) [OF r, of ?h] r h by (simp add: it ring_ok_def)
  show l: "log_of buf ?h ?t = the (it_data it) # log_of buf' (unat (st_head st')) (unat (st_tail st'))"
    using log_of_Cons [of ?h ?t buf] h plugin_ring.ring_clear_cells [OF r]
    by (simp add: it buf' st' h1 log_of_def map_tl)
  have "ring_ok it_pos it_data buf' (unat (st_head st')) (unat (st_tail st'))"
    using plugin_ring.ring_clear [OF r] h by (simp add: buf' st' h1 it)
  moreover have "st_bytes_total st = log_bytes (log_of buf ?h ?t)"
    using ok by (simp add: ring_state_ok_def)
  then have "st_bytes_total st' = log_bytes (log_of buf' (unat (st_head st')) (unat (st_tail st')))"
    using l by (simp add: st' del: One_nat_def)
  ultimately show "ring_state_ok msk buf' st'"
    using ok by (simp add: ring_state_ok_def buf')
qed

lemma drop_by_bytes_spec:
  assumes "ring_state_ok msk buf st"
    and "heads_upto it_slot si_head r buf (unat (st_head st)) (unat (st_tail st)) (st_slots st)"
  shows "\<exists>buf' st' r' ev'. drop_by_bytes msk buf st r ev = Some (buf', st', r', ev @ ev') \<and>
    ring_state_ok msk buf' st' \<and>
    heads_upto it_slot si_head r' buf' (unat (st_head st')) (unat (st_tail st')) (st_slots st') \<and>
    log_of buf' (unat (st_head st')) (unat (st_tail st')) =
      trim_log (st_bytes_max st) (log_of buf (unat (st_head st)) (unat (st_tail st))) \<and>
    map snd (log_of buf (unat (st_head st)) (unat (st_tail st))) =
      ev' @ map snd (log_of buf' (unat (st_head st')) (unat (st_tail st'))) \<and>
    st_tail st' = st_tail st \<and> st_slots st' = st_slots st \<and> st_bytes_max st' = st_bytes_max st \<and>
    st_wakers st' = st_wakers st \<and> length buf' = length buf \<and>
    map it_closed buf' = map it_closed buf"
  using assms
proof (induction msk buf st r ev rule: drop_by_bytes.induct)
  case (1 msk buf st r ev)
  let ?h = "unat (st_head st)" and ?t = "unat (st_tail st)"
  show ?case
  proof (cases "st_bytes_max st \<le> st_bytes_total st \<and> st_head st < st_tail st")
    case False
    have "trim_log (st_bytes_max st) (log_of buf ?h ?t) = log_of buf ?h ?t"
    proof (cases "st_head st < st_tail st")
      case True
      with False "1.prems"(1) have "\<not> st_bytes_max st \<le> log_bytes (log_of buf ?h ?t)"
        by (simp add: ring_state_ok_def)
      then show ?thesis by (cases "(st_bytes_max st, log_of buf ?h ?t)" rule: trim_log.cases) auto
    next
      case False
      then have "length (log_of buf ?h ?t) \<le> 1"
        unfolding length_log_of by (simp add: word_less_nat_alt)
      then show ?thesis by (cases "(st_bytes_max st, log_of buf ?h ?t)" rule: trim_log.cases) auto
    qed
    with False "1.prems" show ?thesis by (subst drop_by_bytes.simps) auto
  next
    case True
    define it where "it = buf ! (?h mod length buf)"
    define st' where "st' = st\<lparr>st_head := st_head st + 1,
      st_bytes_total := st_bytes_total st - of_nat (length (snd (the (it_data it))))\<rparr>"
    define buf' where "buf' = buf[?h mod length buf := it\<lparr>it_data := None\<rparr>]"
    define r' where "r' = note_removed r (it_slot it)"
    note step = drop_step_ok [OF "1.prems"(1) conjunct2 [OF True] it_def buf'_def st'_def]
    obtain n d where nd: "it_data it = Some (n, d)" using step(1) by auto
    have idx: "get_idx msk (st_head st) = ?h mod length buf"
      and bidx: "buffer_idx buf (get_idx msk (st_head st)) = Some it"
      using ring_state_idx [OF "1.prems"(1)] by (simp_all add: it_def)
    have eq: "drop_by_bytes msk buf st r ev = drop_by_bytes msk buf' st' r' (ev @ [d])"
      using True bidx nd
      by (subst drop_by_bytes.simps) (simp add: Let_def idx buf'_def st'_def r'_def)
    have h: "?h \<le> ?t" "unat (st_head st') = Suc ?h"
      using True unat_inc [of "st_head st" "st_tail st"] by (simp_all add: word_less_nat_alt st'_def)
    have "heads_upto it_slot si_head r' buf' (unat (st_head st')) (unat (st_tail st')) (st_slots st')"
      using plugin_ring.heads_clear [OF "1.prems"(2) h(1), of r'] h(2)
      by (simp add: r'_def buf'_def it_def st'_def)
    from "1.IH" [OF True refl bidx nd refl] this step(2)
    obtain buf2 st2 r2 ev2 where
      IH: "drop_by_bytes msk buf' st' r' (ev @ [d]) = Some (buf2, st2, r2, (ev @ [d]) @ ev2)"
      "ring_state_ok msk buf2 st2"
      "heads_upto it_slot si_head r2 buf2 (unat (st_head st2)) (unat (st_tail st2)) (st_slots st2)"
      "log_of buf2 (unat (st_head st2)) (unat (st_tail st2)) =
         trim_log (st_bytes_max st') (log_of buf' (unat (st_head st')) (unat (st_tail st')))"
      "map snd (log_of buf' (unat (st_head st')) (unat (st_tail st'))) =
         ev2 @ map snd (log_of buf2 (unat (st_head st2)) (unat (st_tail st2)))"
      "st_tail st2 = st_tail st'" "st_slots st2 = st_slots st'" "st_bytes_max st2 = st_bytes_max st'"
      "st_wakers st2 = st_wakers st'" "length buf2 = length buf'"
      "map it_closed buf2 = map it_closed buf'"
      unfolding idx st'_def [symmetric] buf'_def [symmetric] r'_def [symmetric]
      by (auto simp: nd st'_def buf'_def r'_def)
    have "length (log_of buf' (unat (st_head st')) (unat (st_tail st'))) \<noteq> 0"
      using True unfolding length_log_of h(2) by (simp add: word_less_nat_alt st'_def)
    then obtain y l where yl: "log_of buf' (unat (st_head st')) (unat (st_tail st')) = y # l"
      by (cases "log_of buf' (unat (st_head st')) (unat (st_tail st'))") auto
    have "st_bytes_max st \<le> log_bytes (log_of buf ?h ?t)"
      using True "1.prems"(1) by (simp add: ring_state_ok_def)
    then have "trim_log (st_bytes_max st) (log_of buf ?h ?t) = trim_log (st_bytes_max st) (y # l)"
      using step(3) yl by simp
    moreover have "map it_closed buf' = map it_closed buf"
      unfolding buf'_def it_def by (simp add: map_update_same)
    ultimately show ?thesis
      using IH step(3) yl unfolding eq by (auto simp: nd st'_def buf'_def)
  qed
qed

lemma update_slot_entry_head [simp]: "si_head (update_slot_entry m e) = si_head e"
  by (simp add: update_slot_entry_def Let_def split: protobuf_message.split option.split)

lemma push_msg_slot_heads:
  assumes "push_msg_slot m tp slots = (sl, slots')" and "bt_ok slots"
  shows "bt_ok slots'" and "bt_get slots' s = Some v \<Longrightarrow>
    (\<exists>v0. bt_get slots s = Some v0 \<and> si_head v = si_head v0) \<or> (s = sl \<and> si_head v = tp)"
proof -
  show "bt_ok slots'"
    using assms by (auto simp: push_msg_slot_def bt_oks split: option.splits)
  assume v: "bt_get slots' s = Some v"
  show "(\<exists>v0. bt_get slots s = Some v0 \<and> si_head v = si_head v0) \<or> (s = sl \<and> si_head v = tp)"
  proof (cases "get_slot m")
    case None
    with assms v show ?thesis by (auto simp: push_msg_slot_def)
  next
    case (Some sl')
    with assms v show ?thesis
      by (auto simp: push_msg_slot_def map_laws bt_oks split: if_splits option.splits)
  qed
qed

lemma log_bytes_concat: "log_bytes l = of_nat (length (concat (map snd l)))"
  by (simp add: log_bytes_def length_concat comp_def)

lemma log_of_first:
  assumes "ring_ok it_pos it_data buf h t" and "it = buf ! (Suc t mod length buf)"
    and "old = (case it_data it of Some nd \<Rightarrow> [snd nd] | None \<Rightarrow> [])"
  shows "map snd (take (length old) (log_of buf h t)) = old"
    and "Suc (length (log_of buf h t)) - length buf = length old"
    and "length old \<le> length (log_of buf h t)"
proof -
  have n: "0 < length buf" "h \<le> Suc t" "Suc t \<le> h + length buf"
    using assms(1) by (simp_all add: ring_ok_def)
  have full: "it_data it \<noteq> None \<longleftrightarrow> Suc t = h + length buf"
    unfolding assms(2) by (rule plugin_ring.ring_next_full [OF assms(1)])
  show len: "Suc (length (log_of buf h t)) - length buf = length old"
    using full n unfolding length_log_of by (auto simp: assms(3) split: option.splits)
  then show "length old \<le> length (log_of buf h t)" using n(1) by arith
  show "map snd (take (length old) (log_of buf h t)) = old"
  proof (cases "it_data it")
    case (Some nd)
    then have e: "Suc t = h + length buf" using full by simp
    then have "h \<le> t" using n(1) by linarith
    moreover have "buf ! (h mod length buf) = it" by (simp add: assms(2) e)
    ultimately show ?thesis using log_of_Cons [of h t buf] Some
      by (cases "log_of buf h t") (auto simp: assms(3))
  qed (simp add: assms(3))
qed

lemma push_write_eq:
  assumes "ring_state_ok (sh_mask sh) (sh_buffer sh) (sh_state sh)"
    and "unat (st_tail (sh_state sh) + 1) = Suc (unat (st_tail (sh_state sh)))"
    and "push_msg_slot m (st_tail (sh_state sh) + 1) (st_slots (sh_state sh)) = (sl, slots)"
    and "i = Suc (unat (st_tail (sh_state sh))) mod length (sh_buffer sh)"
    and "it = sh_buffer sh ! i"
    and "old = (case it_data it of Some nd \<Rightarrow> [snd nd] | None \<Rightarrow> [])"
  shows "push_write sh m data ev = Some ((sh_buffer sh)[i := it\<lparr>it_pos := st_tail (sh_state sh) + 1,
      it_slot := sl, it_data := Some (plugin_notification_from m, data)\<rparr>],
    (sh_state sh)\<lparr>st_tail := st_tail (sh_state sh) + 1, st_slots := slots,
      st_head := (if it_data it = None then st_head (sh_state sh) else st_head (sh_state sh) + 1),
      st_bytes_total := st_bytes_total (sh_state sh) + of_nat (length data) - of_nat (length (concat old))\<rparr>,
    if it_data it = None then None else Some (it_slot it), ev @ old)"
proof -
  have "get_idx (sh_mask sh) (st_tail (sh_state sh) + 1) = i"
    and "buffer_idx (sh_buffer sh) (get_idx (sh_mask sh) (st_tail (sh_state sh) + 1)) = Some it"
    using ring_state_idx [OF assms(1), of "st_tail (sh_state sh) + 1"] assms(2,4,5) by simp_all
  then show ?thesis
    by (cases "it_data it") (simp_all add: push_write_def assms(3,6) case_prod_unfold)
qed

lemma push_write_spec:
  assumes ok: "channel_ok sh" and tail: "Suc (unat (st_tail (sh_state sh))) < 2 ^ 64"
  shows "\<exists>buf3 st3 r old. push_write sh m data ev = Some (buf3, st3, r, ev @ old) \<and>
    ring_state_ok (sh_mask sh) buf3 st3 \<and> bt_ok (st_slots st3) \<and>
    heads_upto it_slot si_head r buf3 (unat (st_head st3)) (unat (st_tail st3)) (st_slots st3) \<and>
    log_of buf3 (unat (st_head st3)) (unat (st_tail st3)) =
      drop (length old) (channel_log sh) @ [(plugin_notification_from m, data)] \<and>
    map snd (take (length old) (channel_log sh)) = old \<and>
    length old = Suc (length (channel_log sh)) - length (sh_buffer sh) \<and>
    length old \<le> length (channel_log sh) \<and>
    st_slots st3 = snd (push_msg_slot m (st_tail (sh_state sh) + 1) (st_slots (sh_state sh))) \<and>
    st_tail st3 = st_tail (sh_state sh) + 1 \<and> st_bytes_max st3 = st_bytes_max (sh_state sh) \<and>
    st_wakers st3 = st_wakers (sh_state sh) \<and> length buf3 = length (sh_buffer sh) \<and>
    map it_closed buf3 = map it_closed (sh_buffer sh)"
proof -
  define st where "st = sh_state sh"
  define buf where "buf = sh_buffer sh"
  let ?h = "unat (st_head st)" and ?t = "unat (st_tail st)" and ?n = "length buf"
  obtain sl slots where ps: "push_msg_slot m (st_tail st + 1) (st_slots st) = (sl, slots)"
    by (cases "push_msg_slot m (st_tail st + 1) (st_slots st)")
  define it where "it = buf ! (Suc ?t mod ?n)"
  define it' where "it' = it\<lparr>it_pos := st_tail st + 1, it_slot := sl,
    it_data := Some (plugin_notification_from m, data)\<rparr>"
  define old where "old = (case it_data it of Some nd \<Rightarrow> [snd nd] | None \<Rightarrow> [])"
  define st3 where "st3 = st\<lparr>st_tail := st_tail st + 1, st_slots := slots,
    st_head := (if it_data it = None then st_head st else st_head st + 1),
    st_bytes_total := st_bytes_total st + of_nat (length data) - of_nat (length (concat old))\<rparr>"
  define r where "r = (if it_data it = None then None else Some (it_slot it))"
  define buf3 where "buf3 = buf[Suc ?t mod ?n := it']"
  have rs: "ring_state_ok (sh_mask sh) buf st" and bt: "bt_ok (st_slots st)"
    and hd: "heads_ok it_slot si_head buf ?h ?t (st_slots st)"
    using ok by (simp_all add: channel_ok_def st_def buf_def)
  have ro: "ring_ok it_pos it_data buf ?h ?t" and bytes: "st_bytes_total st = log_bytes (log_of buf ?h ?t)"
    using rs by (simp_all add: ring_state_ok_def)
  have t1: "unat (st_tail st + 1) = Suc ?t" using tail by (simp add: unat_inc_bound st_def)
  have n: "0 < ?n" using ro by (simp add: ring_ok_def)
  have h3: "unat (st_head st3) = (if it_data it = None then ?h else Suc ?h)"
  proof (cases "it_data it = None")
    case False
    then have "Suc ?t = ?h + ?n" using plugin_ring.ring_next_full [OF ro] by (simp add: it_def)
    then have "Suc ?h \<le> Suc ?t" using n by linarith
    then have "Suc ?h < 2 ^ LENGTH(64)" using tail by (simp add: st_def)
    with False show ?thesis by (simp add: st3_def unat_inc_bound)
  qed (simp add: st3_def)
  have ro3: "ring_ok it_pos it_data buf3 (unat (st_head st3)) (Suc ?t)"
    unfolding buf3_def
    by (rule plugin_ring.ring_write [OF ro]) (use tail t1 h3 in \<open>simp_all add: it'_def it_def st_def\<close>)
  have "ring_cells buf3 (unat (st_head st3)) (Suc ?t) =
      drop (unat (st_head st3) - ?h) (ring_cells buf ?h ?t) @ [it']"
    unfolding buf3_def by (rule plugin_ring.ring_write_cells [OF ro]) (simp add: h3 it_def)
  then have log3: "log_of buf3 (unat (st_head st3)) (Suc ?t) =
      drop (length old) (log_of buf ?h ?t) @ [(plugin_notification_from m, data)]"
    using h3 by (auto simp: log_of_def it'_def old_def drop_map split: option.splits)
  note fst_log = log_of_first [OF ro it_def old_def]
  have "log_bytes (log_of buf ?h ?t) = of_nat (length (concat old)) +
      log_bytes (drop (length old) (log_of buf ?h ?t))"
    by (metis append_take_drop_id fst_log(1) log_bytes_concat log_bytes_simps(3))
  then have "st_bytes_total st3 = log_bytes (log_of buf3 (unat (st_head st3)) (Suc ?t))"
    unfolding log3 by (simp add: st3_def bytes)
  then have rs3: "ring_state_ok (sh_mask sh) buf3 st3"
    using rs ro3 t1 by (simp add: ring_state_ok_def buf3_def) (simp add: st3_def)
  have "heads_upto it_slot si_head r buf3 (unat (st_head st3)) (Suc ?t) (st_slots st)"
    unfolding buf3_def by (rule plugin_ring.heads_write [OF ro hd]) (simp_all add: h3 r_def it_def)
  then have hd3: "heads_upto it_slot si_head r buf3 (unat (st_head st3)) (Suc ?t) slots"
  proof (rule heads_upto_new [where sl = sl])
    show "unat (st_head st3) \<le> Suc ?t"
      using log3 length_log_of [of buf3 "unat (st_head st3)" "Suc ?t"] by simp
    show "it_slot (buf3 ! (Suc ?t mod length buf3)) = sl"
      using n by (simp add: buf3_def it'_def)
    fix s v assume "bt_get slots s = Some v"
    from push_msg_slot_heads(2) [OF ps bt this] show "(\<exists>v0. bt_get (st_slots st) s = Some v0 \<and>
      si_head v = si_head v0) \<or> s = sl \<and> unat (si_head v) = Suc ?t" using t1 by auto
  qed
  have "push_write sh m data ev = Some (buf3, st3, r, ev @ old)"
    using push_write_eq [OF rs [unfolded st_def buf_def] t1 [unfolded st_def] ps [unfolded st_def] refl refl refl]
    by (simp add: buf3_def st3_def r_def it'_def it_def old_def st_def buf_def)
  then show ?thesis
    using rs3 hd3 push_msg_slot_heads(1) [OF ps bt] log3 fst_log t1 ps
    by (intro exI [of _ buf3] exI [of _ st3] exI [of _ r] exI [of _ old])
      (simp add: channel_log_def st_def buf_def, simp add: st3_def buf3_def it'_def it_def
        map_update_same st_def buf_def)
qed

lemma push_msg_spec:
  assumes ok: "channel_ok sh" and tail: "Suc (unat (st_tail (sh_state sh))) < 2 ^ 64"
  shows "\<exists>sh' ev'. push_msg sh m data ev = Some (sh', ev @ ev') \<and> channel_ok sh' \<and>
    channel_log sh' = log_push (length (sh_buffer sh)) (st_bytes_max (sh_state sh))
      (channel_log sh) (plugin_notification_from m, data) \<and>
    map snd (channel_log sh) @ [data] = ev' @ map snd (channel_log sh') \<and>
    st_tail (sh_state sh') = st_tail (sh_state sh) + 1 \<and> sh_mask sh' = sh_mask sh \<and>
    length (sh_buffer sh') = length (sh_buffer sh) \<and>
    st_bytes_max (sh_state sh') = st_bytes_max (sh_state sh) \<and>
    st_wakers (sh_state sh') = st_wakers (sh_state sh) \<and>
    map it_closed (sh_buffer sh') = map it_closed (sh_buffer sh) \<and>
    (\<forall>s v. bt_get (st_slots (sh_state sh')) s = Some v \<longrightarrow> bt_get (snd (push_msg_slot m
       (st_tail (sh_state sh) + 1) (st_slots (sh_state sh)))) s = Some v)"
proof -
  from push_write_spec [OF assms] obtain buf3 st3 r old where
    w: "push_write sh m data ev = Some (buf3, st3, r, ev @ old)"
    and rs3: "ring_state_ok (sh_mask sh) buf3 st3" and bt3: "bt_ok (st_slots st3)"
    and hd3: "heads_upto it_slot si_head r buf3 (unat (st_head st3)) (unat (st_tail st3)) (st_slots st3)"
    and log3: "log_of buf3 (unat (st_head st3)) (unat (st_tail st3)) =
      drop (length old) (channel_log sh) @ [(plugin_notification_from m, data)]"
    and old: "map snd (take (length old) (channel_log sh)) = old"
      "length old = Suc (length (channel_log sh)) - length (sh_buffer sh)"
      "length old \<le> length (channel_log sh)"
    and sl3: "st_slots st3 = snd (push_msg_slot m (st_tail (sh_state sh) + 1) (st_slots (sh_state sh)))"
    and same3: "st_tail st3 = st_tail (sh_state sh) + 1" "st_bytes_max st3 = st_bytes_max (sh_state sh)"
      "st_wakers st3 = st_wakers (sh_state sh)" "length buf3 = length (sh_buffer sh)"
      "map it_closed buf3 = map it_closed (sh_buffer sh)"
    by blast
  from drop_by_bytes_spec [OF rs3 hd3, of "ev @ old"]
  obtain buf4 st4 r4 ev4 where
    d: "drop_by_bytes (sh_mask sh) buf3 st3 r (ev @ old) = Some (buf4, st4, r4, (ev @ old) @ ev4)"
    and rs4: "ring_state_ok (sh_mask sh) buf4 st4"
    and hd4: "heads_upto it_slot si_head r4 buf4 (unat (st_head st4)) (unat (st_tail st4)) (st_slots st4)"
    and log4: "log_of buf4 (unat (st_head st4)) (unat (st_tail st4)) =
      trim_log (st_bytes_max st3) (log_of buf3 (unat (st_head st3)) (unat (st_tail st3)))"
    and ev4: "map snd (log_of buf3 (unat (st_head st3)) (unat (st_tail st3))) =
      ev4 @ map snd (log_of buf4 (unat (st_head st4)) (unat (st_tail st4)))"
    and same4: "st_tail st4 = st_tail st3" "st_slots st4 = st_slots st3"
      "st_bytes_max st4 = st_bytes_max st3" "st_wakers st4 = st_wakers st3"
      "length buf4 = length buf3" "map it_closed buf4 = map it_closed buf3"
    by blast
  define slots4 where "slots4 = (case r4 of
    Some u \<Rightarrow> bt_pop_while (\<lambda>s. s \<le> u) (st_slots st4) | None \<Rightarrow> st_slots st4)"
  define sh' where "sh' = sh\<lparr>sh_state := st4\<lparr>st_slots := slots4\<rparr>, sh_buffer := buf4\<rparr>"
  have p: "push_msg sh m data ev = Some (sh', ev @ (old @ ev4))"
    using w d by (simp add: push_msg_def sh'_def slots4_def)
  have bt4: "bt_ok (st_slots st4)" using bt3 same4(2) by simp
  then have "bt_ok slots4" by (simp add: slots4_def bt_oks split: option.split)
  moreover have "heads_ok it_slot si_head buf4 (unat (st_head st4)) (unat (st_tail st4)) slots4"
    unfolding slots4_def using heads_upto_final [OF hd4 bt4] by (cases r4) simp_all
  ultimately have ok': "channel_ok sh'"
    using rs4 by (simp add: channel_ok_def sh'_def ring_state_ok_def)
  have cl: "channel_log sh' = log_of buf4 (unat (st_head st4)) (unat (st_tail st4))"
    by (simp add: channel_log_def sh'_def)
  have log': "channel_log sh' = log_push (length (sh_buffer sh)) (st_bytes_max (sh_state sh))
      (channel_log sh) (plugin_notification_from m, data)"
    using log4 log3 old(2,3) same3(2) by (simp add: cl log_push_def)
  have "map snd (channel_log sh) @ [data] =
      map snd (take (length old) (channel_log sh)) @
      map snd (log_of buf3 (unat (st_head st3)) (unat (st_tail st3)))"
    unfolding log3 by (metis (no_types, lifting) append.assoc append_take_drop_id list.simps(8,9)
        map_append snd_conv)
  then have "map snd (channel_log sh) @ [data] = (old @ ev4) @ map snd (channel_log sh')"
    using ev4 old(1) by (simp add: cl)
  moreover have "bt_get slots4 s = Some v \<Longrightarrow> bt_get (st_slots st3) s = Some v" for s v
    using bt4 same4(2) by (auto simp: slots4_def map_laws split: option.splits if_splits)
  ultimately show ?thesis using p ok' log' same3 same4 sl3
    by (intro exI [of _ sh'] exI [of _ "old @ ev4"]) (simp add: sh'_def)
qed

lemma push_all_spec:
  assumes "channel_ok sh" and "unat (st_tail (sh_state sh)) + length ms < 2 ^ 64"
  shows "\<exists>sh' ev'. push_all enc sh ms ev = Some (sh', ev @ ev') \<and> channel_ok sh' \<and>
    channel_log sh' = foldl (log_push (length (sh_buffer sh)) (st_bytes_max (sh_state sh)))
      (channel_log sh) (map (\<lambda>m. (plugin_notification_from m, enc m)) ms) \<and>
    map snd (channel_log sh) @ map enc ms = ev' @ map snd (channel_log sh') \<and>
    unat (st_tail (sh_state sh')) = unat (st_tail (sh_state sh)) + length ms \<and>
    length (sh_buffer sh') = length (sh_buffer sh) \<and>
    st_wakers (sh_state sh') = st_wakers (sh_state sh) \<and>
    map it_closed (sh_buffer sh') = map it_closed (sh_buffer sh)"
  using assms
proof (induction ms arbitrary: sh ev)
  case (Cons m ms)
  have tail: "Suc (unat (st_tail (sh_state sh))) < 2 ^ 64" using Cons.prems(2) by simp
  then have t1: "unat (st_tail (sh_state sh) + 1) = Suc (unat (st_tail (sh_state sh)))"
    by (simp add: unat_inc_bound)
  from push_msg_spec [OF Cons.prems(1) tail, of m "enc m" ev] obtain sh1 ev1 where
    p: "push_msg sh m (enc m) ev = Some (sh1, ev @ ev1)" "channel_ok sh1"
      "channel_log sh1 = log_push (length (sh_buffer sh)) (st_bytes_max (sh_state sh))
        (channel_log sh) (plugin_notification_from m, enc m)"
      "map snd (channel_log sh) @ [enc m] = ev1 @ map snd (channel_log sh1)"
    and same: "st_tail (sh_state sh1) = st_tail (sh_state sh) + 1"
      "length (sh_buffer sh1) = length (sh_buffer sh)"
      "st_bytes_max (sh_state sh1) = st_bytes_max (sh_state sh)"
      "st_wakers (sh_state sh1) = st_wakers (sh_state sh)"
      "map it_closed (sh_buffer sh1) = map it_closed (sh_buffer sh)"
    by blast
  have "unat (st_tail (sh_state sh1)) + length ms < 2 ^ 64" using Cons.prems(2) same(1) t1 by simp
  from Cons.IH [OF p(2) this, of "ev @ ev1"] obtain sh2 ev2 where
    "push_all enc sh1 ms (ev @ ev1) = Some (sh2, (ev @ ev1) @ ev2)" "channel_ok sh2"
    "channel_log sh2 = foldl (log_push (length (sh_buffer sh1)) (st_bytes_max (sh_state sh1)))
      (channel_log sh1) (map (\<lambda>m. (plugin_notification_from m, enc m)) ms)"
    "map snd (channel_log sh1) @ map enc ms = ev2 @ map snd (channel_log sh2)"
    "unat (st_tail (sh_state sh2)) = unat (st_tail (sh_state sh1)) + length ms"
    "length (sh_buffer sh2) = length (sh_buffer sh1)"
    "st_wakers (sh_state sh2) = st_wakers (sh_state sh1)"
    "map it_closed (sh_buffer sh2) = map it_closed (sh_buffer sh1)"
    by blast
  moreover have "map snd (channel_log sh) @ map enc (m # ms) = ev1 @ map snd (channel_log sh1) @ map enc ms"
    using p(4) by (metis append.assoc append_Cons append_Nil list.simps(9))
  ultimately show ?case using p same t1
    by (intro exI [of _ sh2] exI [of _ "ev1 @ ev2"]) simp
qed simp

text \<open>A fresh channel.\<close>

lemma sender_new_ok:
  assumes "n \<le> 2 ^ 62"
  shows "channel_ok (sender_new n b :: 'w shared)" and "channel_log (sender_new n b :: 'w shared) = []"
    and "\<forall>it\<in>set (sh_buffer (sender_new n b :: 'w shared)). \<not> it_closed it"
    and "length (sh_buffer (sender_new n b :: 'w shared)) = next_power_of_two n"
    and "unat (st_tail (sh_state (sender_new n b :: 'w shared))) = next_power_of_two n"
proof -
  obtain k where k: "next_power_of_two n = 2 ^ k" using next_power_of_two_pow by blast
  have le: "(2::nat) ^ k \<le> 2 ^ 62" using next_power_of_two_le [OF assms] unfolding k .
  have k62: "k \<le> 62" by (rule power_le_imp_le_exp [OF _ le]) simp
  then have k64: "(2::nat) ^ k < 2 ^ 63" by (intro power_strict_increasing) simp_all
  have N: "unat (of_nat (2 ^ k) :: u64) = 2 ^ k" "unat (of_nat (2 ^ k) + 1 :: u64) = Suc (2 ^ k)"
    using k64 by (simp_all add: unat_of_nat unat_inc_bound take_bit_eq_mod del: of_nat_power)
  have m: "of_nat (2 ^ k - 1) = (mask k :: u64)" by (simp add: mask_eq_exp_minus_1 of_nat_diff)
  have pos: "unat (of_nat p :: u64) = p" if "p < 2 ^ k" for p
    using that k64 by (simp add: unat_of_nat)
  have ring: "ring_ok it_pos it_data (sh_buffer (sender_new n b :: 'w shared))
      (unat (st_head (sh_state (sender_new n b :: 'w shared)))) (unat (st_tail (sh_state (sender_new n b :: 'w shared))))"
    using k64 by (auto simp: ring_ok_def sender_new_def k Let_def N pos simp del: of_nat_power
        upt_rec_numeral)
  then show "channel_ok (sender_new n b :: 'w shared)"
    using m by (auto simp: channel_ok_def ring_state_ok_def heads_ok_def sender_new_def k Let_def N
        log_of_def ring_cells_def simp del: of_nat_power)
  show "channel_log (sender_new n b :: 'w shared) = []"
    by (simp add: channel_log_def log_of_def ring_cells_def sender_new_def k Let_def N del: of_nat_power)
  show "\<forall>it\<in>set (sh_buffer (sender_new n b :: 'w shared)). \<not> it_closed it"
    and "length (sh_buffer (sender_new n b :: 'w shared)) = next_power_of_two n"
    and "unat (st_tail (sh_state (sender_new n b :: 'w shared))) = next_power_of_two n"
    by (auto simp: sender_new_def k Let_def N simp del: of_nat_power)
qed

text \<open>The walk over ancestors ends because parents are smaller.\<close>

lemma status_missed_lacks: "status_missed status e \<longleftrightarrow> lacks_status status e"
  by (cases status) (simp_all add: status_missed_def lacks_status_def)

lemma missed_walk_total:
  assumes "parents_below slots"
  shows "\<exists>missed. missed_walk slots status sl = Some missed \<and> missed_chain slots status sl missed"
proof (induction "unat sl" arbitrary: sl rule: less_induct)
  case less
  show ?case
  proof (cases "\<exists>e p pe. bt_get slots sl = Some e \<and> si_parent_slot e = Some p \<and>
      bt_get slots p = Some pe \<and> lacks_status status pe")
    case True
    then obtain e p pe where e: "bt_get slots sl = Some e" "si_parent_slot e = Some p"
      "bt_get slots p = Some pe" "lacks_status status pe" by blast
    then have "unat p < unat sl" using assms by (auto simp: parents_below_def word_less_nat_alt)
    from less.hyps [OF this] obtain missed where
      "missed_walk slots status p = Some missed" "missed_chain slots status p missed" by blast
    with e show ?thesis
      by (intro exI [of _ "(p, si_parent_slot pe) # missed"]) (subst missed_walk.simps, auto simp: status_missed_lacks)
  next
    case False
    then show ?thesis
      by (intro exI [of _ "[]"]) (subst missed_walk.simps, auto simp: status_missed_lacks split: option.split)
  qed
qed

lemma missed_chain_sorted:
  assumes "parents_below slots" and "missed_chain slots status sl missed"
  shows "sorted_wrt (>) (sl # map fst missed)" and "set (map fst missed) \<subseteq> fst ` set slots"
proof -
  have "sorted_wrt (>) (sl # map fst missed) \<and> set (map fst missed) \<subseteq> fst ` set slots"
    using assms
  proof (induction missed arbitrary: sl)
    case (Cons x missed)
    obtain p pp where x: "x = (p, pp)" by (cases x)
    from Cons.prems x obtain e pe where e: "bt_get slots sl = Some e" "si_parent_slot e = Some p"
      "bt_get slots p = Some pe" and c: "missed_chain slots status p missed" by auto
    have "p < sl" using e assms(1) by (auto simp: parents_below_def)
    moreover have "p \<in> fst ` set slots" using bt_get_in_set [OF e(3)] by (rule rev_image_eqI) simp
    moreover from Cons.IH [OF assms(1) c] have "sorted_wrt (>) (p # map fst missed)"
      "set (map fst missed) \<subseteq> fst ` set slots" by auto
    ultimately show ?case using x by (auto intro: less_trans)
  qed simp
  then show "sorted_wrt (>) (sl # map fst missed)" and "set (map fst missed) \<subseteq> fst ` set slots" by auto
qed

text \<open>Reading a cell of the window.\<close>

lemma recv_cell:
  assumes ok: "channel_ok sh" and q: "unat (st_head (sh_state sh)) \<le> unat q" "unat q \<le> unat (st_tail (sh_state sh))"
  shows "\<exists>it. buffer_idx (sh_buffer sh) (get_idx (sh_mask sh) q) = Some it \<and> it \<in> set (sh_buffer sh) \<and>
    it_pos it = q \<and> it_data it = Some (channel_log sh ! (unat q - unat (st_head (sh_state sh))))"
proof -
  let ?h = "unat (st_head (sh_state sh))" and ?t = "unat (st_tail (sh_state sh))"
    and ?b = "sh_buffer sh"
  have rs: "ring_state_ok (sh_mask sh) ?b (sh_state sh)" using ok by (simp add: channel_ok_def)
  then have ro: "ring_ok it_pos it_data ?b ?h ?t" by (simp add: ring_state_ok_def)
  then have n: "0 < length ?b" "length ?b < ?h" "Suc ?t \<le> ?h + length ?b" by (simp_all add: ring_ok_def)
  let ?it = "?b ! (unat q mod length ?b)"
  have "it_data ?it \<noteq> None" and "unat (it_pos ?it) = unat q"
    using plugin_ring.ring_cellD [OF ro, of "unat q"] q n by auto
  moreover have "channel_log sh ! (unat q - ?h) = the (it_data ?it)"
    using q by (simp add: channel_log_def log_of_def ring_cells_def nth_append del: upt_Suc)
  ultimately show ?thesis
    using ring_state_idx(2) [OF rs, of q] n(1) by (auto simp: word_unat_eq_iff)
qed

lemma recv_cell_next:
  assumes ok: "channel_ok sh" and q: "unat q = Suc (unat (st_tail (sh_state sh)))"
  shows "\<exists>it. buffer_idx (sh_buffer sh) (get_idx (sh_mask sh) q) = Some it \<and> it \<in> set (sh_buffer sh) \<and>
    it_pos it < q"
proof -
  let ?h = "unat (st_head (sh_state sh))" and ?t = "unat (st_tail (sh_state sh))"
    and ?b = "sh_buffer sh"
  have rs: "ring_state_ok (sh_mask sh) ?b (sh_state sh)" using ok by (simp add: channel_ok_def)
  then have ro: "ring_ok it_pos it_data ?b ?h ?t" by (simp add: ring_state_ok_def)
  then have n: "Suc 0 \<le> length ?b" "length ?b < ?h" "?h \<le> Suc ?t"
    by (simp_all add: ring_ok_def Suc_le_eq)
  let ?p = "Suc ?t - length ?b"
  have "unat q mod length ?b = ?p mod length ?b" using n by (simp add: q le_mod_geq)
  moreover have "unat (it_pos (?b ! (?p mod length ?b))) \<le> ?p"
    using plugin_ring.ring_cellD(2) [OF ro, of ?p] n by simp
  moreover have "?p < unat q" using n q by simp
  moreover have "?b ! (?p mod length ?b) \<in> set ?b" using n(1) by (simp add: Suc_le_eq)
  ultimately show ?thesis
    using ring_state_idx(2) [OF rs, of q] by (auto simp: word_less_nat_alt)
qed

lemma enabled_next [simp]: "notification_enabled (r\<lparr>rc_next := q\<rparr>) n = notification_enabled r n"
  by (cases n) simp_all

lemma scan_next [simp]: "scan (r\<lparr>rc_next := q\<rparr>) l = scan r l"
  by (induction l) simp_all

lemma recv_ref_live:
  assumes ok: "channel_ok sh" and opn: "channel_open sh" and "unat (st_head (sh_state sh)) \<le> unat (rc_next r)"
    and "unat (rc_next r) \<le> Suc (unat (st_tail (sh_state sh)))"
    and tail: "Suc (unat (st_tail (sh_state sh))) < 2 ^ 64"
    and "l = drop (unat (rc_next r) - unat (st_head (sh_state sh))) (channel_log sh)"
  shows "recv_ref sh r w = Some (Inr (fst (scan r l)), r\<lparr>rc_next := rc_next r + of_nat (snd (scan r l))\<rparr>,
    if fst (scan r l) = None then push_waker w sh else sh)"
  using assms(3,4,6)
proof (induction l arbitrary: r)
  case Nil
  have "unat (rc_next r) = Suc (unat (st_tail (sh_state sh)))"
    using Nil by (simp add: channel_log_def length_log_of)
  from recv_cell_next [OF ok this] obtain it where
    "buffer_idx (sh_buffer sh) (get_idx (sh_mask sh) (rc_next r)) = Some it"
    "it \<in> set (sh_buffer sh)" "it_pos it < rc_next r" by blast
  then show ?case using opn by (subst recv_ref.simps) (auto simp: channel_open_def)
next
  case (Cons x l)
  let ?k = "unat (rc_next r) - unat (st_head (sh_state sh))"
  have lt: "?k < length (channel_log sh)" using Cons.prems(3) by (metis drop_all linorder_not_less list.distinct(1))
  then have le: "unat (rc_next r) \<le> unat (st_tail (sh_state sh))"
    using Cons.prems(1) by (simp add: channel_log_def length_log_of)
  have xl: "channel_log sh ! ?k = x" "l = drop (Suc ?k) (channel_log sh)"
    using Cons.prems(3) lt by (simp_all add: Cons_nth_drop_Suc [symmetric])
  from recv_cell [OF ok Cons.prems(1) le] xl(1) obtain it where
    it: "buffer_idx (sh_buffer sh) (get_idx (sh_mask sh) (rc_next r)) = Some it"
    "it \<in> set (sh_buffer sh)" "it_pos it = rc_next r" "it_data it = Some x" by auto
  have q1: "unat (rc_next r + 1) = Suc (unat (rc_next r))"
    using le tail by (intro unat_inc_bound) simp
  have "recv_ref sh (r\<lparr>rc_next := rc_next r + 1\<rparr>) w = Some (Inr (fst (scan r l)),
      r\<lparr>rc_next := rc_next r + 1 + of_nat (snd (scan r l))\<rparr>,
      if fst (scan r l) = None then push_waker w sh else sh)"
    using Cons.IH [of "r\<lparr>rc_next := rc_next r + 1\<rparr>"] Cons.prems(1) le xl(2) q1
    by (simp add: Suc_diff_le)
  then show ?case using it opn
    by (subst recv_ref.simps) (auto simp: channel_open_def Let_def algebra_simps)
qed

lemma scan_delivered:
  "case scan r l of (None, n) \<Rightarrow> filter (\<lambda>x. notification_enabled r (fst x)) l = [] \<and> n = length l
   | (Some d, n) \<Rightarrow> map snd (filter (\<lambda>x. notification_enabled r (fst x)) l) =
       d # map snd (filter (\<lambda>x. notification_enabled r (fst x)) (drop n l)) \<and> 0 < n \<and> n \<le> length l"
proof (induction l)
  case (Cons x l)
  then show ?case by (cases "scan r l"; cases "fst (scan r l)") auto
qed simp

lemma channel_open_cong: "map it_closed (sh_buffer sh') = map it_closed (sh_buffer sh) \<Longrightarrow>
  channel_open sh' = channel_open sh"
proof -
  assume "map it_closed (sh_buffer sh') = map it_closed (sh_buffer sh)"
  then have "it_closed ` set (sh_buffer sh') = it_closed ` set (sh_buffer sh)" by (metis set_map)
  then show ?thesis unfolding channel_open_def by (metis (full_types) image_iff)
qed

lemma recv_lagged:
  assumes ok: "channel_ok sh" and opn: "channel_open sh"
    and q: "length (sh_buffer sh) < unat (rc_next r)" "unat (rc_next r) < unat (st_head (sh_state sh))"
  shows "\<exists>r'. recv_ref sh r w = Some (Inl Lagged, r', sh)"
proof -
  let ?h = "unat (st_head (sh_state sh))" and ?t = "unat (st_tail (sh_state sh))"
    and ?b = "sh_buffer sh" and ?q = "unat (rc_next r)"
  have rs: "ring_state_ok (sh_mask sh) ?b (sh_state sh)" using ok by (simp add: channel_ok_def)
  then have ro: "ring_ok it_pos it_data ?b ?h ?t" by (simp add: ring_state_ok_def)
  then have n: "Suc 0 \<le> length ?b" "length ?b < ?h" "?h \<le> Suc ?t"
    by (simp_all add: ring_ok_def Suc_le_eq)
  let ?it = "?b ! (?q mod length ?b)"
  have mem: "?it \<in> set ?b" using n(1) by (simp add: Suc_le_eq)
  show ?thesis
  proof (cases "?t < ?q + length ?b")
    case True
    then have "it_pos ?it = rc_next r"
      using plugin_ring.ring_cellD(2) [OF ro, of ?q] q n by (simp add: word_unat_eq_iff)
    moreover have "it_data ?it = None"
      using plugin_ring.ring_cellD(1) [OF ro True] q n by (auto simp del: not_None_eq)
    ultimately show ?thesis using ring_state_idx(2) [OF rs, of "rc_next r"] opn mem
      by (subst recv_ref.simps) (auto simp: channel_open_def Let_def)
  next
    case False
    then have "rc_next r < it_pos ?it"
      using plugin_ring.ring_overwritten [OF ro, of ?q] q by (simp add: word_less_nat_alt)
    then show ?thesis using ring_state_idx(2) [OF rs, of "rc_next r"] opn mem
      by (subst recv_ref.simps) (auto simp: channel_open_def Let_def)
  qed
qed

lemma parents_below_push_msg:
  assumes "bt_ok slots" and "parents_below slots" and "message_parent_ok m"
  shows "parents_below (snd (push_msg_slot m tp slots))"
  unfolding parents_below_def
proof (intro allI impI)
  fix s e p assume e: "bt_get (snd (push_msg_slot m tp slots)) s = Some e" "si_parent_slot e = Some p"
  show "p < s"
  proof (cases "get_slot m = Some s")
    case True
    with e assms show ?thesis
      by (cases m) (auto simp: push_msg_slot_def map_laws bt_oks parents_below_def update_slot_entry_def
          Let_def split: option.splits if_splits)
  next
    case False
    with e assms show ?thesis
      by (auto simp: push_msg_slot_def map_laws bt_oks parents_below_def split: option.splits if_splits)
  qed
qed

text \<open>The slot up to which the slots are forgotten is the slot of an evicted message.\<close>

lemma drop_by_bytes_removed:
  assumes "ring_state_ok msk buf st" and "drop_by_bytes msk buf st r ev = Some (buf', st', r', ev')"
  shows "unat (st_head st) \<le> unat (st_head st') \<and> (\<forall>u. r' = Some u \<longrightarrow> r = Some u \<or>
    (\<exists>p. unat (st_head st) \<le> p \<and> p < unat (st_head st') \<and> p < unat (st_tail st) \<and> it_slot (buf ! (p mod length buf)) = u))"
  using assms
proof (induction msk buf st r ev rule: drop_by_bytes.induct)
  case (1 msk buf st r ev)
  let ?h = "unat (st_head st)"
  show ?case
  proof (cases "st_bytes_max st \<le> st_bytes_total st \<and> st_head st < st_tail st")
    case False
    with "1.prems"(2) show ?thesis by (subst (asm) drop_by_bytes.simps) auto
  next
    case True
    define it where "it = buf ! (?h mod length buf)"
    define st1 where "st1 = st\<lparr>st_head := st_head st + 1,
      st_bytes_total := st_bytes_total st - of_nat (length (snd (the (it_data it))))\<rparr>"
    define buf1 where "buf1 = buf[?h mod length buf := it\<lparr>it_data := None\<rparr>]"
    note step = drop_step_ok [OF "1.prems"(1) conjunct2 [OF True] it_def buf1_def st1_def]
    obtain n d where nd: "it_data it = Some (n, d)" using step(1) by auto
    have idx: "get_idx msk (st_head st) = ?h mod length buf"
      and bidx: "buffer_idx buf (get_idx msk (st_head st)) = Some it"
      using ring_state_idx [OF "1.prems"(1)] by (simp_all add: it_def)
    have "drop_by_bytes msk buf1 st1 (note_removed r (it_slot it)) (ev @ [d]) = Some (buf', st', r', ev')"
      using "1.prems"(2) True bidx nd by (subst (asm) drop_by_bytes.simps) (simp add: Let_def idx buf1_def st1_def)
    with "1.IH" [OF True HOL.refl bidx nd HOL.refl] step(2) have IH: "unat (st_head st1) \<le> unat (st_head st')"
      "\<forall>u. r' = Some u \<longrightarrow> note_removed r (it_slot it) = Some u \<or>
        (\<exists>p. unat (st_head st1) \<le> p \<and> p < unat (st_head st') \<and> p < unat (st_tail st1) \<and> it_slot (buf1 ! (p mod length buf1)) = u)"
      unfolding idx by (simp_all add: buf1_def st1_def nd)
    have h1: "unat (st_head st1) = Suc ?h" "unat (st_tail st1) = unat (st_tail st)" "?h < unat (st_tail st)"
      using True unat_inc [of "st_head st" "st_tail st"] by (simp_all add: st1_def word_less_nat_alt)
    have slots: "it_slot (buf1 ! (p mod length buf1)) = it_slot (buf ! (p mod length buf))" for p
      by (cases "?h mod length buf < length buf") (auto simp: buf1_def it_def nth_list_update list_update_beyond)
    have "r = Some u \<or> (\<exists>p. ?h \<le> p \<and> p < unat (st_head st') \<and> p < unat (st_tail st) \<and> it_slot (buf ! (p mod length buf)) = u)"
      if u: "r' = Some u" for u
    proof -
      from IH(2) u consider "note_removed r (it_slot it) = Some u"
        | p where "Suc ?h \<le> p" "p < unat (st_head st')" "p < unat (st_tail st)" "it_slot (buf ! (p mod length buf)) = u"
        unfolding slots h1 by blast
      then show ?thesis
      proof cases
        case 1
        then have "r = Some u \<or> it_slot it = u" by (auto simp: note_removed_def max_def split: option.splits if_splits)
        moreover have "?h < unat (st_head st')" using IH(1) h1(1) by simp
        ultimately show ?thesis using h1(3) by (auto simp: it_def)
      next
        case 2
        then show ?thesis by (intro disjI2 exI [of _ p]) simp
      qed
    qed
    then show ?thesis using IH(1) h1(1) by simp
  qed
qed

lemma drop_by_bytes_slots: "drop_by_bytes msk buf st r ev = Some (buf', st', r', ev') \<Longrightarrow> st_slots st' = st_slots st"
proof (induction msk buf st r ev rule: drop_by_bytes.induct)
  case (1 msk buf st r ev)
  then show ?case
    by (subst (asm) (2) drop_by_bytes.simps) (auto simp: Let_def split: if_splits option.splits)
qed

lemma mod_window_neq: "p < t \<Longrightarrow> t < p + n \<Longrightarrow> p mod n \<noteq> t mod (n :: nat)"
  by (metis mod_eq_dvd_iff_nat dvd_imp_le less_imp_le_nat not_le zero_less_diff less_diff_conv2 add.commute)

lemma push_msg_slots:
  assumes ok: "channel_ok sh" and tail: "Suc (unat (st_tail (sh_state sh))) < 2 ^ 64" and push: "push_msg sh m data ev = Some (sh', ev')"
  shows "\<exists>removed. st_slots (sh_state sh') = (case removed of
      Some u \<Rightarrow> bt_pop_while (\<lambda>s. s \<le> u) (snd (push_msg_slot m (st_tail (sh_state sh) + 1) (st_slots (sh_state sh))))
    | None \<Rightarrow> snd (push_msg_slot m (st_tail (sh_state sh) + 1) (st_slots (sh_state sh)))) \<and>
    (\<forall>u. removed = Some u \<longrightarrow> (\<exists>p. unat (st_head (sh_state sh)) \<le> p \<and> p < unat (st_head (sh_state sh')) \<and>
      it_slot (sh_buffer sh ! (p mod length (sh_buffer sh))) = u))"
proof -
  let ?h = "unat (st_head (sh_state sh))" and ?t = "unat (st_tail (sh_state sh))" and ?b = "sh_buffer sh" and ?n = "length (sh_buffer sh)"
  from push_write_spec [OF ok tail] obtain buf3 st3 r old where
    w: "push_write sh m data ev = Some (buf3, st3, r, ev @ old)" and rs3: "ring_state_ok (sh_mask sh) buf3 st3"
    and sl3: "st_slots st3 = snd (push_msg_slot m (st_tail (sh_state sh) + 1) (st_slots (sh_state sh)))"
    and t3: "st_tail st3 = st_tail (sh_state sh) + 1" and n3: "length buf3 = ?n" by blast
  have rs: "ring_state_ok (sh_mask sh) ?b (sh_state sh)" using ok by (simp add: channel_ok_def)
  then have ro: "ring_ok it_pos it_data ?b ?h ?t" by (simp add: ring_state_ok_def)
  have t1: "unat (st_tail (sh_state sh) + 1) = Suc ?t" using tail by (simp add: unat_inc_bound)
  define it where "it = ?b ! (Suc ?t mod ?n)"
  obtain sl slots where ps: "push_msg_slot m (st_tail (sh_state sh) + 1) (st_slots (sh_state sh)) = (sl, slots)" by fastforce
  from push_write_eq [OF rs t1 ps HOL.refl HOL.refl HOL.refl, of data ev] w
  have buf3: "buf3 = ?b[Suc ?t mod ?n := it\<lparr>it_pos := st_tail (sh_state sh) + 1, it_slot := sl, it_data := Some (plugin_notification_from m, data)\<rparr>]"
    and h3: "st_head st3 = (if it_data it = None then st_head (sh_state sh) else st_head (sh_state sh) + 1)"
    and r: "r = (if it_data it = None then None else Some (it_slot it))" by (auto simp: it_def)
  have n: "0 < ?n" "?h \<le> Suc ?t" "Suc ?t \<le> ?h + ?n" using ro by (simp_all add: ring_ok_def)
  have full: "it_data it \<noteq> None \<longleftrightarrow> Suc ?t = ?h + ?n" unfolding it_def by (rule plugin_ring.ring_next_full [OF ro])
  have uh3: "unat (st_head st3) = (if it_data it = None then ?h else Suc ?h)"
  proof (cases "it_data it = None")
    case False
    then have "Suc ?h < 2 ^ 64" using full n(1) tail by linarith
    with False show ?thesis by (simp add: h3 unat_inc_bound)
  qed (simp add: h3)
  obtain buf4 st4 r4 ev4 where d: "drop_by_bytes (sh_mask sh) buf3 st3 r (ev @ old) = Some (buf4, st4, r4, ev4)"
    using push w by (auto simp: push_msg_def bind_eq_Some_conv)
  then have sh': "sh' = sh\<lparr>sh_state := st4\<lparr>st_slots := (case r4 of Some u \<Rightarrow> bt_pop_while (\<lambda>s. s \<le> u) (st_slots st4) | None \<Rightarrow> st_slots st4)\<rparr>, sh_buffer := buf4\<rparr>"
    using push w by (simp add: push_msg_def)
  have slots4: "st_slots st4 = st_slots st3"
    using drop_by_bytes_slots [OF d] .
  have "\<exists>p. ?h \<le> p \<and> p < unat (st_head st4) \<and> it_slot (?b ! (p mod ?n)) = u" if u: "r4 = Some u" for u
  proof -
    note dr = drop_by_bytes_removed [OF rs3 d]
    from conjunct2 [OF dr, rule_format, OF u] show ?thesis
    proof (elim disjE exE conjE)
      assume "r = Some u"
      then have "it_data it \<noteq> None" "it_slot it = u" by (auto simp: r split: if_splits)
      then have e: "Suc ?t = ?h + ?n" "unat (st_head st3) = Suc ?h" using full uh3 by auto
      then have "?h < unat (st_head st4)" using dr by simp
      moreover have "it_slot (?b ! (?h mod ?n)) = u" using \<open>it_slot it = u\<close> by (simp add: it_def e(1))
      ultimately show ?thesis by blast
    next
      fix p assume p: "unat (st_head st3) \<le> p" "p < unat (st_head st4)" "p < unat (st_tail st3)" "it_slot (buf3 ! (p mod length buf3)) = u"
      have pt: "p < Suc ?t" using p(3) by (simp add: t3 t1)
      have "Suc ?t < p + ?n"
      proof (cases "it_data it = None")
        case True
        then show ?thesis using full n(3) p(1) uh3 by simp
      next
        case False
        then have "unat (st_head st3) = Suc ?h" "Suc ?t = ?h + ?n" using full uh3 by simp_all
        then show ?thesis using p(1) by linarith
      qed
      with pt have "p mod ?n \<noteq> Suc ?t mod ?n" by (rule mod_window_neq)
      then have "it_slot (?b ! (p mod ?n)) = u" using p(4) n(1) by (simp add: n3 buf3)
      moreover have "?h \<le> p" using p(1) uh3 by (simp split: if_splits)
      ultimately show ?thesis using p(2) by blast
    qed
  qed
  then show ?thesis using slots4 sl3 by (intro exI [of _ r4]) (cases r4; simp add: sh')
qed

lemma push_refines:
  assumes "channel_ok sh" and "push_messages (st_slots (sh_state sh)) m = Some ms"
    and "unat (st_tail (sh_state sh)) + length ms < 2 ^ 64"
  shows "\<exists>sh' evicted. push enc sh m = Some (sh', st_wakers (sh_state sh), evicted) \<and>
    channel_ok sh' \<and> st_wakers (sh_state sh') = [] \<and>
    channel_log sh' = foldl (log_push (length (sh_buffer sh)) (st_bytes_max (sh_state sh)))
      (channel_log sh) (map (\<lambda>x. (plugin_notification_from x, enc x)) (rev ms)) \<and>
    map snd (channel_log sh) @ map enc (rev ms) = evicted @ map snd (channel_log sh')"
proof -
  have "unat (st_tail (sh_state sh)) + length (rev ms) < 2 ^ 64" using assms(3) by simp
  from push_all_spec [OF assms(1) this, of enc "[]"] obtain sh1 ev where
    p: "push_all enc sh (rev ms) [] = Some (sh1, ev)" "channel_ok sh1"
      "channel_log sh1 = foldl (log_push (length (sh_buffer sh)) (st_bytes_max (sh_state sh)))
        (channel_log sh) (map (\<lambda>x. (plugin_notification_from x, enc x)) (rev ms))"
      "map snd (channel_log sh) @ map enc (rev ms) = ev @ map snd (channel_log sh1)"
      "st_wakers (sh_state sh1) = st_wakers (sh_state sh)" by auto
  define sh' where "sh' = sh1\<lparr>sh_state := (sh_state sh1)\<lparr>st_wakers := []\<rparr>\<rparr>"
  have "channel_ok sh'" and "channel_log sh' = channel_log sh1"
    using p(2) by (simp_all add: sh'_def channel_ok_def ring_state_ok_def channel_log_def)
  with p assms(2) show ?thesis
    by (intro exI [of _ sh'] exI [of _ ev]) (simp add: push_def sh'_def)
qed

text \<open>A slot whose status was pushed does not lack it, as long as the slot is known.\<close>

definition reported :: "slot_status \<Rightarrow> slot set \<Rightarrow> (slot, slot_info) btree \<Rightarrow> bool" where
  "reported status done_slots slots \<longleftrightarrow> (\<forall>p \<in> done_slots. \<forall>e. bt_get slots p = Some e \<longrightarrow> \<not> lacks_status status e)"

lemma update_slot_entry_status: "\<not> lacks_status status (update_slot_entry (PM_Slot sl parent status bank) e)"
  by (cases status) (simp_all add: lacks_status_def update_slot_entry_def Let_def split: option.split)

lemma update_slot_entry_keeps:
  "\<not> lacks_status status e \<Longrightarrow> \<not> lacks_status status (update_slot_entry m e)"
  by (cases m; cases status) (auto simp: lacks_status_def update_slot_entry_def Let_def split: option.split slot_status.split)

lemma reported_push_msg:
  assumes "bt_ok slots" "reported status D slots"
  shows "reported status (insert sl D) (snd (push_msg_slot (PM_Slot sl parent status bank :: 'e protobuf_message) tp slots))"
  unfolding reported_def
proof (intro ballI allI impI)
  fix p e assume p: "p \<in> insert sl D" and e: "bt_get (snd (push_msg_slot (PM_Slot sl parent status bank :: 'e protobuf_message) tp slots)) p = Some e"
  show "\<not> lacks_status status e"
  proof (cases "p = sl")
    case True
    with e assms(1) show ?thesis
      by (auto simp: push_msg_slot_def map_laws bt_oks update_slot_entry_status split: option.splits)
  next
    case False
    with e assms(1) have "bt_get slots p = Some e" by (auto simp: push_msg_slot_def map_laws bt_oks split: option.splits if_splits)
    with p False assms(2) show ?thesis by (auto simp: reported_def)
  qed
qed

definition status_message :: "slot_status \<Rightarrow> slot \<times> slot option \<times> bank_id option \<Rightarrow> 'e protobuf_message" where
  "status_message status x = PM_Slot (fst x) (fst (snd x)) status (snd (snd x))"

lemma push_all_reported:
  fixes enc :: "'e protobuf_message \<Rightarrow> bytes"
  assumes "channel_ok sh" "unat (st_tail (sh_state sh)) + length xs < 2 ^ 64" "reported status D (st_slots (sh_state sh))"
    and "push_all enc sh (map (status_message status) xs) ev = Some (sh', ev')"
  shows "reported status (D \<union> fst ` set xs) (st_slots (sh_state sh'))"
  using assms
proof (induction xs arbitrary: sh ev D)
  case Nil
  then show ?case by simp
next
  case (Cons x xs)
  obtain p pp bank where x: "x = (p, pp, bank)" by (cases x)
  have head: "status_message status x = (PM_Slot p pp status bank :: 'e protobuf_message)" by (simp add: status_message_def x)
  have tail: "Suc (unat (st_tail (sh_state sh))) < 2 ^ 64" using Cons.prems(2) by simp
  obtain sh1 ev1 where p1: "push_msg sh (PM_Slot p pp status bank :: 'e protobuf_message) (enc (PM_Slot p pp status bank)) ev = Some (sh1, ev1)"
      "push_all enc sh1 (map (status_message status) xs) ev1 = Some (sh', ev')"
    using Cons.prems(4) head by (auto simp: bind_eq_Some_conv)
  obtain sh2 ev2 where p2: "push_msg sh (PM_Slot p pp status bank :: 'e protobuf_message) (enc (PM_Slot p pp status bank)) ev = Some (sh2, ev @ ev2)" "channel_ok sh2"
      "st_tail (sh_state sh2) = st_tail (sh_state sh) + 1"
      "\<forall>s v. bt_get (st_slots (sh_state sh2)) s = Some v \<longrightarrow> bt_get (snd (push_msg_slot (PM_Slot p pp status bank :: 'e protobuf_message)
         (st_tail (sh_state sh) + 1) (st_slots (sh_state sh)))) s = Some v"
    using push_msg_spec [OF Cons.prems(1) tail] by blast
  then have s1: "sh2 = sh1" using p1(1) by simp
  have "reported status (insert p D) (st_slots (sh_state sh1))"
  proof -
    have "bt_ok (st_slots (sh_state sh))" using Cons.prems(1) by (simp add: channel_ok_def)
    from reported_push_msg [where 'e = 'e, OF this Cons.prems(3), of p pp bank "st_tail (sh_state sh) + 1"] p2(4) show ?thesis
      unfolding s1 reported_def by blast
  qed
  moreover have "unat (st_tail (sh_state sh1)) + length xs < 2 ^ 64"
    using p2(3) Cons.prems(2) tail unfolding s1 by (simp add: unat_inc_bound)
  ultimately have "reported status (insert p D \<union> fst ` set xs) (st_slots (sh_state sh'))"
    using Cons.IH [OF p2(2) [unfolded s1] _ _ p1(2)] by blast
  then show ?case by (simp add: x)
qed

lemma descending_distinct: "sorted_wrt (>) (ys :: 'a::order list) \<Longrightarrow> distinct ys"
  by (induction ys) auto

lemma missed_length:
  fixes missed :: "(slot \<times> 'c) list"
  assumes "sorted_wrt (>) (map fst missed)" "set (map fst missed) \<subseteq> fst ` set slots"
  shows "length missed \<le> length slots"
proof -
  have "distinct (map fst missed)" using assms(1) by (rule descending_distinct)
  then have "length missed = card (set (map fst missed))" by (metis distinct_card length_map)
  also have "\<dots> \<le> card (fst ` set slots)" by (rule card_mono [OF _ assms(2)]) simp
  also have "\<dots> \<le> length slots" by (metis card_image_le card_length finite_set le_trans)
  finally show ?thesis .
qed

subsection \<open>Properties\<close>

text \<open>\<^bold>\<open>C1.\<close> \<open>Sender::push\<close> refines appending to a bounded log. On every channel
  that satisfies the invariant (ring positions, byte count, slot heads), pushing a message
  does not panic (in particular ``nothing to remove to keep bytes under limit'' is not
  reachable), keeps the invariant, appends the message preceded by the missed ancestor
  statuses, and drops from the front only what the limits on messages and bytes require;
  what is evicted and what is kept are together exactly the old log and the new
  messages, in order. All waiting receivers are woken.\<close>

theorem push_refines_log:
  assumes "channel_ok sh" and "push_messages (st_slots (sh_state sh)) m = Some ms"
    and "unat (st_tail (sh_state sh)) + length ms < 2 ^ 64"
  shows "\<exists>sh' evicted. push enc sh m = Some (sh', st_wakers (sh_state sh), evicted) \<and>
    channel_ok sh' \<and> st_wakers (sh_state sh') = [] \<and>
    channel_log sh' = foldl (log_push (length (sh_buffer sh)) (st_bytes_max (sh_state sh)))
      (channel_log sh) (map (\<lambda>x. (plugin_notification_from x, enc x)) (rev ms)) \<and>
    map snd (channel_log sh) @ map enc (rev ms) = evicted @ map snd (channel_log sh')"
  by (rule push_refines [OF assms])

definition example_messages :: "unit protobuf_message list" where
  "example_messages = [PM_Slot 5 (Some 4) SS_Processed None, PM_Slot 6 (Some 5) SS_Confirmed None]"

theorem push_refines_log_witness:
  "\<exists>sh' evicted. push (\<lambda>_. [1, 2, 3]) (sender_new 2 100 :: nat shared) (example_messages ! 0) =
      Some (sh', [], evicted) \<and> channel_ok sh' \<and> map snd (channel_log sh') = [[1, 2, 3]] \<and> evicted = []"
proof -
  let ?sh = "sender_new 2 100 :: nat shared"
  have ok: "channel_ok ?sh" "channel_log ?sh = []" "unat (st_tail (sh_state ?sh)) = next_power_of_two 2"
    "length (sh_buffer ?sh) = next_power_of_two 2"
    by (simp_all add: sender_new_ok)
  have two: "next_power_of_two 2 = 2" using next_power_of_two_pow_self [of 1] by simp
  have ms: "push_messages (st_slots (sh_state ?sh)) (example_messages ! 0) = Some [example_messages ! 0]"
    by (simp add: push_messages_def example_messages_def sender_new_def Let_def missed_walk.simps)
  have "unat (st_tail (sh_state ?sh)) + length [example_messages ! 0] < 2 ^ 64" using ok(3) two by simp
  from push_refines_log [OF ok(1) ms this, of "\<lambda>_. [1, 2, 3]"] obtain sh' evicted where
    r: "push (\<lambda>_. [1, 2, 3]) ?sh (example_messages ! 0) = Some (sh', st_wakers (sh_state ?sh), evicted)"
    "channel_ok sh'" "channel_log sh' = foldl (log_push (length (sh_buffer ?sh)) (st_bytes_max (sh_state ?sh)))
      (channel_log ?sh) (map (\<lambda>x. (plugin_notification_from x, [1, 2, 3])) (rev [example_messages ! 0]))"
    "map snd (channel_log ?sh) @ map (\<lambda>_. [1, 2, 3]) (rev [example_messages ! 0]) =
      evicted @ map snd (channel_log sh')" by blast
  have "map snd (channel_log sh') = [[1, 2, 3]]"
    using r(3) ok(2,4) two by (simp add: log_push_def)
  with r ok(2) show ?thesis by (simp add: sender_new_def Let_def)
qed

text \<open>\<^bold>\<open>C5.\<close> Recovery of missed statuses. When the recorded parents of slots are smaller than the slots, the
  search in \<open>Sender::push\<close> ends. A status of a slot is appended to the log after one message for every
  known ancestor that lacks this status, up to the first ancestor that has it or is unknown, and the
  ancestors come first, in ascending order. Afterwards neither the slot nor one of these ancestors that
  is still known lacks the status.\<close>

theorem push_missed_statuses:
  assumes ok: "channel_ok sh" and below: "parents_below (st_slots (sh_state sh))"
    and room: "unat (st_tail (sh_state sh)) + length (st_slots (sh_state sh)) + 1 < 2 ^ 64"
  shows "\<exists>missed sh' evicted. push enc sh (PM_Slot sl parent status bank) = Some (sh', st_wakers (sh_state sh), evicted) \<and>
    missed_chain (st_slots (sh_state sh)) status sl missed \<and> sorted_wrt (<) (rev (map fst missed) @ [sl]) \<and>
    channel_log sh' = foldl (log_push (length (sh_buffer sh)) (st_bytes_max (sh_state sh))) (channel_log sh)
      (map (\<lambda>m. (PN_Slot, enc m)) (map (\<lambda>(p, pp). PM_Slot p pp status None) (rev missed) @ [PM_Slot sl parent status bank])) \<and>
    (\<forall>p \<in> insert sl (fst ` set missed). \<forall>e. bt_get (st_slots (sh_state sh')) p = Some e \<longrightarrow> \<not> lacks_status status e)"
proof -
  let ?slots = "st_slots (sh_state sh)" and ?m = "PM_Slot sl parent status bank"
  from missed_walk_total [OF below] obtain missed where
    m: "missed_walk ?slots status sl = Some missed" "missed_chain ?slots status sl missed" by blast
  note sorted = missed_chain_sorted [OF below m(2)]
  let ?xs = "map (\<lambda>(p, pp). (p, pp, None)) (rev missed) @ [(sl, parent, bank)]"
  let ?ms = "?m # map (\<lambda>(parent, pp). PM_Slot parent pp status None) missed"
  have ms: "push_messages ?slots ?m = Some ?ms" using m(1) by (simp add: push_messages_def)
  have len: "length missed \<le> length ?slots" using missed_length [OF _ sorted(2)] sorted(1) by simp
  then have room': "unat (st_tail (sh_state sh)) + length ?ms < 2 ^ 64" using room by simp
  from push_refines [OF ok ms room', of enc] obtain sh' evicted where
    p: "push enc sh ?m = Some (sh', st_wakers (sh_state sh), evicted)"
      "channel_log sh' = foldl (log_push (length (sh_buffer sh)) (st_bytes_max (sh_state sh)))
        (channel_log sh) (map (\<lambda>x. (plugin_notification_from x, enc x)) (rev ?ms))" by blast
  have rev_ms: "rev ?ms = map (status_message status) ?xs"
    by (simp add: rev_map comp_def case_prod_unfold status_message_def)
  obtain sh1 where all: "push_all enc sh (map (status_message status) ?xs) [] = Some (sh1, evicted)"
      "st_slots (sh_state sh') = st_slots (sh_state sh1)"
    using p(1) unfolding push_def ms by (auto simp: bind_eq_Some_conv rev_ms simp del: rev.simps map_append list.map)
  have "unat (st_tail (sh_state sh)) + length ?xs < 2 ^ 64" using room' by simp
  from push_all_reported [OF ok this _ all(1), of "{}"] have "reported status (fst ` set ?xs) (st_slots (sh_state sh'))"
    unfolding all(2) by (simp add: reported_def)
  moreover have "fst ` set ?xs = insert sl (fst ` set missed)" by force
  ultimately have rep: "\<forall>p \<in> insert sl (fst ` set missed). \<forall>e. bt_get (st_slots (sh_state sh')) p = Some e \<longrightarrow> \<not> lacks_status status e"
    unfolding reported_def by (simp only:)
  have "map (\<lambda>x. (plugin_notification_from x, enc x)) (rev ?ms) =
      map (\<lambda>m. (PN_Slot, enc m)) (map (\<lambda>(p, pp). PM_Slot p pp status None) (rev missed) @ [?m])"
    by (simp add: rev_map comp_def case_prod_unfold)
  moreover have "sorted_wrt (<) (rev (map fst missed) @ [sl])"
    using sorted(1) by (simp add: sorted_wrt_append sorted_wrt_rev)
  ultimately show ?thesis using p m(2) rep by (intro exI [of _ missed] exI [of _ sh'] exI [of _ evicted]) simp
qed

text \<open>\<^bold>\<open>C2.\<close> Delivery is complete, in order and without duplicates: a receiver whose
  position is in the channel's window, called repeatedly, returns exactly the messages of
  the log from its position on whose kind its filter enables.\<close>

theorem recv_delivers_log:
  assumes "channel_ok sh" and "channel_open sh" and "Suc (unat (st_tail (sh_state sh))) < 2 ^ 64"
    and "unat (st_head (sh_state sh)) \<le> unat (rc_next r)"
    and "unat (rc_next r) \<le> Suc (unat (st_tail (sh_state sh)))" and "length (channel_log sh) < k"
  shows "recv_many k sh r w = map snd (filter (\<lambda>x. notification_enabled r (fst x))
    (drop (unat (rc_next r) - unat (st_head (sh_state sh))) (channel_log sh)))"
proof -
  define l where "l = drop (unat (rc_next r) - unat (st_head (sh_state sh))) (channel_log sh)"
  have "length l < k" using assms(6) by (simp add: l_def)
  then have "recv_many k sh r w = map snd (filter (\<lambda>x. notification_enabled r (fst x)) l)"
    using assms(4,5) l_def
  proof (induction k arbitrary: r l)
    case (Suc k)
    note rr = recv_ref_live [OF assms(1,2) Suc.prems(2,3) assms(3) Suc.prems(4), of w]
    obtain v n where vn: "scan r l = (v, n)" by (cases "scan r l")
    note del = scan_delivered [of r l, unfolded vn]
    show ?case
    proof (cases v)
      case None
      with rr vn del show ?thesis by simp
    next
      case (Some d)
      let ?r = "r\<lparr>rc_next := rc_next r + of_nat n\<rparr>"
      have n: "0 < n" "n \<le> length l" using del Some by auto
      have le: "unat (rc_next r) + n \<le> Suc (unat (st_tail (sh_state sh)))"
        using n Suc.prems(2,3) by (simp add: Suc.prems(4) channel_log_def length_log_of)
      then have q: "unat (rc_next r + of_nat n) = unat (rc_next r) + n"
        using assms(3) by (simp add: unat_word_ariths unat_of_nat)
      have "recv_many k sh ?r w = map snd (filter (\<lambda>x. notification_enabled ?r (fst x)) (drop n l))"
        using n Suc.prems q le by (intro Suc.IH) (simp_all add: add.commute)
      with rr vn del Some show ?thesis by simp
    qed
  qed simp
  then show ?thesis by (simp add: l_def)
qed

definition example_receiver :: "u64 \<Rightarrow> receiver" where
  "example_receiver q = \<lparr>rc_next = q, rc_finished = False, rc_accounts = True, rc_transactions = True,
     rc_entries = True, rc_deshred_transactions = False, rc_contact_info = False,
     rc_block_footers = False, rc_entry_update_parents = False\<rparr>"

text \<open>A channel of four cells after one account update and one contact info.\<close>

definition example_channel :: "nat shared" where
  "example_channel = \<lparr>sh_state = \<lparr>st_head = 5, st_tail = 6, st_slots = [(1, \<lparr>si_head = 5, si_parent_slot = None, si_confirmed = False,
         si_finalized = False\<rparr>)], st_bytes_total = 5,
       st_bytes_max = 100, st_wakers = []\<rparr>, sh_mask = 3,
     sh_buffer = [\<lparr>it_pos = 0, it_slot = 0, it_data = None, it_closed = False\<rparr>,
       \<lparr>it_pos = 5, it_slot = 1, it_data = Some (PN_Account, [7, 8]), it_closed = False\<rparr>,
       \<lparr>it_pos = 6, it_slot = 1, it_data = Some (PN_ContactInfo, [1, 2, 3]), it_closed = False\<rparr>,
       \<lparr>it_pos = 3, it_slot = 0, it_data = None, it_closed = False\<rparr>]\<rparr>"

lemma example_channel_ok: "channel_ok example_channel" "channel_open example_channel"
proof -
  have "ring_ok it_pos it_data (sh_buffer example_channel) 5 6"
    unfolding ring_ok_def
  proof (intro conjI allI impI)
    fix p :: nat assume "6 < p + length (sh_buffer example_channel) \<and> p \<le> 6"
    then consider "p = 3" | "p = 4" | "p = 5" | "p = 6" by (fastforce simp: example_channel_def)
    then show "unat (it_pos (sh_buffer example_channel ! (p mod length (sh_buffer example_channel)))) =
        (if p = length (sh_buffer example_channel) then 0 else p)"
      and "it_data (sh_buffer example_channel ! (p mod length (sh_buffer example_channel))) \<noteq> None \<longleftrightarrow> 5 \<le> p"
      by (cases; simp add: example_channel_def)+
  qed (simp_all add: example_channel_def)
  moreover have "(3 :: u64) = mask 2" by (simp add: mask_eq_exp_minus_1)
  ultimately show "channel_ok example_channel"
    by (auto simp: channel_ok_def ring_state_ok_def heads_ok_def example_channel_def log_of_def
        ring_cells_def upt_rec bt_get_def bt_ok_def split: if_splits intro!: exI [of _ 2])
  show "channel_open example_channel" by (simp add: channel_open_def example_channel_def)
qed

theorem recv_delivers_log_witness: "recv_many 3 example_channel (example_receiver 5) 0 = [[7, 8]]"
  using recv_delivers_log [OF example_channel_ok, of "example_receiver 5" 3 0]
  by (simp add: example_channel_def example_receiver_def channel_log_def log_of_def ring_cells_def upt_rec)

text \<open>\<^bold>\<open>C3.\<close> A receiver that fell behind learns it: when its position was evicted, by
  count or by bytes, the next call returns \<open>Lagged\<close> and no data, and \<open>poll_next\<close> ends the
  stream; it never returns a message of another position.\<close>

theorem recv_lagged_is_reported:
  assumes "channel_ok sh" and "channel_open sh" and "\<not> rc_finished r"
    and "length (sh_buffer sh) < unat (rc_next r)" and "unat (rc_next r) < unat (st_head (sh_state sh))"
  shows "\<exists>r'. poll_next sh r w = Some (Ready (Some (Inl Lagged)), r', sh) \<and>
    poll_next sh' r' w = Some (Ready None, r', sh')"
  using recv_lagged [OF assms(1,2,4,5), of w] assms(3) by (auto simp: poll_next_def)

text \<open>The same channel after the account update was evicted.\<close>

definition evicted_channel :: "nat shared" where
  "evicted_channel = example_channel\<lparr>
     sh_state := (sh_state example_channel)\<lparr>st_head := 6, st_bytes_total := 3, st_slots := []\<rparr>,
     sh_buffer := (sh_buffer example_channel)[1 := (sh_buffer example_channel ! 1)\<lparr>it_data := None\<rparr>]\<rparr>"

lemma evicted_channel_ok: "channel_ok evicted_channel"
proof -
  have "ring_state_ok (sh_mask example_channel) (sh_buffer example_channel) (sh_state example_channel)"
    using example_channel_ok(1) by (simp add: channel_ok_def)
  note d = drop_step_ok(2) [OF this _ refl refl refl]
  have "ring_state_ok 3 (sh_buffer evicted_channel)
      ((sh_state example_channel)\<lparr>st_head := 6, st_bytes_total := 3\<rparr>)"
    using d by (simp add: example_channel_def evicted_channel_def)
  then show ?thesis
    by (simp add: channel_ok_def evicted_channel_def example_channel_def heads_ok_def ring_state_ok_def)
qed

theorem recv_lagged_is_reported_witness:
  "\<exists>r'. poll_next evicted_channel (example_receiver 5) 0 =
      Some (Ready (Some (Inl Lagged)), r', evicted_channel) \<and>
    poll_next example_channel r' 0 = Some (Ready None, r', example_channel)"
  by (rule recv_lagged_is_reported [OF evicted_channel_ok])
    (simp_all add: channel_open_def evicted_channel_def example_channel_def example_receiver_def)

text \<open>\<^bold>\<open>C4.\<close> Where a replay starts, push by push. After pushing a message, a slot that could
  be replayed before and still can starts at the same position as before; a slot that could not
  starts at this message, which is one of the slot. The position is in the window and holds a message of
  the slot. A slot that could be replayed or was just pushed is refused only when the push evicted a
  message of this slot or of a later one; the error names the first slot that can be replayed, or says
  that there is none. Without a slot a receiver starts at the tail.\<close>

theorem subscribe_replay:
  assumes ok: "channel_ok sh" and tail: "Suc (unat (st_tail (sh_state sh))) < 2 ^ 64" and push: "push_msg sh m data ev = Some (sh', ev')"
  shows "(case subscribe sh' (Some sl) f of
     Inr r \<Rightarrow> unat (st_head (sh_state sh')) \<le> unat (rc_next r) \<and> unat (rc_next r) \<le> unat (st_tail (sh_state sh')) \<and>
       it_slot (sh_buffer sh' ! (unat (rc_next r) mod length (sh_buffer sh'))) = sl \<and>
       (case subscribe sh (Some sl) f of Inr r0 \<Rightarrow> r = r0
        | Inl _ \<Rightarrow> get_slot m = Some sl \<and> rc_next r = st_tail (sh_state sh'))
   | Inl e \<Rightarrow> (is_ok (subscribe sh (Some sl) f) \<or> get_slot m = Some sl \<longrightarrow>
         (\<exists>p. unat (st_head (sh_state sh)) \<le> p \<and> p < unat (st_head (sh_state sh')) \<and>
           sl \<le> it_slot (sh_buffer sh ! (p mod length (sh_buffer sh))))) \<and>
       (case e of SlotNotAvailable first \<Rightarrow> is_ok (subscribe sh' (Some first) f) \<and> (\<forall>s. is_ok (subscribe sh' (Some s) f) \<longrightarrow> first \<le> s)
        | NotInitialized \<Rightarrow> \<forall>s. \<not> is_ok (subscribe sh' (Some s) f))) \<and>
    (\<exists>r. subscribe sh' None f = Inr r \<and> rc_next r = st_tail (sh_state sh'))"
proof -
  let ?old = "st_slots (sh_state sh)" and ?new = "st_slots (sh_state sh')"
  let ?mid = "snd (push_msg_slot m (st_tail (sh_state sh) + 1) ?old)"
  have bt: "bt_ok ?old" using ok by (simp add: channel_ok_def)
  obtain sh1 ev1 where spec: "push_msg sh m data ev = Some (sh1, ev @ ev1)" "channel_ok sh1" "st_tail (sh_state sh1) = st_tail (sh_state sh) + 1"
    using push_msg_spec [OF ok tail, of m data ev] by blast
  then have ok': "channel_ok sh'" and t': "st_tail (sh_state sh') = st_tail (sh_state sh) + 1" using push by auto
  obtain slot0 where mid: "push_msg_slot m (st_tail (sh_state sh) + 1) ?old = (slot0, ?mid)" by (metis prod.collapse)
  have btm: "bt_ok ?mid" using push_msg_slot_heads(1) [OF mid bt] .
  obtain removed where removed: "?new = (case removed of Some u \<Rightarrow> bt_pop_while (\<lambda>s. s \<le> u) ?mid | None \<Rightarrow> ?mid)"
    "\<And>u. removed = Some u \<Longrightarrow> \<exists>p. unat (st_head (sh_state sh)) \<le> p \<and> p < unat (st_head (sh_state sh')) \<and>
      it_slot (sh_buffer sh ! (p mod length (sh_buffer sh))) = u" using push_msg_slots [OF ok tail push] by blast
  have available: "is_ok (subscribe s (Some k) f) \<longleftrightarrow> bt_get (st_slots (sh_state s)) k \<noteq> None" for s :: "'a shared" and k
    by (cases "bt_get (st_slots (sh_state s)) k") (auto simp: subscribe_def is_ok_def Let_def split: option.split)
  have head: "si_head e' = (case bt_get ?old k of Some e \<Rightarrow> si_head e | None \<Rightarrow> st_tail (sh_state sh')) \<and>
      (bt_get ?old k = None \<longrightarrow> get_slot m = Some k)" if "bt_get ?mid k = Some e'" for k e'
    using that bt t' by (auto simp: push_msg_slot_def map_laws bt_oks split: option.splits if_splits)
  have known: "bt_get ?mid k \<noteq> None" if "bt_get ?old k \<noteq> None \<or> get_slot m = Some k" for k
    using that bt by (auto simp: push_msg_slot_def map_laws bt_oks split: option.splits)
  have kept: "bt_get ?new k = Some e' \<Longrightarrow> bt_get ?mid k = Some e'" for k e'
    using btm removed(1) by (auto simp: map_laws split: option.splits if_splits)
  have lost: "\<exists>u. removed = Some u \<and> k \<le> u" if "bt_get ?mid k \<noteq> None" "bt_get ?new k = None" for k
    using that btm removed(1) by (auto simp: map_laws split: option.splits if_splits)
  have none: "\<exists>r. subscribe sh' None f = Inr r \<and> rc_next r = st_tail (sh_state sh')" by (simp add: subscribe_def Let_def)
  show ?thesis
  proof (cases "bt_get ?new sl")
    case (Some e)
    note h = head [OF kept [OF Some]]
    have start: "unat (st_head (sh_state sh')) \<le> unat (si_head e)" "unat (si_head e) \<le> unat (st_tail (sh_state sh'))"
      "it_slot (sh_buffer sh' ! (unat (si_head e) mod length (sh_buffer sh'))) = sl"
      using ok' Some by (auto simp: channel_ok_def heads_ok_def)
    show ?thesis
    proof (cases "bt_get ?old sl")
      case None
      with Some h start none show ?thesis by (simp add: subscribe_def Let_def split: option.split)
    next
      case old: (Some e0)
      with Some h start none show ?thesis by (simp add: subscribe_def Let_def)
    qed
  next
    case None
    have evicted: "\<exists>p. unat (st_head (sh_state sh)) \<le> p \<and> p < unat (st_head (sh_state sh')) \<and>
        sl \<le> it_slot (sh_buffer sh ! (p mod length (sh_buffer sh)))" if "is_ok (subscribe sh (Some sl) f) \<or> get_slot m = Some sl"
      using lost [OF known None] that removed(2) unfolding available by blast
    have bt': "bt_ok ?new" using ok' by (simp add: channel_ok_def)
    show ?thesis
    proof (cases "bt_first_key ?new")
      case no: None
      then have "?new = []" by (simp add: bt_first_key_def split: list.splits)
      then have "\<not> is_ok (subscribe sh' (Some s) f)" for s unfolding available by simp
      with None no evicted none show ?thesis by (simp add: subscribe_def)
    next
      case (Some k)
      have "is_ok (subscribe sh' (Some k) f)" "\<forall>s. is_ok (subscribe sh' (Some s) f) \<longrightarrow> k \<le> s"
        unfolding available using bt.first_Some [OF bt' Some] by auto
      with None Some evicted none show ?thesis by (simp add: subscribe_def)
    qed
  qed
qed

definition example_slot_message :: "unit protobuf_message" where
  "example_slot_message = PM_Slot 2 None SS_Processed None"

lemma example_push_slot:
  "case push_msg example_channel example_slot_message [1] [] of None \<Rightarrow> False
   | Some (sh, _) \<Rightarrow> subscribe sh (Some 1) None = Inr (example_receiver 5) \<and> subscribe sh (Some 2) None = Inr (example_receiver 7)"
  by code_simp

theorem subscribe_replay_witness:
  "\<exists>sh' ev'. push_msg example_channel example_slot_message [1] [] = Some (sh', ev') \<and>
    subscribe sh' (Some 2) None = Inr (example_receiver 7) \<and>
    it_slot (sh_buffer sh' ! (unat (rc_next (example_receiver 7)) mod length (sh_buffer sh'))) = 2 \<and>
    rc_next (example_receiver 7) = st_tail (sh_state sh')"
proof -
  obtain sh' ev' where p: "push_msg example_channel example_slot_message [1] [] = Some (sh', ev')"
    and s: "subscribe sh' (Some 2) None = Inr (example_receiver 7)"
    using example_push_slot by (auto split: option.splits)
  have t: "Suc (unat (st_tail (sh_state example_channel))) < 2 ^ 64" by (simp add: example_channel_def)
  have old: "subscribe example_channel (Some 2) None = Inl (SlotNotAvailable 1)"
    by (simp add: subscribe_def example_channel_def bt_get_def bt_first_key_def)
  show ?thesis using subscribe_replay [OF example_channel_ok(1) t p, of 2 None] p s old by auto
qed

text \<open>Slot 1 without a confirmation, and slot 2 with slot 1 as its parent.\<close>

definition example_child :: "unit protobuf_message" where
  "example_child = PM_Slot 2 (Some 1) SS_Processed None"

lemma example_child_slots:
  "case push_msg example_channel example_child [1] [] of None \<Rightarrow> False
   | Some (sh, _) \<Rightarrow> st_slots (sh_state sh) =
      [(1, \<lparr>si_head = 5, si_parent_slot = None, si_confirmed = False, si_finalized = False\<rparr>),
       (2, \<lparr>si_head = 7, si_parent_slot = Some 1, si_confirmed = False, si_finalized = False\<rparr>)] \<and> st_tail (sh_state sh) = 7"
  by code_simp

theorem push_missed_statuses_witness:
  "\<exists>sh sh' wakers evicted. channel_ok (sh :: nat shared) \<and>
    push (\<lambda>_. [1]) sh (PM_Slot 2 None SS_Confirmed None :: unit protobuf_message) = Some (sh', wakers, evicted) \<and>
    channel_log sh' = foldl (log_push (length (sh_buffer sh)) (st_bytes_max (sh_state sh))) (channel_log sh) [(PN_Slot, [1]), (PN_Slot, [1])]"
proof -
  obtain sh ev where p: "push_msg example_channel example_child [1] [] = Some (sh, ev)"
    and s: "st_slots (sh_state sh) =
      [(1, \<lparr>si_head = 5, si_parent_slot = None, si_confirmed = False, si_finalized = False\<rparr>),
       (2, \<lparr>si_head = 7, si_parent_slot = Some 1, si_confirmed = False, si_finalized = False\<rparr>)]" "st_tail (sh_state sh) = 7"
    using example_child_slots by (auto split: option.splits)
  have "Suc (unat (st_tail (sh_state example_channel))) < 2 ^ 64" by (simp add: example_channel_def)
  from push_msg_spec [OF example_channel_ok(1) this, of example_child "[1]" "[]"] p have ok: "channel_ok sh" by auto
  have below: "parents_below (st_slots (sh_state sh))" by (auto simp: parents_below_def s bt_get_def split: if_splits)
  have room: "unat (st_tail (sh_state sh)) + length (st_slots (sh_state sh)) + 1 < 2 ^ 64" by (simp add: s)
  from push_missed_statuses [OF ok below room, of "\<lambda>_. [1]" 2 None SS_Confirmed None] obtain missed sh' evicted where
    m: "push (\<lambda>_. [1]) sh (PM_Slot 2 None SS_Confirmed None :: unit protobuf_message) = Some (sh', st_wakers (sh_state sh), evicted)"
    "missed_chain (st_slots (sh_state sh)) SS_Confirmed 2 missed"
    "channel_log sh' = foldl (log_push (length (sh_buffer sh)) (st_bytes_max (sh_state sh))) (channel_log sh)
      (map (\<lambda>m :: unit protobuf_message. (PN_Slot, [1])) (map (\<lambda>(p, pp). PM_Slot p pp SS_Confirmed None) (rev missed) @ [PM_Slot 2 None SS_Confirmed None]))"
    by blast
  have "missed = [(1, None)]"
    using m(2) by (cases missed; cases "tl missed") (auto simp: s bt_get_def lacks_status_def)
  with m(1,3) ok show ?thesis by (intro exI [of _ sh] exI [of _ sh']) auto
qed

text \<open>\<^bold>\<open>C27.\<close> The start of an empty channel: a receiver that subscribes without a replay slot before the
  first message starts at the position \<open>tail = N\<close>, which no message ever gets, because the first one
  is stored at \<open>N + 1\<close>. So it never gets a message: with fewer than \<open>N\<close> messages in the channel
  the call returns ``nothing yet'', and from \<open>N\<close> messages on it fails with \<open>Lagged\<close>.\<close>

theorem empty_channel_subscriber_stalls:
  assumes "n \<le> 2 ^ 62" and sub: "subscribe (sender_new n b :: 'w shared) None f = Inr r"
    and room: "next_power_of_two n + length ms < 2 ^ 64"
    and push: "push_all enc (sender_new n b :: 'w shared) ms [] = Some (sh, ev)"
  shows "recv_ref sh r w = Some (if length ms < next_power_of_two n then (Inr None, r, push_waker w sh) else (Inl Lagged, r, sh))"
proof -
  let ?N = "next_power_of_two n"
  note new = sender_new_ok [OF assms(1), where b = b and 'w = 'w]
  have "unat (st_tail (sh_state (sender_new n b :: 'w shared))) + length ms < 2 ^ 64" using new(5) room by simp
  from push_all_spec [OF new(1) this, of enc "[]"] push
  have sh: "channel_ok sh" "unat (st_tail (sh_state sh)) = ?N + length ms"
    "length (sh_buffer sh) = ?N" "map it_closed (sh_buffer sh) = map it_closed (sh_buffer (sender_new n b :: 'w shared))"
    using new by auto
  have opn: "channel_open sh" using channel_open_cong [OF sh(4)] new(3) by (simp add: channel_open_def)
  have q: "unat (rc_next r) = ?N" using sub new(5) by (auto simp: subscribe_def Let_def)
  have rs: "ring_state_ok (sh_mask sh) (sh_buffer sh) (sh_state sh)" using sh(1) by (simp add: channel_ok_def)
  then have ro: "ring_ok it_pos it_data (sh_buffer sh) (unat (st_head (sh_state sh))) (?N + length ms)"
    using sh(2) by (simp add: ring_state_ok_def)
  have N: "0 < ?N" using ro sh(3) by (simp add: ring_ok_def)
  let ?it = "sh_buffer sh ! (unat (rc_next r) mod length (sh_buffer sh))"
  have mem: "?it \<in> set (sh_buffer sh)" using N sh(3) by simp
  show ?thesis
  proof (cases "length ms < ?N")
    case True
    have "unat (it_pos (sh_buffer sh ! (?N mod ?N))) = 0"
      using plugin_ring.ring_cellD(2) [OF ro, of ?N] True sh(3) N by auto
    then have "it_pos ?it < rc_next r" using N by (simp add: q sh(3) word_less_nat_alt)
    with True mem show ?thesis using ring_state_idx(2) [OF rs, of "rc_next r"] opn
      by (subst recv_ref.simps) (auto simp: channel_open_def)
  next
    case False
    then have "rc_next r < it_pos ?it"
      using plugin_ring.ring_overwritten [OF ro, of "unat (rc_next r)"] q sh(3) N by (simp add: word_less_nat_alt)
    with False mem show ?thesis using ring_state_idx(2) [OF rs, of "rc_next r"] opn
      by (subst recv_ref.simps) (auto simp: channel_open_def)
  qed
qed

theorem empty_channel_subscriber_stalls_witness:
  "\<exists>sh ev. push_all (\<lambda>_. [1, 2, 3]) (sender_new 4 100 :: nat shared) example_messages [] = Some (sh, ev) \<and>
    channel_log sh \<noteq> [] \<and>
    recv_ref sh (example_receiver 4) 0 = Some (Inr None, example_receiver 4, push_waker 0 sh)"
proof -
  let ?sh = "sender_new 4 100 :: nat shared"
  have four: "next_power_of_two 4 = 4" using next_power_of_two_pow_self [of 2] by simp
  have new: "channel_ok ?sh" "channel_log ?sh = []" "length (sh_buffer ?sh) = 4"
    "unat (st_tail (sh_state ?sh)) = 4" using four by (simp_all add: sender_new_ok)
  have sub: "subscribe ?sh None None = Inr (example_receiver 4)"
    by (simp add: subscribe_def sender_new_def Let_def four example_receiver_def richat_filter_default_def)
  have "unat (st_tail (sh_state ?sh)) + length example_messages < 2 ^ 64"
    using new(4) by (simp add: example_messages_def)
  from push_all_spec [OF new(1) this, of "\<lambda>_. [1, 2, 3]" "[]"] obtain sh ev where
    p: "push_all (\<lambda>_. [1, 2, 3]) ?sh example_messages [] = Some (sh, ev)"
    "channel_log sh = foldl (log_push (length (sh_buffer ?sh)) (st_bytes_max (sh_state ?sh)))
      (channel_log ?sh) (map (\<lambda>m. (plugin_notification_from m, [1, 2, 3])) example_messages)" by auto
  have "channel_log sh \<noteq> []" using p(2) new by (simp add: example_messages_def log_push_def sender_new_def Let_def)
  moreover have "length example_messages < next_power_of_two 4" by (simp add: four example_messages_def)
  ultimately show ?thesis
    using p(1) empty_channel_subscriber_stalls [OF _ sub _ p(1), of 0] by (auto simp: four example_messages_def)
qed

end
