(* ===== verification/Filter_Decode.thy ===== *)
theory Filter_Decode
  imports Plugin_Message
begin

text \<open>
  The zero-copy Protobuf reader of the server (\<open>filter/src/protobuf/decode.rs\<close>). It walks
  over an encoded update, reads the scalar fields it needs and records the byte ranges of
  the others. A reader maps the remaining input to the remaining input after it; \<open>buf_len\<close>
  is the length of the whole input, so \<open>buf_len - remaining\<close> is the current offset. Results
  are \<open>'a dec\<close>: \<open>None\<close> is a loop that does not end, \<open>Inl\<close> a \<open>DecodeError\<close>. The lemmas show
  that the loops end on every input and that the readers return what the encoders of the
  plugin wrote.
\<close>

type_synonym 'a dec = "(decode_error + 'a) option"

type_synonym range = "nat \<times> nat"

definition create_decode_error :: "string \<Rightarrow> decode_error" where
  "create_decode_error description = DecodeError description []"

definition mk_decode_error :: "string \<Rightarrow> (string \<times> string) list \<Rightarrow> decode_error" where
  "mk_decode_error description st =
     foldl (\<lambda>e (message, field). error_push message field e) (create_decode_error description) st"

text \<open>\<open>let len = decode_varint(buf)? as usize; if len > buf.remaining() { return Err(..) }\<close>\<close>

definition decode_len :: "prost \<Rightarrow> decode_error \<Rightarrow> bytes \<Rightarrow> decode_error + (nat \<times> bytes)" where
  "decode_len P underflow buf = and_then (decode_varint P buf) (\<lambda>(len, buf1).
     if unat len > length buf1 then Inl underflow else Inr (unat len, buf1))"

text \<open>The block that records the range of a length-delimited field and skips it.\<close>

definition decode_range ::
    "prost \<Rightarrow> decode_error \<Rightarrow> wire_type \<Rightarrow> bytes \<Rightarrow> nat \<Rightarrow> decode_error + (range \<times> bytes)" where
  "decode_range P underflow wire_type buf buf_len =
     and_then (check_wire_type P LengthDelimited wire_type) (\<lambda>_.
     and_then (decode_len P underflow buf) (\<lambda>(len, buf1).
       let start = buf_len - length buf1; buf2 = drop len buf1; end' = buf_len - length buf2
       in Inr ((start, end'), buf2)))"

definition decode_pubkey :: "prost \<Rightarrow> bytes \<Rightarrow> wire_type \<Rightarrow> string \<Rightarrow> string \<Rightarrow> decode_error + (bytes \<times> bytes)" where
  "decode_pubkey P buf wire_type struct_name field =
     and_then (check_wire_type P LengthDelimited wire_type) (\<lambda>_.
     and_then (decode_len P (mk_decode_error ''buffer underflow'' [(struct_name, field)]) buf)
       (\<lambda>(len, buf1).
         if len \<noteq> PUBKEY_BYTES
         then Inl (mk_decode_error ''invalid pubkey length'' [(struct_name, field)])
         else Inr (take PUBKEY_BYTES buf1, drop PUBKEY_BYTES buf1)))"

definition decode_signature :: "prost \<Rightarrow> bytes \<Rightarrow> wire_type \<Rightarrow> string \<Rightarrow> string \<Rightarrow> nat \<Rightarrow> decode_error + (nat \<times> bytes)" where
  "decode_signature P buf wire_type struct_name field buf_len =
     and_then (check_wire_type P LengthDelimited wire_type) (\<lambda>_.
     and_then (decode_len P (mk_decode_error ''buffer underflow'' [(struct_name, field)]) buf)
       (\<lambda>(len, buf1).
         if len \<noteq> SIGNATURE_BYTES
         then Inl (mk_decode_error ''invalid signature length'' [(struct_name, field)])
         else Inr (buf_len - length buf1, drop len buf1)))"

definition nonzero_bank_id :: "bank_id \<Rightarrow> bank_id option" where
  "nonzero_bank_id bank = (if bank = 0 then None else Some bank)"

text \<open>\<open>uint64::merge(..).map_err(|e| e.push(STRUCT_NAME, field))\<close> and its siblings.\<close>

definition merge_u64 :: "prost \<Rightarrow> string \<Rightarrow> string \<Rightarrow> wire_type \<Rightarrow> bytes \<Rightarrow> (u64 \<Rightarrow> 'm) \<Rightarrow> decode_error + ('m \<times> bytes)" where
  "merge_u64 P nm field wire_type buf upd =
     map_ok (\<lambda>(v, r). (upd v, r)) (map_err (error_push nm field) (uint64_merge P wire_type buf))"

definition merge_bool :: "prost \<Rightarrow> string \<Rightarrow> string \<Rightarrow> wire_type \<Rightarrow> bytes \<Rightarrow> (bool \<Rightarrow> 'm) \<Rightarrow> decode_error + ('m \<times> bytes)" where
  "merge_bool P nm field wire_type buf upd =
     map_ok (\<lambda>(v, r). (upd v, r)) (map_err (error_push nm field) (bool_merge P wire_type buf))"

definition skip_unknown :: "prost \<Rightarrow> 'm \<Rightarrow> wire_type \<Rightarrow> u32 \<Rightarrow> bytes \<Rightarrow> decode_error + ('m \<times> bytes)" where
  "skip_unknown P m wire_type tag buf = map_ok (Pair m) (skip_field P wire_type tag buf)"

subsection \<open>Loops\<close>

text \<open>\<open>while buf.remaining() > limit { let (tag, wire_type) = decode_key(buf)?; merge(..)?; }\<close>\<close>

partial_function (option) field_loop ::
    "prost \<Rightarrow> ('m \<Rightarrow> u32 \<Rightarrow> wire_type \<Rightarrow> bytes \<Rightarrow> ('m \<times> bytes) dec) \<Rightarrow> nat \<Rightarrow> 'm \<Rightarrow> bytes \<Rightarrow> ('m \<times> bytes) dec" where
  "field_loop P merge limit m buf =
     (if length buf > limit
      then (case decode_key P buf of
          Inl e \<Rightarrow> Some (Inl e)
        | Inr ((tag, wire_type), buf1) \<Rightarrow>
            (case merge m tag wire_type buf1 of
               None \<Rightarrow> None
             | Some (Inl e) \<Rightarrow> Some (Inl e)
             | Some (Inr (m', buf2)) \<Rightarrow> field_loop P merge limit m' buf2))
      else Some (Inr (m, buf)))"

text \<open>\<open>LimitedDecode::decode\<close>: the loop runs until the input is used up.\<close>

definition limited_decode ::
    "prost \<Rightarrow> ('m \<Rightarrow> u32 \<Rightarrow> wire_type \<Rightarrow> bytes \<Rightarrow> nat \<Rightarrow> ('m \<times> bytes) dec) \<Rightarrow> 'm \<Rightarrow> bytes \<Rightarrow> 'm dec" where
  "limited_decode P merge_field def buf =
     (let buf_len = length buf in
      map_option (map_ok fst) (field_loop P (\<lambda>m tag wt b. merge_field m tag wt b buf_len) 0 def buf))"

text \<open>A nested message: its length, the loop up to its end, and with \<open>strict\<close> the check
  that no field crossed the end.\<close>

definition nested_merge ::
    "prost \<Rightarrow> bool \<Rightarrow> ('m \<Rightarrow> u32 \<Rightarrow> wire_type \<Rightarrow> bytes \<Rightarrow> ('m \<times> bytes) dec) \<Rightarrow> 'm \<Rightarrow> bytes \<Rightarrow> ('m \<times> bytes) dec" where
  "nested_merge P strict merge m buf =
     (case decode_len P (create_decode_error ''buffer underflow'') buf of
        Inl e \<Rightarrow> Some (Inl e)
      | Inr (len, buf1) \<Rightarrow>
          (let limit = length buf1 - len in
           case field_loop P merge limit m buf1 of
             Some (Inr (m', buf2)) \<Rightarrow>
               if strict \<and> length buf2 \<noteq> limit
               then Some (Inl (create_decode_error ''delimited length exceeded''))
               else Some (Inr (m', buf2))
           | r \<Rightarrow> r))"

definition dec_push :: "string \<Rightarrow> string \<Rightarrow> 'a dec \<Rightarrow> 'a dec" where
  "dec_push nm field r = map_option (map_err (error_push nm field)) r"

subsection \<open>The outer update\<close>

datatype update_oneof =
  UO_Account range | UO_Slot range | UO_Transaction range | UO_TransactionStatus range
| UO_Block range | UO_Ping range | UO_Pong range | UO_BlockMeta range | UO_Entry range
| UO_BlockFooter range | UO_EntryUpdateParent range

record update_decode =
  ud_update_oneof :: "update_oneof option"
  ud_created_at :: "timestamp option"
  ud_richat_update :: bool

definition update_decode_default :: update_decode where
  "update_decode_default = \<lparr>ud_update_oneof = None, ud_created_at = None, ud_richat_update = False\<rparr>"

text \<open>The variants and their tags; \<open>None\<close> is the \<open>unreachable!()\<close> arm.\<close>

definition oneof_of_tag :: "u32 \<Rightarrow> range \<Rightarrow> update_oneof option" where
  "oneof_of_tag tag r =
     (if tag = 2 then Some (UO_Account r) else if tag = 3 then Some (UO_Slot r)
      else if tag = 4 then Some (UO_Transaction r) else if tag = 10 then Some (UO_TransactionStatus r)
      else if tag = 5 then Some (UO_Block r) else if tag = 6 then Some (UO_Ping r)
      else if tag = 9 then Some (UO_Pong r) else if tag = 7 then Some (UO_BlockMeta r)
      else if tag = 8 then Some (UO_Entry r) else if tag = 12 then Some (UO_BlockFooter r)
      else if tag = 13 then Some (UO_EntryUpdateParent r) else None)"

fun oneof_tag :: "update_oneof \<Rightarrow> u32" where
  "oneof_tag (UO_Account _) = 2"
| "oneof_tag (UO_Slot _) = 3"
| "oneof_tag (UO_Transaction _) = 4"
| "oneof_tag (UO_TransactionStatus _) = 10"
| "oneof_tag (UO_Block _) = 5"
| "oneof_tag (UO_Ping _) = 6"
| "oneof_tag (UO_Pong _) = 9"
| "oneof_tag (UO_BlockMeta _) = 7"
| "oneof_tag (UO_Entry _) = 8"
| "oneof_tag (UO_BlockFooter _) = 12"
| "oneof_tag (UO_EntryUpdateParent _) = 13"

definition same_variant :: "update_oneof \<Rightarrow> update_oneof \<Rightarrow> bool" where
  "same_variant a b \<longleftrightarrow> oneof_tag a = oneof_tag b"

text \<open>\<open>UpdateOneofLimitedDecode::merge\<close>; the outer \<open>None\<close> is the panic of \<open>unreachable!()\<close>.\<close>

definition update_oneof_merge ::
    "prost \<Rightarrow> update_oneof option \<Rightarrow> u32 \<Rightarrow> bytes \<Rightarrow> nat \<Rightarrow> (update_oneof option \<times> bytes) dec" where
  "update_oneof_merge P field tag buf buf_len =
     (case decode_len P (create_decode_error ''buffer underflow'') buf of
        Inl e \<Rightarrow> Some (Inl e)
      | Inr (len, buf1) \<Rightarrow>
          (let start = buf_len - length buf1; buf2 = drop len buf1; end' = buf_len - length buf2 in
           case oneof_of_tag tag (start, end') of
             None \<Rightarrow> None
           | Some v \<Rightarrow> (case field of
               Some old \<Rightarrow> if same_variant old v
                 then Some (Inl (create_decode_error ''merge is not supported''))
                 else Some (Inr (Some v, buf2))
             | None \<Rightarrow> Some (Inr (Some v, buf2)))))"

definition update_merge_field ::
    "prost \<Rightarrow> update_decode \<Rightarrow> u32 \<Rightarrow> wire_type \<Rightarrow> bytes \<Rightarrow> nat \<Rightarrow> (update_decode \<times> bytes) dec" where
  "update_merge_field P m tag wire_type buf buf_len =
     (let nm = ''SubscribeUpdateLimitedDecode'' in
      case check_wire_type P LengthDelimited wire_type of Inl e \<Rightarrow> Some (Inl e) | Inr _ \<Rightarrow>
      if tag = 1 then
        Some (map_ok (\<lambda>(len, buf1). (m, drop len buf1))
          (decode_len P (mk_decode_error ''buffer underflow'' [(nm, ''filters'')]) buf))
      else if tag \<in> {2, 3, 4, 10, 5, 6, 9, 7, 8, 12, 13} then
        map_option (map_ok (\<lambda>(v, r). (m\<lparr>ud_update_oneof := v\<rparr>, r)))
          (dec_push nm ''update_oneof'' (update_oneof_merge P (ud_update_oneof m) tag buf buf_len))
      else if tag = 11 then
        Some (map_ok (\<lambda>(v, r). (m\<lparr>ud_created_at := Some v\<rparr>, r))
          (map_err (error_push nm ''created_at'')
            (timestamp_merge P LengthDelimited
              (case ud_created_at m of Some t \<Rightarrow> t | None \<Rightarrow> timestamp_default) buf)))
      else if 100 \<le> tag \<and> tag \<le> 105 then
        Some (skip_unknown P (m\<lparr>ud_richat_update := True\<rparr>) LengthDelimited tag buf)
      else Some (skip_unknown P m LengthDelimited tag buf))"

subsection \<open>Accounts\<close>

record account_decode =
  ad_account :: nat
  ad_pubkey :: bytes
  ad_owner :: bytes
  ad_lamports :: u64
  ad_executable :: bool
  ad_rent_epoch :: u64
  ad_data :: range
  ad_txn_signature_offset :: "nat option"
  ad_write_version :: nat
  ad_slot :: slot
  ad_is_startup :: bool
  ad_bank_id :: "bank_id option"

definition usize_MAX :: nat where
  "usize_MAX = 2 ^ 64 - 1"

definition account_decode_default :: account_decode where
  "account_decode_default = \<lparr>ad_account = usize_MAX, ad_pubkey = replicate 32 0,
     ad_owner = replicate 32 0, ad_lamports = 0, ad_executable = False, ad_rent_epoch = 0,
     ad_data = (0, 0), ad_txn_signature_offset = None, ad_write_version = 0, ad_slot = 0,
     ad_is_startup = False, ad_bank_id = None\<rparr>"

definition account_merge_field ::
    "prost \<Rightarrow> account_decode \<Rightarrow> u32 \<Rightarrow> wire_type \<Rightarrow> bytes \<Rightarrow> nat \<Rightarrow> decode_error + (account_decode \<times> bytes)" where
  "account_merge_field P m tag wire_type buf buf_len =
     (let nm = ''UpdateOneofLimitedDecodeAccount'' in
      if tag = 1 then map_ok (\<lambda>(k, r). (m\<lparr>ad_pubkey := k\<rparr>, r)) (decode_pubkey P buf wire_type nm ''pubkey'')
      else if tag = 2 then merge_u64 P nm ''lamports'' wire_type buf (\<lambda>v. m\<lparr>ad_lamports := v\<rparr>)
      else if tag = 3 then map_ok (\<lambda>(k, r). (m\<lparr>ad_owner := k\<rparr>, r)) (decode_pubkey P buf wire_type nm ''owner'')
      else if tag = 4 then merge_bool P nm ''executable'' wire_type buf (\<lambda>v. m\<lparr>ad_executable := v\<rparr>)
      else if tag = 5 then merge_u64 P nm ''rent_epoch'' wire_type buf (\<lambda>v. m\<lparr>ad_rent_epoch := v\<rparr>)
      else if tag = 6 then map_ok (\<lambda>(d, r). (m\<lparr>ad_data := d\<rparr>, r))
        (decode_range P (mk_decode_error ''buffer underflow'' [(nm, ''data'')]) wire_type buf buf_len)
      else if tag = 7 then merge_u64 P nm ''write_version'' wire_type buf
        (\<lambda>_. m\<lparr>ad_write_version := buf_len - length buf\<rparr>)
      else if tag = 8 then map_ok (\<lambda>(i, r). (m\<lparr>ad_txn_signature_offset := Some i\<rparr>, r))
        (decode_signature P buf wire_type nm ''txn_signature'' buf_len)
      else skip_unknown P m wire_type tag buf)"

definition account_merge :: "prost \<Rightarrow> account_decode \<Rightarrow> bytes \<Rightarrow> nat \<Rightarrow> (account_decode \<times> bytes) dec" where
  "account_merge P m buf buf_len =
     nested_merge P True (\<lambda>m tag wt b. Some (account_merge_field P m tag wt b buf_len)) m buf"

definition account_update_merge_field ::
    "prost \<Rightarrow> account_decode \<Rightarrow> u32 \<Rightarrow> wire_type \<Rightarrow> bytes \<Rightarrow> nat \<Rightarrow> (account_decode \<times> bytes) dec" where
  "account_update_merge_field P m tag wire_type buf buf_len =
     (let nm = ''UpdateOneofLimitedDecodeAccount'' in
      if tag = 1 then
        (case check_wire_type P LengthDelimited wire_type of Inl e \<Rightarrow> Some (Inl e) | Inr _ \<Rightarrow>
           dec_push nm ''account'' (account_merge P (m\<lparr>ad_account := buf_len - length buf\<rparr>) buf buf_len))
      else if tag = 2 then Some (merge_u64 P nm ''slot'' wire_type buf (\<lambda>v. m\<lparr>ad_slot := v\<rparr>))
      else if tag = 3 then Some (merge_bool P nm ''is_startup'' wire_type buf (\<lambda>v. m\<lparr>ad_is_startup := v\<rparr>))
      else if tag = 4 then Some (merge_u64 P nm ''bank_id'' wire_type buf (\<lambda>v. m\<lparr>ad_bank_id := Some v\<rparr>))
      else Some (skip_unknown P m wire_type tag buf))"

subsection \<open>Slots\<close>

record slot_decode =
  sd_slot :: slot
  sd_parent :: "slot option"
  sd_status :: i32
  sd_dead_error :: "range option"
  sd_bank_id :: "bank_id option"

definition slot_decode_default :: slot_decode where
  "slot_decode_default = \<lparr>sd_slot = 0, sd_parent = None, sd_status = 0, sd_dead_error = None,
     sd_bank_id = None\<rparr>"

definition slot_merge_field ::
    "prost \<Rightarrow> slot_decode \<Rightarrow> u32 \<Rightarrow> wire_type \<Rightarrow> bytes \<Rightarrow> nat \<Rightarrow> decode_error + (slot_decode \<times> bytes)" where
  "slot_merge_field P m tag wire_type buf buf_len =
     (let nm = ''UpdateOneofLimitedDecodeSlot'' in
      if tag = 1 then merge_u64 P nm ''slot'' wire_type buf (\<lambda>v. m\<lparr>sd_slot := v\<rparr>)
      else if tag = 2 then merge_u64 P nm ''parent'' wire_type buf (\<lambda>v. m\<lparr>sd_parent := Some v\<rparr>)
      else if tag = 3 then map_ok (\<lambda>(v, r). (m\<lparr>sd_status := v\<rparr>, r))
        (map_err (error_push nm ''status'') (int32_merge P wire_type buf))
      else if tag = 4 then map_ok (\<lambda>(d, r). (m\<lparr>sd_dead_error := Some d\<rparr>, r))
        (decode_range P (mk_decode_error ''buffer underflow'' [(nm, ''dead_error'')]) wire_type buf buf_len)
      else if tag = 5 then merge_u64 P nm ''bank_id'' wire_type buf (\<lambda>v. m\<lparr>sd_bank_id := Some v\<rparr>)
      else skip_unknown P m wire_type tag buf)"

subsection \<open>Transactions\<close>

record transaction_decode =
  td_transaction :: "range option"
  td_slot :: slot
  td_bank_id :: bank_id

definition transaction_decode_default :: transaction_decode where
  "transaction_decode_default = \<lparr>td_transaction = None, td_slot = 0, td_bank_id = 0\<rparr>"

definition transaction_merge_field ::
    "prost \<Rightarrow> transaction_decode \<Rightarrow> u32 \<Rightarrow> wire_type \<Rightarrow> bytes \<Rightarrow> nat \<Rightarrow> decode_error + (transaction_decode \<times> bytes)" where
  "transaction_merge_field P m tag wire_type buf buf_len =
     (let nm = ''UpdateOneofLimitedDecodeTransaction'' in
      if tag = 1 then map_ok (\<lambda>(d, r). (m\<lparr>td_transaction := Some d\<rparr>, r))
        (decode_range P (mk_decode_error ''buffer underflow'' [(nm, ''transaction'')]) wire_type buf buf_len)
      else if tag = 2 then merge_u64 P nm ''slot'' wire_type buf (\<lambda>v. m\<lparr>td_slot := v\<rparr>)
      else if tag = 3 then merge_u64 P nm ''bank_id'' wire_type buf (\<lambda>v. m\<lparr>td_bank_id := v\<rparr>)
      else skip_unknown P m wire_type tag buf)"

record transaction_info_decode =
  ti_signature_offset :: "nat option"
  ti_is_vote :: bool
  ti_index :: u64
  ti_account_keys :: "bytes set"
  ti_err :: "range option"

definition transaction_info_decode_default :: transaction_info_decode where
  "transaction_info_decode_default = \<lparr>ti_signature_offset = None, ti_is_vote = False, ti_index = 0,
     ti_account_keys = {}, ti_err = None\<rparr>"

definition insert_key ::
    "transaction_info_decode \<Rightarrow> decode_error + (bytes \<times> bytes) \<Rightarrow> decode_error + (transaction_info_decode \<times> bytes)" where
  "insert_key m r = map_ok (\<lambda>(k, rest). (m\<lparr>ti_account_keys := insert k (ti_account_keys m)\<rparr>, rest)) r"

text \<open>The bodies of the three nested loops.\<close>

definition transaction_message_field ::
    "prost \<Rightarrow> transaction_info_decode \<Rightarrow> u32 \<Rightarrow> wire_type \<Rightarrow> bytes \<Rightarrow> (transaction_info_decode \<times> bytes) dec" where
  "transaction_message_field P m tag wire_type buf = Some
     (if tag = 2 then insert_key m (decode_pubkey P buf wire_type
        ''UpdateOneofLimitedDecodeTransactionInfo'' ''account_keys'')
      else skip_unknown P m wire_type tag buf)"

definition merge_transaction_message ::
    "prost \<Rightarrow> transaction_info_decode \<Rightarrow> bytes \<Rightarrow> (transaction_info_decode \<times> bytes) dec" where
  "merge_transaction_message P m buf = nested_merge P False (transaction_message_field P) m buf"

definition transaction_field ::
    "prost \<Rightarrow> transaction_info_decode \<Rightarrow> u32 \<Rightarrow> wire_type \<Rightarrow> bytes \<Rightarrow> (transaction_info_decode \<times> bytes) dec" where
  "transaction_field P m tag wire_type buf =
     (if tag = 2 then (case check_wire_type P LengthDelimited wire_type of
        Inl e \<Rightarrow> Some (Inl e) | Inr _ \<Rightarrow> merge_transaction_message P m buf)
      else Some (skip_unknown P m wire_type tag buf))"

definition merge_transaction ::
    "prost \<Rightarrow> transaction_info_decode \<Rightarrow> bytes \<Rightarrow> (transaction_info_decode \<times> bytes) dec" where
  "merge_transaction P m buf = nested_merge P False (transaction_field P) m buf"

definition meta_field ::
    "prost \<Rightarrow> nat \<Rightarrow> transaction_info_decode \<Rightarrow> u32 \<Rightarrow> wire_type \<Rightarrow> bytes \<Rightarrow> (transaction_info_decode \<times> bytes) dec" where
  "meta_field P buf_len m tag wire_type buf =
     (let nm = ''UpdateOneofLimitedDecodeTransactionInfo'' in Some
      (if tag = 1 then map_ok (\<lambda>(d, r). (m\<lparr>ti_err := Some d\<rparr>, r))
         (decode_range P (create_decode_error ''buffer underflow'') wire_type buf buf_len)
       else if tag = 12 then insert_key m (decode_pubkey P buf wire_type nm ''loaded_writable_addresses'')
       else if tag = 13 then insert_key m (decode_pubkey P buf wire_type nm ''loaded_readonly_addresses'')
       else skip_unknown P m wire_type tag buf))"

definition merge_meta ::
    "prost \<Rightarrow> transaction_info_decode \<Rightarrow> bytes \<Rightarrow> nat \<Rightarrow> (transaction_info_decode \<times> bytes) dec" where
  "merge_meta P m buf buf_len = nested_merge P False (meta_field P buf_len) m buf"

definition transaction_info_merge_field ::
    "prost \<Rightarrow> transaction_info_decode \<Rightarrow> u32 \<Rightarrow> wire_type \<Rightarrow> bytes \<Rightarrow> nat \<Rightarrow> (transaction_info_decode \<times> bytes) dec" where
  "transaction_info_merge_field P m tag wire_type buf buf_len =
     (let nm = ''UpdateOneofLimitedDecodeTransactionInfo'' in
      if tag = 1 then Some (map_ok (\<lambda>(i, r). (m\<lparr>ti_signature_offset := Some i\<rparr>, r))
        (decode_signature P buf wire_type nm ''signature'' buf_len))
      else if tag = 2 then Some (merge_bool P nm ''is_vote'' wire_type buf (\<lambda>v. m\<lparr>ti_is_vote := v\<rparr>))
      else if tag = 3 then (case check_wire_type P LengthDelimited wire_type of
          Inl e \<Rightarrow> Some (Inl e) | Inr _ \<Rightarrow> dec_push nm ''transaction'' (merge_transaction P m buf))
      else if tag = 4 then (case check_wire_type P LengthDelimited wire_type of
          Inl e \<Rightarrow> Some (Inl e) | Inr _ \<Rightarrow> dec_push nm ''meta'' (merge_meta P m buf buf_len))
      else if tag = 5 then Some (merge_u64 P nm ''index'' wire_type buf (\<lambda>v. m\<lparr>ti_index := v\<rparr>))
      else Some (skip_unknown P m wire_type tag buf))"

subsection \<open>Entries\<close>

record entry_decode =
  ed_slot :: slot
  ed_index :: u64
  ed_executed_transaction_count :: u64
  ed_bank_id :: bank_id

definition entry_decode_default :: entry_decode where
  "entry_decode_default = \<lparr>ed_slot = 0, ed_index = 0, ed_executed_transaction_count = 0, ed_bank_id = 0\<rparr>"

definition entry_merge_field ::
    "prost \<Rightarrow> entry_decode \<Rightarrow> u32 \<Rightarrow> wire_type \<Rightarrow> bytes \<Rightarrow> nat \<Rightarrow> decode_error + (entry_decode \<times> bytes)" where
  "entry_merge_field P m tag wire_type buf buf_len =
     (let nm = ''UpdateOneofLimitedDecodeEntry'' in
      if tag = 1 then merge_u64 P nm ''slot'' wire_type buf (\<lambda>v. m\<lparr>ed_slot := v\<rparr>)
      else if tag = 2 then merge_u64 P nm ''index'' wire_type buf (\<lambda>v. m\<lparr>ed_index := v\<rparr>)
      else if tag = 3 then merge_u64 P nm ''num_hashes'' wire_type buf (\<lambda>_. m)
      else if tag = 4 then
        and_then (check_wire_type P LengthDelimited wire_type) (\<lambda>_.
        and_then (decode_varint P buf) (\<lambda>(len, buf1).
          map_err (error_push nm ''hash'')
            (if unat len > length buf1 then Inl (create_decode_error ''buffer underflow'')
             else Inr (m, drop (unat len) buf1))))
      else if tag = 5 then merge_u64 P nm ''executed_transaction_count'' wire_type buf
        (\<lambda>v. m\<lparr>ed_executed_transaction_count := v\<rparr>)
      else if tag = 6 then merge_u64 P nm ''starting_transaction_index'' wire_type buf (\<lambda>_. m)
      else if tag = 7 then merge_u64 P nm ''bank_id'' wire_type buf (\<lambda>v. m\<lparr>ed_bank_id := v\<rparr>)
      else skip_unknown P m wire_type tag buf)"

subsection \<open>The decoders\<close>

definition decode_update :: "prost \<Rightarrow> bytes \<Rightarrow> update_decode dec" where
  "decode_update P buf = limited_decode P (update_merge_field P) update_decode_default buf"

definition decode_account :: "prost \<Rightarrow> bytes \<Rightarrow> account_decode dec" where
  "decode_account P buf = limited_decode P (account_update_merge_field P) account_decode_default buf"

definition decode_slot :: "prost \<Rightarrow> bytes \<Rightarrow> slot_decode dec" where
  "decode_slot P buf =
     limited_decode P (\<lambda>m t w b n. Some (slot_merge_field P m t w b n)) slot_decode_default buf"

definition decode_transaction :: "prost \<Rightarrow> bytes \<Rightarrow> transaction_decode dec" where
  "decode_transaction P buf = limited_decode P
     (\<lambda>m t w b n. Some (transaction_merge_field P m t w b n)) transaction_decode_default buf"

definition decode_transaction_info :: "prost \<Rightarrow> bytes \<Rightarrow> transaction_info_decode dec" where
  "decode_transaction_info P buf =
     limited_decode P (transaction_info_merge_field P) transaction_info_decode_default buf"

definition decode_entry :: "prost \<Rightarrow> bytes \<Rightarrow> entry_decode dec" where
  "decode_entry P buf =
     limited_decode P (\<lambda>m t w b n. Some (entry_merge_field P m t w b n)) entry_decode_default buf"

subsection \<open>What a reader keeps\<close>

text \<open>A reader ends, does not grow its input, and keeps \<open>I\<close> when it succeeds.\<close>

definition dec_ok :: "('m \<Rightarrow> bool) \<Rightarrow> nat \<Rightarrow> ('m \<times> bytes) dec \<Rightarrow> bool" where
  "dec_ok I n r = (case r of None \<Rightarrow> False | Some (Inl e) \<Rightarrow> True
     | Some (Inr (m, rest)) \<Rightarrow> I m \<and> length rest \<le> n)"

definition range_ok :: "nat \<Rightarrow> range \<Rightarrow> bool" where
  "range_ok n r \<longleftrightarrow> fst r \<le> snd r \<and> snd r \<le> n"

fun oneof_range :: "update_oneof \<Rightarrow> range" where
  "oneof_range (UO_Account r) = r"
| "oneof_range (UO_Slot r) = r"
| "oneof_range (UO_Transaction r) = r"
| "oneof_range (UO_TransactionStatus r) = r"
| "oneof_range (UO_Block r) = r"
| "oneof_range (UO_Ping r) = r"
| "oneof_range (UO_Pong r) = r"
| "oneof_range (UO_BlockMeta r) = r"
| "oneof_range (UO_Entry r) = r"
| "oneof_range (UO_BlockFooter r) = r"
| "oneof_range (UO_EntryUpdateParent r) = r"

definition update_ranges_ok :: "nat \<Rightarrow> update_decode \<Rightarrow> bool" where
  "update_ranges_ok n m \<longleftrightarrow>
     (case ud_update_oneof m of None \<Rightarrow> True | Some v \<Rightarrow> range_ok n (oneof_range v))"

definition account_ranges_ok :: "nat \<Rightarrow> account_decode \<Rightarrow> bool" where
  "account_ranges_ok n m \<longleftrightarrow> range_ok n (ad_data m) \<and> ad_write_version m \<le> n \<and>
     (ad_account m = usize_MAX \<or> ad_account m \<le> n) \<and>
     (case ad_txn_signature_offset m of None \<Rightarrow> True | Some i \<Rightarrow> i + SIGNATURE_BYTES \<le> n) \<and>
     length (ad_pubkey m) = PUBKEY_BYTES \<and> length (ad_owner m) = PUBKEY_BYTES"

definition slot_ranges_ok :: "nat \<Rightarrow> slot_decode \<Rightarrow> bool" where
  "slot_ranges_ok n m \<longleftrightarrow> (case sd_dead_error m of None \<Rightarrow> True | Some r \<Rightarrow> range_ok n r)"

definition transaction_ranges_ok :: "nat \<Rightarrow> transaction_decode \<Rightarrow> bool" where
  "transaction_ranges_ok n m \<longleftrightarrow> (case td_transaction m of None \<Rightarrow> True | Some r \<Rightarrow> range_ok n r)"

definition transaction_info_ranges_ok :: "nat \<Rightarrow> transaction_info_decode \<Rightarrow> bool" where
  "transaction_info_ranges_ok n m \<longleftrightarrow>
     (case ti_signature_offset m of None \<Rightarrow> True | Some i \<Rightarrow> i + SIGNATURE_BYTES \<le> n) \<and>
     (case ti_err m of None \<Rightarrow> True | Some r \<Rightarrow> range_ok n r) \<and>
     (\<forall>k\<in>ti_account_keys m. length k = PUBKEY_BYTES)"

subsection \<open>The layout of an encoded account update\<close>

text \<open>The fields before the write version, the write version, the signature of the
  transaction, and the fields after the nested account.\<close>

definition account_head_fields :: "prost \<Rightarrow> replica_account \<Rightarrow> bytes" where
  "account_head_fields P a =
     bytes_encode P 1 (ra_pubkey a) @
     (if ra_lamports a \<noteq> 0 then uint64_encode P 2 (ra_lamports a) else []) @
     bytes_encode P 3 (ra_owner a) @
     (if ra_executable a then bool_encode P 4 (ra_executable a) else []) @
     (if ra_rent_epoch a \<noteq> 0 then uint64_encode P 5 (ra_rent_epoch a) else []) @
     (if ra_data a \<noteq> [] then bytes_encode P 6 (ra_data a) else [])"

definition account_version_field :: "prost \<Rightarrow> replica_account \<Rightarrow> bytes" where
  "account_version_field P a =
     (if ra_write_version a \<noteq> 0 then uint64_encode P 7 (ra_write_version a) else [])"

definition account_txn_field :: "prost \<Rightarrow> replica_account \<Rightarrow> bytes" where
  "account_txn_field P a = enc_opt (bytes_encode P 8) (ra_txn a)"

definition account_slot_fields :: "prost \<Rightarrow> slot \<Rightarrow> bank_id option \<Rightarrow> bytes" where
  "account_slot_fields P sl bank =
     (if sl \<noteq> 0 then uint64_encode P 2 sl else []) @ enc_opt (uint64_encode P 4) bank"

text \<open>What the decoder has to return for an encoded account: the scalars, and the offsets
  of the length of the nested message, of the data, of the write version and of the signature;
  first for a nested account in an input of length \<open>n\<close>, followed by \<open>rest\<close>, then for the
  update that the plugin encodes.\<close>

definition account_decode_at :: "prost \<Rightarrow> nat \<Rightarrow> bytes \<Rightarrow> replica_account \<Rightarrow> account_decode" where
  "account_decode_at P n rest a =
     (let txn = account_txn_field P a @ rest; version = account_version_field P a @ txn in
      \<lparr>ad_account = key_len P 1, ad_pubkey = ra_pubkey a, ad_owner = ra_owner a,
       ad_lamports = ra_lamports a, ad_executable = ra_executable a, ad_rent_epoch = ra_rent_epoch a,
       ad_data = (if ra_data a = [] then (0, 0) else (n - length (ra_data a @ version), n - length version)),
       ad_txn_signature_offset = map_option (\<lambda>s. n - length (s @ rest)) (ra_txn a),
       ad_write_version = (if ra_write_version a = 0 then 0
         else n - length (encode_varint P (ra_write_version a) @ txn)),
       ad_slot = 0, ad_is_startup = False, ad_bank_id = None\<rparr>)"

definition account_decode_of :: "prost \<Rightarrow> slot \<Rightarrow> bank_id option \<Rightarrow> replica_account \<Rightarrow> account_decode" where
  "account_decode_of P sl bank a =
     (let n = length (account_encode_raw P sl bank a);
          txn = account_txn_field P a @ account_slot_fields P sl bank;
          version = account_version_field P a @ txn in
      \<lparr>ad_account = key_len P 1, ad_pubkey = ra_pubkey a, ad_owner = ra_owner a,
       ad_lamports = ra_lamports a, ad_executable = ra_executable a, ad_rent_epoch = ra_rent_epoch a,
       ad_data = (if ra_data a = [] then (0, 0) else (n - length (ra_data a @ version), n - length version)),
       ad_txn_signature_offset =
         map_option (\<lambda>s. n - length (s @ account_slot_fields P sl bank)) (ra_txn a),
       ad_write_version = (if ra_write_version a = 0 then 0
         else n - length (encode_varint P (ra_write_version a) @ txn)),
       ad_slot = sl, ad_is_startup = False, ad_bank_id = bank\<rparr>)"

lemma account_decode_of_at: "account_decode_of P sl bank a =
  (account_decode_at P (length (account_encode_raw P sl bank a)) (account_slot_fields P sl bank) a)\<lparr>ad_slot := sl, ad_bank_id := bank\<rparr>"
  by (simp add: account_decode_of_def account_decode_at_def Let_def)

definition account_sized :: "replica_account \<Rightarrow> bool" where
  "account_sized a \<longleftrightarrow> length (ra_pubkey a) = PUBKEY_BYTES \<and> length (ra_owner a) = PUBKEY_BYTES \<and>
     (case ra_txn a of None \<Rightarrow> True | Some s \<Rightarrow> length s = SIGNATURE_BYTES)"

text \<open>The account keys of a transaction: those of its message and the loaded addresses.\<close>

fun message_keys :: "versioned_message \<Rightarrow> bytes list" where
  "message_keys (VM_Legacy m) = lm_account_keys m"
| "message_keys (VM_V0 m) = m0_account_keys m"
| "message_keys (VM_V1 m) = m1_account_keys m"

definition transaction_keys :: "'e replica_transaction \<Rightarrow> bytes set" where
  "transaction_keys t = set (message_keys (vt_message (rt_transaction t))) \<union>
     set (tm_loaded_writable (rt_meta t)) \<union> set (tm_loaded_readonly (rt_meta t))"

text \<open>The status meta after the transaction error.\<close>

definition meta_tail :: "prost \<Rightarrow> 'e transaction_status_meta \<Rightarrow> bytes" where
  "meta_tail P m =
     (if tm_fee m \<noteq> 0 then uint64_encode P 2 (tm_fee m) else []) @
     uint64_encode_packed P 3 (tm_pre_balances m) @ uint64_encode_packed P 4 (tm_post_balances m) @
     enc_opt (\<lambda>xs. message_encode_repeated P 5 (map (inner_instructions_msg P) xs)) (tm_inner_instructions m) @
     enc_opt (string_encode_repeated P 6) (tm_log_messages m) @
     enc_opt (\<lambda>xs. message_encode_repeated P 7 (map (token_balance_msg P) xs)) (tm_pre_token_balances m) @
     enc_opt (\<lambda>xs. message_encode_repeated P 8 (map (token_balance_msg P) xs)) (tm_post_token_balances m) @
     enc_opt (\<lambda>xs. message_encode_repeated P 9 (map (reward_msg P) xs)) (tm_rewards m) @
     (if tm_inner_instructions m = None then bool_encode P 10 (tm_inner_instructions m = None) else []) @
     (if tm_log_messages m = None then bool_encode P 11 (tm_log_messages m = None) else []) @
     pubkeys_encode P 12 (tm_loaded_writable m) @ pubkeys_encode P 13 (tm_loaded_readonly m) @
     enc_opt (\<lambda>r. message_encode P 14 (return_data_msg P r)) (tm_return_data m) @
     (if tm_return_data m = None then bool_encode P 15 (tm_return_data m = None) else []) @
     enc_opt (uint64_encode P 16) (tm_compute_units_consumed m) @
     enc_opt (uint64_encode P 17) (tm_cost_units m)"

subsection \<open>Lemmas\<close>

lemma account_info_layout: "account_info_encode_raw P a =
  account_head_fields P a @ account_version_field P a @ account_txn_field P a"
  by (simp add: account_info_encode_raw_def account_head_fields_def account_version_field_def
      account_txn_field_def)

lemma dec_ok_simps [simp]:
  "dec_ok I n (Some (Inl e))"
  "dec_ok I n (Some (Inr (m, r))) \<longleftrightarrow> I m \<and> length r \<le> n"
  "\<not> dec_ok I n None"
  by (simp_all add: dec_ok_def)

lemma dec_ok_map: "(\<And>v r. x = Inr (v, r) \<Longrightarrow> I (f v) \<and> length r \<le> n) \<Longrightarrow>
  dec_ok I n (Some (map_ok (\<lambda>(v, r). (f v, r)) x))"
  by (cases x) auto

lemma dec_ok_push [simp]: "dec_ok I n (dec_push a b r) = dec_ok I n r"
  by (cases r; cases "the r") (auto simp: dec_push_def)

lemma dec_ok_mono: "dec_ok I n r \<Longrightarrow> n \<le> n' \<Longrightarrow> dec_ok I n' r"
  by (auto simp: dec_ok_def split: option.splits sum.splits)

lemma slice_range: "n = length (pre @ e @ r) \<Longrightarrow>
  slice (n - length (e @ r)) (n - length r) (pre @ e @ r) = Some e"
  by (simp add: slice_def)

context prost_codec
begin

text \<open>Safety of single fields.\<close>

lemma decode_len_bound:
  assumes "decode_len P e buf = Inr (n, r)"
  shows "n \<le> length r" and "length r < length buf"
  using assms varint_shorter
  by (auto simp: decode_len_def and_then_Inr_iff split: if_splits prod.splits)

lemma decode_len_bounds: "decode_len P e buf = Inr (n, r) \<Longrightarrow> n \<le> length r \<and> length r < length buf"
  using decode_len_bound by blast

lemma decode_range_bound:
  assumes "decode_range P e w buf n = Inr (d, r)" and "length buf \<le> n"
  shows "range_ok n d" and "length r \<le> length buf"
  using assms decode_len_bound
  by (auto simp: decode_range_def and_then_Inr_iff Let_def range_ok_def split: prod.splits)
    (fastforce dest: decode_len_bound)+

lemma decode_pubkey_bound:
  assumes "decode_pubkey P buf w a b = Inr (k, r)"
  shows "length k = PUBKEY_BYTES" and "length r \<le> length buf"
  using assms
  by (auto simp: decode_pubkey_def and_then_Inr_iff split: prod.splits if_splits dest!: decode_len_bounds)

lemma decode_signature_bound:
  assumes "decode_signature P buf w a b n = Inr (i, r)" and "length buf \<le> n"
  shows "i + SIGNATURE_BYTES \<le> n" and "length r \<le> length buf"
  using assms
  by (auto simp: decode_signature_def and_then_Inr_iff split: prod.splits if_splits
      dest!: decode_len_bounds)

lemma merge_u64_ok:
  "(\<And>v. I (f v)) \<Longrightarrow> dec_ok I (length buf) (Some (merge_u64 P a b w buf f))"
  unfolding merge_u64_def by (rule dec_ok_map) (auto dest: uint64_shorter)

lemma merge_bool_ok:
  "(\<And>v. I (f v)) \<Longrightarrow> dec_ok I (length buf) (Some (merge_bool P a b w buf f))"
  unfolding merge_bool_def by (rule dec_ok_map) (auto dest: bool_shorter)

lemma skip_unknown_ok: "I m \<Longrightarrow> dec_ok I (length buf) (Some (skip_unknown P m w t buf))"
  by (cases "skip_field P w t buf") (auto simp: skip_unknown_def dest: skip_shorter)

text \<open>Loops end, because every key takes at least one byte.\<close>

lemma field_loop_ok:
  assumes step: "\<And>m t w b. I m \<Longrightarrow> length b \<le> N \<Longrightarrow> dec_ok I (length b) (M m t w b)"
  shows "I m \<Longrightarrow> length buf \<le> N \<Longrightarrow> dec_ok I (length buf) (field_loop P M limit m buf)"
proof (induction "length buf" arbitrary: m buf rule: less_induct)
  case less
  show ?case
  proof (cases "length buf > limit")
    case False
    then show ?thesis using less.prems by (subst field_loop.simps) simp
  next
    case True
    show ?thesis
    proof (cases "decode_key P buf")
      case (Inl e)
      then show ?thesis using True by (subst field_loop.simps) simp
    next
      case (Inr tb)
      then obtain t w b where tb: "decode_key P buf = Inr ((t, w), b)" by (cases tb) auto
      have lt: "length b < length buf" using key_shorter [OF tb] .
      have ok: "dec_ok I (length b) (M m t w b)" using less.prems lt by (intro step) auto
      show ?thesis
      proof (cases "M m t w b")
        case None
        with ok show ?thesis by simp
      next
        case (Some res)
        show ?thesis
        proof (cases res)
          case (Inl e)
          with Some True tb show ?thesis by (subst field_loop.simps) simp
        next
          case (Inr mr)
          then obtain m' r where mr: "res = Inr (m', r)" by (cases mr) auto
          with ok Some have m': "I m'" "length r \<le> length b" by auto
          have "dec_ok I (length r) (field_loop P M limit m' r)"
            using m' lt less.prems by (intro less.hyps) auto
          then have "dec_ok I (length buf) (field_loop P M limit m' r)"
            by (rule dec_ok_mono) (use m' lt in simp)
          with Some True tb mr show ?thesis by (subst field_loop.simps) simp
        qed
      qed
    qed
  qed
qed

lemma nested_merge_ok:
  assumes step: "\<And>m t w b. I m \<Longrightarrow> length b \<le> N \<Longrightarrow> dec_ok I (length b) (M m t w b)"
    and "I m" and "length buf \<le> N"
  shows "dec_ok I (length buf) (nested_merge P strict M m buf)"
proof (cases "decode_len P (create_decode_error ''buffer underflow'') buf")
  case (Inl e)
  then show ?thesis by (simp add: nested_merge_def)
next
  case (Inr nb)
  then obtain n b where nb: "decode_len P (create_decode_error ''buffer underflow'') buf = Inr (n, b)"
    by (cases nb) auto
  note lt = decode_len_bound [OF nb]
  have "dec_ok I (length b) (field_loop P M (length b - n) m b)"
    using field_loop_ok [OF step] assms(2,3) lt by simp
  then have "dec_ok I (length buf) (field_loop P M (length b - n) m b)"
    by (rule dec_ok_mono) (use lt in simp)
  then show ?thesis using nb
    by (auto simp: nested_merge_def Let_def dec_ok_def split: option.splits sum.splits)
qed

lemma limited_decode_ok:
  assumes step: "\<And>m t w b. I m \<Longrightarrow> length b \<le> length buf \<Longrightarrow> dec_ok I (length b) (M m t w b (length buf))"
    and "I def"
  shows "\<exists>r. limited_decode P M def buf = Some r \<and> (\<forall>m. r = Inr m \<longrightarrow> I m)"
proof -
  have "dec_ok I (length buf) (field_loop P (\<lambda>m t w b. M m t w b (length buf)) 0 def buf)"
    using assms by (intro field_loop_ok) auto
  then show ?thesis
    by (auto simp: limited_decode_def Let_def dec_ok_def map_ok_Inr_iff split: option.splits sum.splits)
qed

lemma slot_merge_ok:
  "slot_ranges_ok N m \<Longrightarrow> length b \<le> N \<Longrightarrow>
   dec_ok (slot_ranges_ok N) (length b) (Some (slot_merge_field P m t w b N))"
  unfolding slot_merge_field_def Let_def
  by (auto intro!: merge_u64_ok skip_unknown_ok dec_ok_map simp: slot_ranges_ok_def
      dest: decode_range_bound intro: less_imp_le [OF int32_shorter])

lemma transaction_merge_ok:
  "transaction_ranges_ok N m \<Longrightarrow> length b \<le> N \<Longrightarrow>
   dec_ok (transaction_ranges_ok N) (length b) (Some (transaction_merge_field P m t w b N))"
  unfolding transaction_merge_field_def Let_def
  by (auto intro!: merge_u64_ok skip_unknown_ok dec_ok_map simp: transaction_ranges_ok_def
      dest: decode_range_bound)

lemma entry_merge_ok:
  "dec_ok (\<lambda>_. True) (length b) (Some (entry_merge_field P m t w b N))"
proof (cases "t = 4")
  case True
  then show ?thesis
    by (cases "check_wire_type P LengthDelimited w"; cases "decode_varint P b")
      (auto simp: entry_merge_field_def dest!: varint_shorter)
next
  case False
  then show ?thesis unfolding entry_merge_field_def Let_def
    by (auto intro!: merge_u64_ok skip_unknown_ok)
qed

lemma account_merge_field_ok:
  "account_ranges_ok N m \<Longrightarrow> length b \<le> N \<Longrightarrow>
   dec_ok (account_ranges_ok N) (length b) (Some (account_merge_field P m t w b N))"
  unfolding account_merge_field_def Let_def
  by (auto intro!: merge_u64_ok merge_bool_ok skip_unknown_ok dec_ok_map simp: account_ranges_ok_def
      dest: decode_range_bound decode_pubkey_bound decode_signature_bound)

lemma account_update_merge_ok:
  assumes "account_ranges_ok N m" and "length b \<le> N"
  shows "dec_ok (account_ranges_ok N) (length b) (account_update_merge_field P m t w b N)"
proof (cases "t = 1")
  case True
  have "dec_ok (account_ranges_ok N) (length b) (account_merge P (m\<lparr>ad_account := N - length b\<rparr>) b N)"
    unfolding account_merge_def
    by (rule nested_merge_ok [where N = N, OF account_merge_field_ok])
      (use assms in \<open>auto simp: account_ranges_ok_def\<close>)
  with True show ?thesis
    by (auto simp: account_update_merge_field_def split: sum.split)
next
  case False
  with assms show ?thesis unfolding account_update_merge_field_def Let_def
    by (auto intro!: merge_u64_ok merge_bool_ok skip_unknown_ok simp: account_ranges_ok_def)
qed

lemma insert_key_ok:
  assumes "transaction_info_ranges_ok N m" and "\<And>k r. x = Inr (k, r) \<Longrightarrow> length k = PUBKEY_BYTES \<and> length r \<le> n"
  shows "dec_ok (transaction_info_ranges_ok N) n (Some (insert_key m x))"
  unfolding insert_key_def using assms
  by (intro dec_ok_map) (auto simp: transaction_info_ranges_ok_def)

lemma decode_pubkey_bounds:
  "decode_pubkey P b w nm f = Inr (k, r) \<Longrightarrow> length k = PUBKEY_BYTES \<and> length r \<le> length b"
  using decode_pubkey_bound by blast

lemma transaction_info_nested_ok:
  assumes "transaction_info_ranges_ok N m" and "length b \<le> N"
  shows "dec_ok (transaction_info_ranges_ok N) (length b) (merge_transaction_message P m b)"
    and "dec_ok (transaction_info_ranges_ok N) (length b) (merge_transaction P m b)"
    and "dec_ok (transaction_info_ranges_ok N) (length b) (merge_meta P m b N)"
proof -
  have msg: "dec_ok (transaction_info_ranges_ok N) (length b) (merge_transaction_message P m b)"
    if "transaction_info_ranges_ok N m" and "length b \<le> N" for m b
    unfolding merge_transaction_message_def
    by (rule nested_merge_ok [where N = N])
      (use that in \<open>auto simp: transaction_message_field_def
        intro!: insert_key_ok skip_unknown_ok decode_pubkey_bounds\<close>)
  show "dec_ok (transaction_info_ranges_ok N) (length b) (merge_transaction_message P m b)"
    using assms by (rule msg)
  show "dec_ok (transaction_info_ranges_ok N) (length b) (merge_transaction P m b)"
    unfolding merge_transaction_def
    by (rule nested_merge_ok [where N = N])
      (use assms msg in \<open>auto simp: transaction_field_def intro!: skip_unknown_ok split: sum.split\<close>)
  show "dec_ok (transaction_info_ranges_ok N) (length b) (merge_meta P m b N)"
    unfolding merge_meta_def
    by (rule nested_merge_ok [where N = N])
      (use assms in \<open>auto intro!: insert_key_ok skip_unknown_ok decode_pubkey_bounds dec_ok_map
        simp: meta_field_def Let_def transaction_info_ranges_ok_def dest: decode_range_bound\<close>)
qed

lemma transaction_info_merge_ok:
  assumes "transaction_info_ranges_ok N m" and "length b \<le> N"
  shows "dec_ok (transaction_info_ranges_ok N) (length b) (transaction_info_merge_field P m t w b N)"
  using assms transaction_info_nested_ok [OF assms]
  unfolding transaction_info_merge_field_def Let_def
  by (auto intro!: merge_u64_ok merge_bool_ok skip_unknown_ok dec_ok_map split: sum.split
      simp: transaction_info_ranges_ok_def dest: decode_signature_bound)

lemma oneof_of_tag_range: "oneof_of_tag t r = Some v \<Longrightarrow> oneof_range v = r"
  by (auto simp: oneof_of_tag_def split: if_splits)

lemma update_oneof_merge_ok:
  assumes "t \<in> {2, 3, 4, 10, 5, 6, 9, 7, 8, 12, 13}" and "length b \<le> N"
  shows "dec_ok (\<lambda>v. case v of None \<Rightarrow> True | Some x \<Rightarrow> range_ok N (oneof_range x)) (length b)
    (update_oneof_merge P field t b N)"
proof (cases "decode_len P (create_decode_error ''buffer underflow'') b")
  case (Inr nb)
  then obtain n b1 where nb: "decode_len P (create_decode_error ''buffer underflow'') b = Inr (n, b1)"
    by (cases nb) auto
  note lt = decode_len_bound [OF nb]
  obtain v where v: "oneof_of_tag t (N - length b1, N - length (drop n b1)) = Some v"
    using assms(1) by (auto simp: oneof_of_tag_def)
  have "range_ok N (oneof_range v)"
    using oneof_of_tag_range [OF v] lt assms(2) by (auto simp: range_ok_def)
  with nb v lt show ?thesis by (auto simp: update_oneof_merge_def Let_def split: option.split)
qed (simp add: update_oneof_merge_def)

lemma update_merge_ok:
  assumes "update_ranges_ok N m" and "length b \<le> N"
  shows "dec_ok (update_ranges_ok N) (length b) (update_merge_field P m t w b N)"
proof (cases "check_wire_type P LengthDelimited w")
  case (Inr u)
  consider (one) "t = 1" | (oneof) "t \<in> {2, 3, 4, 10, 5, 6, 9, 7, 8, 12, 13}"
    | (other) "t \<noteq> 1" "t \<notin> {2, 3, 4, 10, 5, 6, 9, 7, 8, 12, 13}" by blast
  then show ?thesis
  proof cases
    case one
    with Inr assms show ?thesis
      by (auto simp: update_merge_field_def map_ok_def dest!: decode_len_bounds split: sum.split)
  next
    case oneof
    then have "t \<noteq> 1" by auto
    with update_oneof_merge_ok [OF oneof assms(2), of "ud_update_oneof m"] oneof Inr show ?thesis
      by (auto simp: update_merge_field_def dec_ok_def dec_push_def update_ranges_ok_def map_ok_def
          map_err_def split: option.splits sum.splits)
  next
    case other
    with Inr assms show ?thesis
      by (auto simp: update_merge_field_def update_ranges_ok_def intro!: skip_unknown_ok dec_ok_map
          dest: timestamp_shorter)
  qed
qed (simp add: update_merge_field_def)

text \<open>Each reader ends, with its ranges inside the input.\<close>

lemma decode_update_safe:
  "\<exists>r. decode_update P buf = Some r \<and> (\<forall>m. r = Inr m \<longrightarrow> update_ranges_ok (length buf) m)"
  unfolding decode_update_def
  by (rule limited_decode_ok) (auto simp: update_decode_default_def update_ranges_ok_def
      intro: update_merge_ok [unfolded update_ranges_ok_def])

lemma decode_account_safe:
  "\<exists>r. decode_account P buf = Some r \<and> (\<forall>m. r = Inr m \<longrightarrow> account_ranges_ok (length buf) m)"
  unfolding decode_account_def
  by (rule limited_decode_ok, erule (1) account_update_merge_ok)
    (simp add: account_decode_default_def account_ranges_ok_def range_ok_def PUBKEY_BYTES_def)

lemma decode_slot_safe:
  "\<exists>r. decode_slot P buf = Some r \<and> (\<forall>m. r = Inr m \<longrightarrow> slot_ranges_ok (length buf) m)"
  unfolding decode_slot_def
  by (rule limited_decode_ok, erule (1) slot_merge_ok) (simp add: slot_decode_default_def slot_ranges_ok_def)

lemma decode_transaction_safe:
  "\<exists>r. decode_transaction P buf = Some r \<and> (\<forall>m. r = Inr m \<longrightarrow> transaction_ranges_ok (length buf) m)"
  unfolding decode_transaction_def
  by (rule limited_decode_ok, erule (1) transaction_merge_ok)
    (simp add: transaction_decode_default_def transaction_ranges_ok_def)

lemma decode_transaction_info_safe: "\<exists>r. decode_transaction_info P buf = Some r \<and>
    (\<forall>m. r = Inr m \<longrightarrow> transaction_info_ranges_ok (length buf) m)"
  unfolding decode_transaction_info_def
  by (rule limited_decode_ok, erule (1) transaction_info_merge_ok)
    (simp add: transaction_info_decode_default_def transaction_info_ranges_ok_def)

lemma decode_entry_safe: "\<exists>r. decode_entry P buf = Some r \<and> (\<forall>m. r = Inr m \<longrightarrow> True)"
  unfolding decode_entry_def by (rule limited_decode_ok, rule entry_merge_ok) simp

text \<open>Reading back what the encoders wrote, field by field.\<close>

lemma key_nonempty: "valid_tag t \<Longrightarrow> encode_key P t w \<noteq> []"
  using key_prefix [OF key_decode [of t w "[]"]] by auto

lemma loop_step:
  assumes "valid_tag t" and "limit \<le> length r" and "M m t w (body @ r) = Some (Inr (m', r))"
  shows "field_loop P M limit m (encode_key P t w @ body @ r) = field_loop P M limit m' r"
proof -
  have "encode_key P t w \<noteq> []" using assms(1) by (rule key_nonempty)
  then have "limit < length (encode_key P t w @ body @ r)"
    using assms(2) by (cases "encode_key P t w") auto
  with assms show ?thesis by (subst field_loop.simps) (simp add: key_decode)
qed

lemma loop_done: "length r \<le> limit \<Longrightarrow> field_loop P M limit m r = Some (Inr (m, r))"
  by (subst field_loop.simps) simp

lemma loop_u64:
  "valid_tag t \<Longrightarrow> limit \<le> length r \<Longrightarrow> M m t Varint (encode_varint P v @ r) = Some (Inr (m', r)) \<Longrightarrow>
   field_loop P M limit m (uint64_encode P t v @ r) = field_loop P M limit m' r"
  by (simp add: uint64_field loop_step)

lemma loop_i32:
  "valid_tag t \<Longrightarrow> limit \<le> length r \<Longrightarrow> M m t Varint (encode_varint P (scast v) @ r) = Some (Inr (m', r)) \<Longrightarrow>
   field_loop P M limit m (int32_encode P t v @ r) = field_loop P M limit m' r"
  by (simp add: int32_field loop_step)

lemma loop_bool:
  "valid_tag t \<Longrightarrow> limit \<le> length r \<Longrightarrow>
   M m t Varint (encode_varint P (if c then 1 else 0) @ r) = Some (Inr (m', r)) \<Longrightarrow>
   field_loop P M limit m (bool_encode P t c @ r) = field_loop P M limit m' r"
  by (simp add: bool_field loop_step)

lemma loop_bytes:
  "valid_tag t \<Longrightarrow> limit \<le> length r \<Longrightarrow>
   M m t LengthDelimited (encode_varint P (of_nat (length d)) @ d @ r) = Some (Inr (m', r)) \<Longrightarrow>
   field_loop P M limit m (bytes_encode P t d @ r) = field_loop P M limit m' r"
  using loop_step [where body = "encode_varint P (of_nat (length d)) @ d"] by (simp add: bytes_encode_def)

lemma loop_string:
  "valid_tag t \<Longrightarrow> limit \<le> length r \<Longrightarrow>
   M m t LengthDelimited (encode_varint P (of_nat (length d)) @ d @ r) = Some (Inr (m', r)) \<Longrightarrow>
   field_loop P M limit m (string_encode P t d @ r) = field_loop P M limit m' r"
  using loop_step [where body = "encode_varint P (of_nat (length d)) @ d"] by (simp add: string_field)

lemma loop_message:
  "valid_tag t \<Longrightarrow> limit \<le> length r \<Longrightarrow>
   M m t LengthDelimited (encode_varint P (of_nat (mo_len x)) @ mo_raw x @ r) = Some (Inr (m', r)) \<Longrightarrow>
   field_loop P M limit m (message_encode P t x @ r) = field_loop P M limit m' r"
  using loop_step [where body = "encode_varint P (of_nat (mo_len x)) @ mo_raw x"] by (simp add: message_field)

lemma merge_u64_back [wire_dec]: "merge_u64 P a b Varint (encode_varint P v @ r) f = Inr (f v, r)"
  by (simp add: merge_u64_def uint64_back)

lemma merge_bool_back [wire_dec]:
  "merge_bool P a b Varint (encode_varint P (if c then 1 else 0) @ r) f = Inr (f c, r)"
  by (simp only: merge_bool_def bool_back map_err_simps map_ok_simps prod.case)

lemma decode_len_back [wire_dec]:
  "length d < 2 ^ 64 \<Longrightarrow>
   decode_len P e (encode_varint P (of_nat (length d)) @ d @ r) = Inr (length d, d @ r)"
  by (simp add: decode_len_def varint_decode unat_of_nat_u64)

lemma decode_range_back [wire_dec]:
  "length d < 2 ^ 64 \<Longrightarrow>
   decode_range P e LengthDelimited (encode_varint P (of_nat (length d)) @ d @ r) n =
   Inr ((n - length (d @ r), n - length r), r)"
  by (simp add: decode_range_def wire_type_same decode_len_back)

lemma decode_pubkey_back [wire_dec]:
  "length k = PUBKEY_BYTES \<Longrightarrow>
   decode_pubkey P (encode_varint P (of_nat (length k)) @ k @ r) LengthDelimited a b = Inr (k, r)"
  using decode_len_back [of k] by (simp add: decode_pubkey_def wire_type_same PUBKEY_BYTES_def)

lemma decode_signature_back [wire_dec]:
  "length s = SIGNATURE_BYTES \<Longrightarrow>
   decode_signature P (encode_varint P (of_nat (length s)) @ s @ r) LengthDelimited a b n =
   Inr (n - length (s @ r), r)"
  using decode_len_back [of s] by (simp add: decode_signature_def wire_type_same SIGNATURE_BYTES_def)

lemma loop_if:
  assumes "c \<Longrightarrow> field_loop P M limit m (f @ r) = field_loop P M limit m' r" and "\<not> c \<Longrightarrow> m' = m"
  shows "field_loop P M limit m ((if c then f else []) @ r) = field_loop P M limit m' r"
  using assms by (cases c) auto

lemma loop_opt:
  assumes "\<And>x. v = Some x \<Longrightarrow> field_loop P M limit m (f x @ r) = field_loop P M limit m' r"
    and "v = None \<Longrightarrow> m' = m"
  shows "field_loop P M limit m (enc_opt f v @ r) = field_loop P M limit m' r"
  using assms by (cases v) auto

lemma slot_decode_encoded:
  fixes sl parent st bank
  defines "d \<equiv> slot_encode_raw P sl parent st bank"
  assumes len: "length d < 2 ^ 64"
  obtains m where "decode_slot P d = Some (Inr m)" and "sd_slot m = sl" and "sd_parent m = parent"
    and "sd_status m = slot_status_as_i32 st" and "sd_bank_id m = bank"
    and "map_option (\<lambda>(a, b). slice a b d) (sd_dead_error m) =
      map_option Some (slot_status_as_dead_error st)"
proof -
  define N where "N = length d"
  define M where "M = (\<lambda>m t w b. Some (slot_merge_field P m t w b N))"
  define f1 where "f1 = (if sl \<noteq> 0 then uint64_encode P 1 sl else [])"
  define f2 where "f2 = enc_opt (uint64_encode P 2) parent"
  define f3 where "f3 = (if slot_status_as_i32 st \<noteq> 0 then int32_encode P 3 (slot_status_as_i32 st) else [])"
  define f4 where "f4 = enc_opt (string_encode P 4) (slot_status_as_dead_error st)"
  define f5 where "f5 = enc_opt (uint64_encode P 5) bank"
  have d: "d = f1 @ f2 @ f3 @ f4 @ f5"
    by (simp add: d_def slot_encode_raw_def Let_def f1_def f2_def f3_def f4_def f5_def)
  define de where "de = map_option (\<lambda>e. (N - length (e @ f5), N - length f5))
    (slot_status_as_dead_error st)"
  have elen: "length e < 2 ^ 64" if "slot_status_as_dead_error st = Some e" for e
    using len that by (auto simp: d f4_def string_field)
  have s1: "field_loop P M 0 m (f1 @ r) = field_loop P M 0 (m\<lparr>sd_slot := sl\<rparr>) r" if "sd_slot m = 0" for m r
    unfolding f1_def using that
    by (intro loop_if loop_u64) (auto simp: valid_tag_def M_def slot_merge_field_def wire_dec)
  have s2: "field_loop P M 0 m (f2 @ r) = field_loop P M 0 (m\<lparr>sd_parent := parent\<rparr>) r"
    if "sd_parent m = None" for m r
    unfolding f2_def using that
    by (intro loop_opt loop_u64) (auto simp: valid_tag_def M_def slot_merge_field_def wire_dec)
  have s3: "field_loop P M 0 m (f3 @ r) = field_loop P M 0 (m\<lparr>sd_status := slot_status_as_i32 st\<rparr>) r"
    if "sd_status m = 0" for m r
    unfolding f3_def using that
    by (intro loop_if loop_i32) (auto simp: valid_tag_def M_def slot_merge_field_def wire_dec)
  have s4: "field_loop P M 0 m (f4 @ f5) = field_loop P M 0 (m\<lparr>sd_dead_error := de\<rparr>) f5"
    if "sd_dead_error m = None" for m
    unfolding f4_def de_def using that elen
    by (intro loop_opt loop_string) (auto simp: valid_tag_def M_def slot_merge_field_def wire_dec)
  have s5: "field_loop P M 0 m (f5 @ r) = field_loop P M 0 (m\<lparr>sd_bank_id := bank\<rparr>) r"
    if "sd_bank_id m = None" for m r
    unfolding f5_def using that
    by (intro loop_opt loop_u64) (auto simp: valid_tag_def M_def slot_merge_field_def wire_dec)
  let ?m = "\<lparr>sd_slot = sl, sd_parent = parent, sd_status = slot_status_as_i32 st,
    sd_dead_error = de, sd_bank_id = bank\<rparr>"
  have "field_loop P M 0 slot_decode_default d = Some (Inr (?m, []))"
    using s5 [where r = "[]"] unfolding d by (simp add: slot_decode_default_def s1 s2 s3 s4 loop_done del: append_assoc)
  then have "decode_slot P d = Some (Inr ?m)" by (simp add: decode_slot_def limited_decode_def M_def N_def)
  moreover have "map_option (\<lambda>(a, b). slice a b d) de = map_option Some (slot_status_as_dead_error st)"
  proof (cases "slot_status_as_dead_error st")
    case (Some e)
    have "slice (N - length (e @ f5)) (N - length f5) d = Some e"
      by (simp add: N_def d f4_def Some string_field slice_def)
    with Some show ?thesis by (simp add: de_def)
  qed (simp add: de_def)
  ultimately show ?thesis by (intro that [of ?m]) simp_all
qed

lemma entry_decode_encoded:
  assumes len: "length (entry_encode_raw P e bank) < 2 ^ 64"
  shows "decode_entry P (entry_encode_raw P e bank) = Some (Inr \<lparr>ed_slot = re_slot e, ed_index = re_index e,
    ed_executed_transaction_count = re_executed_transaction_count e, ed_bank_id = bank\<rparr>)"
proof -
  define d where "d = entry_encode_raw P e bank"
  define N where "N = length d"
  define M where "M = (\<lambda>m t w b. Some (entry_merge_field P m t w b N))"
  note mf = M_def valid_tag_def entry_merge_field_def wire_dec
  have hash: "length (re_hash e) < 2 ^ 64"
    using len by (auto simp: entry_encode_raw_def bytes_encode_def)
  have s1: "field_loop P M 0 m ((if re_slot e \<noteq> 0 then uint64_encode P 1 (re_slot e) else []) @ r) =
      field_loop P M 0 (m\<lparr>ed_slot := re_slot e\<rparr>) r" if "ed_slot m = 0" for m r
    using that by (intro loop_if loop_u64) (auto simp: mf)
  have s2: "field_loop P M 0 m ((if re_index e \<noteq> 0 then uint64_encode P 2 (re_index e) else []) @ r) =
      field_loop P M 0 (m\<lparr>ed_index := re_index e\<rparr>) r" if "ed_index m = 0" for m r
    using that by (intro loop_if loop_u64) (auto simp: mf)
  have s3: "field_loop P M 0 m ((if re_num_hashes e \<noteq> 0 then uint64_encode P 3 (re_num_hashes e) else []) @ r) =
      field_loop P M 0 m r" for m r
    by (intro loop_if loop_u64) (auto simp: mf)
  have s4: "field_loop P M 0 m (bytes_encode P 4 (re_hash e) @ r) = field_loop P M 0 m r" for m r
    using hash by (intro loop_bytes) (auto simp: mf wire_type_same varint_decode unat_of_nat_u64)
  have s5: "field_loop P M 0 m ((if re_executed_transaction_count e \<noteq> 0
      then uint64_encode P 5 (re_executed_transaction_count e) else []) @ r) =
      field_loop P M 0 (m\<lparr>ed_executed_transaction_count := re_executed_transaction_count e\<rparr>) r"
    if "ed_executed_transaction_count m = 0" for m r
    using that by (intro loop_if loop_u64) (auto simp: mf)
  have s6: "field_loop P M 0 m ((if re_starting_transaction_index e \<noteq> 0
      then uint64_encode P 6 (re_starting_transaction_index e) else []) @ r) = field_loop P M 0 m r" for m r
    by (intro loop_if loop_u64) (auto simp: mf)
  have s7: "field_loop P M 0 m ((if bank \<noteq> 0 then uint64_encode P 7 bank else []) @ r) =
      field_loop P M 0 (m\<lparr>ed_bank_id := bank\<rparr>) r" if "ed_bank_id m = 0" for m r
    using that by (intro loop_if loop_u64) (auto simp: mf)
  have "field_loop P M 0 entry_decode_default (d @ []) = Some (Inr (\<lparr>ed_slot = re_slot e,
      ed_index = re_index e, ed_executed_transaction_count = re_executed_transaction_count e,
      ed_bank_id = bank\<rparr>, []))"
    unfolding d_def entry_encode_raw_def append_assoc
    by (simp only: s1 s2 s3 s4 s5 s6 s7 entry_decode_default_def entry_decode.select_convs
        entry_decode.update_convs loop_done list.size order.refl)
  then show ?thesis by (simp add: decode_entry_def limited_decode_def d_def [symmetric] M_def N_def)
qed

lemma account_layout: "account_encode_raw P sl bank a = encode_key P 1 LengthDelimited @
  encode_varint P (of_nat (length (account_info_encode_raw P a))) @ account_info_encode_raw P a @
  account_slot_fields P sl bank"
  using account_info_ok [of a]
  by (simp add: account_encode_raw_def message_field account_info_msg_def account_slot_fields_def)

lemma account_info_loop:
  assumes "account_sized a" and "length (ra_data a) < 2 ^ 64"
    and M: "M = (\<lambda>m t w b. Some (account_merge_field P m t w b N))"
  shows "field_loop P M (length S) (account_decode_default\<lparr>ad_account := key_len P 1\<rparr>) (account_info_encode_raw P a @ S) =
    Some (Inr (account_decode_at P N S a, S))"
proof -
  let ?L = "length S"
  let ?T = "account_txn_field P a"
  let ?W = "account_version_field P a"
  note mf = M valid_tag_def account_merge_field_def wire_dec
  have sz: "length (ra_pubkey a) = PUBKEY_BYTES" "length (ra_owner a) = PUBKEY_BYTES"
    "\<And>s. ra_txn a = Some s \<Longrightarrow> length s = SIGNATURE_BYTES"
    using assms(1) by (auto simp: account_sized_def)
  have s1: "field_loop P M ?L m (bytes_encode P 1 (ra_pubkey a) @ r) =
      field_loop P M ?L (m\<lparr>ad_pubkey := ra_pubkey a\<rparr>) r" if "?L \<le> length r" for m r
    using that decode_pubkey_back [OF sz(1)]
    by (intro loop_bytes) (simp_all add: M valid_tag_def account_merge_field_def)
  have s2: "field_loop P M ?L m ((if ra_lamports a \<noteq> 0 then uint64_encode P 2 (ra_lamports a) else []) @ r) =
      field_loop P M ?L (m\<lparr>ad_lamports := ra_lamports a\<rparr>) r" if "?L \<le> length r" "ad_lamports m = 0" for m r
    using that by (intro loop_if loop_u64) (auto simp: mf)
  have s3: "field_loop P M ?L m (bytes_encode P 3 (ra_owner a) @ r) =
      field_loop P M ?L (m\<lparr>ad_owner := ra_owner a\<rparr>) r" if "?L \<le> length r" for m r
    using that decode_pubkey_back [OF sz(2)]
    by (intro loop_bytes) (simp_all add: M valid_tag_def account_merge_field_def)
  have s4: "field_loop P M ?L m ((if ra_executable a then bool_encode P 4 (ra_executable a) else []) @ r) =
      field_loop P M ?L (m\<lparr>ad_executable := ra_executable a\<rparr>) r" if "?L \<le> length r" "\<not> ad_executable m" for m r
    using that merge_bool_back [where c = True]
    by (intro loop_if loop_bool) (auto simp: M valid_tag_def account_merge_field_def)
  have s5: "field_loop P M ?L m ((if ra_rent_epoch a \<noteq> 0 then uint64_encode P 5 (ra_rent_epoch a) else []) @ r) =
      field_loop P M ?L (m\<lparr>ad_rent_epoch := ra_rent_epoch a\<rparr>) r" if "?L \<le> length r" "ad_rent_epoch m = 0" for m r
    using that by (intro loop_if loop_u64) (auto simp: mf)
  have s6: "field_loop P M ?L m ((if ra_data a \<noteq> [] then bytes_encode P 6 (ra_data a) else []) @ ?W @ ?T @ S) =
      field_loop P M ?L (m\<lparr>ad_data := ad_data (account_decode_at P N S a)\<rparr>) (?W @ ?T @ S)"
    if "ad_data m = (0, 0)" for m
    using that assms(2)
    by (intro loop_if loop_bytes) (auto simp: mf account_decode_at_def Let_def)
  have s7: "field_loop P M ?L m (?W @ ?T @ S) =
      field_loop P M ?L (m\<lparr>ad_write_version := ad_write_version (account_decode_at P N S a)\<rparr>) (?T @ S)"
    if "ad_write_version m = 0" for m
    unfolding account_version_field_def [of P a] using that
    by (intro loop_if loop_u64) (auto simp: mf account_decode_at_def Let_def)
  have s8: "field_loop P M ?L m (?T @ S) =
      field_loop P M ?L (m\<lparr>ad_txn_signature_offset := ad_txn_signature_offset (account_decode_at P N S a)\<rparr>) S"
    if "ad_txn_signature_offset m = None" for m
    unfolding account_txn_field_def using that decode_signature_back [OF sz(3)]
    by (intro loop_opt loop_bytes)
      (simp_all add: M valid_tag_def account_merge_field_def account_decode_at_def Let_def)
  show ?thesis
    unfolding account_info_layout account_head_fields_def append_assoc account_decode_default_def
    by (simp add: s1 s2 s3 s4 s5 s6 s7 s8 loop_done) (simp add: account_decode_at_def Let_def)
qed

lemma account_decode_encoded:
  assumes "account_sized a" and len: "length (account_encode_raw P sl bank a) < 2 ^ 64"
  shows "decode_account P (account_encode_raw P sl bank a) = Some (Inr (account_decode_of P sl bank a))"
proof -
  define d where "d = account_encode_raw P sl bank a"
  define N where "N = length d"
  define M where "M = (\<lambda>m t w b. account_update_merge_field P m t w b N)"
  let ?S = "account_slot_fields P sl bank" and ?I = "account_info_encode_raw P a"
  let ?V = "encode_varint P (of_nat (length ?I))"
  have il: "length ?I < 2 ^ 64" using len by (simp add: account_layout)
  have "length (ra_data a) \<le> length (account_head_fields P a)"
    by (cases "ra_data a") (simp_all add: account_head_fields_def bytes_encode_def)
  then have dl: "length (ra_data a) < 2 ^ 64" using il by (simp add: account_info_layout)
  have off: "N - length (?V @ ?I @ ?S) = key_len P 1"
    by (simp add: N_def d_def account_layout key_length [of 1 LengthDelimited])
  have loop: "field_loop P (\<lambda>m t w b. Some (account_merge_field P m t w b N)) (length ?S)
      (account_decode_default\<lparr>ad_account := key_len P 1\<rparr>) (?I @ ?S) =
      Some (Inr ((account_decode_of P sl bank a)\<lparr>ad_slot := 0, ad_bank_id := None\<rparr>, ?S))"
    using account_info_loop [OF assms(1) dl HOL.refl, of N ?S]
    by (simp add: account_decode_of_at account_decode_at_def Let_def N_def d_def)
  have "M account_decode_default 1 LengthDelimited (?V @ ?I @ ?S) =
      Some (Inr ((account_decode_of P sl bank a)\<lparr>ad_slot := 0, ad_bank_id := None\<rparr>, ?S))"
    unfolding M_def account_update_merge_field_def Let_def
    using loop off il
    by (simp add: wire_type_same account_merge_def nested_merge_def decode_len_back dec_push_def)
  then have s1: "field_loop P M 0 account_decode_default d =
      field_loop P M 0 ((account_decode_of P sl bank a)\<lparr>ad_slot := 0, ad_bank_id := None\<rparr>) ?S"
    unfolding d_def account_layout
    using loop_step [of 1 0 ?S M account_decode_default LengthDelimited "?V @ ?I"] by (simp add: valid_tag_def)
  note mf = M_def valid_tag_def account_update_merge_field_def wire_dec
  have s2: "field_loop P M 0 m ((if sl \<noteq> 0 then uint64_encode P 2 sl else []) @ r) =
      field_loop P M 0 (m\<lparr>ad_slot := sl\<rparr>) r" if "ad_slot m = 0" for m r
    using that by (intro loop_if loop_u64) (auto simp: mf)
  have s3: "field_loop P M 0 m (enc_opt (uint64_encode P 4) bank @ r) =
      field_loop P M 0 (m\<lparr>ad_bank_id := bank\<rparr>) r" if "ad_bank_id m = None" for m r
    using that by (intro loop_opt loop_u64) (auto simp: mf)
  have "field_loop P M 0 account_decode_default d = Some (Inr (account_decode_of P sl bank a, []))"
    unfolding s1 account_slot_fields_def
    using s3 [of "(account_decode_of P sl bank a)\<lparr>ad_bank_id := None\<rparr>" "[]"]
    by (simp add: s2 loop_done account_decode_of_def Let_def)
  then show ?thesis
    by (simp add: decode_account_def limited_decode_def d_def [symmetric] M_def N_def)
qed

text \<open>Skipping the fields a reader does not need.\<close>

lemma skip_varint_back [wire_dec]: "skip_unknown P m Varint t (encode_varint P v @ r) = Inr (m, r)"
  by (simp add: skip_unknown_def skip_varint)

lemma skip_bytes_back [wire_dec]:
  "length d < 2 ^ 64 \<Longrightarrow>
   skip_unknown P m LengthDelimited t (encode_varint P (of_nat (length d)) @ d @ r) = Inr (m, r)"
  by (simp add: skip_unknown_def skip_bytes unat_of_nat_u64)

lemma loop_skip_u64:
  "valid_tag t \<Longrightarrow> limit \<le> length r \<Longrightarrow> (\<And>w b. M m t w b = Some (skip_unknown P m w t b)) \<Longrightarrow>
   field_loop P M limit m (uint64_encode P t v @ r) = field_loop P M limit m r"
  by (rule loop_u64) (simp_all add: wire_dec)

lemma loop_skip_bool:
  "valid_tag t \<Longrightarrow> limit \<le> length r \<Longrightarrow> (\<And>w b. M m t w b = Some (skip_unknown P m w t b)) \<Longrightarrow>
   field_loop P M limit m (bool_encode P t c @ r) = field_loop P M limit m r"
  by (rule loop_bool) (simp_all add: wire_dec)

lemma loop_skip_bytes:
  "valid_tag t \<Longrightarrow> limit \<le> length r \<Longrightarrow> (\<And>w b. M m t w b = Some (skip_unknown P m w t b)) \<Longrightarrow>
   length (bytes_encode P t d) < 2 ^ 64 \<Longrightarrow>
   field_loop P M limit m (bytes_encode P t d @ r) = field_loop P M limit m r"
  by (rule loop_bytes) (auto simp: wire_dec bytes_encode_def)

lemma loop_skip_string:
  "valid_tag t \<Longrightarrow> limit \<le> length r \<Longrightarrow> (\<And>w b. M m t w b = Some (skip_unknown P m w t b)) \<Longrightarrow>
   length (string_encode P t d) < 2 ^ 64 \<Longrightarrow>
   field_loop P M limit m (string_encode P t d @ r) = field_loop P M limit m r"
  by (rule loop_string) (auto simp: wire_dec string_field)

lemma loop_skip_message:
  "valid_tag t \<Longrightarrow> limit \<le> length r \<Longrightarrow> (\<And>w b. M m t w b = Some (skip_unknown P m w t b)) \<Longrightarrow>
   message_ok x \<Longrightarrow> length (message_encode P t x) < 2 ^ 64 \<Longrightarrow>
   field_loop P M limit m (message_encode P t x @ r) = field_loop P M limit m r"
  by (rule loop_message) (auto simp: wire_dec message_field message_ok_def)

lemma loop_concat:
  assumes "\<And>x m r. x \<in> set xs \<Longrightarrow> limit \<le> length r \<Longrightarrow>
    field_loop P M limit m (f x @ r) = field_loop P M limit (g x m) r" and "limit \<le> length r"
  shows "field_loop P M limit m (concat (map f xs) @ r) = field_loop P M limit (fold g xs m) r"
  using assms(1)
proof (induction xs arbitrary: m)
  case (Cons x xs)
  have "limit \<le> length (concat (map f xs) @ r)" using assms(2) by simp
  with Cons show ?case by simp
qed simp

lemma length_concat_member: "x \<in> set xs \<Longrightarrow> length (f x) \<le> length (concat (map f xs))"
  by (induction xs) auto

lemma loop_skip_repeated:
  assumes "valid_tag t" and "limit \<le> length r" and M: "\<And>m w b. M m t w b = Some (skip_unknown P m w t b)"
    and ok: "\<And>x. message_ok (f x)" and len: "length (message_encode_repeated P t (map f xs)) < 2 ^ 64"
  shows "field_loop P M limit m (message_encode_repeated P t (map f xs) @ r) = field_loop P M limit m r"
proof -
  have e: "message_encode_repeated P t (map f xs) = concat (map (\<lambda>x. message_encode P t (f x)) xs)"
    by (simp add: repeated_field comp_def)
  have "field_loop P M limit m (concat (map (\<lambda>x. message_encode P t (f x)) xs) @ r) =
      field_loop P M limit (fold (\<lambda>_ m. m) xs m) r"
  proof (rule loop_concat [OF _ assms(2)])
    fix x m r' assume x: "x \<in> set xs" "limit \<le> length (r' :: bytes)"
    have "length (message_encode P t (f x)) < 2 ^ 64"
      using length_concat_member [OF x(1), of "\<lambda>x. message_encode P t (f x)"] len unfolding e by linarith
    with x assms(1) M ok show "field_loop P M limit m (message_encode P t (f x) @ r') = field_loop P M limit m r'"
      by (intro loop_skip_message) auto
  qed
  then show ?thesis unfolding e by (simp add: fold_id [unfolded id_def])
qed

lemma loop_skip_strings:
  assumes "valid_tag t" and "limit \<le> length r" and M: "\<And>m w b. M m t w b = Some (skip_unknown P m w t b)"
    and len: "length (string_encode_repeated P t xs) < 2 ^ 64"
  shows "field_loop P M limit m (string_encode_repeated P t xs @ r) = field_loop P M limit m r"
proof -
  have "field_loop P M limit m (concat (map (string_encode P t) xs) @ r) =
      field_loop P M limit (fold (\<lambda>_ m. m) xs m) r"
  proof (rule loop_concat [OF _ assms(2)])
    fix x m r' assume x: "x \<in> set xs" "limit \<le> length (r' :: bytes)"
    have "length (string_encode P t x) < 2 ^ 64"
      using length_concat_member [OF x(1), of "string_encode P t"] len unfolding strings_field by linarith
    with x assms(1) M show "field_loop P M limit m (string_encode P t x @ r') = field_loop P M limit m r'"
      by (intro loop_skip_string) auto
  qed
  then show ?thesis unfolding strings_field by (simp add: fold_id [unfolded id_def])
qed

lemma loop_skip_packed:
  assumes "valid_tag t" and "limit \<le> length r" and M: "\<And>w b. M m t w b = Some (skip_unknown P m w t b)"
    and len: "length (uint64_encode_packed P t vs) < 2 ^ 64"
  shows "field_loop P M limit m (uint64_encode_packed P t vs @ r) = field_loop P M limit m r"
proof (cases "vs = []")
  case False
  have s: "sum_list (map (encoded_len_varint P) vs) = length (concat (map (encode_varint P) vs))"
    using varint_len by (simp add: length_concat comp_def cong: map_cong)
  show ?thesis
    using False assms loop_step [of t limit r M m LengthDelimited
        "encode_varint P (of_nat (length (concat (map (encode_varint P) vs)))) @ concat (map (encode_varint P) vs)" m]
    by (simp add: packed_field s wire_dec)
qed (simp add: packed_field)

lemma loop_keys:
  assumes "valid_tag t" and "limit \<le> length r" and "keys_sized ks"
    and M: "\<And>m b. M m t LengthDelimited b = Some (insert_key m (decode_pubkey P b LengthDelimited nm fld))"
  shows "field_loop P M limit m (pubkeys_encode P t ks @ r) =
    field_loop P M limit (m\<lparr>ti_account_keys := set ks \<union> ti_account_keys m\<rparr>) r"
proof -
  have "field_loop P M limit m (concat (map (bytes_encode P t) ks) @ r) =
      field_loop P M limit (fold (\<lambda>k m. m\<lparr>ti_account_keys := insert k (ti_account_keys m)\<rparr>) ks m) r"
  proof (rule loop_concat [OF _ assms(2)])
    fix k m r' assume k: "k \<in> set ks" "limit \<le> length (r' :: bytes)"
    then have "length k = PUBKEY_BYTES" using assms(3) by (simp add: keys_sized_def)
    from decode_pubkey_back [OF this] k assms(1)
    show "field_loop P M limit m (bytes_encode P t k @ r') =
        field_loop P M limit (m\<lparr>ti_account_keys := insert k (ti_account_keys m)\<rparr>) r'"
      by (intro loop_bytes) (simp_all add: M insert_key_def)
  qed
  moreover have "fold (\<lambda>k m. m\<lparr>ti_account_keys := insert k (ti_account_keys m)\<rparr>) ks m =
      m\<lparr>ti_account_keys := set ks \<union> ti_account_keys m\<rparr>"
    by (induction ks arbitrary: m) (simp_all add: insert_commute)
  ultimately show ?thesis by (simp add: pubkeys_encode_def)
qed

text \<open>The nested messages of a transaction.\<close>

lemma nested_merge_encoded:
  assumes "message_ok x" and "length (message_encode P t x) < 2 ^ 64"
    and "field_loop P M (length r) m (mo_raw x @ r) = field_loop P M (length r) m' r"
  shows "nested_merge P strict M m (encode_varint P (of_nat (mo_len x)) @ mo_raw x @ r) = Some (Inr (m', r))"
proof -
  have "length (mo_raw x) < 2 ^ 64" using assms(1,2) by (simp add: message_field)
  with assms show ?thesis
    by (simp add: nested_merge_def message_ok_def decode_len_back loop_done)
qed

lemma transaction_message_loop:
  assumes sz: "message_sized x" and len: "length (versioned_message_encode_raw P x) < 2 ^ 64"
  shows "field_loop P (transaction_message_field P) (length r) m (versioned_message_encode_raw P x @ r) =
    field_loop P (transaction_message_field P) (length r)
      (m\<lparr>ti_account_keys := set (message_keys x) \<union> ti_account_keys m\<rparr>) r"
proof -
  let ?M = "transaction_message_field P"
  have sk: "?M m t w b = Some (skip_unknown P m w t b)" if "t \<noteq> 2" for m t w b
    using that by (simp add: transaction_message_field_def)
  have v: "field_loop P ?M (length r) m (versioned_encode P 5 c @ r') = field_loop P ?M (length r) m r'"
    if "length r \<le> length r'" for c m r'
    using that by (cases c) (simp_all add: versioned_encode_def loop_skip_bool valid_tag_def sk)
  have k: "field_loop P ?M (length r) m (pubkeys_encode P 2 ks @ r') =
      field_loop P ?M (length r) (m\<lparr>ti_account_keys := set ks \<union> ti_account_keys m\<rparr>) r'"
    if "length r \<le> length r'" "keys_sized ks" for m r' ks
    using that by (intro loop_keys) (simp_all add: valid_tag_def transaction_message_field_def)
  have nil: "message_encode_repeated P 6 [] = []" by (simp add: repeated_field)
  show ?thesis using sz len
    by (cases x) (simp_all add: loop_skip_message loop_skip_bytes loop_skip_repeated v k valid_tag_def sk nil
        message_header_ok compiled_instruction_ok address_table_lookup_ok transaction_config_ok)
qed

lemma merge_transaction_message_encoded:
  assumes "message_sized x" and len: "length (message_encode P 2 (versioned_message_msg P x)) < 2 ^ 64"
  shows "merge_transaction_message P m
      (encode_varint P (of_nat (mo_len (versioned_message_msg P x))) @ mo_raw (versioned_message_msg P x) @ r) =
    Some (Inr (m\<lparr>ti_account_keys := set (message_keys x) \<union> ti_account_keys m\<rparr>, r))"
  unfolding merge_transaction_message_def
  using transaction_message_loop [OF assms(1)] len
  by (intro nested_merge_encoded [OF versioned_message_ok [OF assms(1)] len])
    (simp add: versioned_message_msg_def message_field)

lemma merge_transaction_encoded:
  assumes "transaction_sized x" and len: "length (message_encode P 3 (versioned_transaction_msg P x)) < 2 ^ 64"
  shows "merge_transaction P m (encode_varint P (of_nat (mo_len (versioned_transaction_msg P x))) @
      mo_raw (versioned_transaction_msg P x) @ r) =
    Some (Inr (m\<lparr>ti_account_keys := set (message_keys (vt_message x)) \<union> ti_account_keys m\<rparr>, r))"
proof -
  let ?M = "transaction_field P"
  have sk: "?M m t w b = Some (skip_unknown P m w t b)" if "t \<noteq> 2" for m t w b
    using that by (simp add: transaction_field_def)
  have sz: "message_sized (vt_message x)" using assms(1) by (simp add: transaction_sized_def)
  have raw: "length (versioned_transaction_encode_raw P x) < 2 ^ 64"
    using len by (simp add: message_field versioned_transaction_msg_def)
  have sigs: "field_loop P ?M (length r) m (signatures_encode P 1 ss @ r') = field_loop P ?M (length r) m r'"
    if "length r \<le> length r'" "length (signatures_encode P 1 ss) < 2 ^ 64" for m r' ss and r :: bytes
  proof -
    have "field_loop P ?M (length r) m (concat (map (bytes_encode P 1) ss) @ r') =
        field_loop P ?M (length r) (fold (\<lambda>_ m. m) ss m) r'"
    proof (rule loop_concat [OF _ that(1)])
      fix y m r2 assume y: "y \<in> set ss" "length r \<le> length (r2 :: bytes)"
      have "length (bytes_encode P 1 y) < 2 ^ 64"
        using length_concat_member [OF y(1), of "bytes_encode P 1"] that(2)
        unfolding signatures_encode_def by linarith
      with y show "field_loop P ?M (length r) m (bytes_encode P 1 y @ r2) = field_loop P ?M (length r) m r2"
        by (intro loop_skip_bytes) (simp_all add: valid_tag_def sk)
    qed
    then show ?thesis by (simp add: signatures_encode_def fold_id [unfolded id_def])
  qed
  have "field_loop P ?M (length r) m (mo_raw (versioned_transaction_msg P x) @ r) =
      field_loop P ?M (length r) (m\<lparr>ti_account_keys := set (message_keys (vt_message x)) \<union> ti_account_keys m\<rparr>) r"
    for r :: bytes
  proof -
    have "length (message_encode P 2 (versioned_message_msg P (vt_message x))) < 2 ^ 64"
      and "length (signatures_encode P 1 (vt_signatures x)) < 2 ^ 64"
      using raw by (simp_all add: versioned_transaction_encode_raw_def)
    moreover from merge_transaction_message_encoded [OF sz this(1)]
    have "field_loop P ?M (length r) m (message_encode P 2 (versioned_message_msg P (vt_message x)) @ r) =
        field_loop P ?M (length r) (m\<lparr>ti_account_keys := set (message_keys (vt_message x)) \<union> ti_account_keys m\<rparr>) r"
      by (intro loop_message) (simp_all add: valid_tag_def transaction_field_def wire_type_same)
    ultimately show ?thesis
      by (simp add: versioned_transaction_msg_def versioned_transaction_encode_raw_def sigs)
  qed
  from nested_merge_encoded [OF versioned_transaction_ok [OF assms(1)] len this]
  show ?thesis by (simp add: merge_transaction_def)
qed

text \<open>The status meta: the error's range and the loaded addresses.\<close>

lemma loop_skip_opt_repeated:
  "valid_tag t \<Longrightarrow> limit \<le> length r \<Longrightarrow> (\<And>m w b. M m t w b = Some (skip_unknown P m w t b)) \<Longrightarrow>
   (\<And>x. message_ok (f x)) \<Longrightarrow>
   length (enc_opt (\<lambda>xs. message_encode_repeated P t (map f xs)) v) < 2 ^ 64 \<Longrightarrow>
   field_loop P M limit m (enc_opt (\<lambda>xs. message_encode_repeated P t (map f xs)) v @ r) =
   field_loop P M limit m r"
  by (cases v) (simp_all add: loop_skip_repeated)

lemma loop_skip_opt_strings:
  "valid_tag t \<Longrightarrow> limit \<le> length r \<Longrightarrow> (\<And>m w b. M m t w b = Some (skip_unknown P m w t b)) \<Longrightarrow>
   length (enc_opt (string_encode_repeated P t) v) < 2 ^ 64 \<Longrightarrow>
   field_loop P M limit m (enc_opt (string_encode_repeated P t) v @ r) = field_loop P M limit m r"
  by (cases v) (simp_all add: loop_skip_strings)

lemma loop_skip_opt_message:
  "valid_tag t \<Longrightarrow> limit \<le> length r \<Longrightarrow> (\<And>m w b. M m t w b = Some (skip_unknown P m w t b)) \<Longrightarrow>
   (\<And>x. message_ok (f x)) \<Longrightarrow> length (enc_opt (\<lambda>x. message_encode P t (f x)) v) < 2 ^ 64 \<Longrightarrow>
   field_loop P M limit m (enc_opt (\<lambda>x. message_encode P t (f x)) v @ r) = field_loop P M limit m r"
  by (cases v) (simp_all add: loop_skip_message)

lemma loop_skip_opt_u64:
  "valid_tag t \<Longrightarrow> limit \<le> length r \<Longrightarrow> (\<And>m w b. M m t w b = Some (skip_unknown P m w t b)) \<Longrightarrow>
   field_loop P M limit m (enc_opt (uint64_encode P t) v @ r) = field_loop P M limit m r"
  by (cases v) (simp_all add: loop_skip_u64)

lemma loop_skip_if_u64:
  "valid_tag t \<Longrightarrow> limit \<le> length r \<Longrightarrow> (\<And>m w b. M m t w b = Some (skip_unknown P m w t b)) \<Longrightarrow>
   field_loop P M limit m ((if c then uint64_encode P t v else []) @ r) = field_loop P M limit m r"
  by (simp add: loop_skip_u64)

lemma loop_skip_if_bool:
  "valid_tag t \<Longrightarrow> limit \<le> length r \<Longrightarrow> (\<And>m w b. M m t w b = Some (skip_unknown P m w t b)) \<Longrightarrow>
   field_loop P M limit m ((if c then bool_encode P t v else []) @ r) = field_loop P M limit m r"
  by (simp add: loop_skip_bool)

lemmas loop_skips = loop_skip_opt_repeated loop_skip_opt_strings loop_skip_opt_message
  loop_skip_opt_u64 loop_skip_if_u64 loop_skip_if_bool loop_skip_packed

lemma meta_tail_loop:
  assumes sk: "\<And>m t w b. t \<noteq> 1 \<Longrightarrow> t \<noteq> 12 \<Longrightarrow> t \<noteq> 13 \<Longrightarrow> M m t w b = Some (skip_unknown P m w t b)"
    and k12: "\<And>m b. M m 12 LengthDelimited b = Some (insert_key m (decode_pubkey P b LengthDelimited nm f12))"
    and k13: "\<And>m b. M m 13 LengthDelimited b = Some (insert_key m (decode_pubkey P b LengthDelimited nm f13))"
    and sz: "keys_sized (tm_loaded_writable x)" "keys_sized (tm_loaded_readonly x)"
    and len: "length (meta_tail P x) < 2 ^ 64" and lim: "limit \<le> length r"
  shows "field_loop P M limit m (meta_tail P x @ r) = field_loop P M limit (m\<lparr>ti_account_keys :=
    set (tm_loaded_readonly x) \<union> (set (tm_loaded_writable x) \<union> ti_account_keys m)\<rparr>) r"
proof -
  note k = loop_keys [where nm = nm and fld = f12] loop_keys [where nm = nm and fld = f13]
  note bounds = len [unfolded meta_tail_def length_append]
  show ?thesis
    unfolding meta_tail_def append_assoc
    using bounds lim sz
    by (simp add: loop_skips k sk k12 k13 valid_tag_def inner_instructions_ok token_balance_ok reward_ok
        return_data_ok split del: if_split)
qed

lemma merge_meta_encoded:
  assumes sz: "keys_sized (tm_loaded_writable x)" "keys_sized (tm_loaded_readonly x)"
    and len: "length (message_encode P 4 (status_meta_msg P E B x)) < 2 ^ 64"
    and err: "e = (case tm_status x of Inr _ \<Rightarrow> ti_err m
      | Inl err \<Rightarrow> Some (N - length (mo_raw (transaction_error_msg P E B err) @ meta_tail P x @ r),
          N - length (meta_tail P x @ r)))"
  shows "merge_meta P m (encode_varint P (of_nat (mo_len (status_meta_msg P E B x))) @
      mo_raw (status_meta_msg P E B x) @ r) N =
    Some (Inr (m\<lparr>ti_err := e, ti_account_keys :=
      set (tm_loaded_readonly x) \<union> (set (tm_loaded_writable x) \<union> ti_account_keys m)\<rparr>, r))"
  unfolding merge_meta_def
proof (rule nested_merge_encoded [OF status_meta_ok [OF sz] len])
  let ?M = "meta_field P N"
  let ?f = "case tm_status x of
    Inl err \<Rightarrow> message_encode P 1 (transaction_error_msg P E B err) | Inr _ \<Rightarrow> []"
  have raw: "status_meta_encode_raw P E B x = ?f @ meta_tail P x"
    by (simp add: status_meta_encode_raw_def meta_tail_def)
  have l: "length (?f @ meta_tail P x) < 2 ^ 64"
    using len by (simp add: message_field status_meta_msg_def raw [symmetric])
  have tail: "field_loop P ?M (length r) m (meta_tail P x @ r) = field_loop P ?M (length r) (m\<lparr>ti_account_keys :=
      set (tm_loaded_readonly x) \<union> (set (tm_loaded_writable x) \<union> ti_account_keys m)\<rparr>) r" for m
    using l by (intro meta_tail_loop [OF _ _ _ sz]) (simp_all add: meta_field_def)
  have "field_loop P ?M (length r) m (?f @ meta_tail P x @ r) =
      field_loop P ?M (length r) (m\<lparr>ti_err := e\<rparr>) (meta_tail P x @ r)"
  proof (cases "tm_status x")
    case (Inl er)
    have ok: "message_ok (transaction_error_msg P E B er)" by (rule transaction_error_ok)
    then have "length (mo_raw (transaction_error_msg P E B er)) < 2 ^ 64"
      using l Inl by (simp add: message_field)
    then have "field_loop P ?M (length r) m (message_encode P 1 (transaction_error_msg P E B er) @ meta_tail P x @ r) =
      field_loop P ?M (length r) (m\<lparr>ti_err := e\<rparr>) (meta_tail P x @ r)"
      using decode_range_back [of "mo_raw (transaction_error_msg P E B er)"] ok
      by (intro loop_message) (simp_all add: valid_tag_def meta_field_def err Inl message_ok_def)
    with Inl show ?thesis by simp
  qed (simp add: err)
  also note tail [of "m\<lparr>ti_err := e\<rparr>"]
  finally show "field_loop P ?M (length r) m (mo_raw (status_meta_msg P E B x) @ r) =
      field_loop P ?M (length r) (m\<lparr>ti_err := e, ti_account_keys :=
      set (tm_loaded_readonly x) \<union> (set (tm_loaded_writable x) \<union> ti_account_keys m)\<rparr>) r"
    by (simp add: status_meta_msg_def raw)
qed

lemma transaction_info_decode_encoded:
  fixes E :: "'e plugin_env" and t :: "'e replica_transaction" and B
  defines "d \<equiv> replica_transaction_encode_raw P E B t"
  assumes sz: "replica_transaction_sized t" and sig: "length (rt_signature t) = SIGNATURE_BYTES"
    and len: "length d < 2 ^ 64"
  obtains m where "decode_transaction_info P d = Some (Inr m)"
    and "map_option (\<lambda>i. slice i (i + SIGNATURE_BYTES) d) (ti_signature_offset m) = Some (Some (rt_signature t))"
    and "ti_is_vote m = rt_is_vote t" and "ti_index m = rt_index t"
    and "ti_account_keys m = transaction_keys t"
    and "map_option (\<lambda>(a, b). slice a b d) (ti_err m) = (case tm_status (rt_meta t) of Inr _ \<Rightarrow> None
      | Inl err \<Rightarrow> Some (Some (mo_raw (transaction_error_msg P E B err))))"
proof -
  define N where "N = length d"
  define M where "M = (\<lambda>m t w b. transaction_info_merge_field P m t w b N)"
  define f1 where "f1 = bytes_encode P 1 (rt_signature t)"
  define f2 where "f2 = (if rt_is_vote t then bool_encode P 2 (rt_is_vote t) else [])"
  define f3 where "f3 = message_encode P 3 (versioned_transaction_msg P (rt_transaction t))"
  define f4 where "f4 = message_encode P 4 (status_meta_msg P E B (rt_meta t))"
  define f5 where "f5 = (if rt_index t \<noteq> 0 then uint64_encode P 5 (rt_index t) else [])"
  have d: "d = f1 @ f2 @ f3 @ f4 @ f5"
    by (simp add: d_def replica_transaction_encode_raw_def f1_def f2_def f3_def f4_def f5_def)
  let ?x = "rt_meta t"
  have sz': "transaction_sized (rt_transaction t)" "keys_sized (tm_loaded_writable ?x)"
    "keys_sized (tm_loaded_readonly ?x)" using sz by (simp_all add: replica_transaction_sized_def)
  have l3: "length f3 < 2 ^ 64" and l4: "length f4 < 2 ^ 64" using len by (simp_all add: d)
  note mf = M_def valid_tag_def transaction_info_merge_field_def
  define off where "off = N - length (rt_signature t @ f2 @ f3 @ f4 @ f5)"
  have s1: "field_loop P M 0 m (f1 @ f2 @ f3 @ f4 @ f5) =
      field_loop P M 0 (m\<lparr>ti_signature_offset := Some off\<rparr>) (f2 @ f3 @ f4 @ f5)" for m
    unfolding f1_def using decode_signature_back [OF sig]
    by (intro loop_bytes) (simp_all add: mf off_def)
  have s2: "field_loop P M 0 m (f2 @ r) = field_loop P M 0 (m\<lparr>ti_is_vote := rt_is_vote t\<rparr>) r"
    if "\<not> ti_is_vote m" for m r
    unfolding f2_def using that merge_bool_back [where c = True]
    by (intro loop_if loop_bool) (auto simp: mf)
  have s3: "field_loop P M 0 m (f3 @ r) = field_loop P M 0
      (m\<lparr>ti_account_keys := set (message_keys (vt_message (rt_transaction t))) \<union> ti_account_keys m\<rparr>) r" for m r
    unfolding f3_def using merge_transaction_encoded [OF sz'(1) l3 [unfolded f3_def]]
    by (intro loop_message) (simp_all add: mf wire_type_same dec_push_def)
  define e where "e = (case tm_status ?x of Inr _ \<Rightarrow> None | Inl err \<Rightarrow>
    Some (N - length (mo_raw (transaction_error_msg P E B err) @ meta_tail P ?x @ f5), N - length (meta_tail P ?x @ f5)))"
  have s4: "field_loop P M 0 m (f4 @ f5) = field_loop P M 0 (m\<lparr>ti_err := e, ti_account_keys :=
      set (tm_loaded_readonly ?x) \<union> (set (tm_loaded_writable ?x) \<union> ti_account_keys m)\<rparr>) f5"
    if "ti_err m = None" for m
    unfolding f4_def using that merge_meta_encoded [OF sz'(2,3) l4 [unfolded f4_def], where e = e and m = m and N = N and r = f5]
    by (intro loop_message) (simp_all add: mf wire_type_same dec_push_def e_def split: sum.split)
  have s5: "field_loop P M 0 m (f5 @ r) = field_loop P M 0 (m\<lparr>ti_index := rt_index t\<rparr>) r"
    if "ti_index m = 0" for m r
    unfolding f5_def using that by (intro loop_if loop_u64) (auto simp: mf wire_dec)
  let ?m = "\<lparr>ti_signature_offset = Some off, ti_is_vote = rt_is_vote t, ti_index = rt_index t,
    ti_account_keys = transaction_keys t, ti_err = e\<rparr>"
  have "field_loop P M 0 transaction_info_decode_default d = Some (Inr (?m, []))"
    using s5 [where r = "[]"] unfolding d transaction_info_decode_default_def
    by (simp add: s1 s2 s3 s4 loop_done transaction_keys_def Un_ac)
  then have "decode_transaction_info P d = Some (Inr ?m)"
    by (simp add: decode_transaction_info_def limited_decode_def M_def N_def)
  moreover have "slice off (off + SIGNATURE_BYTES) d = Some (rt_signature t)"
    by (simp add: off_def N_def d f1_def bytes_encode_def slice_def sig [symmetric])
  moreover have "map_option (\<lambda>(a, b). slice a b d) e = (case tm_status ?x of Inr _ \<Rightarrow> None
      | Inl err \<Rightarrow> Some (Some (mo_raw (transaction_error_msg P E B err))))"
  proof (cases "tm_status ?x")
    case (Inl err)
    then have "f4 = encode_key P 4 LengthDelimited @ encode_varint P (of_nat (mo_len (status_meta_msg P E B ?x))) @
        encode_key P 1 LengthDelimited @ encode_varint P (of_nat (mo_len (transaction_error_msg P E B err))) @
        mo_raw (transaction_error_msg P E B err) @ meta_tail P ?x"
      by (simp add: f4_def message_field status_meta_msg_def status_meta_encode_raw_def meta_tail_def)
    with Inl show ?thesis by (simp add: e_def N_def d slice_def)
  qed (simp add: e_def)
  ultimately show ?thesis by (intro that [of ?m]) simp_all
qed

lemma transaction_decode_encoded:
  fixes E :: "'e plugin_env" and B sl bank t
  defines "d \<equiv> transaction_encode_raw P E B sl bank t"
  assumes sz: "replica_transaction_sized t" and len: "length d < 2 ^ 64"
  obtains m where "decode_transaction P d = Some (Inr m)"
    and "map_option (\<lambda>(a, b). slice a b d) (td_transaction m) = Some (Some (replica_transaction_encode_raw P E B t))"
    and "td_slot m = sl" and "td_bank_id m = bank"
proof -
  define N where "N = length d"
  define M where "M = (\<lambda>m t w b. Some (transaction_merge_field P m t w b N))"
  define f1 where "f1 = message_encode P 1 (replica_transaction_msg P E B t)"
  define f2 where "f2 = (if sl \<noteq> 0 then uint64_encode P 2 sl else [])"
  define f3 where "f3 = (if bank \<noteq> 0 then uint64_encode P 3 bank else [])"
  have d: "d = f1 @ f2 @ f3" by (simp add: d_def transaction_encode_raw_def f1_def f2_def f3_def)
  let ?x = "replica_transaction_encode_raw P E B t"
  have "message_ok (replica_transaction_msg P E B t)"
    using sz by (rule replica_transaction_ok)
  then have f1: "f1 = encode_key P 1 LengthDelimited @ encode_varint P (of_nat (length ?x)) @ ?x"
    by (simp add: f1_def message_field replica_transaction_msg_def)
  define rg where "rg = (N - length (?x @ f2 @ f3), N - length (f2 @ f3))"
  note mf = M_def valid_tag_def transaction_merge_field_def wire_dec
  have "length ?x < 2 ^ 64" using len by (simp add: d f1)
  then have s1: "field_loop P M 0 m (f1 @ f2 @ f3) = field_loop P M 0 (m\<lparr>td_transaction := Some rg\<rparr>) (f2 @ f3)" for m
    unfolding f1 append_assoc
    using loop_step [of 1 0 "f2 @ f3" M m LengthDelimited "encode_varint P (of_nat (length ?x)) @ ?x"
        "m\<lparr>td_transaction := Some rg\<rparr>"]
    by (simp add: mf rg_def)
  have s2: "field_loop P M 0 m (f2 @ r) = field_loop P M 0 (m\<lparr>td_slot := sl\<rparr>) r" if "td_slot m = 0" for m r
    unfolding f2_def using that by (intro loop_if loop_u64) (auto simp: mf)
  have s3: "field_loop P M 0 m (f3 @ r) = field_loop P M 0 (m\<lparr>td_bank_id := bank\<rparr>) r" if "td_bank_id m = 0" for m r
    unfolding f3_def using that by (intro loop_if loop_u64) (auto simp: mf)
  let ?m = "\<lparr>td_transaction = Some rg, td_slot = sl, td_bank_id = bank\<rparr>"
  have "field_loop P M 0 transaction_decode_default d = Some (Inr (?m, []))"
    using s3 [where r = "[]"] unfolding d transaction_decode_default_def by (simp add: s1 s2 loop_done)
  then have "decode_transaction P d = Some (Inr ?m)"
    by (simp add: decode_transaction_def limited_decode_def M_def N_def)
  moreover have "(\<lambda>(a, b). slice a b d) rg = Some ?x"
    by (simp add: rg_def N_def d f1 slice_def)
  ultimately show ?thesis by (intro that [of ?m]) simp_all
qed

lemma created_at_field:
  assumes "ud_created_at m = None"
  shows "field_loop P (\<lambda>m t w b. update_merge_field P m t w b N) 0 m
      (message_encode P 11 (timestamp_msg P ts) @ r) =
    field_loop P (\<lambda>m t w b. update_merge_field P m t w b N) 0 (m\<lparr>ud_created_at := Some ts\<rparr>) r"
  using assms
  by (intro loop_message) (simp_all add: valid_tag_def update_merge_field_def wire_type_same timestamp_read)

lemma update_oneof_field:
  assumes "t \<in> {2, 3, 4, 5, 7, 8, 10, 12, 13}" and "message_ok x" and "length (message_encode P t x) < 2 ^ 64"
    and "ud_update_oneof m = None"
  obtains v where "oneof_tag v = t" and "oneof_range v = (N - length (mo_raw x @ r), N - length r)"
    and "field_loop P (\<lambda>m t w b. update_merge_field P m t w b N) 0 m (message_encode P t x @ r) =
      field_loop P (\<lambda>m t w b. update_merge_field P m t w b N) 0 (m\<lparr>ud_update_oneof := Some v\<rparr>) r"
proof -
  obtain v where v: "oneof_of_tag t (N - length (mo_raw x @ r), N - length r) = Some v"
    using assms(1) by (auto simp: oneof_of_tag_def)
  have "oneof_tag v = t" using v assms(1) by (auto simp: oneof_of_tag_def)
  moreover have "length (mo_raw x) < 2 ^ 64" using assms(2,3) by (simp add: message_field)
  then have "decode_len P e (encode_varint P (of_nat (mo_len x)) @ mo_raw x @ r) =
      Inr (length (mo_raw x), mo_raw x @ r)" for e
    using assms(2) decode_len_back [of "mo_raw x"] by (simp add: message_ok_def)
  then have "field_loop P (\<lambda>m t w b. update_merge_field P m t w b N) 0 m (message_encode P t x @ r) =
      field_loop P (\<lambda>m t w b. update_merge_field P m t w b N) 0 (m\<lparr>ud_update_oneof := Some v\<rparr>) r"
    using assms(1,4) v
    by (intro loop_message) (auto simp: valid_tag_def update_merge_field_def wire_type_same
        update_oneof_merge_def dec_push_def)
  ultimately show ?thesis using oneof_of_tag_range [OF v] that by blast
qed

lemma richat_field:
  assumes "100 \<le> t" and "t \<le> 105" and "message_ok x" and "length (message_encode P t x) < 2 ^ 64"
  shows "field_loop P (\<lambda>m t w b. update_merge_field P m t w b N) 0 m (message_encode P t x @ r) =
    field_loop P (\<lambda>m t w b. update_merge_field P m t w b N) 0 (m\<lparr>ud_richat_update := True\<rparr>) r"
proof -
  have "unat (100 :: u32) \<le> unat t" and "unat t \<le> unat (105 :: u32)"
    using assms(1,2) by (simp_all only: word_le_nat_alt)
  then have t: "100 \<le> unat t" "unat t \<le> 105" by simp_all
  then have ne: "t \<noteq> 1" "t \<notin> {2, 3, 4, 10, 5, 6, 9, 7, 8, 12, 13}" "t \<noteq> 11" and vt: "valid_tag t"
    by (auto simp: valid_tag_def)
  have "length (mo_raw x) < 2 ^ 64" using assms(3,4) by (simp add: message_field)
  with skip_bytes_back [of "mo_raw x"] assms(1-3) ne show ?thesis
    by (intro loop_message [OF vt]) (simp_all add: update_merge_field_def wire_type_same message_ok_def)
qed

lemma update_decode_encoded:
  assumes ok: "message_ok x" and t: "t \<in> {2, 3, 4, 7, 8} \<or> 100 \<le> t \<and> t \<le> 105"
    and len: "length (encode_raw_bytes P t x ts) < 2 ^ 64"
  shows "\<exists>u. decode_update P (encode_raw_bytes P t x ts) = Some (Inr u) \<and> ud_created_at u = Some ts \<and>
    (if t < 11 then \<exists>v. ud_update_oneof u = Some v \<and> oneof_tag v = t \<and>
        slice (fst (oneof_range v)) (snd (oneof_range v)) (encode_raw_bytes P t x ts) = Some (mo_raw x)
     else ud_update_oneof u = None \<and> ud_richat_update u)"
proof -
  define d where "d = encode_raw_bytes P t x ts"
  define N where "N = length d"
  define M where "M = (\<lambda>m t w b. update_merge_field P m t w b N)"
  let ?ts = "message_encode P 11 (timestamp_msg P ts)"
  have c: "field_loop P M 0 m (?ts @ r) = field_loop P M 0 (m\<lparr>ud_created_at := Some ts\<rparr>) r"
    if "ud_created_at m = None" for m r using created_at_field [OF that] by (simp add: M_def)
  have lx: "length (message_encode P t x) < 2 ^ 64"
    using len by (simp add: encode_raw_bytes_def split: if_splits)
  have dec: "decode_update P d = Some (Inr u)" if "field_loop P M 0 update_decode_default d = Some (Inr (u, []))" for u
    using that by (simp add: decode_update_def limited_decode_def M_def N_def)
  show ?thesis
  proof (cases "t < 11")
    case True
    then have "t \<in> {2, 3, 4, 5, 7, 8, 10, 12, 13}" using t by (auto simp: word_le_nat_alt word_less_nat_alt)
    from update_oneof_field [OF this ok lx, of update_decode_default N ?ts] obtain v where
      v: "oneof_tag v = t" "oneof_range v = (N - length (mo_raw x @ ?ts), N - length ?ts)"
      and l: "field_loop P M 0 update_decode_default (message_encode P t x @ ?ts) =
        field_loop P M 0 (update_decode_default\<lparr>ud_update_oneof := Some v\<rparr>) ?ts"
      by (auto simp: M_def update_decode_default_def)
    have d: "d = message_encode P t x @ ?ts" using True by (simp add: d_def encode_raw_bytes_def)
    have "decode_update P d = Some (Inr \<lparr>ud_update_oneof = Some v, ud_created_at = Some ts, ud_richat_update = False\<rparr>)"
      using dec l c [of _ "[]"] unfolding d by (simp add: update_decode_default_def loop_done)
    moreover have "slice (fst (oneof_range v)) (snd (oneof_range v)) d = Some (mo_raw x)"
      by (simp add: v N_def d message_field slice_def)
    ultimately show ?thesis using True v by (auto simp: d_def)
  next
    case False
    then have t': "100 \<le> t" "t \<le> 105" using t by (auto simp: word_less_nat_alt)
    have d: "d = ?ts @ message_encode P t x" using False by (simp add: d_def encode_raw_bytes_def)
    have "decode_update P d = Some (Inr \<lparr>ud_update_oneof = None, ud_created_at = Some ts, ud_richat_update = True\<rparr>)"
      using dec c richat_field [OF t' ok lx, of N _ "[]"] unfolding d
      by (simp add: update_decode_default_def loop_done M_def)
    then show ?thesis using False by (simp add: d_def)
  qed
qed

end

lemma raw_message_tag:
  "raw_message P E B m = Some (tag, x) \<Longrightarrow> tag \<in> {2, 3, 4, 7, 8} \<or> 100 \<le> tag \<and> tag \<le> 105"
  by (cases m) auto

lemma account_data_slice:
  assumes "prost_codec P"
  shows "slice (fst (ad_data (account_decode_of P sl bank a))) (snd (ad_data (account_decode_of P sl bank a)))
    (account_encode_raw P sl bank a) = Some (ra_data a)"
proof (cases "ra_data a = []")
  case True
  then show ?thesis by (simp add: account_decode_of_def Let_def slice_def)
next
  case False
  then have "account_encode_raw P sl bank a = (encode_key P 1 LengthDelimited @
      encode_varint P (of_nat (length (account_info_encode_raw P a))) @
      bytes_encode P 1 (ra_pubkey a) @
      (if ra_lamports a \<noteq> 0 then uint64_encode P 2 (ra_lamports a) else []) @
      bytes_encode P 3 (ra_owner a) @
      (if ra_executable a then bool_encode P 4 (ra_executable a) else []) @
      (if ra_rent_epoch a \<noteq> 0 then uint64_encode P 5 (ra_rent_epoch a) else []) @
      encode_key P 6 LengthDelimited @ encode_varint P (of_nat (length (ra_data a)))) @ ra_data a @
      (account_version_field P a @ account_txn_field P a @ account_slot_fields P sl bank)"
    unfolding prost_codec.account_layout [OF assms] account_info_layout account_head_fields_def
    by (simp add: bytes_encode_def split del: if_split)
  from slice_range [OF arg_cong [where f = length, OF this]] this
  show ?thesis using False by (simp add: account_decode_of_def Let_def split del: if_split)
qed

lemma account_signature_slice:
  assumes "prost_codec P" and "ra_txn a = Some s"
  shows "\<exists>i. ad_txn_signature_offset (account_decode_of P sl bank a) = Some i \<and>
    slice i (i + length s) (account_encode_raw P sl bank a) = Some s"
  unfolding prost_codec.account_layout [OF assms(1)] account_info_layout account_txn_field_def assms(2)
    account_decode_of_def Let_def
  by (simp add: bytes_encode_def slice_def)

lemma account_version_at:
  assumes "prost_codec P" and "ra_write_version a \<noteq> 0"
  shows "decode_varint P (drop (ad_write_version (account_decode_of P sl bank a)) (account_encode_raw P sl bank a)) =
    Inr (ra_write_version a, account_txn_field P a @ account_slot_fields P sl bank)"
  using assms(2) prost_codec.varint_decode [OF assms(1)]
  unfolding prost_codec.account_layout [OF assms(1)] account_info_layout account_decode_of_def Let_def
    account_version_field_def prost_codec.uint64_field [OF assms(1)]
  by simp

subsection \<open>Properties\<close>

text \<open>\<^bold>\<open>C8.\<close> Safety of the reader on arbitrary input: whatever bytes a source sends, each
  of the six decoders ends with a message or a decode error, and every range and offset of
  a decoded message lies inside the input it was decoded from, so the slices taken
  from it later cannot be out of bounds.\<close>

theorem decoders_safe:
  assumes "prost_codec P"
  shows "(\<exists>r. decode_update P buf = Some r \<and> (\<forall>m. r = Inr m \<longrightarrow> update_ranges_ok (length buf) m)) \<and>
    (\<exists>r. decode_account P buf = Some r \<and> (\<forall>m. r = Inr m \<longrightarrow> account_ranges_ok (length buf) m)) \<and>
    (\<exists>r. decode_slot P buf = Some r \<and> (\<forall>m. r = Inr m \<longrightarrow> slot_ranges_ok (length buf) m)) \<and>
    (\<exists>r. decode_transaction P buf = Some r \<and> (\<forall>m. r = Inr m \<longrightarrow> transaction_ranges_ok (length buf) m)) \<and>
    (\<exists>r. decode_transaction_info P buf = Some r \<and>
      (\<forall>m. r = Inr m \<longrightarrow> transaction_info_ranges_ok (length buf) m)) \<and>
    (\<exists>r. decode_entry P buf = Some r)"
  using prost_codec.decode_update_safe [OF assms] prost_codec.decode_account_safe [OF assms]
    prost_codec.decode_slot_safe [OF assms] prost_codec.decode_transaction_safe [OF assms]
    prost_codec.decode_transaction_info_safe [OF assms] prost_codec.decode_entry_safe [OF assms]
  by blast

theorem decoders_safe_witness: "\<exists>r. decode_account prost_ref [10, 3, 255, 1] = Some r \<and>
  (\<forall>m. r = Inr m \<longrightarrow> account_ranges_ok (length ([10, 3, 255, 1] :: bytes)) m)"
  using decoders_safe [OF reference.prost_codec_axioms, of "[10, 3, 255, 1]"] by blast

text \<open>\<^bold>\<open>C9.\<close> The outer update: for every message the plugin encodes, the server's reader
  returns the time stamp, and either the byte range of exactly the nested message
  together with its kind (accounts, slots, transactions, block meta, entries), or
  the mark of a Richat-only update (tags 100 to 105).\<close>

theorem update_round_trip:
  assumes "prost_codec P" and "plugin_env_ok E" and "message_input_ok m"
    and "message_encode_raw P E B m ts = Some d" and "length d < 2 ^ 64"
  shows "\<exists>tag x u. raw_message P E B m = Some (tag, x) \<and> decode_update P d = Some (Inr u) \<and>
    ud_created_at u = Some ts \<and>
    (if tag < 11 then \<exists>v. ud_update_oneof u = Some v \<and> oneof_tag v = tag \<and>
        slice (fst (oneof_range v)) (snd (oneof_range v)) d = Some (mo_raw x)
     else ud_update_oneof u = None \<and> ud_richat_update u)"
proof -
  from assms(4) obtain tag x where x: "raw_message P E B m = Some (tag, x)"
    and d: "d = encode_raw_bytes P tag x ts" by (auto simp: message_encode_raw_def)
  have "message_ok x" by (rule prost_codec.raw_message_ok [OF assms(1-3) x])
  from prost_codec.update_decode_encoded [OF assms(1) this raw_message_tag [OF x]] assms(5) x
  show ?thesis unfolding d by blast
qed

theorem update_round_trip_witness:
  "\<exists>d tag x u. raw_message prost_ref empty_env [] (PM_Slot 5 (Some 4) SS_Confirmed None) = Some (tag, x) \<and>
    decode_update prost_ref d = Some (Inr u) \<and> ud_created_at u = Some \<lparr>ts_seconds = 7, ts_nanos = 9\<rparr>"
proof -
  let ?m = "PM_Slot 5 (Some 4) SS_Confirmed None :: unit protobuf_message"
  let ?ts = "\<lparr>ts_seconds = 7, ts_nanos = 9\<rparr>"
  let ?d = "encode_raw_bytes prost_ref 3 (slot_msg prost_ref 5 (Some 4) SS_Confirmed None) ?ts"
  have "length ?d = 14" by code_simp
  then have "length ?d < 2 ^ 64" by simp
  from update_round_trip [OF reference.prost_codec_axioms plugin_env_ok_empty_env _ _ this, of ?m "[]" ?ts]
  show ?thesis by (auto simp: message_encode_raw_def)
qed

text \<open>Slot updates survive the wire: decoding an encoded slot returns its slot,
  parent, status and bank, and the recorded range of the error of a dead slot contains
  exactly that error.\<close>

theorem slot_round_trip:
  assumes "prost_codec P" and "d = slot_encode_raw P sl parent st bank" and "length d < 2 ^ 64"
  shows "\<exists>m. decode_slot P d = Some (Inr m) \<and> sd_slot m = sl \<and> sd_parent m = parent \<and>
    sd_status m = slot_status_as_i32 st \<and> sd_bank_id m = bank \<and>
    map_option (\<lambda>(a, b). slice a b d) (sd_dead_error m) = map_option Some (slot_status_as_dead_error st)"
proof (rule prost_codec.slot_decode_encoded [OF assms(1), of sl parent st bank])
  show "length (slot_encode_raw P sl parent st bank) < 2 ^ 64" using assms(2,3) by simp
qed (use assms(2) in blast)

theorem slot_round_trip_witness:
  "\<exists>m. decode_slot prost_ref (slot_encode_raw prost_ref 5 (Some 4) (SS_Dead [100, 101]) None) = Some (Inr m) \<and>
    sd_status m = 6 \<and> sd_parent m = Some 4"
proof -
  have "length (slot_encode_raw prost_ref 5 (Some 4) (SS_Dead [100, 101]) None) = 10" by code_simp
  then have "length (slot_encode_raw prost_ref 5 (Some 4) (SS_Dead [100, 101]) None) < 2 ^ 64" by simp
  from slot_round_trip [OF reference.prost_codec_axioms refl this] show ?thesis by auto
qed

text \<open>\<^bold>\<open>C10.\<close> Account updates survive the wire: the key, owner, balance, flags, slot and
  bank are returned, the data range contains the data, the signature offset points to the
  signature, and a write version other than 0 is found at its recorded offset.\<close>

theorem account_round_trip:
  assumes "prost_codec P" and "account_sized a" and "d = account_encode_raw P sl bank a" and "length d < 2 ^ 64"
  shows "\<exists>m. decode_account P d = Some (Inr m) \<and> ad_pubkey m = ra_pubkey a \<and> ad_owner m = ra_owner a \<and>
    ad_lamports m = ra_lamports a \<and> ad_executable m = ra_executable a \<and> ad_rent_epoch m = ra_rent_epoch a \<and>
    ad_slot m = sl \<and> ad_bank_id m = bank \<and> \<not> ad_is_startup m \<and>
    slice (fst (ad_data m)) (snd (ad_data m)) d = Some (ra_data a) \<and>
    map_option (\<lambda>i. slice i (i + SIGNATURE_BYTES) d) (ad_txn_signature_offset m) = map_option Some (ra_txn a) \<and>
    (ra_write_version a \<noteq> 0 \<longrightarrow>
      (\<exists>rest. decode_varint P (drop (ad_write_version m) d) = Inr (ra_write_version a, rest)))"
proof -
  have dec: "decode_account P d = Some (Inr (account_decode_of P sl bank a))"
    using prost_codec.account_decode_encoded [OF assms(1,2)] assms(3,4) by simp
  have sg: "map_option (\<lambda>i. slice i (i + SIGNATURE_BYTES) d)
      (ad_txn_signature_offset (account_decode_of P sl bank a)) = map_option Some (ra_txn a)"
  proof (cases "ra_txn a")
    case None
    then show ?thesis by (simp add: account_decode_of_def Let_def)
  next
    case (Some s)
    with assms(2) have "length s = SIGNATURE_BYTES" by (simp add: account_sized_def)
    with account_signature_slice [OF assms(1) Some, of sl bank] Some assms(3) show ?thesis by auto
  qed
  show ?thesis
    by (intro exI [of _ "account_decode_of P sl bank a"] conjI dec sg)
      (use account_data_slice [OF assms(1), of sl bank a] account_version_at [OF assms(1), of a sl bank] assms(3)
        in \<open>auto simp: account_decode_of_def Let_def\<close>)
qed

definition example_account :: replica_account where
  "example_account = \<lparr>ra_pubkey = replicate 32 1, ra_lamports = 300, ra_owner = replicate 32 2,
     ra_executable = True, ra_rent_epoch = 0, ra_data = [4, 5, 6], ra_write_version = 9, ra_txn = None\<rparr>"

theorem account_round_trip_witness:
  "\<exists>m. decode_account prost_ref (account_encode_raw prost_ref 8 (Some 3) example_account) = Some (Inr m) \<and>
    ad_lamports m = 300 \<and> ad_bank_id m = Some 3 \<and>
    slice (fst (ad_data m)) (snd (ad_data m)) (account_encode_raw prost_ref 8 (Some 3) example_account) =
      Some [4, 5, 6]"
proof -
  have sz: "account_sized example_account"
    by (simp add: account_sized_def example_account_def PUBKEY_BYTES_def)
  have "length (account_encode_raw prost_ref 8 (Some 3) example_account) = 86" by code_simp
  then have "length (account_encode_raw prost_ref 8 (Some 3) example_account) < 2 ^ 64" by simp
  from account_round_trip [OF reference.prost_codec_axioms sz refl this]
  show ?thesis by (auto simp: example_account_def)
qed

text \<open>\<^bold>\<open>C11.\<close> Transactions survive the wire: the update's range contains the encoded
  transaction info, and reading that info skips every field it does not need in any of
  the three message versions and returns the signature, the vote flag, the index, the
  range of the encoded error, and as account keys exactly the keys of the message together
  with the loaded writable and readonly addresses, which is what the filters match on.\<close>

theorem transaction_round_trip:
  assumes "prost_codec P" and "replica_transaction_sized t" and "length (rt_signature t) = SIGNATURE_BYTES"
    and "d = transaction_encode_raw P E B sl bank t" and "length d < 2 ^ 64"
  shows "\<exists>m info. decode_transaction P d = Some (Inr m) \<and> td_slot m = sl \<and> td_bank_id m = bank \<and>
    map_option (\<lambda>(a, b). slice a b d) (td_transaction m) = Some (Some (replica_transaction_encode_raw P E B t)) \<and>
    decode_transaction_info P (replica_transaction_encode_raw P E B t) = Some (Inr info) \<and>
    map_option (\<lambda>i. slice i (i + SIGNATURE_BYTES) (replica_transaction_encode_raw P E B t))
      (ti_signature_offset info) = Some (Some (rt_signature t)) \<and>
    ti_is_vote info = rt_is_vote t \<and> ti_index info = rt_index t \<and> ti_account_keys info = transaction_keys t \<and>
    map_option (\<lambda>(a, b). slice a b (replica_transaction_encode_raw P E B t)) (ti_err info) =
      (case tm_status (rt_meta t) of Inr _ \<Rightarrow> None
       | Inl err \<Rightarrow> Some (Some (mo_raw (transaction_error_msg P E B err))))"
proof -
  have "message_ok (replica_transaction_msg P E B t)"
    by (rule prost_codec.replica_transaction_ok [OF assms(1,2)])
  then have len: "length (replica_transaction_encode_raw P E B t) < 2 ^ 64"
    using assms(4,5) prost_codec.message_field [OF assms(1)]
    by (simp add: transaction_encode_raw_def replica_transaction_msg_def)
  obtain info where info: "decode_transaction_info P (replica_transaction_encode_raw P E B t) = Some (Inr info)"
    "map_option (\<lambda>i. slice i (i + SIGNATURE_BYTES) (replica_transaction_encode_raw P E B t))
      (ti_signature_offset info) = Some (Some (rt_signature t))"
    "ti_is_vote info = rt_is_vote t" "ti_index info = rt_index t" "ti_account_keys info = transaction_keys t"
    "map_option (\<lambda>(a, b). slice a b (replica_transaction_encode_raw P E B t)) (ti_err info) =
      (case tm_status (rt_meta t) of Inr _ \<Rightarrow> None
       | Inl err \<Rightarrow> Some (Some (mo_raw (transaction_error_msg P E B err))))"
    by (rule prost_codec.transaction_info_decode_encoded [OF assms(1-3) len])
  obtain m where "decode_transaction P d = Some (Inr m)" "td_slot m = sl" "td_bank_id m = bank"
    "map_option (\<lambda>(a, b). slice a b d) (td_transaction m) = Some (Some (replica_transaction_encode_raw P E B t))"
    unfolding assms(4) by (rule prost_codec.transaction_decode_encoded [OF assms(1,2) assms(5) [unfolded assms(4)]])
  with info show ?thesis by blast
qed

definition example_transaction :: "unit replica_transaction" where
  "example_transaction = \<lparr>rt_signature = replicate 64 7, rt_is_vote = False,
     rt_transaction = \<lparr>vt_signatures = [replicate 64 7], vt_message = VM_V1
       \<lparr>m1_header = \<lparr>mh_num_required_signatures = 1, mh_num_readonly_signed_accounts = 0,
          mh_num_readonly_unsigned_accounts = 1\<rparr>,
        m1_account_keys = [replicate 32 1, replicate 32 2], m1_lifetime_specifier = replicate 32 9,
        m1_instructions = [\<lparr>cx_program_id_index = 1, cx_accounts = [0], cx_data = [5, 6]\<rparr>],
        m1_config = \<lparr>tc_priority_fee = Some 5, tc_compute_unit_limit = None,
          tc_loaded_accounts_data_size_limit = None, tc_heap_size = None\<rparr>\<rparr>\<rparr>,
     rt_meta = \<lparr>tm_status = Inl (), tm_fee = 5000, tm_pre_balances = [10, 20], tm_post_balances = [5, 25],
       tm_inner_instructions = None, tm_log_messages = Some [[104, 105]], tm_pre_token_balances = None,
       tm_post_token_balances = None, tm_rewards = None, tm_loaded_writable = [replicate 32 3],
       tm_loaded_readonly = [], tm_return_data = None, tm_compute_units_consumed = Some 150,
       tm_cost_units = None\<rparr>,
     rt_index = 2\<rparr>"

theorem transaction_round_trip_witness:
  "\<exists>info. decode_transaction_info prost_ref (replica_transaction_encode_raw prost_ref empty_env [] example_transaction) =
      Some (Inr info) \<and> ti_index info = 2 \<and>
    ti_account_keys info = {replicate 32 1, replicate 32 2, replicate 32 3}"
proof -
  have sz: "replica_transaction_sized example_transaction"
    by (simp add: replica_transaction_sized_def transaction_sized_def signatures_sized_def keys_sized_def
        example_transaction_def SIGNATURE_BYTES_def PUBKEY_BYTES_def)
  have sg: "length (rt_signature example_transaction) = SIGNATURE_BYTES"
    by (simp add: example_transaction_def SIGNATURE_BYTES_def)
  have "length (transaction_encode_raw prost_ref empty_env [] 8 3 example_transaction) < 1000" by code_simp
  then have "length (transaction_encode_raw prost_ref empty_env [] 8 3 example_transaction) < 2 ^ 64" by simp
  from transaction_round_trip [OF reference.prost_codec_axioms sz sg refl this] show ?thesis
    by (elim exE conjE) (auto simp: transaction_keys_def example_transaction_def)
qed

text \<open>Entry updates survive the wire: the fields the server needs are returned
  as they were encoded, the others are skipped.\<close>

theorem entry_round_trip:
  assumes "prost_codec P" and "length (entry_encode_raw P e bank) < 2 ^ 64"
  shows "decode_entry P (entry_encode_raw P e bank) = Some (Inr \<lparr>ed_slot = re_slot e, ed_index = re_index e,
    ed_executed_transaction_count = re_executed_transaction_count e, ed_bank_id = bank\<rparr>)"
  using assms by (rule prost_codec.entry_decode_encoded)

definition example_entry :: replica_entry where
  "example_entry = \<lparr>re_slot = 8, re_index = 1, re_num_hashes = 400, re_hash = replicate 32 5,
     re_executed_transaction_count = 3, re_starting_transaction_index = 6\<rparr>"

theorem entry_round_trip_witness:
  "decode_entry prost_ref (entry_encode_raw prost_ref example_entry 3) =
     Some (Inr \<lparr>ed_slot = 8, ed_index = 1, ed_executed_transaction_count = 3, ed_bank_id = 3\<rparr>)"
proof -
  have "length (entry_encode_raw prost_ref example_entry 3) < 1000" by code_simp
  then have "length (entry_encode_raw prost_ref example_entry 3) < 2 ^ 64" by simp
  from entry_round_trip [OF reference.prost_codec_axioms this] show ?thesis by (simp add: example_entry_def)
qed

end
