(* ===== verification/Filter_Message.thy ===== *)
theory Filter_Message
  imports Filter_Decode
begin

text \<open>
  Messages of the server (\<open>filter/src/message.rs\<close>), in the \<open>Limited\<close> form that keeps the
  received buffer and the ranges found by the reader: the parser
  \<open>MessageParserLimited::parse\<close>, the accessors, and the in-place rewrite of the write
  version of an account. The outer \<open>option\<close> is a panic (a slice out of range) or, in
  \<open>update_write_version\<close>, an access outside the buffer. The decoders that \<open>prost\<close> generates
  for whole messages are the fields of \<open>gen_codec\<close>.
\<close>

datatype message_parse_error =
  PE_Decode decode_error | PE_FieldNotDefined string | PE_InvalidEnumValue i32
| PE_InvalidUpdateMessage string | PE_InvalidBlockFooter string

datatype geyser_status =
  SlotProcessed | SlotConfirmed | SlotFinalized | SlotFirstShredReceived | SlotCompleted
| SlotCreatedBank | SlotDead

text \<open>\<open>SlotStatus::try_from\<close> on the numbers of the Protobuf enumeration.\<close>

definition slot_status_try_from :: "i32 \<Rightarrow> geyser_status option" where
  "slot_status_try_from n = (if n = 0 then Some SlotProcessed else if n = 1 then Some SlotConfirmed
     else if n = 2 then Some SlotFinalized else if n = 3 then Some SlotFirstShredReceived
     else if n = 4 then Some SlotCompleted else if n = 5 then Some SlotCreatedBank
     else if n = 6 then Some SlotDead else None)"

record message_slot =
  ms_slot :: slot
  ms_parent :: "slot option"
  ms_status :: geyser_status
  ms_dead_error :: "range option"
  ms_bank_id :: "bank_id option"
  ms_created_at :: timestamp
  ms_buffer :: bytes
  ms_range :: range

record message_account =
  ma_pubkey :: bytes
  ma_owner :: bytes
  ma_lamports :: u64
  ma_executable :: bool
  ma_rent_epoch :: u64
  ma_data :: range
  ma_txn_signature_offset :: "nat option"
  ma_write_version :: nat
  ma_slot :: slot
  ma_is_startup :: bool
  ma_bank_id :: "bank_id option"
  ma_created_at :: timestamp
  ma_buffer :: bytes
  ma_account_offset :: nat
  ma_range :: range

record 'x message_transaction =
  mt_signature_offset :: "nat option"
  mt_error :: "'x option"
  mt_account_keys :: "bytes set"
  mt_is_vote :: bool
  mt_index :: u64
  mt_transaction_range :: range
  mt_slot :: slot
  mt_bank_id :: bank_id
  mt_created_at :: timestamp
  mt_buffer :: bytes
  mt_range :: range

record message_entry =
  me_slot :: slot
  me_index :: u64
  me_executed_transaction_count :: u64
  me_bank_id :: bank_id
  me_created_at :: timestamp
  me_buffer :: bytes
  me_range :: range

text \<open>The fields of the generated messages that the program reads.\<close>

record block_meta =
  bm_slot :: slot
  bm_block_height :: "u64 option"
  bm_executed_transaction_count :: u64
  bm_entries_count :: u64
  bm_bank_id :: bank_id

record block_footer_msg_view =
  fm_slot :: slot
  fm_bank_id :: bank_id

record entry_update_parent_view =
  um_slot :: slot
  um_cleared_bank_id :: bank_id

record message_block_meta =
  mb_block_meta :: block_meta
  mb_block_height :: u64
  mb_created_at :: timestamp
  mb_buffer :: bytes
  mb_range :: range

datatype 'x message =
  M_Slot message_slot
| M_Account message_account
| M_Transaction "'x message_transaction"
| M_Entry message_entry
| M_BlockMeta message_block_meta
| M_BlockFooter block_footer_msg_view timestamp nat
| M_EntryUpdateParent entry_update_parent_view timestamp nat

datatype richat_oneof =
  RO_BlockFooter slot bank_id bytes
| RO_EntryUpdateParent entry_update_parent_view
| RO_Other

record 'x gen_codec =
  decode_tx_error :: "bytes \<Rightarrow> decode_error + 'x"
  decode_block_meta :: "bytes \<Rightarrow> decode_error + block_meta"
  decode_block_footer :: "bytes \<Rightarrow> decode_error + block_footer_msg_view"
  decode_entry_update_parent :: "bytes \<Rightarrow> decode_error + entry_update_parent_view"
  decode_richat :: "bytes \<Rightarrow> decode_error + (timestamp option \<times> richat_oneof option)"
  footer_from_wincode :: "slot \<Rightarrow> bank_id \<Rightarrow> bytes \<Rightarrow> string + block_footer_msg_view"

subsection \<open>The parser\<close>

definition parse_richat :: "'x gen_codec \<Rightarrow> timestamp option \<times> richat_oneof option \<Rightarrow> nat \<Rightarrow>
    message_parse_error + 'x message" where
  "parse_richat G update size' =
     and_then (ok_or (PE_FieldNotDefined ''created_at'') (fst update)) (\<lambda>created_at.
       case snd update of
         Some (RO_BlockFooter sl bank footer) \<Rightarrow>
           map_ok (\<lambda>f. M_BlockFooter f created_at size')
             (map_err PE_InvalidBlockFooter (footer_from_wincode G sl bank footer))
       | Some (RO_EntryUpdateParent u) \<Rightarrow> Inr (M_EntryUpdateParent u created_at size')
       | Some RO_Other \<Rightarrow> Inl (PE_InvalidUpdateMessage ''Richat'')
       | None \<Rightarrow> Inl (PE_FieldNotDefined ''update_oneof''))"

text \<open>\<open>T::decode(&data[range.start..range.end])?\<close> followed by the rest of the arm.\<close>

definition with_decoded ::
    "bytes \<Rightarrow> range \<Rightarrow> (bytes \<Rightarrow> 'a dec) \<Rightarrow> ('a \<Rightarrow> (message_parse_error + 'b) option) \<Rightarrow>
     (message_parse_error + 'b) option" where
  "with_decoded data r decode k =
     Option.bind (slice (fst r) (snd r) data) (\<lambda>inner. Option.bind (decode inner) (\<lambda>res.
       case res of Inl e \<Rightarrow> Some (Inl (PE_Decode e)) | Inr m \<Rightarrow> k m))"

definition parse_slot :: "prost \<Rightarrow> bytes \<Rightarrow> timestamp \<Rightarrow> range \<Rightarrow> (message_parse_error + message_slot) option" where
  "parse_slot P data created_at r = with_decoded data r (decode_slot P) (\<lambda>m.
     case slot_status_try_from (sd_status m) of
       None \<Rightarrow> Some (Inl (PE_InvalidEnumValue (sd_status m)))
     | Some st \<Rightarrow> Some (Inr \<lparr>ms_slot = sd_slot m, ms_parent = sd_parent m, ms_status = st,
         ms_dead_error = sd_dead_error m, ms_bank_id = sd_bank_id m, ms_created_at = created_at,
         ms_buffer = data, ms_range = r\<rparr>))"

definition account_of_decoded :: "bytes \<Rightarrow> timestamp \<Rightarrow> range \<Rightarrow> account_decode \<Rightarrow> message_account" where
  "account_of_decoded data created_at r m =
     \<lparr>ma_pubkey = ad_pubkey m, ma_owner = ad_owner m, ma_lamports = ad_lamports m,
      ma_executable = ad_executable m, ma_rent_epoch = ad_rent_epoch m,
      ma_data = (fst (ad_data m) + fst r, snd (ad_data m) + fst r),
      ma_txn_signature_offset = map_option (\<lambda>offset. offset + fst r) (ad_txn_signature_offset m),
      ma_write_version = ad_write_version m + fst r, ma_slot = ad_slot m,
      ma_is_startup = ad_is_startup m, ma_bank_id = ad_bank_id m, ma_created_at = created_at,
      ma_buffer = data, ma_account_offset = ad_account m + fst r, ma_range = r\<rparr>"

definition parse_account :: "prost \<Rightarrow> bytes \<Rightarrow> timestamp \<Rightarrow> range \<Rightarrow> (message_parse_error + message_account) option" where
  "parse_account P data created_at r = with_decoded data r (decode_account P) (\<lambda>m.
     if ad_account m = usize_MAX then Some (Inl (PE_FieldNotDefined ''account''))
     else Some (Inr (account_of_decoded data created_at r m)))"

text \<open>\<open>TransactionError::decode\<close> on the bytes of the error, when there is one.\<close>

definition parse_transaction_error ::
    "'x gen_codec \<Rightarrow> bytes \<Rightarrow> range \<Rightarrow> range option \<Rightarrow> (message_parse_error + 'x option) option" where
  "parse_transaction_error G data tr err = (case err of
       None \<Rightarrow> Some (Inr None)
     | Some er \<Rightarrow> map_option (\<lambda>d. map_ok Some (map_err PE_Decode (decode_tx_error G d)))
         (slice (fst tr + fst er) (fst tr + snd er) data))"

definition parse_transaction ::
    "prost \<Rightarrow> 'x gen_codec \<Rightarrow> bytes \<Rightarrow> timestamp \<Rightarrow> range \<Rightarrow> (message_parse_error + 'x message_transaction) option" where
  "parse_transaction P G data created_at r = with_decoded data r (decode_transaction P) (\<lambda>m.
     case td_transaction m of
       None \<Rightarrow> Some (Inl (PE_FieldNotDefined ''transaction''))
     | Some tr0 \<Rightarrow>
         (let tr = (fst tr0 + fst r, snd tr0 + fst r) in
          with_decoded data tr (decode_transaction_info P) (\<lambda>info.
            map_option (map_ok (\<lambda>err. \<lparr>mt_signature_offset =
                  map_option (\<lambda>offset. fst tr + offset) (ti_signature_offset info),
                mt_error = err, mt_account_keys = ti_account_keys info, mt_is_vote = ti_is_vote info,
                mt_index = ti_index info, mt_transaction_range = tr, mt_slot = td_slot m,
                mt_bank_id = td_bank_id m, mt_created_at = created_at, mt_buffer = data,
                mt_range = r\<rparr>)) (parse_transaction_error G data tr (ti_err info)))))"

definition parse_entry :: "prost \<Rightarrow> bytes \<Rightarrow> timestamp \<Rightarrow> range \<Rightarrow> (message_parse_error + message_entry) option" where
  "parse_entry P data created_at r = with_decoded data r (decode_entry P) (\<lambda>m.
     Some (Inr \<lparr>me_slot = ed_slot m, me_index = ed_index m,
       me_executed_transaction_count = ed_executed_transaction_count m, me_bank_id = ed_bank_id m,
       me_created_at = created_at, me_buffer = data, me_range = r\<rparr>))"

definition parse_block_meta ::
    "'x gen_codec \<Rightarrow> bytes \<Rightarrow> timestamp \<Rightarrow> range \<Rightarrow> (message_parse_error + message_block_meta) option" where
  "parse_block_meta G data created_at r = with_decoded data r (\<lambda>b. Some (decode_block_meta G b)) (\<lambda>bm.
     Some (map_ok (\<lambda>height. \<lparr>mb_block_meta = bm, mb_block_height = height, mb_created_at = created_at,
         mb_buffer = data, mb_range = r\<rparr>)
       (ok_or (PE_FieldNotDefined ''block_height'') (bm_block_height bm))))"

definition parse_oneof ::
    "prost \<Rightarrow> 'x gen_codec \<Rightarrow> bytes \<Rightarrow> timestamp \<Rightarrow> update_oneof \<Rightarrow> (message_parse_error + 'x message) option" where
  "parse_oneof P G data created_at v = (case v of
       UO_Slot r \<Rightarrow> map_option (map_ok M_Slot) (parse_slot P data created_at r)
     | UO_Account r \<Rightarrow> map_option (map_ok M_Account) (parse_account P data created_at r)
     | UO_Transaction r \<Rightarrow> map_option (map_ok M_Transaction) (parse_transaction P G data created_at r)
     | UO_TransactionStatus _ \<Rightarrow> Some (Inl (PE_InvalidUpdateMessage ''TransactionStatus''))
     | UO_Entry r \<Rightarrow> map_option (map_ok M_Entry) (parse_entry P data created_at r)
     | UO_BlockMeta r \<Rightarrow> map_option (map_ok M_BlockMeta) (parse_block_meta G data created_at r)
     | UO_Block _ \<Rightarrow> Some (Inl (PE_InvalidUpdateMessage ''Block''))
     | UO_Ping _ \<Rightarrow> Some (Inl (PE_InvalidUpdateMessage ''Ping''))
     | UO_Pong _ \<Rightarrow> Some (Inl (PE_InvalidUpdateMessage ''Pong''))
     | UO_BlockFooter r \<Rightarrow> with_decoded data r (\<lambda>b. Some (decode_block_footer G b))
         (\<lambda>f. Some (Inr (M_BlockFooter f created_at (length data))))
     | UO_EntryUpdateParent r \<Rightarrow> with_decoded data r (\<lambda>b. Some (decode_entry_update_parent G b))
         (\<lambda>u. Some (Inr (M_EntryUpdateParent u created_at (length data)))))"

definition limited_parse :: "prost \<Rightarrow> 'x gen_codec \<Rightarrow> bytes \<Rightarrow> (message_parse_error + 'x message) option" where
  "limited_parse P G data = Option.bind (decode_update P data) (\<lambda>res. case res of
     Inl e \<Rightarrow> Some (Inl (PE_Decode e))
   | Inr update \<Rightarrow> (case ud_created_at update of
       None \<Rightarrow> Some (Inl (PE_FieldNotDefined ''created_at''))
     | Some created_at \<Rightarrow> (case ud_update_oneof update of
         None \<Rightarrow> if ud_richat_update update
           then Some (and_then (map_err PE_Decode (decode_richat G data))
             (\<lambda>u. parse_richat G u (length data)))
           else Some (Inl (PE_FieldNotDefined ''update_oneof''))
       | Some v \<Rightarrow> parse_oneof P G data created_at v)))"

subsection \<open>Accessors\<close>

text \<open>\<open>MessageSlot::dead_error\<close>; the inner \<open>None\<close> is the slice panic.\<close>

definition message_slot_dead_error :: "message_slot \<Rightarrow> bytes option option" where
  "message_slot_dead_error m =
     map_option (\<lambda>r. slice (fst r) (snd r) (ms_buffer m)) (ms_dead_error m)"

definition message_account_data :: "message_account \<Rightarrow> bytes option" where
  "message_account_data m = slice (fst (ma_data m)) (snd (ma_data m)) (ma_buffer m)"

definition message_account_txn_signature :: "message_account \<Rightarrow> bytes option option" where
  "message_account_txn_signature m =
     map_option (\<lambda>offset. slice offset (offset + 64) (ma_buffer m)) (ma_txn_signature_offset m)"

text \<open>\<open>MessageAccount::write_version\<close>; \<open>None\<close> is the slice panic or the \<open>expect\<close>.\<close>

definition message_account_write_version :: "prost \<Rightarrow> message_account \<Rightarrow> u64 option" where
  "message_account_write_version P m =
     (if ma_write_version m \<le> length (ma_buffer m)
      then (case decode_varint P (drop (ma_write_version m) (ma_buffer m)) of
        Inr (v, _) \<Rightarrow> Some v | Inl _ \<Rightarrow> None)
      else None)"

fun message_slot_of :: "'x message \<Rightarrow> slot" where
  "message_slot_of (M_Slot m) = ms_slot m"
| "message_slot_of (M_Account m) = ma_slot m"
| "message_slot_of (M_Transaction m) = mt_slot m"
| "message_slot_of (M_Entry m) = me_slot m"
| "message_slot_of (M_BlockMeta m) = bm_slot (mb_block_meta m)"
| "message_slot_of (M_BlockFooter f _ _) = fm_slot f"
| "message_slot_of (M_EntryUpdateParent u _ _) = um_slot u"

subsection \<open>\<open>MessageAccount::update_write_version\<close>\<close>

text \<open>\<open>std::ptr::copy\<close> inside one buffer, which may overlap; \<open>None\<close> is an access outside it.\<close>

definition ptr_copy :: "nat \<Rightarrow> nat \<Rightarrow> nat \<Rightarrow> bytes \<Rightarrow> bytes option" where
  "ptr_copy src dst n buf =
     (if src + n \<le> length buf \<and> dst + n \<le> length buf
      then Some (take dst buf @ take n (drop src buf) @ drop (dst + n) buf) else None)"

text \<open>\<open>encode_varint(v, &mut &mut buffer[offset..])\<close>\<close>

definition write_at :: "nat \<Rightarrow> bytes \<Rightarrow> bytes \<Rightarrow> bytes option" where
  "write_at offset d buf =
     (if offset + length d \<le> length buf then Some (take offset buf @ d @ drop (offset + length d) buf)
      else None)"

definition resize_zero :: "nat \<Rightarrow> bytes \<Rightarrow> bytes" where
  "resize_zero n buf = (if n > length buf then buf @ replicate (n - length buf) 0 else buf)"

definition varint_at :: "prost \<Rightarrow> nat \<Rightarrow> bytes \<Rightarrow> (u64 \<times> nat) option" where
  "varint_at P offset buf =
     (if offset \<le> length buf then (case decode_varint P (drop offset buf) of
        Inr (v, rest) \<Rightarrow> Some (v, length (drop offset buf) - length rest) | Inl _ \<Rightarrow> None)
      else None)"

text \<open>The offset \<open>x + new - cur\<close> in \<open>usize\<close> arithmetic, which wraps. A wrapped length makes
  the copy that uses it run outside the buffer.\<close>

definition usize_shift :: "nat \<Rightarrow> nat \<Rightarrow> nat \<Rightarrow> nat" where
  "usize_shift x new cur = (x + new + 2 ^ 64 - cur) mod 2 ^ 64"

definition update_write_version :: "prost \<Rightarrow> u64 \<Rightarrow> message_account \<Rightarrow> message_account option" where
  "update_write_version P write_version m =
     Option.bind (varint_at P (ma_write_version m) (ma_buffer m)) (\<lambda>(_, wv_size_current).
     Option.bind (varint_at P (ma_account_offset m) (ma_buffer m)) (\<lambda>(msg_size0, msg_size_current).
       let wv_size_new = encoded_len_varint P write_version;
           msg_size = msg_size0 + of_nat wv_size_new - of_nat wv_size_current;
           msg_size_new = encoded_len_varint P msg_size;
           new_end = usize_shift (usize_shift (snd (ma_range m)) msg_size_new msg_size_current)
             wv_size_new wv_size_current;
           buffer1 = resize_zero new_end (ma_buffer m);
           end1 = ma_account_offset m + msg_size_current;
           write_version_new = usize_shift (ma_write_version m) msg_size_new msg_size_current;
           end2 = ma_write_version m + wv_size_current in
       Option.bind (ptr_copy end1 (ma_account_offset m + msg_size_new)
         (usize_shift (ma_write_version m) 0 end1) buffer1) (\<lambda>buffer2.
       Option.bind (ptr_copy end2 (write_version_new + wv_size_new)
         (usize_shift (snd (ma_range m)) 0 end2) buffer2) (\<lambda>buffer3.
       Option.bind (write_at (ma_account_offset m) (encode_varint P msg_size) buffer3) (\<lambda>buffer4.
       Option.bind (write_at write_version_new (encode_varint P write_version) buffer4) (\<lambda>buffer5.
         let d1 = usize_shift (fst (ma_data m)) msg_size_new msg_size_current;
             d2 = usize_shift (snd (ma_data m)) msg_size_new msg_size_current in
         Some (m\<lparr>ma_buffer := buffer5, ma_range := (fst (ma_range m), new_end),
           ma_data := (if d1 > write_version_new
             then (usize_shift d1 wv_size_new wv_size_current, usize_shift d2 wv_size_new wv_size_current)
             else (d1, d2)),
           ma_txn_signature_offset := map_option (\<lambda>o0.
             let o1 = usize_shift o0 msg_size_new msg_size_current in
             if o1 > write_version_new then usize_shift o1 wv_size_new wv_size_current else o1)
             (ma_txn_signature_offset m),
           ma_write_version := write_version_new\<rparr>)))))))"

subsection \<open>What the parser promises\<close>

text \<open>The accessors of a parsed message stay inside its buffer.\<close>

fun accessors_safe :: "'x message \<Rightarrow> bool" where
  "accessors_safe (M_Account m) \<longleftrightarrow> message_account_data m \<noteq> None \<and>
     message_account_txn_signature m \<noteq> Some None \<and> ma_write_version m \<le> length (ma_buffer m)"
| "accessors_safe (M_Slot m) \<longleftrightarrow> message_slot_dead_error m \<noteq> Some None"
| "accessors_safe _ \<longleftrightarrow> True"

definition parse_ok :: "('m \<Rightarrow> bool) \<Rightarrow> ('e + 'm) option \<Rightarrow> bool" where
  "parse_ok I x \<longleftrightarrow> (\<exists>r. x = Some r \<and> (\<forall>m. r = Inr m \<longrightarrow> I m))"

definition rejecting_codec :: "unit gen_codec" where
  "rejecting_codec = \<lparr>decode_tx_error = (\<lambda>_. Inl (DecodeError ''x'' [])),
     decode_block_meta = (\<lambda>_. Inl (DecodeError ''x'' [])),
     decode_block_footer = (\<lambda>_. Inl (DecodeError ''x'' [])),
     decode_entry_update_parent = (\<lambda>_. Inl (DecodeError ''x'' [])),
     decode_richat = (\<lambda>_. Inl (DecodeError ''x'' [])),
     footer_from_wincode = (\<lambda>_ _ _. Inl ''x'')\<rparr>"

subsection \<open>Lemmas on the in-place rewrite\<close>

text \<open>What the copies and writes leave in place.\<close>

lemma usize_shift_plain: "cur \<le> x + new \<Longrightarrow> x + new - cur < 2 ^ 64 \<Longrightarrow> usize_shift x new cur = x + new - cur"
proof -
  assume "cur \<le> x + new" and b: "x + new - cur < 2 ^ 64"
  then have "x + new + 2 ^ 64 - cur = (x + new - cur) + 2 ^ 64" by simp
  then show ?thesis using b unfolding usize_shift_def by (simp only: mod_add_self2 mod_less)
qed

lemma take_take_prefix:
  assumes "j + k \<le> i" and "i \<le> length b"
  shows "take k (drop j (take i b @ r)) = take k (drop j b)"
  using assms unfolding take_drop by (simp add: min_absorb1 add.commute)

lemma drop_past:
  assumes "length p \<le> length b" and "length p \<le> j"
  shows "drop j (p @ drop (length p) b) = drop j b"
  using assms by simp

lemma ptr_copyE:
  assumes "src + n \<le> length b" and "dst + n \<le> length b"
  obtains b' where "ptr_copy src dst n b = Some b'" and "length b' = length b"
    and "take n (drop dst b') = take n (drop src b)"
    and "\<And>j k. j + k \<le> dst \<Longrightarrow> take k (drop j b') = take k (drop j b)"
    and "\<And>j. dst + n \<le> j \<Longrightarrow> drop j b' = drop j b"
proof
  let ?b = "take dst b @ take n (drop src b) @ drop (dst + n) b"
  show "ptr_copy src dst n b = Some ?b" using assms by (simp add: ptr_copy_def)
  show "length ?b = length b" "take n (drop dst ?b) = take n (drop src b)" using assms by simp_all
  show "take k (drop j ?b) = take k (drop j b)" if "j + k \<le> dst" for j k
    by (rule take_take_prefix) (use that assms in auto)
  show "drop j ?b = drop j b" if "dst + n \<le> j" for j
    using that assms drop_past [of "take dst b @ take n (drop src b)" b j] by simp
qed

lemma write_atE:
  assumes "i + length d \<le> length b"
  obtains b' where "write_at i d b = Some b'" and "length b' = length b"
    and "take (length d) (drop i b') = d"
    and "\<And>j k. j + k \<le> i \<Longrightarrow> take k (drop j b') = take k (drop j b)"
    and "\<And>j. i + length d \<le> j \<Longrightarrow> drop j b' = drop j b"
proof
  let ?b = "take i b @ d @ drop (i + length d) b"
  show "write_at i d b = Some ?b" using assms by (simp add: write_at_def)
  show "length ?b = length b" "take (length d) (drop i ?b) = d" using assms by simp_all
  show "take k (drop j ?b) = take k (drop j b)" if "j + k \<le> i" for j k
    by (rule take_take_prefix) (use that assms in auto)
  show "drop j ?b = drop j b" if "i + length d \<le> j" for j
    using that assms drop_past [of "take i b @ d" b j] by simp
qed

lemma rewrite_layout:
  fixes A V1 V1' H V2 V2' T Z :: bytes
  defines "w \<equiv> length A + length V1' + length H"
  assumes buf: "buf = A @ V1 @ H @ V2 @ T @ Z"
    and len: "length V1' \<le> length V1 + 1" "0 < length V2"
    and e: "e = w + length V2' + length T"
  obtains b2 b3 b4 b5
  where "ptr_copy (length A + length V1) (length A + length V1') (length H) (resize_zero e buf) = Some b2"
    and "ptr_copy (length A + length V1 + length H + length V2) (w + length V2') (length T) b2 = Some b3"
    and "write_at (length A) V1' b3 = Some b4" and "write_at w V2' b4 = Some b5"
    and "take e b5 = A @ V1' @ H @ V2' @ T" and "e \<le> length b5"
proof -
  define b1 where "b1 = resize_zero e buf"
  have l1: "e \<le> length b1" by (simp add: b1_def resize_zero_def)
  have "\<exists>Z'. b1 = buf @ Z'" by (simp add: b1_def resize_zero_def)
  then obtain Z' where b1: "b1 = A @ V1 @ H @ V2 @ T @ Z'" using buf by auto
  obtain b2 where b2: "ptr_copy (length A + length V1) (length A + length V1') (length H) b1 = Some b2"
      "length b2 = length b1" "take (length H) (drop (length A + length V1') b2) = H"
      "\<And>j k. j + k \<le> length A + length V1' \<Longrightarrow> take k (drop j b2) = take k (drop j b1)"
      "\<And>j. length A + length V1' + length H \<le> j \<Longrightarrow> drop j b2 = drop j b1"
    by (rule ptr_copyE [of "length A + length V1" "length H" b1 "length A + length V1'"])
      (use l1 e in \<open>auto simp: b1 w_def\<close>)
  have T2: "drop (length A + length V1 + length H + length V2) b2 = T @ Z'"
    using b2(5) [of "length A + length V1 + length H + length V2"] len by (simp add: b1)
  obtain b3 where b3: "ptr_copy (length A + length V1 + length H + length V2) (w + length V2') (length T) b2 = Some b3"
      "length b3 = length b1" "take (length T) (drop (w + length V2') b3) = T"
      "\<And>j k. j + k \<le> w + length V2' \<Longrightarrow> take k (drop j b3) = take k (drop j b2)"
    by (rule ptr_copyE [of "length A + length V1 + length H + length V2" "length T" b2 "w + length V2'"])
      (use l1 e b2(2) T2 in \<open>auto simp: b1 w_def\<close>)
  obtain b4 where b4: "write_at (length A) V1' b3 = Some b4" "length b4 = length b1"
      "take (length V1') (drop (length A) b4) = V1'"
      "\<And>j k. j + k \<le> length A \<Longrightarrow> take k (drop j b4) = take k (drop j b3)"
      "\<And>j. length A + length V1' \<le> j \<Longrightarrow> drop j b4 = drop j b3"
    by (rule write_atE [of "length A" V1' b3]) (use l1 e b3(2) in \<open>auto simp: w_def\<close>)
  obtain b5 where b5: "write_at w V2' b4 = Some b5" "length b5 = length b1"
      "take (length V2') (drop w b5) = V2'"
      "\<And>j k. j + k \<le> w \<Longrightarrow> take k (drop j b5) = take k (drop j b4)"
      "\<And>j. w + length V2' \<le> j \<Longrightarrow> drop j b5 = drop j b4"
    by (rule write_atE [of w V2' b4]) (use l1 e b4(2) in \<open>auto simp: w_def\<close>)
  have p1: "take (length A) b5 = A"
    using b5(4) [of 0 "length A"] b4(4) [of 0 "length A"] b3(4) [of 0 "length A"] b2(4) [of 0 "length A"]
    by (simp add: w_def b1)
  have p2: "take (length V1') (drop (length A) b5) = V1'"
    using b5(4) [of "length A" "length V1'"] b4(3) by (simp add: w_def)
  have p3: "take (length H) (drop (length A + length V1') b5) = H"
    using b5(4) [of "length A + length V1'" "length H"] b4(5) [of "length A + length V1'"]
      b3(4) [of "length A + length V1'" "length H"] b2(3) by (simp add: w_def)
  have p4: "take (length T) (drop (w + length V2') b5) = T"
    using b5(5) [of "w + length V2'"] b4(5) [of "w + length V2'"] b3(3) by (simp add: w_def)
  have "take e b5 = A @ V1' @ H @ V2' @ T"
    unfolding e w_def take_add using p1 p2 p3 b5(3) p4 by (simp add: w_def)
  with that b2(1) b3(1) b4(1) b5(1,2) l1 show ?thesis unfolding b1_def by simp
qed

lemma slice_shift:
  assumes "slice a b (take n (drop i buf)) = Some x" and "i \<le> length buf"
  shows "slice (a + i) (b + i) buf = Some x"
  using assms by (auto simp: slice_def drop_take add.commute split: if_splits)

context prost_varint
begin

text \<open>The offsets of a decoded account, in the parts of its encoding.\<close>

lemma account_offsets:
  fixes pre post sl bank a ts
  defines "m \<equiv> account_of_decoded (pre @ account_encode_raw P sl bank a @ post) ts
      (length pre, length pre + length (account_encode_raw P sl bank a)) (account_decode_of P sl bank a)"
    and "A \<equiv> pre @ encode_key P 1 LengthDelimited"
    and "V1 \<equiv> encode_varint P (of_nat (length (account_info_encode_raw P a)))"
    and "H \<equiv> account_head_fields P a @ encode_key P 7 Varint"
    and "V2 \<equiv> encode_varint P (ra_write_version a)"
    and "T \<equiv> account_txn_field P a @ account_slot_fields P sl bank"
  assumes "ra_write_version a \<noteq> 0"
  shows "ma_buffer m = A @ V1 @ H @ V2 @ T @ post" and "ma_account_offset m = length A"
    and "ma_write_version m = length A + length V1 + length H"
    and "ma_range m = (length pre, length A + length V1 + length H + length V2 + length T)"
    and "account_encode_raw P sl bank a = encode_key P 1 LengthDelimited @ V1 @ H @ V2 @ T"
    and "length (account_info_encode_raw P a) = length H + length V2 + length (account_txn_field P a)"
proof -
  have I: "account_info_encode_raw P a = H @ V2 @ account_txn_field P a"
    using assms(7) by (simp add: account_info_layout H_def V2_def account_version_field_def uint64_field)
  show E: "account_encode_raw P sl bank a = encode_key P 1 LengthDelimited @ V1 @ H @ V2 @ T"
    by (simp add: account_layout V1_def I T_def)
  show "length (account_info_encode_raw P a) = length H + length V2 + length (account_txn_field P a)"
    by (simp add: I)
  show "ma_buffer m = A @ V1 @ H @ V2 @ T @ post"
    by (simp add: m_def account_of_decoded_def A_def E)
  show "ma_account_offset m = length A"
    by (simp add: m_def account_of_decoded_def account_decode_of_def Let_def A_def
        key_length [of 1 LengthDelimited])
  show "ma_range m = (length pre, length A + length V1 + length H + length V2 + length T)"
    by (simp add: m_def account_of_decoded_def E A_def)
  show "ma_write_version m = length A + length V1 + length H"
    using assms(7) by (simp add: m_def account_of_decoded_def account_decode_of_def Let_def
        V2_def [symmetric] T_def [symmetric] E A_def)
qed

lemma varint_at_back: "varint_at P (length A) (A @ encode_varint P v @ r) = Some (v, length (encode_varint P v))"
  by (simp add: varint_at_def varint_decode)

text \<open>The rewrite moves the parts to where the encoding of the account with the new version
  has them; the offsets behind the length and behind the version move along.\<close>

lemma update_write_version_result:
  fixes pre post sl bank a ts v m a' V1 V1' w X Y
  assumes m_def: "m = account_of_decoded (pre @ account_encode_raw P sl bank a @ post) ts
      (length pre, length pre + length (account_encode_raw P sl bank a)) (account_decode_of P sl bank a)"
    and a'_def: "a' = a\<lparr>ra_write_version := v\<rparr>"
    and V1_def: "V1 = encode_varint P (of_nat (length (account_info_encode_raw P a)))"
    and V1'_def: "V1' = encode_varint P (of_nat (length (account_info_encode_raw P a')))"
    and w_def: "w = length pre + key_len P 1 + length V1' + length (account_head_fields P a) + key_len P 7"
    and X_def: "X = (\<lambda>x. usize_shift x (length V1') (length V1))"
    and Y_def: "Y = (\<lambda>x. if x > w then
        usize_shift x (length (encode_varint P v)) (length (encode_varint P (ra_write_version a))) else x)"
    and wv: "ra_write_version a \<noteq> 0" "v \<noteq> 0"
    and bound: "length pre + length (account_encode_raw P sl bank a) + 10 < 2 ^ 64"
  obtains b where "update_write_version P v m = Some (m\<lparr>ma_buffer := b,
      ma_range := (length pre, length pre + length (account_encode_raw P sl bank a')),
      ma_data := (if X (fst (ma_data m)) > w then (Y (X (fst (ma_data m))), usize_shift (X (snd (ma_data m)))
          (length (encode_varint P v)) (length (encode_varint P (ra_write_version a))))
        else (X (fst (ma_data m)), X (snd (ma_data m)))),
      ma_txn_signature_offset := map_option (\<lambda>o0. Y (X o0)) (ma_txn_signature_offset m),
      ma_write_version := w\<rparr>)"
    and "take (length pre + length (account_encode_raw P sl bank a')) b = pre @ account_encode_raw P sl bank a'"
    and "length V1' \<le> length V1 + 1" and "length V1 \<le> length V1' + 1"
    and "w + length (encode_varint P v) \<le> length pre + length (account_encode_raw P sl bank a')"
    and "length pre + length (account_encode_raw P sl bank a') \<le> length b"
proof -
  note [simp del] = length_greater_0_conv
  define A where "A = pre @ encode_key P 1 LengthDelimited"
  define H where "H = account_head_fields P a @ encode_key P 7 Varint"
  define V2 where "V2 = encode_varint P (ra_write_version a)"
  define V2' where "V2' = encode_varint P v"
  define T where "T = account_txn_field P a @ account_slot_fields P sl bank"
  define e where "e = length pre + length (account_encode_raw P sl bank a')"
  note off = account_offsets(1-4) [OF wv(1), of pre sl bank post ts, folded m_def A_def V1_def H_def V2_def T_def]
    account_offsets(5) [OF wv(1), of sl bank, folded V1_def H_def V2_def T_def]
    account_offsets(6) [OF wv(1), folded H_def V2_def]
  have H': "account_head_fields P a' = account_head_fields P a" "account_txn_field P a' = account_txn_field P a"
    by (simp_all add: a'_def account_head_fields_def account_txn_field_def)
  have v': "ra_write_version a' \<noteq> 0" "ra_write_version a' = v" using wv by (simp_all add: a'_def)
  note off' = account_offsets(5) [OF v'(1), of sl bank, unfolded H' v'(2),
      folded V1'_def H_def V2'_def T_def]
    account_offsets(6) [OF v'(1), unfolded H' v'(2), folded H_def V2'_def]
  have n: "0 < length V2" "length V2 \<le> 10" "0 < length V2'" "length V2' \<le> 10"
    by (simp_all add: V2_def V2'_def varint_nonempty varint_max del: length_greater_0_conv)
  let ?i = "length (account_info_encode_raw P a)" and ?i' = "length (account_info_encode_raw P a')"
  have i: "?i' + length V2 = ?i + length V2'" using off(6) off'(2) by simp
  have ib: "?i < 2 ^ 64" "?i' < 2 ^ 64" using off(5,6) i n bound by (simp_all add: T_def)
  have "?i' \<le> ?i + 9" "?i \<le> ?i' + 9" using i n by linarith+
  then have g: "length V1' \<le> length V1 + 1" "length V1 \<le> length V1' + 1"
    using ib unfolding V1_def V1'_def
    by (simp_all only: varint_growth unat_of_nat_u64)
  have w: "w = length A + length V1' + length H"
    by (simp add: w_def A_def H_def key_length [of 1 LengthDelimited] key_length [of 7 Varint])
  have e: "e = w + length V2' + length T" by (simp add: e_def w off'(1)) (simp add: A_def)
  have sz: "(of_nat ?i + of_nat (length V2') - of_nat (length V2) :: u64) = of_nat ?i'"
    using i by (metis add_diff_cancel_right' of_nat_add)
  obtain b2 b3 b4 b5
    where cp: "ptr_copy (length A + length V1) (length A + length V1') (length H) (resize_zero e (ma_buffer m)) = Some b2"
      "ptr_copy (length A + length V1 + length H + length V2) (w + length V2') (length T) b2 = Some b3"
      "write_at (length A) V1' b3 = Some b4" "write_at w V2' b4 = Some b5"
    and b5: "take e b5 = A @ V1' @ H @ V2' @ T" "e \<le> length b5"
    by (rule rewrite_layout [of "ma_buffer m" A V1 H V2 T post V1' e V2'])
      (use off(1) g(1) n(1) e w in auto)
  have nb: "length A + length V1 + length H + length V2 + length T + 10 < 2 ^ 64"
    using bound off(4) off(5) by (simp add: A_def)
  have us: "usize_shift (length A + length V1 + length H) 0 (length A + length V1) = length H"
     "usize_shift (length A + length V1 + length H + length V2 + length T) 0
        (length A + length V1 + length H + length V2) = length T"
     "usize_shift (length A + length V1 + length H) (length V1') (length V1) = w"
     "usize_shift (usize_shift (length A + length V1 + length H + length V2 + length T) (length V1') (length V1))
        (length V2') (length V2) = e"
    using nb g n by (auto simp: usize_shift_plain e w)
  have at: "varint_at P (ma_write_version m) (ma_buffer m) = Some (ra_write_version a, length V2)"
    "varint_at P (ma_account_offset m) (ma_buffer m) = Some (of_nat ?i, length V1)"
    using varint_at_back [of "A @ V1 @ H" "ra_write_version a" "T @ post"]
      varint_at_back [of A "of_nat ?i" "H @ V2 @ T @ post"]
    by (simp_all add: off(1-3) V2_def V1_def add.assoc)
  have lens: "encoded_len_varint P v = length V2'" "encoded_len_varint P (of_nat ?i') = length V1'"
    by (simp_all add: varint_len V2'_def V1'_def)
  have "update_write_version P v m = Some (m\<lparr>ma_buffer := b5, ma_range := (length pre, e),
      ma_data := (if X (fst (ma_data m)) > w then (Y (X (fst (ma_data m))), usize_shift (X (snd (ma_data m)))
          (length V2') (length V2))
        else (X (fst (ma_data m)), X (snd (ma_data m)))),
      ma_txn_signature_offset := map_option (\<lambda>o0. Y (X o0)) (ma_txn_signature_offset m),
      ma_write_version := w\<rparr>)"
    unfolding update_write_version_def at Option.bind.simps prod.case Let_def lens sz
    unfolding off(2,3) off(4) snd_conv fst_conv us cp(1,2) V1'_def [symmetric]
      V2'_def [symmetric] cp(3,4) Option.bind.simps
    by (simp add: X_def Y_def V2'_def V2_def cong: if_cong)
  moreover have "take e b5 = pre @ account_encode_raw P sl bank a'"
    using b5(1) by (simp add: off'(1) A_def)
  moreover have "w + length V2' \<le> e" by (simp add: e)
  ultimately show ?thesis using that [of b5] g b5(2) unfolding e_def V2'_def V2_def by blast
qed

lemma rewritten_offsets:
  fixes pre sl bank a v a' V1 V1' w X Y
  assumes a'_def: "a' = a\<lparr>ra_write_version := v\<rparr>"
    and V1_def: "V1 = encode_varint P (of_nat (length (account_info_encode_raw P a)))"
    and V1'_def: "V1' = encode_varint P (of_nat (length (account_info_encode_raw P a')))"
    and w_def: "w = length pre + key_len P 1 + length V1' + length (account_head_fields P a) + key_len P 7"
    and X_def: "X = (\<lambda>x. usize_shift x (length V1') (length V1))"
    and Y_def: "Y = (\<lambda>x. if x > w then
        usize_shift x (length (encode_varint P v)) (length (encode_varint P (ra_write_version a))) else x)"
    and wv: "ra_write_version a \<noteq> 0" "v \<noteq> 0" and pre: "pre \<noteq> []"
    and bound: "length pre + length (account_encode_raw P sl bank a) + 10 < 2 ^ 64"
    and g: "length V1' \<le> length V1 + 1" "length V1 \<le> length V1' + 1"
  shows "X (length pre) = length pre + length V1' - length V1" and "X (length pre) \<le> w"
    and "ra_data a \<noteq> [] \<Longrightarrow>
      X (fst (ad_data (account_decode_of P sl bank a)) + length pre) = fst (ad_data (account_decode_of P sl bank a')) + length pre \<and>
      X (snd (ad_data (account_decode_of P sl bank a)) + length pre) = snd (ad_data (account_decode_of P sl bank a')) + length pre \<and>
      fst (ad_data (account_decode_of P sl bank a')) + length pre \<le> w \<and>
      snd (ad_data (account_decode_of P sl bank a')) + length pre \<le> w"
    and "map_option (\<lambda>i. Y (X (i + length pre))) (ad_txn_signature_offset (account_decode_of P sl bank a)) =
      map_option (\<lambda>i. i + length pre) (ad_txn_signature_offset (account_decode_of P sl bank a'))"
    and "ad_write_version (account_decode_of P sl bank a') + length pre = w"
    and "ad_txn_signature_offset (account_decode_of P sl bank a') = Some i \<Longrightarrow> w + length (encode_varint P v) \<le> i + length pre"
proof -
  note [simp del] = length_greater_0_conv
  define V2 where "V2 = encode_varint P (ra_write_version a)"
  define V2' where "V2' = encode_varint P v"
  define S where "S = account_slot_fields P sl bank"
  define hd where "hd = length (account_head_fields P a)"
  have H': "account_head_fields P a' = account_head_fields P a" "account_txn_field P a' = account_txn_field P a"
    by (simp_all add: a'_def account_head_fields_def account_txn_field_def)
  have v': "ra_write_version a' \<noteq> 0" "ra_write_version a' = v" using wv by (simp_all add: a'_def)
  note E = account_offsets(5) [OF wv(1), of sl bank, folded V1_def V2_def S_def]
    account_offsets(5) [OF v'(1), of sl bank, unfolded H' v'(2), folded V1'_def V2'_def S_def]
  have vf: "length (account_version_field P a) = key_len P 7 + length V2"
    "length (account_version_field P a') = key_len P 7 + length V2'"
    using wv by (simp_all add: account_version_field_def uint64_field V2_def V2'_def a'_def key_length [of 7 Varint])
  have n: "length (account_encode_raw P sl bank a) =
      key_len P 1 + length V1 + hd + key_len P 7 + length V2 + length (account_txn_field P a) + length S"
    "length (account_encode_raw P sl bank a') =
      key_len P 1 + length V1' + hd + key_len P 7 + length V2' + length (account_txn_field P a) + length S"
    by (simp_all add: E key_length [of 1 LengthDelimited] key_length [of 7 Varint] hd_def)
  have V: "0 < length V2" "0 < length V2'" "length V2 \<le> 10" "length V2' \<le> 10"
    by (simp_all add: V2_def V2'_def varint_nonempty varint_max del: length_greater_0_conv)
  have p: "0 < length pre" using pre by (simp add: length_greater_0_conv)
  show "X (length pre) = length pre + length V1' - length V1" "X (length pre) \<le> w"
    using p g bound n by (simp_all add: X_def usize_shift_plain w_def)
  show "ad_write_version (account_decode_of P sl bank a') + length pre = w"
    using v' by (simp add: account_decode_of_def Let_def n V2'_def [symmetric] S_def [symmetric] H' w_def hd_def)
  show "X (fst (ad_data (account_decode_of P sl bank a)) + length pre) = fst (ad_data (account_decode_of P sl bank a')) + length pre \<and>
      X (snd (ad_data (account_decode_of P sl bank a)) + length pre) = snd (ad_data (account_decode_of P sl bank a')) + length pre \<and>
      fst (ad_data (account_decode_of P sl bank a')) + length pre \<le> w \<and>
      snd (ad_data (account_decode_of P sl bank a')) + length pre \<le> w" if ne: "ra_data a \<noteq> []"
  proof -
    have "length (ra_data a) \<le> hd" using ne by (simp add: hd_def account_head_fields_def bytes_encode_def)
    then obtain h where h: "hd = h + length (ra_data a)" by (metis add.commute le_Suc_ex)
    show ?thesis using ne p g bound
      by (simp add: X_def account_decode_of_def Let_def n vf H' S_def [symmetric] h usize_shift_plain w_def hd_def [symmetric])
        (simp add: a'_def h usize_shift_plain)
  qed
  show "w + length (encode_varint P v) \<le> i + length pre"
    if i: "ad_txn_signature_offset (account_decode_of P sl bank a') = Some i"
  proof (cases "ra_txn a")
    case None
    with i show ?thesis by (simp add: account_decode_of_def Let_def a'_def)
  next
    case (Some s)
    then have "length s \<le> length (account_txn_field P a)" by (simp add: account_txn_field_def bytes_encode_def)
    then show ?thesis using i Some
      by (simp add: account_decode_of_def Let_def a'_def n [unfolded a'_def] S_def [symmetric] V2'_def [symmetric] w_def hd_def)
  qed
  show "map_option (\<lambda>i. Y (X (i + length pre))) (ad_txn_signature_offset (account_decode_of P sl bank a)) =
      map_option (\<lambda>i. i + length pre) (ad_txn_signature_offset (account_decode_of P sl bank a'))"
  proof (cases "ra_txn a")
    case None
    then show ?thesis by (simp add: account_decode_of_def Let_def a'_def)
  next
    case (Some s)
    then have "length s \<le> length (account_txn_field P a)" by (simp add: account_txn_field_def bytes_encode_def)
    then obtain q where q: "length (account_txn_field P a) = q + length s" by (metis add.commute le_Suc_ex)
    have "X (length (account_encode_raw P sl bank a) - length (s @ S) + length pre) =
        w + length V2 + q"
      using p g bound by (simp add: X_def n q usize_shift_plain w_def hd_def)
    moreover have "length (account_encode_raw P sl bank a') - length (s @ S) + length pre = w + length V2' + q"
      by (simp add: n q w_def hd_def)
    moreover have "Y (w + length V2 + q) = w + length V2' + q"
      using V bound g n q by (simp add: Y_def usize_shift_plain w_def hd_def V2_def [symmetric] V2'_def [symmetric])
    ultimately show ?thesis using Some by (simp add: account_decode_of_def Let_def S_def a'_def)
  qed
qed

end

subsection \<open>The parser on arbitrary input\<close>

lemma with_decoded_total:
  assumes "range_ok (length data) r" and "\<And>b. \<exists>x. decode b = Some x"
    and "\<And>m. decode (take (snd r - fst r) (drop (fst r) data)) = Some (Inr m) \<Longrightarrow> \<exists>y. k m = Some y"
  shows "\<exists>y. with_decoded data r decode k = Some y"
proof -
  have s: "slice (fst r) (snd r) data = Some (take (snd r - fst r) (drop (fst r) data))"
    using assms(1) by (simp add: slice_def range_ok_def)
  from assms(2) obtain x where "decode (take (snd r - fst r) (drop (fst r) data)) = Some x" by blast
  with assms(3) show ?thesis by (cases x) (auto simp: with_decoded_def s)
qed

lemma with_decodedE:
  assumes "with_decoded data r decode k = Some (Inr y)"
  obtains inner m where "slice (fst r) (snd r) data = Some inner" and "decode inner = Some (Inr m)" and "k m = Some (Inr y)"
proof -
  from assms obtain inner x where i: "slice (fst r) (snd r) data = Some inner" "decode inner = Some x"
    and x: "(case x of Inl e \<Rightarrow> Some (Inl (PE_Decode e)) | Inr m \<Rightarrow> k m) = Some (Inr y)"
    by (auto simp: with_decoded_def bind_eq_Some_conv)
  from x obtain m where "x = Inr m" by (cases x) auto
  with i x show ?thesis using that by auto
qed

lemma parse_ok_simps [simp]: "parse_ok I None = False" "parse_ok I (Some (Inl e))" "parse_ok I (Some (Inr m)) = I m"
  by (simp_all add: parse_ok_def)

lemma parse_ok_map: "parse_ok (\<lambda>m. I (f m)) x \<Longrightarrow> parse_ok I (map_option (map_ok f) x)"
  by (auto simp: parse_ok_def map_ok_Inr_iff)

lemma parse_ok_if: "\<exists>y. x = Some y \<Longrightarrow> (\<And>m. x = Some (Inr m) \<Longrightarrow> I m) \<Longrightarrow> parse_ok I x"
  by (auto simp: parse_ok_def)

lemma parse_richat_safe: "parse_richat G u n = Inr m \<Longrightarrow> accessors_safe m"
  by (cases "snd u"; cases "the (snd u)") (auto simp: parse_richat_def and_then_Inr_iff map_ok_Inr_iff)

lemma length_slice: "slice a b xs = Some ys \<Longrightarrow> length ys = b - a \<and> a \<le> b \<and> b \<le> length xs"
  by (auto simp: slice_def split: if_splits)

context prost_codec
begin

lemma parse_slot_total: "range_ok (length data) r \<Longrightarrow> \<exists>y. parse_slot P data ts r = Some y"
  unfolding parse_slot_def using decode_slot_safe
  by (intro with_decoded_total) (blast | auto split: option.splits)+

lemma parse_account_total: "range_ok (length data) r \<Longrightarrow> \<exists>y. parse_account P data ts r = Some y"
  unfolding parse_account_def using decode_account_safe
  by (intro with_decoded_total) (blast | auto)+

lemma parse_entry_total: "range_ok (length data) r \<Longrightarrow> \<exists>y. parse_entry P data ts r = Some y"
  unfolding parse_entry_def using decode_entry_safe
  by (intro with_decoded_total) (blast | auto)+

lemma parse_block_meta_total: "range_ok (length data) r \<Longrightarrow> \<exists>y. parse_block_meta G data ts r = Some y"
  unfolding parse_block_meta_def by (intro with_decoded_total) auto

lemma transaction_inner_range:
  assumes "range_ok (length data) r"
    and "decode_transaction P (take (snd r - fst r) (drop (fst r) data)) = Some (Inr m)"
    and "td_transaction m = Some tr"
  shows "range_ok (length data) (fst tr + fst r, snd tr + fst r)"
  using decode_transaction_safe [of "take (snd r - fst r) (drop (fst r) data)"] assms
  by (auto simp: transaction_ranges_ok_def range_ok_def)

lemma transaction_error_slice:
  assumes "range_ok (length data) tr"
    and "decode_transaction_info P (take (snd tr - fst tr) (drop (fst tr) data)) = Some (Inr info)"
    and "ti_err info = Some er"
  shows "\<exists>d. slice (fst tr + fst er) (fst tr + snd er) data = Some d"
  using decode_transaction_info_safe [of "take (snd tr - fst tr) (drop (fst tr) data)"] assms
  by (auto simp: transaction_info_ranges_ok_def range_ok_def slice_def)

lemma transaction_info_total:
  assumes tr: "range_ok (length data) tr"
  shows "\<exists>y. with_decoded data tr (decode_transaction_info P)
    (\<lambda>info. map_option (g info) (parse_transaction_error G data tr (ti_err info))) = Some y"
proof (rule with_decoded_total [OF tr])
  fix info assume "decode_transaction_info P (take (snd tr - fst tr) (drop (fst tr) data)) = Some (Inr info)"
  from transaction_error_slice [OF tr this]
  show "\<exists>y. map_option (g info) (parse_transaction_error G data tr (ti_err info)) = Some y"
    by (cases "ti_err info") (auto simp: parse_transaction_error_def)
qed (use decode_transaction_info_safe in blast)

lemma parse_transaction_total:
  assumes r: "range_ok (length data) r"
  shows "\<exists>y. parse_transaction P G data ts r = Some y"
  unfolding parse_transaction_def Let_def
proof (rule with_decoded_total [OF r], goal_cases)
  case (2 m)
  then show ?case
    by (cases "td_transaction m") (auto intro!: transaction_info_total dest: transaction_inner_range [OF r])
qed (use decode_transaction_safe in blast)

lemma parsed_account_accessors:
  assumes "range_ok (length data) r" and "parse_account P data ts r = Some (Inr m)"
  shows "message_account_data m \<noteq> None" and "message_account_txn_signature m \<noteq> Some None"
    and "ma_write_version m \<le> length (ma_buffer m)"
proof -
  from assms(2) obtain inner d where d: "slice (fst r) (snd r) data = Some inner" "decode_account P inner = Some (Inr d)"
    "m = account_of_decoded data ts r d"
    unfolding parse_account_def by (elim with_decodedE) (auto split: if_splits)
  have "account_ranges_ok (length inner) d" using decode_account_safe [of inner] d(2) by auto
  with length_slice [OF d(1)]
  show "message_account_data m \<noteq> None" "message_account_txn_signature m \<noteq> Some None"
      "ma_write_version m \<le> length (ma_buffer m)"
    by (auto simp: d(3) account_ranges_ok_def range_ok_def message_account_data_def
        message_account_txn_signature_def account_of_decoded_def slice_def SIGNATURE_BYTES_def split: option.splits)
qed

lemma parsed_slot_accessor:
  assumes "parse_slot P data ts r = Some (Inr m)"
  shows "message_slot_dead_error m \<noteq> Some None"
proof -
  from assms obtain inner d where d: "slice (fst r) (snd r) data = Some inner" "decode_slot P inner = Some (Inr d)"
    "ms_dead_error m = sd_dead_error d" "ms_buffer m = data"
    unfolding parse_slot_def by (elim with_decodedE) (auto split: option.splits)
  have "slot_ranges_ok (length inner) d" using decode_slot_safe [of inner] d(2) by auto
  with length_slice [OF d(1)] show ?thesis
    by (auto simp: d(3,4) slot_ranges_ok_def range_ok_def message_slot_dead_error_def slice_def split: option.splits)
qed

lemma parse_oneof_safe:
  assumes o: "range_ok (length data) (oneof_range v)"
  shows "parse_ok accessors_safe (parse_oneof P G data ts v)"
proof (cases v)
  case (UO_Account r)
  with o show ?thesis unfolding parse_oneof_def UO_Account update_oneof.case
    by (intro parse_ok_map parse_ok_if) (simp_all add: parse_account_total parsed_account_accessors)
next
  case (UO_Slot r)
  with o show ?thesis unfolding parse_oneof_def UO_Slot update_oneof.case
    by (intro parse_ok_map parse_ok_if) (simp_all add: parse_slot_total parsed_slot_accessor)
next
  case (UO_Transaction r)
  with o show ?thesis unfolding parse_oneof_def UO_Transaction update_oneof.case
    by (intro parse_ok_map parse_ok_if) (simp_all add: parse_transaction_total)
next
  case (UO_BlockMeta r)
  with o show ?thesis unfolding parse_oneof_def UO_BlockMeta update_oneof.case
    by (intro parse_ok_map parse_ok_if) (simp_all add: parse_block_meta_total)
next
  case (UO_Entry r)
  with o show ?thesis unfolding parse_oneof_def UO_Entry update_oneof.case
    by (intro parse_ok_map parse_ok_if) (simp_all add: parse_entry_total)
next
  case (UO_BlockFooter r)
  with o show ?thesis unfolding parse_oneof_def UO_BlockFooter update_oneof.case
    by (intro parse_ok_if with_decoded_total) (auto elim: with_decodedE)
next
  case (UO_EntryUpdateParent r)
  with o show ?thesis unfolding parse_oneof_def UO_EntryUpdateParent update_oneof.case
    by (intro parse_ok_if with_decoded_total) (auto elim: with_decodedE)
qed (simp_all add: parse_oneof_def)

end

subsection \<open>The rewritten account\<close>

text \<open>The bytes of an account whose write version is on the wire even when it is 0: the bytes up to
  the version, the version, and the fields behind it. For a version other than 0 this is what
  the encoder produces.\<close>

definition account_up_to_version :: "prost \<Rightarrow> replica_account \<Rightarrow> u64 \<Rightarrow> bytes" where
  "account_up_to_version P a v = encode_key P 1 LengthDelimited @
     encode_varint P (of_nat (length (account_head_fields P a @ uint64_encode P 7 v @ account_txn_field P a))) @
     account_head_fields P a @ encode_key P 7 Varint"

definition account_with_version :: "prost \<Rightarrow> slot \<Rightarrow> bank_id option \<Rightarrow> replica_account \<Rightarrow> u64 \<Rightarrow> bytes" where
  "account_with_version P sl bank a v = account_up_to_version P a v @ encode_varint P v @
     account_txn_field P a @ account_slot_fields P sl bank"

lemma account_with_version_encoded:
  assumes "prost_codec P" and "v \<noteq> 0"
  shows "account_encode_raw P sl bank (a\<lparr>ra_write_version := v\<rparr>) = account_with_version P sl bank a v"
  using assms(2) by (simp add: prost_codec.account_layout [OF assms(1)] account_info_layout account_version_field_def
      account_with_version_def account_up_to_version_def prost_codec.uint64_field [OF assms(1)]
      account_head_fields_def account_txn_field_def cong: if_cong split del: if_split)

lemma slice_overwrite_inside:
  assumes "slice i j b = Some (L @ x @ R)" and "length x = length y"
  shows "slice i j (take (i + length L) b @ y @ drop (i + length L + length y) b) = Some (L @ y @ R)"
proof -
  have ij: "i \<le> j" "j \<le> length b" "take (j - i) (drop i b) = L @ x @ R"
    using assms(1) by (auto simp: slice_def split: if_splits)
  then have b: "b = take i b @ (L @ x @ R) @ drop j b"
    by (metis append_take_drop_id drop_drop le_add_diff_inverse2)
  define A Z where "A = take i b" and "Z = drop j b"
  have l: "length A = i" "j = i + length (L @ x @ R)"
    using ij(1,2) arg_cong [OF ij(3), of length] unfolding A_def by (simp, simp split: if_splits)
  have "b = A @ (L @ x @ R) @ Z" using b by (simp add: A_def Z_def)
  then show ?thesis using l assms(2) by (simp add: slice_def)
qed

lemma slice_overwrite_outside:
  assumes "slice i j b = Some z" and "j \<le> p \<or> p + length y \<le> i" and "p + length y \<le> length b"
  shows "slice i j (take p b @ y @ drop (p + length y) b) = Some z"
  using assms(2)
proof
  assume "j \<le> p"
  with assms(1,3) show ?thesis
    by (auto simp: slice_def drop_append take_append drop_take min_def split: if_splits)
next
  assume i: "p + length y \<le> i"
  with assms(1,3) have "drop i (take p b @ y @ drop (p + length y) b) = drop i b" by (simp add: min_def)
  with assms(1,3) i show ?thesis by (auto simp: slice_def min_def split: if_splits)
qed

lemma one_byte_varints:
  assumes "prost_varint P"
  shows "length (encode_varint P 0) = 1" and "length (encode_varint P 1) = 1"
proof -
  have "length (encode_varint P v) = 1" if "unat v < 128" for v
    using prost_varint.varint_bits [OF assms, of 1 v] prost_varint.varint_nonempty [OF assms, of v] that
    by (simp del: length_greater_0_conv)
  then show "length (encode_varint P 0) = 1" "length (encode_varint P 1) = 1" by simp_all
qed

lemma update_version_zero:
  assumes P: "prost_varint P" and up: "update_write_version P 1 m = Some m1"
  shows "update_write_version P 0 m = Some (m1\<lparr>ma_buffer := take (ma_write_version m1) (ma_buffer m1) @ encode_varint P 0 @
    drop (ma_write_version m1 + length (encode_varint P 0)) (ma_buffer m1)\<rparr>)"
proof -
  from P have pc: "prost_codec P" by (simp add: prost_varint_def)
  have e: "encoded_len_varint P 0 = 1" "encoded_len_varint P 1 = 1"
    by (simp_all add: prost_codec.varint_len [OF pc] one_byte_varints [OF P])
  obtain v n s k where at: "varint_at P (ma_write_version m) (ma_buffer m) = Some (v, n)"
    "varint_at P (ma_account_offset m) (ma_buffer m) = Some (s, k)"
    using up by (auto simp: update_write_version_def bind_eq_Some_conv)
  let ?x = "encoded_len_varint P (s + of_nat 1 - of_nat n)"
  let ?e = "usize_shift (usize_shift (snd (ma_range m)) ?x k) 1 n"
  let ?w = "usize_shift (ma_write_version m) ?x k"
  obtain b2 b3 b4 where b: "ptr_copy (ma_account_offset m + k) (ma_account_offset m + ?x)
      (usize_shift (ma_write_version m) 0 (ma_account_offset m + k)) (resize_zero ?e (ma_buffer m)) = Some b2"
    "ptr_copy (ma_write_version m + n) (?w + 1) (usize_shift (snd (ma_range m)) 0 (ma_write_version m + n)) b2 = Some b3"
    "write_at (ma_account_offset m) (encode_varint P (s + of_nat 1 - of_nat n)) b3 = Some b4"
    using up unfolding update_write_version_def at Option.bind.simps prod.case Let_def e
    by (auto simp: bind_eq_Some_conv)
  have up': "update_write_version P u m = map_option (\<lambda>b5. m1\<lparr>ma_buffer := b5\<rparr>) (write_at ?w (encode_varint P u) b4)"
    "ma_write_version m1 = ?w" if "encoded_len_varint P u = 1" for u
    using up unfolding update_write_version_def at Option.bind.simps prod.case Let_def e that b
    by (auto simp: bind_eq_Some_conv map_option_case split: option.splits)
  have w1: "write_at ?w (encode_varint P 1) b4 = Some (ma_buffer m1)"
    using up up'(1) [OF e(2)] by (auto simp: map_option_eq_Some dest: arg_cong [where f = ma_buffer])
  then have "?w + 1 \<le> length b4" and m1: "ma_buffer m1 = take ?w b4 @ encode_varint P 1 @ drop (?w + 1) b4"
    by (auto simp: write_at_def one_byte_varints [OF P] split: if_splits)
  then have "write_at ?w (encode_varint P 0) b4 = Some (take ?w (ma_buffer m1) @ encode_varint P 0 @ drop (?w + 1) (ma_buffer m1))"
    by (simp add: write_at_def one_byte_varints [OF P] min_def)
  with up' [OF e(1)] show ?thesis by (simp add: one_byte_varints [OF P])
qed


lemma update_write_version_nonzero:
  assumes P: "prost_varint P" and a: "account_sized a" and wv: "ra_write_version a \<noteq> 0" "v \<noteq> 0"
    and r: "r = (length pre, length pre + length (account_encode_raw P sl bank a))" and pre: "pre \<noteq> []"
    and data: "data = pre @ account_encode_raw P sl bank a @ post" and bound: "length data + 10 < 2 ^ 64"
  obtains m m' where "parse_account P data ts r = Some (Inr m)" and "update_write_version P v m = Some m'"
    and "slice (length pre) (snd (ma_range m')) (ma_buffer m') = Some (account_with_version P sl bank a v)"
    and "fst (ma_range m') = length pre" and "take (length pre) (ma_buffer m') = pre"
    and "message_account_data m' = Some (ra_data a)"
    and "message_account_txn_signature m' = map_option Some (ra_txn a)"
    and "message_account_write_version P m' = Some v"
    and "ma_write_version m' = length pre + length (account_up_to_version P a v)"
    and "ma_write_version m' + length (encode_varint P v) \<le> length (ma_buffer m')"
    and "snd (ma_data m') \<le> ma_write_version m'"
    and "\<And>i. ma_txn_signature_offset m' = Some i \<Longrightarrow> ma_write_version m' + length (encode_varint P v) \<le> i"
proof -
  from P have pc: "prost_codec P" by (simp add: prost_varint_def)
  let ?a' = "a\<lparr>ra_write_version := v\<rparr>"
  let ?d = "account_decode_of P sl bank a" and ?d' = "account_decode_of P sl bank ?a'"
  let ?E = "account_encode_raw P sl bank a" and ?E' = "account_encode_raw P sl bank ?a'"
  define m where "m = account_of_decoded data ts r ?d"
  have lE: "length pre + length ?E + 10 < 2 ^ 64" using bound data by simp
  then have dec: "decode_account P ?E = Some (Inr ?d)"
    using prost_codec.account_decode_encoded [OF pc a] by simp
  have "key_len P 1 \<le> length ?E"
    by (simp add: prost_codec.account_layout [OF pc] prost_codec.key_length [OF pc, of 1 LengthDelimited])
  then have "key_len P 1 \<noteq> usize_MAX" using lE by (simp add: usize_MAX_def)
  then have parse: "parse_account P data ts r = Some (Inr m)"
    by (simp add: parse_account_def with_decoded_def r data slice_def dec m_def)
      (simp add: account_decode_of_def Let_def)
  define V1 where "V1 = encode_varint P (of_nat (length (account_info_encode_raw P a)))"
  define V1' where "V1' = encode_varint P (of_nat (length (account_info_encode_raw P ?a')))"
  define w where "w = length pre + key_len P 1 + length V1' + length (account_head_fields P a) + key_len P 7"
  define X where "X = (\<lambda>x. usize_shift x (length V1') (length V1))"
  define Y where "Y = (\<lambda>x. if x > w then
        usize_shift x (length (encode_varint P v)) (length (encode_varint P (ra_write_version a))) else x)"
  show ?thesis
  proof (rule prost_varint.update_write_version_result [OF P m_def [unfolded data r] refl V1_def V1'_def
        w_def X_def Y_def wv lE])
    fix b
    let ?m' = "m\<lparr>ma_buffer := b, ma_range := (length pre, length pre + length ?E'),
      ma_data := (if X (fst (ma_data m)) > w then (Y (X (fst (ma_data m))), usize_shift (X (snd (ma_data m)))
          (length (encode_varint P v)) (length (encode_varint P (ra_write_version a))))
        else (X (fst (ma_data m)), X (snd (ma_data m)))),
      ma_txn_signature_offset := map_option (\<lambda>o0. Y (X o0)) (ma_txn_signature_offset m),
      ma_write_version := w\<rparr>"
    assume up: "update_write_version P v m = Some ?m'"
      and b: "take (length pre + length ?E') b = pre @ ?E'" "length pre + length ?E' \<le> length b"
      and g: "length V1' \<le> length V1 + 1" "length V1 \<le> length V1' + 1"
      and w: "w + length (encode_varint P v) \<le> length pre + length ?E'"
    note ro = prost_varint.rewritten_offsets [OF P refl V1_def V1'_def w_def X_def Y_def wv pre lE g]
    have E': "take (length ?E') (drop (length pre) b) = ?E'" "length pre \<le> length b"
      using arg_cong [OF b(1), of "drop (length pre)"] b(2) by (simp_all add: drop_take)
    note sh = slice_shift [where i = "length pre" and n = "length ?E'" and buf = b, unfolded E'(1), OF _ E'(2)]
    have md: "ma_data m = (fst (ad_data ?d) + length pre, snd (ad_data ?d) + length pre)"
      "ma_txn_signature_offset m = map_option (\<lambda>i. i + length pre) (ad_txn_signature_offset ?d)"
      by (simp_all add: m_def account_of_decoded_def r)
    have data': "message_account_data ?m' = Some (ra_data a)"
    proof (cases "ra_data a = []")
      case True
      then have "ad_data ?d = (0, 0)" by (simp add: account_decode_of_def Let_def)
      then show ?thesis using True ro(2) w b(2) by (simp add: message_account_data_def md slice_def X_def)
    next
      case False
      from ro(3) [OF False] sh [OF account_data_slice [OF pc, of sl bank ?a']]
      show ?thesis by (simp add: message_account_data_def md X_def)
    qed
    have sig': "message_account_txn_signature ?m' = map_option Some (ra_txn a)"
    proof (cases "ra_txn a")
      case None
      then have "ad_txn_signature_offset ?d = None" by (simp add: account_decode_of_def Let_def)
      then show ?thesis using None by (simp add: message_account_txn_signature_def md)
    next
      case (Some s)
      have s: "length s = 64" using a Some by (simp add: account_sized_def SIGNATURE_BYTES_def)
      from account_signature_slice [OF pc, of ?a' s sl bank] Some obtain i
        where i: "ad_txn_signature_offset ?d' = Some i" "slice i (i + 64) ?E' = Some s" using s by auto
      from ro(4) i(1) have "map_option (\<lambda>i. Y (X (i + length pre))) (ad_txn_signature_offset ?d) = Some (i + length pre)"
        by (simp add: X_def Y_def cong: if_cong)
      then show ?thesis using sh [OF i(2)] Some
        by (auto simp: message_account_txn_signature_def md option.map_comp comp_def ac_simps)
    qed
    have "?E' = (encode_key P 1 LengthDelimited @ V1' @ account_head_fields P a @ encode_key P 7 Varint) @
        encode_varint P v @ account_txn_field P a @ account_slot_fields P sl bank"
      using prost_varint.account_offsets(5) [OF P, of ?a' sl bank] wv
      by (simp add: V1'_def account_head_fields_def account_txn_field_def cong: if_cong split del: if_split)
    moreover have "drop w b = drop w (pre @ ?E') @ drop (length pre + length ?E') b"
      using arg_cong [OF append_take_drop_id [of "length pre + length ?E'" b], of "drop w"] b w
      by (simp add: drop_append)
    ultimately have "drop w b = encode_varint P v @ account_txn_field P a @ account_slot_fields P sl bank @
        drop (length pre + length ?E') b"
      by (simp add: w_def prost_codec.key_length [OF pc, of 1 LengthDelimited]
          prost_codec.key_length [OF pc, of 7 Varint])
    then have "\<exists>x. decode_varint P (drop w b) = Inr (v, x)" by (simp add: prost_codec.varint_decode [OF pc])
    then have ver': "message_account_write_version P ?m' = Some v"
      using w b(2) by (auto simp: message_account_write_version_def)
    have dist: "snd (ma_data ?m') \<le> ma_write_version ?m'"
    proof (cases "ra_data a = []")
      case True
      then have "ad_data ?d = (0, 0)" by (simp add: account_decode_of_def Let_def)
      then show ?thesis using ro(2) by (simp add: md X_def)
    next
      case False
      from ro(3) [OF False] show ?thesis by (simp add: md X_def)
    qed
    have sigd: "ma_write_version ?m' + length (encode_varint P v) \<le> i" if "ma_txn_signature_offset ?m' = Some i" for i
    proof -
      have "map_option (\<lambda>i. i + length pre) (ad_txn_signature_offset ?d') = Some i"
        using ro(4) that by (simp add: md option.map_comp comp_def X_def Y_def cong: if_cong)
      then show ?thesis using ro(6) by (auto simp: map_option_eq_Some)
    qed
    have "account_info_encode_raw P ?a' = account_head_fields P a @ uint64_encode P 7 v @ account_txn_field P a"
      using wv(2) by (simp add: account_info_layout account_version_field_def account_head_fields_def
          account_txn_field_def cong: if_cong split del: if_split)
    then have at: "w = length pre + length (account_up_to_version P a v)"
      by (simp add: w_def account_up_to_version_def V1'_def prost_codec.key_length [OF pc, of 1 LengthDelimited]
          prost_codec.key_length [OF pc, of 7 Varint])
    have "take (length pre) b = pre" using arg_cong [OF b(1), of "take (length pre)"] by simp
    moreover have "slice (length pre) (snd (ma_range ?m')) (ma_buffer ?m') = Some (account_with_version P sl bank a v)"
      unfolding account_with_version_encoded [OF pc wv(2), symmetric] using b(2) E' by (simp add: slice_def)
    ultimately show ?thesis using b(2) w at
      by (intro that [OF parse up _ _ _ data' sig' ver' _ _ dist sigd]) simp_all
  qed
qed

lemma update_write_version_to_zero:
  assumes P: "prost_varint P" and a: "account_sized a" and wv: "ra_write_version a \<noteq> 0"
    and r: "r = (length pre, length pre + length (account_encode_raw P sl bank a))" and pre: "pre \<noteq> []"
    and data: "data = pre @ account_encode_raw P sl bank a @ post" and bound: "length data + 10 < 2 ^ 64"
  obtains m m' where "parse_account P data ts r = Some (Inr m)" and "update_write_version P 0 m = Some m'"
    and "slice (length pre) (snd (ma_range m')) (ma_buffer m') = Some (account_with_version P sl bank a 0)"
    and "fst (ma_range m') = length pre" and "take (length pre) (ma_buffer m') = pre"
    and "message_account_data m' = Some (ra_data a)"
    and "message_account_txn_signature m' = map_option Some (ra_txn a)"
    and "message_account_write_version P m' = Some 0"
proof -
  from P have pc: "prost_codec P" by (simp add: prost_varint_def)
  have one: "(1 :: u64) \<noteq> 0" by simp
  obtain m m1 where m: "parse_account P data ts r = Some (Inr m)" "update_write_version P 1 m = Some m1"
    "slice (length pre) (snd (ma_range m1)) (ma_buffer m1) = Some (account_with_version P sl bank a 1)"
    "fst (ma_range m1) = length pre" "take (length pre) (ma_buffer m1) = pre"
    "message_account_data m1 = Some (ra_data a)" "message_account_txn_signature m1 = map_option Some (ra_txn a)"
    and w: "ma_write_version m1 = length pre + length (account_up_to_version P a 1)"
    and room: "ma_write_version m1 + length (encode_varint P 1) \<le> length (ma_buffer m1)"
    and dist: "snd (ma_data m1) \<le> ma_write_version m1"
    and sigd: "\<And>i. ma_txn_signature_offset m1 = Some i \<Longrightarrow> ma_write_version m1 + length (encode_varint P 1) \<le> i"
    by (rule update_write_version_nonzero [OF P a wv one r pre data bound]) blast
  let ?w = "ma_write_version m1" and ?b = "ma_buffer m1" and ?V = "encode_varint P 0"
  let ?new = "take ?w ?b @ ?V @ drop (?w + length ?V) ?b"
  have up: "update_write_version P 0 m = Some (m1\<lparr>ma_buffer := ?new\<rparr>)" by (rule update_version_zero [OF P m(2)])
  note V = one_byte_varints [OF P]
  have u: "account_up_to_version P a 0 = account_up_to_version P a 1"
    by (simp add: account_up_to_version_def prost_codec.uint64_field [OF pc] V)
  have s0: "slice (length pre) (snd (ma_range m1)) ?new = Some (account_with_version P sl bank a 0)"
    using slice_overwrite_inside [OF m(3) [unfolded account_with_version_def], of ?V] V
    by (simp add: account_with_version_def u w)
  have room0: "?w + length ?V \<le> length ?b" using room V by simp
  have "message_account_data (m1\<lparr>ma_buffer := ?new\<rparr>) = Some (ra_data a)"
    using slice_overwrite_outside [OF m(6) [unfolded message_account_data_def] disjI1 [OF dist] room0]
    by (simp add: message_account_data_def)
  moreover have "message_account_txn_signature (m1\<lparr>ma_buffer := ?new\<rparr>) = map_option Some (ra_txn a)"
  proof (cases "ma_txn_signature_offset m1")
    case None
    then show ?thesis using m(7) by (simp add: message_account_txn_signature_def)
  next
    case (Some i)
    then obtain s where s: "ra_txn a = Some s" "slice i (i + 64) ?b = Some s"
      using m(7) by (cases "ra_txn a") (auto simp: message_account_txn_signature_def)
    have "?w + length ?V \<le> i" using sigd [OF Some] V by simp
    from slice_overwrite_outside [OF s(2) disjI2 [OF this] room0] s(1) Some show ?thesis
      by (simp add: message_account_txn_signature_def)
  qed
  moreover have "message_account_write_version P (m1\<lparr>ma_buffer := ?new\<rparr>) = Some 0"
  proof -
    have "drop ?w ?new = ?V @ drop (?w + length ?V) ?b" using room0 by simp
    then show ?thesis using room0
      by (simp add: message_account_write_version_def prost_codec.varint_decode [OF pc] del: append_assoc drop_append)
  qed
  moreover have "take (length pre) ?new = pre" using m(5) w room0 by (simp add: take_append min_def)
  ultimately show thesis using m(1,4) s0 by (intro that [OF m(1) up]) simp_all
qed

subsection \<open>Properties\<close>

text \<open>\<^bold>\<open>C12.\<close> Rewriting the write version of a received account in place. For a buffer that
  holds the encoded account between other bytes, with a write version other than 0, and any
  new version, the rewrite stays inside the buffer (which it grows when needed). Afterwards the range of
  the message holds exactly the account with the new version and the new length, which for a version
  other than 0 is what the encoder produces (it omits a version 0, the rewrite does
  not); bytes before it are untouched, and the accessors return the same data and
  signature and the new version. This covers versions and message lengths whose varints
  grow or shrink, so that the parts are moved over each other.\<close>

theorem update_write_version_correct:
  assumes P: "prost_varint P" and a: "account_sized a" and wv: "ra_write_version a \<noteq> 0"
    and r: "r = (length pre, length pre + length (account_encode_raw P sl bank a))" and pre: "pre \<noteq> []"
    and data: "data = pre @ account_encode_raw P sl bank a @ post" and bound: "length data + 10 < 2 ^ 64"
  shows "\<exists>m m'. parse_account P data ts r = Some (Inr m) \<and> update_write_version P v m = Some m' \<and>
    slice (fst (ma_range m')) (snd (ma_range m')) (ma_buffer m') = Some (account_with_version P sl bank a v) \<and>
    (v \<noteq> 0 \<longrightarrow> account_with_version P sl bank a v = account_encode_raw P sl bank (a\<lparr>ra_write_version := v\<rparr>)) \<and>
    fst (ma_range m') = length pre \<and> take (length pre) (ma_buffer m') = pre \<and>
    message_account_data m' = Some (ra_data a) \<and>
    message_account_txn_signature m' = map_option Some (ra_txn a) \<and>
    message_account_write_version P m' = Some v"
proof (cases "v = 0")
  case False
  from P have "prost_codec P" by (simp add: prost_varint_def)
  from account_with_version_encoded [OF this False, of sl bank a] show ?thesis
    by - (rule update_write_version_nonzero [OF P a wv False r pre data bound], auto)
next
  case True
  show ?thesis unfolding True
    by (rule update_write_version_to_zero [OF P a wv r pre data bound]) auto
qed

theorem update_write_version_correct_witness:
  "\<exists>m m'. parse_account prost_ref ([34, 86] @ account_encode_raw prost_ref 8 (Some 3) example_account @ [90])
      timestamp_default (2, 88) = Some (Inr m) \<and>
    update_write_version prost_ref 70000 m = Some m' \<and> message_account_data m' = Some [4, 5, 6] \<and>
    message_account_write_version prost_ref m' = Some 70000"
proof -
  let ?E = "account_encode_raw prost_ref 8 (Some 3) example_account"
  have sz: "account_sized example_account" "ra_write_version example_account \<noteq> 0"
    by (simp_all add: account_sized_def example_account_def PUBKEY_BYTES_def)
  have l: "length ?E = 86" by code_simp
  have r: "(2, 88) = (length ([34, 86] :: bytes), length ([34, 86] :: bytes) + length ?E)" using l by simp
  have "length ([34, 86] @ ?E @ [90]) + 10 < 2 ^ 64" using l by simp
  from update_write_version_correct [OF reference_varint.prost_varint_axioms sz r _ refl this, of timestamp_default 70000]
  show ?thesis by (auto simp: example_account_def)
qed

text \<open>\<^bold>\<open>C13.\<close> The parser on arbitrary input: whatever a source sends, parsing ends with a
  message or an error and never panics, and the accessors of an account or slot
  that it returns take slices inside the buffer.\<close>

theorem limited_parse_safe:
  assumes "prost_codec P"
  shows "\<exists>r. limited_parse P G data = Some r \<and> (\<forall>m. r = Inr m \<longrightarrow> accessors_safe m)"
proof -
  obtain r where r: "decode_update P data = Some r" "\<forall>u. r = Inr u \<longrightarrow> update_ranges_ok (length data) u"
    using prost_codec.decode_update_safe [OF assms] by blast
  have "parse_ok accessors_safe (limited_parse P G data)"
  proof (cases "\<exists>u ts v. r = Inr u \<and> ud_created_at u = Some ts \<and> ud_update_oneof u = Some v")
    case True
    then obtain u ts v where u: "r = Inr u" "ud_created_at u = Some ts" "ud_update_oneof u = Some v" by blast
    then have o: "range_ok (length data) (oneof_range v)" using r(2) by (simp add: update_ranges_ok_def)
    have g: "limited_parse P G data = parse_oneof P G data ts v" by (simp add: limited_parse_def r u)
    show ?thesis unfolding g by (rule prost_codec.parse_oneof_safe [OF assms o])
  next
    case False
    then show ?thesis
      by (auto simp: limited_parse_def r parse_ok_def and_then_Inr_iff dest: parse_richat_safe
          split: sum.split option.split)
  qed
  then show ?thesis by (simp add: parse_ok_def)
qed

theorem limited_parse_safe_witness:
  "\<exists>r. limited_parse prost_ref rejecting_codec [34, 2, 10, 0] = Some r \<and> (\<forall>m. r = Inr m \<longrightarrow> accessors_safe m)"
  by (rule limited_parse_safe [OF reference.prost_codec_axioms])

end
