(* ===== verification/Pipeline.thy ===== *)
theory Pipeline
  imports Filter_Message
begin

text \<open>
  From the plugin to the server: what \<open>MessageParserLimited::parse\<close>
  (\<open>filter/src/message.rs\<close>) returns for the updates that the encoders of the plugin
  (\<open>plugin-agave/src/protobuf\<close>) produce. The lemmas of \<open>prost_codec\<close> compose the round
  trips of the outer update and of the nested message; the properties state what a
  consumer of the parsed message observes, including the two cases in which it observes
  something else than was sent.
\<close>

definition dead_slot_update :: bytes where
  "dead_slot_update = encode_raw_bytes prost_ref 3
     (slot_msg prost_ref 5 (Some 4) (SS_Dead [100, 101, 97, 100]) None) \<lparr>ts_seconds = 7, ts_nanos = 9\<rparr>"

lemma slice_nth:
  assumes "slice a b d = Some x" and "j < length x"
  shows "a + j < length d" and "d ! (a + j) = x ! j"
  using assms by (auto simp: slice_def split: if_splits)

context prost_codec
begin

lemma update_range:
  assumes "message_ok x" and "t \<in> {2, 3, 4, 7, 8}" and "length (encode_raw_bytes P t x ts) < 2 ^ 64"
  obtains u v where "decode_update P (encode_raw_bytes P t x ts) = Some (Inr u)" and "ud_created_at u = Some ts"
    and "ud_update_oneof u = Some v" and "oneof_tag v = t"
    and "slice (fst (oneof_range v)) (snd (oneof_range v)) (encode_raw_bytes P t x ts) = Some (mo_raw x)"
  using update_decode_encoded [OF assms(1) _ assms(3)] assms(2) that by auto

lemma slot_parse_encoded:
  fixes sl parent st bank ts
  defines "d \<equiv> encode_raw_bytes P 3 (slot_msg P sl parent st bank) ts"
  assumes len: "length d < 2 ^ 64"
  obtains m where "limited_parse P G d = Some (Inr (M_Slot m))" and "ms_slot m = sl" and "ms_parent m = parent"
    and "Some (ms_status m) = slot_status_try_from (slot_status_as_i32 st)" and "ms_bank_id m = bank"
    and "ms_created_at m = ts" and "ms_buffer m = d"
    and "slice (fst (ms_range m)) (snd (ms_range m)) d = Some (slot_encode_raw P sl parent st bank)"
    and "map_option (\<lambda>(a, b). slice a b (slot_encode_raw P sl parent st bank)) (ms_dead_error m) =
      map_option Some (slot_status_as_dead_error st)"
proof -
  let ?r = "slot_encode_raw P sl parent st bank"
  obtain u v where u: "decode_update P d = Some (Inr u)" "ud_created_at u = Some ts" "ud_update_oneof u = Some v"
      "oneof_tag v = 3" and s: "slice (fst (oneof_range v)) (snd (oneof_range v)) d = Some ?r"
    using update_range [OF slot_ok _ len [unfolded d_def]] unfolding d_def by (auto simp: slot_msg_def)
  then obtain r where v: "v = UO_Slot r" by (cases v) auto
  have "length ?r < 2 ^ 64" using length_slice [OF s] len by linarith
  then obtain m where m: "decode_slot P ?r = Some (Inr m)" "sd_slot m = sl" "sd_parent m = parent"
      "sd_status m = slot_status_as_i32 st" "sd_bank_id m = bank"
      "map_option (\<lambda>(a, b). slice a b ?r) (sd_dead_error m) = map_option Some (slot_status_as_dead_error st)"
    by (rule slot_decode_encoded)
  obtain st' where st': "slot_status_try_from (slot_status_as_i32 st) = Some st'"
    by (cases st) (simp_all add: slot_status_try_from_def)
  let ?m = "\<lparr>ms_slot = sl, ms_parent = parent, ms_status = st', ms_dead_error = sd_dead_error m, ms_bank_id = bank,
    ms_created_at = ts, ms_buffer = d, ms_range = r\<rparr>"
  have "limited_parse P G d = Some (Inr (M_Slot ?m))"
    using s by (simp add: limited_parse_def u v parse_oneof_def parse_slot_def with_decoded_def m st')
  with s m(6) st' that [of ?m] show ?thesis by (simp add: v)
qed

text \<open>The nested message does not start the buffer, because the key of the outer field does.\<close>

lemma dead_slot_behind_key:
  assumes "slice i j (encode_raw_bytes P 3 (slot_msg P sl parent (SS_Dead e) bank) ts) =
    Some (slot_encode_raw P sl parent (SS_Dead e) bank)"
  shows "0 < i"
proof (rule ccontr)
  let ?r = "slot_encode_raw P sl parent (SS_Dead e) bank"
  let ?d = "encode_raw_bytes P 3 (slot_msg P sl parent (SS_Dead e) bank) ts"
  assume "\<not> 0 < i"
  then have "take j ?d = ?r" using assms by (simp add: slice_def split: if_splits)
  then have "?d = ?r @ drop j ?d" by (metis append_take_drop_id)
  moreover have "\<exists>x. decode_key P (?d @ []) = Inr ((3, LengthDelimited), x)"
    by (simp add: encode_raw_bytes_def message_field key_decode valid_tag_def)
  moreover have "\<exists>t x. decode_key P (?r @ drop j ?d) = Inr ((t, Varint), x)"
    by (cases parent) (auto simp: slot_encode_raw_def Let_def uint64_field int32_field key_decode valid_tag_def)
  ultimately show False by auto
qed

lemma account_parse_encoded:
  fixes sl bank a ts
  defines "d \<equiv> encode_raw_bytes P 2 (account_msg P sl bank a) ts"
  assumes a: "account_sized a" and len: "length d < 2 ^ 64"
  obtains r where "slice (fst r) (snd r) d = Some (account_encode_raw P sl bank a)"
    and "limited_parse P G d = Some (Inr (M_Account (account_of_decoded d ts r (account_decode_of P sl bank a))))"
proof -
  let ?r = "account_encode_raw P sl bank a"
  obtain u v where u: "decode_update P d = Some (Inr u)" "ud_created_at u = Some ts" "ud_update_oneof u = Some v"
      "oneof_tag v = 2" and s: "slice (fst (oneof_range v)) (snd (oneof_range v)) d = Some ?r"
    using update_range [OF account_ok _ len [unfolded d_def]] unfolding d_def by (auto simp: account_msg_def)
  then obtain r where v: "v = UO_Account r" by (cases v) auto
  have "length ?r < 2 ^ 64" using length_slice [OF s] len by linarith
  then have dec: "decode_account P ?r = Some (Inr (account_decode_of P sl bank a))"
    by (rule account_decode_encoded [OF a])
  have l: "length ?r < length d"
    unfolding d_def encode_raw_bytes_def message_field account_msg_def using key_nonempty [of 2 LengthDelimited]
    by (simp add: valid_tag_def)
  have "key_len P 1 \<le> length ?r" by (simp add: account_layout key_length [of 1 LengthDelimited])
  then have "ad_account (account_decode_of P sl bank a) \<noteq> usize_MAX"
    using l len by (simp add: usize_MAX_def account_decode_of_def Let_def)
  then have "limited_parse P G d = Some (Inr (M_Account (account_of_decoded d ts r (account_decode_of P sl bank a))))"
    using s by (simp add: limited_parse_def u v parse_oneof_def parse_account_def with_decoded_def dec)
  with that s show ?thesis by (simp add: v)
qed

end

lemma dead_slot_bytes: "dead_slot_update =
    [26, 12, 8, 5, 16, 4, 24, 6, 34, 4, 100, 101, 97, 100, 90, 4, 8, 7, 16, 9]"
  by code_simp

lemma dead_slot_inner: "slot_encode_raw prost_ref 5 (Some 4) (SS_Dead [100, 101, 97, 100]) None =
    [8, 5, 16, 4, 24, 6, 34, 4, 100, 101, 97, 100]"
  by code_simp

lemma dead_slot_error_at:
  assumes "slice a b dead_slot_update = Some [100, 101, 97, 100]"
  shows "a = 10"
proof -
  have n: "a < 19" using slice_nth(1) [OF assms, of 1] by (simp add: dead_slot_bytes)
  have "dead_slot_update ! a = 100" "dead_slot_update ! Suc a = 101"
    using slice_nth(2) [OF assms, of 0] slice_nth(2) [OF assms, of 1] by simp_all
  moreover have "\<forall>i\<in>set [0..<19]. dead_slot_update ! i = 100 \<and> dead_slot_update ! Suc i = 101 \<longrightarrow> i = 10"
    unfolding dead_slot_bytes by code_simp
  ultimately show ?thesis using n by auto
qed

subsection \<open>Properties\<close>

text \<open>\<^bold>\<open>C14.\<close> Slot updates from the plugin to the server: parsing the update the plugin encodes
  returns a slot message with the sent slot, parent, bank and time stamp, the Geyser status that
  corresponds to the status of the validator, and the sent dead error as a range of the nested
  slot message. This range is not shifted to the buffer, which a property below is about.\<close>

theorem slot_end_to_end:
  assumes "prost_codec P" and "d = encode_raw_bytes P 3 (slot_msg P sl parent st bank) ts" and "length d < 2 ^ 64"
  shows "\<exists>m inner. limited_parse P G d = Some (Inr (M_Slot m)) \<and> ms_slot m = sl \<and> ms_parent m = parent \<and>
    ms_status m = (case st of SS_Processed \<Rightarrow> SlotProcessed | SS_Confirmed \<Rightarrow> SlotConfirmed | SS_Rooted \<Rightarrow> SlotFinalized
      | SS_FirstShredReceived \<Rightarrow> SlotFirstShredReceived | SS_Completed \<Rightarrow> SlotCompleted
      | SS_CreatedBank \<Rightarrow> SlotCreatedBank | SS_Dead _ \<Rightarrow> SlotDead) \<and>
    ms_bank_id m = bank \<and> ms_created_at m = ts \<and> ms_buffer m = d \<and>
    slice (fst (ms_range m)) (snd (ms_range m)) d = Some inner \<and> inner = slot_encode_raw P sl parent st bank \<and>
    (case ms_dead_error m of
       Some (a, b) \<Rightarrow> \<exists>e. st = SS_Dead e \<and> slice a b inner = Some e
     | None \<Rightarrow> \<forall>e. st \<noteq> SS_Dead e)"
proof -
  obtain m where m: "limited_parse P G d = Some (Inr (M_Slot m))" "ms_slot m = sl" "ms_parent m = parent"
    "Some (ms_status m) = slot_status_try_from (slot_status_as_i32 st)" "ms_bank_id m = bank" "ms_created_at m = ts"
    "ms_buffer m = d" "slice (fst (ms_range m)) (snd (ms_range m)) d = Some (slot_encode_raw P sl parent st bank)"
    "map_option (\<lambda>(a, b). slice a b (slot_encode_raw P sl parent st bank)) (ms_dead_error m) =
      map_option Some (slot_status_as_dead_error st)"
    using prost_codec.slot_parse_encoded [OF assms(1) assms(3) [unfolded assms(2)], of G] unfolding assms(2) by blast
  have "case ms_dead_error m of
       Some (a, b) \<Rightarrow> \<exists>e. st = SS_Dead e \<and> slice a b (slot_encode_raw P sl parent st bank) = Some e
     | None \<Rightarrow> \<forall>e. st \<noteq> SS_Dead e"
    using m(9) by (cases st; cases "ms_dead_error m") auto
  moreover have "ms_status m = (case st of SS_Processed \<Rightarrow> SlotProcessed | SS_Confirmed \<Rightarrow> SlotConfirmed
      | SS_Rooted \<Rightarrow> SlotFinalized | SS_FirstShredReceived \<Rightarrow> SlotFirstShredReceived
      | SS_Completed \<Rightarrow> SlotCompleted | SS_CreatedBank \<Rightarrow> SlotCreatedBank | SS_Dead _ \<Rightarrow> SlotDead)"
    using m(4) by (cases st) (simp_all add: slot_status_try_from_def)
  ultimately show ?thesis using m(1-3,5-8) by blast
qed

theorem slot_end_to_end_witness:
  "\<exists>m. limited_parse prost_ref rejecting_codec dead_slot_update = Some (Inr (M_Slot m)) \<and> ms_slot m = 5 \<and>
    ms_parent m = Some 4"
proof -
  have "length dead_slot_update = 20" by code_simp
  then have "length dead_slot_update < 2 ^ 64" by simp
  from slot_end_to_end [OF reference.prost_codec_axioms dead_slot_update_def this]
  show ?thesis by blast
qed

text \<open>\<^bold>\<open>C15.\<close> Account updates from the plugin to the server: the parsed message has the sent key,
  owner, balance, executable flag, rent epoch, slot, bank and time stamp, is not marked as a start-up
  update, its accessors return the sent data and signature, and the sent write version when
  that is not 0.\<close>

theorem account_end_to_end:
  assumes P: "prost_codec P" and a: "account_sized a"
    and d: "d = encode_raw_bytes P 2 (account_msg P sl bank a) ts" and len: "length d < 2 ^ 64"
  shows "\<exists>m. limited_parse P G d = Some (Inr (M_Account m)) \<and> ma_pubkey m = ra_pubkey a \<and>
    ma_owner m = ra_owner a \<and> ma_lamports m = ra_lamports a \<and> ma_executable m = ra_executable a \<and>
    ma_rent_epoch m = ra_rent_epoch a \<and> \<not> ma_is_startup m \<and> ma_slot m = sl \<and> ma_bank_id m = bank \<and>
    ma_created_at m = ts \<and> ma_buffer m = d \<and> slice (fst (ma_range m)) (snd (ma_range m)) d = Some (account_encode_raw P sl bank a) \<and>
    message_account_data m = Some (ra_data a) \<and>
    message_account_txn_signature m = map_option Some (ra_txn a) \<and>
    (ra_write_version a \<noteq> 0 \<longrightarrow> message_account_write_version P m = Some (ra_write_version a))"
proof -
  let ?d = "account_decode_of P sl bank a"
  obtain r where r: "slice (fst r) (snd r) d = Some (account_encode_raw P sl bank a)"
    and m: "limited_parse P G d = Some (Inr (M_Account (account_of_decoded d ts r ?d)))"
    using prost_codec.account_parse_encoded [OF P a len [unfolded d], of G] unfolding d by metis
  let ?m = "account_of_decoded d ts r ?d"
  have t: "take (snd r - fst r) (drop (fst r) d) = account_encode_raw P sl bank a" "fst r \<le> length d"
    using r by (auto simp: slice_def split: if_splits)
  note sh = slice_shift [where i = "fst r" and n = "snd r - fst r" and buf = d, unfolded t(1), OF _ t(2)]
  have "message_account_data ?m = Some (ra_data a)"
    using sh [OF account_data_slice [OF P]] by (simp add: message_account_data_def account_of_decoded_def)
  moreover have "message_account_txn_signature ?m = map_option Some (ra_txn a)"
  proof (cases "ra_txn a")
    case None
    then show ?thesis
      by (simp add: message_account_txn_signature_def account_of_decoded_def account_decode_of_def Let_def)
  next
    case (Some s)
    have "length s = 64" using a Some by (simp add: account_sized_def SIGNATURE_BYTES_def)
    then obtain i where "ad_txn_signature_offset ?d = Some i" "slice i (i + 64) (account_encode_raw P sl bank a) = Some s"
      using account_signature_slice [OF P Some, of sl bank] by auto
    with sh [OF this(2)] Some show ?thesis
      by (simp add: message_account_txn_signature_def account_of_decoded_def ac_simps)
  qed
  moreover have "message_account_write_version P ?m = Some (ra_write_version a)" if wv: "ra_write_version a \<noteq> 0"
  proof -
    have v: "drop (ad_write_version ?d) (account_encode_raw P sl bank a) =
        encode_varint P (ra_write_version a) @ account_txn_field P a @ account_slot_fields P sl bank"
      using wv unfolding prost_codec.account_layout [OF P] account_info_layout account_decode_of_def Let_def
        account_version_field_def prost_codec.uint64_field [OF P] by simp
    have "drop (fst r) d = account_encode_raw P sl bank a @ drop (snd r) d" "ad_write_version ?d \<le> length (account_encode_raw P sl bank a)"
      using t(1) append_take_drop_id [of "snd r - fst r" "drop (fst r) d"] length_slice [OF r]
      by (auto simp: account_decode_of_def Let_def)
    then have "drop (ad_write_version ?d + fst r) d = encode_varint P (ra_write_version a) @
        account_txn_field P a @ account_slot_fields P sl bank @ drop (snd r) d"
      using v by (simp flip: drop_drop)
    moreover have "ad_write_version ?d + fst r \<le> length d"
      using length_slice [OF r] \<open>ad_write_version ?d \<le> _\<close> by linarith
    ultimately show ?thesis
      by (simp add: message_account_write_version_def account_of_decoded_def prost_codec.varint_decode [OF P])
  qed
  ultimately show ?thesis using m r
    by (intro exI [of _ ?m]) (simp add: account_of_decoded_def account_decode_of_def Let_def)
qed

theorem account_end_to_end_witness:
  "\<exists>d m. limited_parse prost_ref rejecting_codec d = Some (Inr (M_Account m)) \<and>
    ma_pubkey m = replicate 32 1 \<and> message_account_data m = Some [4, 5, 6] \<and>
    message_account_write_version prost_ref m = Some 9"
proof -
  let ?d = "encode_raw_bytes prost_ref 2 (account_msg prost_ref 8 (Some 3) example_account) timestamp_default"
  have sz: "account_sized example_account"
    by (simp add: account_sized_def example_account_def PUBKEY_BYTES_def)
  have "length ?d = 90" by code_simp
  then have "length ?d < 2 ^ 64" by simp
  from account_end_to_end [OF reference.prost_codec_axioms sz refl this, of rejecting_codec]
  show ?thesis by (auto simp: example_account_def)
qed

text \<open>\<^bold>\<open>C16.\<close> The error of a dead slot is misread. The reader records its range relative to the
  nested slot message; the parser adds the start of the nested message to every other
  range but not to this one, while the accessor slices the whole buffer. For every update
  the plugin sends for a dead slot, the error that was sent is what the range shifted by the start
  of the nested message contains, and this start is not 0; the accessor returns the bytes of
  the buffer that lie so many places earlier.\<close>

theorem dead_error_not_shifted:
  assumes "prost_codec P" and "d = encode_raw_bytes P 3 (slot_msg P sl parent (SS_Dead e) bank) ts" and "length d < 2 ^ 64"
  shows "\<exists>m a off. limited_parse P G d = Some (Inr (M_Slot m)) \<and> ms_status m = SlotDead \<and>
    off = fst (ms_range m) \<and> 0 < off \<and>
    slice (a + off) (a + off + length e) d = Some e \<and>
    message_slot_dead_error m = Some (Some (take (length e) (drop a d)))"
proof -
  let ?r = "slot_encode_raw P sl parent (SS_Dead e) bank"
  obtain m where m: "limited_parse P G d = Some (Inr (M_Slot m))"
    "Some (ms_status m) = slot_status_try_from (slot_status_as_i32 (SS_Dead e))" "ms_buffer m = d"
    and s: "slice (fst (ms_range m)) (snd (ms_range m)) d = Some ?r"
    and e: "map_option (\<lambda>(a, b). slice a b ?r) (ms_dead_error m) = map_option Some (slot_status_as_dead_error (SS_Dead e))"
    using prost_codec.slot_parse_encoded [OF assms(1) assms(3) [unfolded assms(2)], of G] unfolding assms(2) by blast
  from e obtain a b where ab: "ms_dead_error m = Some (a, b)" "slice a b ?r = Some e" by auto
  have t: "take (snd (ms_range m) - fst (ms_range m)) (drop (fst (ms_range m)) d) = ?r" "fst (ms_range m) \<le> length d"
    using s by (auto simp: slice_def split: if_splits)
  have b: "b = a + length e" using length_slice [OF ab(2)] by simp
  have sh: "slice (a + fst (ms_range m)) (a + fst (ms_range m) + length e) d = Some e"
    using slice_shift [of a b "snd (ms_range m) - fst (ms_range m)" "fst (ms_range m)" d e] ab t by (simp add: b ac_simps)
  have "0 < fst (ms_range m)" by (rule prost_codec.dead_slot_behind_key [OF assms(1) s [unfolded assms(2)]])
  moreover have "slice a b d = Some (take (length e) (drop a d))"
    using length_slice [OF sh] by (simp add: slice_def b)
  moreover have "ms_status m = SlotDead" using m(2) by (simp add: slot_status_try_from_def)
  ultimately show ?thesis using m(1,3) sh ab(1)
    by (intro exI [of _ m] exI [of _ a] exI [of _ "fst (ms_range m)"]) (simp add: message_slot_dead_error_def)
qed

theorem dead_error_not_shifted_witness:
  "\<exists>m. limited_parse prost_ref rejecting_codec dead_slot_update = Some (Inr (M_Slot m)) \<and>
    ms_status m = SlotDead \<and> message_slot_dead_error m \<noteq> Some (Some [100, 101, 97, 100])"
proof -
  have "length dead_slot_update < 2 ^ 64" by (simp add: dead_slot_bytes)
  from dead_error_not_shifted [OF reference.prost_codec_axioms dead_slot_update_def this, of rejecting_codec]
  obtain m a off where m: "limited_parse prost_ref rejecting_codec dead_slot_update = Some (Inr (M_Slot m))"
    "ms_status m = SlotDead" "0 < off"
    "slice (a + off) (a + off + length [100, 101, 97, 100 :: u8]) dead_slot_update = Some [100, 101, 97, 100]"
    "message_slot_dead_error m = Some (Some (take (length [100, 101, 97, 100 :: u8]) (drop a dead_slot_update)))" by blast
  have l4: "length [100, 101, 97, 100 :: u8] = 4" by simp
  have at: "a + off = 10" by (rule dead_slot_error_at [OF m(4)])
  have "take 4 (drop a dead_slot_update) \<noteq> [100, 101, 97, 100]"
  proof
    assume eq: "take 4 (drop a dead_slot_update) = [100, 101, 97, 100]"
    have "a + 4 \<le> length dead_slot_update" using at by (simp add: dead_slot_bytes)
    with eq have "slice a (a + 4) dead_slot_update = Some [100, 101, 97, 100]" by (simp add: slice_def)
    from dead_slot_error_at [OF this] at m(3) show False by simp
  qed
  with m(1,2,5) show ?thesis unfolding l4 by auto
qed

text \<open>\<^bold>\<open>C17.\<close> An account with write version 0 has no write version field on the wire, and the offset
  stays at the start of the account message. There the accessor reads the key of the
  first field, 10, as the write version, and the rewrite of the version leaves
  the buffer, because the length of its first copy wraps.\<close>

theorem unversioned_account_misread:
  assumes "account_sized a" and "ra_write_version a = 0"
    and "d = encode_raw_bytes prost_ref 2 (account_msg prost_ref sl bank a) ts" and "length d < 2 ^ 63"
  shows "\<exists>m. limited_parse prost_ref G d = Some (Inr (M_Account m)) \<and>
    message_account_write_version prost_ref m = Some 10 \<and> update_write_version prost_ref v m = None"
proof -
  let ?E = "account_encode_raw prost_ref sl bank a" and ?d = "account_decode_of prost_ref sl bank a"
  have len: "length d < 2 ^ 64" using assms(4) by simp
  obtain r where r: "slice (fst r) (snd r) d = Some ?E"
    and m: "limited_parse prost_ref G d = Some (Inr (M_Account (account_of_decoded d ts r ?d)))"
    using reference.account_parse_encoded [OF assms(1) len [unfolded assms(3)], of G] unfolding assms(3) by metis
  let ?m = "account_of_decoded d ts r ?d"
  have k: "encode_key prost_ref 1 LengthDelimited = [10]" "key_len prost_ref 1 = 1" by code_simp+
  have E: "drop (fst r) d = ?E @ drop (snd r) d"
    using r append_take_drop_id [of "snd r - fst r" "drop (fst r) d"] by (auto simp: slice_def split: if_splits)
  let ?n = "encode_varint prost_ref (of_nat (length (account_info_encode_raw prost_ref a)))"
  obtain rest where d10: "drop (fst r) d = 10 # ?n @ rest"
    using E by (auto simp: reference.account_layout k)
  have "encode_varint prost_ref 10 = [10]" by code_simp
  then have v10: "decode_varint prost_ref (10 # x) = Inr (10, x)" for x using reference.varint_decode [of 10 x] by simp
  have off: "ma_write_version ?m = fst r" "ma_account_offset ?m = Suc (fst r)" "ma_buffer ?m = d" "fst r \<le> length d"
    using assms(2) length_slice [OF r] by (simp_all add: account_of_decoded_def account_decode_of_def Let_def k)
  have d11: "drop (Suc (fst r)) d = ?n @ rest" using arg_cong [OF d10, of "drop 1"] by simp
  have le: "Suc (fst r) + length ?n + length rest = length d"
    using arg_cong [OF d10, of length] off(4) by simp
  have at: "varint_at prost_ref (fst r) d = Some (10, 1)"
    "varint_at prost_ref (Suc (fst r)) d = Some (of_nat (length (account_info_encode_raw prost_ref a)), length ?n)"
    using le by (simp_all add: varint_at_def d10 v10 d11 reference.varint_decode)
  have "length ?n \<le> 10" by (rule reference_varint.varint_max)
  then have "(fst r + 2 ^ 64) - (fst r + Suc (length ?n)) = 2 ^ 64 - Suc (length ?n)" "Suc (length ?n) < 2 ^ 64"
    by simp_all
  then have "usize_shift (fst r) 0 (Suc (fst r) + length ?n) = 2 ^ 64 - Suc (length ?n)"
    unfolding usize_shift_def by simp
  then have "2 ^ 64 \<le> Suc (fst r) + length ?n + usize_shift (fst r) 0 (Suc (fst r) + length ?n)"
    using \<open>Suc (length ?n) < 2 ^ 64\<close> by linarith
  moreover have "length (resize_zero (usize_shift x y z) d) < 2 ^ 64" for x y z
    using len by (simp add: resize_zero_def usize_shift_def)
  ultimately have oob: "ptr_copy (Suc (fst r) + length ?n) dst (usize_shift (fst r) 0 (Suc (fst r) + length ?n))
      (resize_zero (usize_shift x y z) d) = None" for dst x y z
    unfolding ptr_copy_def by (meson linorder_not_less order_le_less_trans)
  have "update_write_version prost_ref v ?m = None"
    unfolding update_write_version_def off at Option.bind.simps prod.case Let_def by (simp only: oob Option.bind.simps)
  moreover have "message_account_write_version prost_ref ?m = Some 10"
    unfolding message_account_write_version_def off using off(4) by (simp add: d10 v10)
  ultimately show ?thesis using m by blast
qed

theorem unversioned_account_misread_witness:
  "\<exists>d m. limited_parse prost_ref rejecting_codec d = Some (Inr (M_Account m)) \<and>
    message_account_write_version prost_ref m = Some 10 \<and> update_write_version prost_ref 1 m = None"
proof -
  let ?a = "example_account\<lparr>ra_write_version := 0\<rparr>"
  let ?d = "encode_raw_bytes prost_ref 2 (account_msg prost_ref 8 (Some 3) ?a) timestamp_default"
  have sz: "account_sized ?a" "ra_write_version ?a = 0"
    by (simp_all add: account_sized_def example_account_def PUBKEY_BYTES_def)
  have "length ?d = 88" by code_simp
  then have "length ?d < 2 ^ 63" by simp
  from unversioned_account_misread [OF sz refl this, of rejecting_codec 1] show ?thesis by blast
qed

end
