(* ===== verification/Richat_Message.thy ===== *)
theory Richat_Message
  imports Filter_Message "HOL-Library.Option_ord"
begin

text \<open>
  The messages of the server's channel (\<open>ParsedMessage\<close> of \<open>richat/src/channel.rs\<close>) and the
  accessors of \<open>filter/src/message.rs\<close> that the channel uses. Messages are in the
  \<open>Limited\<close> form of \<open>Filter_Message\<close>; a shared pointer is the message itself. The
  capacity of the hash set of account keys, which the size of a transaction counts, is
  the argument \<open>cap\<close>.
\<close>

record 'x message_block =
  blk_accounts :: "message_account list"
  blk_transactions :: "'x message_transaction list"
  blk_entries :: "message_entry list"
  blk_block_meta :: message_block_meta
  blk_created_at :: timestamp

datatype 'x parsed_message =
  RP_Slot message_slot
| RP_Account message_account
| RP_Transaction "'x message_transaction"
| RP_Entry message_entry
| RP_BlockMeta message_block_meta
| RP_Block "'x message_block"
| RP_BlockFooter block_footer_msg_view timestamp nat
| RP_EntryUpdateParent entry_update_parent_view timestamp nat

fun parsed_from :: "'x message \<Rightarrow> 'x parsed_message" where
  "parsed_from (M_Slot m) = RP_Slot m"
| "parsed_from (M_Account m) = RP_Account m"
| "parsed_from (M_Transaction m) = RP_Transaction m"
| "parsed_from (M_Entry m) = RP_Entry m"
| "parsed_from (M_BlockMeta m) = RP_BlockMeta m"
| "parsed_from (M_BlockFooter f ts n) = RP_BlockFooter f ts n"
| "parsed_from (M_EntryUpdateParent u ts n) = RP_EntryUpdateParent u ts n"

subsection \<open>Accessors\<close>

text \<open>\<open>Message::bank_id\<close>; the messages with a non-optional field use 0 for no bank.\<close>

fun message_bank_id :: "'x message \<Rightarrow> bank_id option" where
  "message_bank_id (M_Slot m) = ms_bank_id m"
| "message_bank_id (M_Account m) = ma_bank_id m"
| "message_bank_id (M_Transaction m) = nonzero_bank_id (mt_bank_id m)"
| "message_bank_id (M_Entry m) = nonzero_bank_id (me_bank_id m)"
| "message_bank_id (M_BlockMeta m) = nonzero_bank_id (bm_bank_id (mb_block_meta m))"
| "message_bank_id (M_BlockFooter f _ _) = nonzero_bank_id (fm_bank_id f)"
| "message_bank_id (M_EntryUpdateParent u _ _) = Some (um_cleared_bank_id u)"

definition filter_bank :: "bank_id option \<Rightarrow> bank_id option" where
  "filter_bank b = (case b of Some i \<Rightarrow> if i \<noteq> 0 then Some i else None | None \<Rightarrow> None)"

fun parsed_bank_id :: "'x parsed_message \<Rightarrow> bank_id option" where
  "parsed_bank_id (RP_Slot m) = filter_bank (ms_bank_id m)"
| "parsed_bank_id (RP_Account m) = filter_bank (ma_bank_id m)"
| "parsed_bank_id (RP_Transaction m) = filter_bank (nonzero_bank_id (mt_bank_id m))"
| "parsed_bank_id (RP_Entry m) = filter_bank (nonzero_bank_id (me_bank_id m))"
| "parsed_bank_id (RP_BlockMeta m) = filter_bank (nonzero_bank_id (bm_bank_id (mb_block_meta m)))"
| "parsed_bank_id (RP_Block b) = filter_bank (nonzero_bank_id (bm_bank_id (mb_block_meta (blk_block_meta b))))"
| "parsed_bank_id (RP_BlockFooter f _ _) = filter_bank (nonzero_bank_id (fm_bank_id f))"
| "parsed_bank_id (RP_EntryUpdateParent u _ _) = filter_bank (Some (um_cleared_bank_id u))"

fun parsed_slot :: "'x parsed_message \<Rightarrow> slot" where
  "parsed_slot (RP_Slot m) = ms_slot m"
| "parsed_slot (RP_Account m) = ma_slot m"
| "parsed_slot (RP_Transaction m) = mt_slot m"
| "parsed_slot (RP_Entry m) = me_slot m"
| "parsed_slot (RP_BlockMeta m) = bm_slot (mb_block_meta m)"
| "parsed_slot (RP_Block b) = bm_slot (mb_block_meta (blk_block_meta b))"
| "parsed_slot (RP_BlockFooter f _ _) = fm_slot f"
| "parsed_slot (RP_EntryUpdateParent u _ _) = um_slot u"

definition message_slot_size :: "message_slot \<Rightarrow> nat" where
  "message_slot_size m = length (ms_buffer m) + 64"

definition message_account_size :: "message_account \<Rightarrow> nat" where
  "message_account_size m = length (ma_buffer m) + PUBKEY_BYTES * 2 + 86"

definition message_transaction_size :: "(bytes set \<Rightarrow> nat) \<Rightarrow> 'x message_transaction \<Rightarrow> nat" where
  "message_transaction_size cap m = length (mt_buffer m) * 2 + cap (mt_account_keys m) * PUBKEY_BYTES"

definition message_entry_size :: "message_entry \<Rightarrow> nat" where
  "message_entry_size m = length (me_buffer m) + 52"

definition message_block_meta_size :: "message_block_meta \<Rightarrow> nat" where
  "message_block_meta_size m = length (mb_buffer m) * 2"

definition message_block_size :: "(bytes set \<Rightarrow> nat) \<Rightarrow> 'x message_block \<Rightarrow> nat" where
  "message_block_size cap b = sum_list (map message_account_size (blk_accounts b) @
     map (message_transaction_size cap) (blk_transactions b) @ map message_entry_size (blk_entries b)) +
     message_block_meta_size (blk_block_meta b)"

fun parsed_size :: "(bytes set \<Rightarrow> nat) \<Rightarrow> 'x parsed_message \<Rightarrow> nat" where
  "parsed_size cap (RP_Slot m) = message_slot_size m"
| "parsed_size cap (RP_Account m) = message_account_size m"
| "parsed_size cap (RP_Transaction m) = message_transaction_size cap m"
| "parsed_size cap (RP_Entry m) = message_entry_size m"
| "parsed_size cap (RP_BlockMeta m) = message_block_meta_size m"
| "parsed_size cap (RP_Block b) = message_block_size cap b"
| "parsed_size cap (RP_BlockFooter _ _ n) = n"
| "parsed_size cap (RP_EntryUpdateParent _ _ n) = n"

fun get_account :: "'x parsed_message \<Rightarrow> message_account option" where
  "get_account (RP_Account m) = Some m"
| "get_account _ = None"

fun get_transaction :: "'x parsed_message \<Rightarrow> 'x message_transaction option" where
  "get_transaction (RP_Transaction m) = Some m"
| "get_transaction _ = None"

fun get_entry :: "'x parsed_message \<Rightarrow> message_entry option" where
  "get_entry (RP_Entry m) = Some m"
| "get_entry _ = None"

text \<open>\<open>MessageTransaction::signature\<close>; \<open>None\<close> is the panic without a signature, or
  the slice out of range.\<close>

definition message_transaction_signature :: "'x message_transaction \<Rightarrow> bytes option" where
  "message_transaction_signature m = Option.bind (mt_signature_offset m)
     (\<lambda>offset. slice offset (offset + SIGNATURE_BYTES) (mt_buffer m))"

text \<open>\<open>ParsedMessage::get_id\<close>: what is written to the hasher, in order; \<open>H\<close> is the hasher.\<close>

datatype hash_write = W_u64 u64 | W_u8 u8 | W_bytes bytes | W_status geyser_status

fun parsed_id_writes :: "prost \<Rightarrow> 'x parsed_message \<Rightarrow> hash_write list option" where
  "parsed_id_writes P (RP_Slot m) = Some [W_u8 0, W_u64 (ms_slot m), W_status (ms_status m)]"
| "parsed_id_writes P (RP_Account m) =
     Option.bind (message_account_write_version P m) (\<lambda>v.
       case message_account_txn_signature m of
         None \<Rightarrow> Some [W_u8 1, W_u64 (ma_slot m), W_bytes (ma_pubkey m), W_u64 v]
       | Some sig \<Rightarrow> map_option (\<lambda>s. [W_u8 1, W_u64 (ma_slot m), W_bytes (ma_pubkey m), W_u64 v, W_bytes s]) sig)"
| "parsed_id_writes P (RP_Transaction m) = map_option (\<lambda>s. [W_u8 2, W_u64 (mt_slot m), W_bytes s])
     (message_transaction_signature m)"
| "parsed_id_writes P (RP_Entry m) = Some [W_u8 3, W_u64 (me_slot m), W_u64 (me_index m)]"
| "parsed_id_writes P (RP_BlockMeta m) = Some [W_u8 4, W_u64 (bm_slot (mb_block_meta m))]"
| "parsed_id_writes P (RP_Block b) = Some [W_u8 5, W_u64 (bm_slot (mb_block_meta (blk_block_meta b)))]"
| "parsed_id_writes P (RP_BlockFooter f _ _) = Some [W_u8 6, W_u64 (fm_slot f)]"
| "parsed_id_writes P (RP_EntryUpdateParent u _ _) = Some [W_u8 7, W_u64 (um_slot u)]"

definition get_id :: "prost \<Rightarrow> (hash_write list \<Rightarrow> u64) \<Rightarrow> 'x parsed_message \<Rightarrow> u64 option" where
  "get_id P H m = map_option (\<lambda>ws. H (W_u64 (case parsed_bank_id m of Some b \<Rightarrow> b | None \<Rightarrow> 0) # ws))
     (parsed_id_writes P m)"

lemma parsed_from_slot [simp]: "parsed_slot (parsed_from m) = message_slot_of m"
  by (cases m) simp_all

lemma parsed_from_bank [simp]: "parsed_bank_id (parsed_from m) = filter_bank (message_bank_id m)"
  by (cases m) simp_all

end
