(* ===== verification/Richat_Channel.thy ===== *)
theory Richat_Channel
  imports Richat_Message Ring
begin

text \<open>
  The broadcast channel of the server (\<open>SharedChannel\<close>, \<open>SenderShared\<close>, \<open>ReceiverAsync\<close> and
  \<open>ReceiverSync\<close> of \<open>richat/src/channel.rs\<close>): one ring per commitment level, with an index of
  the slots whose messages are all still in the ring, the journal index of every message,
  and a lower bound of the journal indices that the ring covers. \<open>SenderShared\<close> owns the
  \<open>SharedChannel\<close> it publishes to; locks are taken for a whole operation, so the
  operations are functions on the state. The type of the messages is a variable \<open>'d\<close> and
  \<open>message.size()\<close> an argument, which the sender instantiates with \<open>parsed_size\<close>. \<open>None\<close>
  is a panic.
\<close>

datatype commitment_level = Processed | Confirmed | Finalized

record 'd ritem =
  ri_replay_index :: u64
  ri_pos :: u64
  ri_slot :: slot
  ri_data :: "'d option"

record ('d, 'w) shared_channel =
  sc_head :: u64
  sc_replay_floor :: u64
  sc_recovery_epoch :: u64
  sc_tail :: u64
  sc_mask :: u64
  sc_buffer :: "'d ritem list"
  sc_slots :: "(slot, u64) btree"
  sc_wakers :: "'w list option"

record ('d, 'w) sender_shared =
  ss_commitment :: commitment_level
  ss_shared :: "('d, 'w) shared_channel"
  ss_head :: u64
  ss_tail :: u64
  ss_bytes_total :: usize
  ss_bytes_max :: usize
  ss_incomplete_through :: "slot option"

definition u64_MAX :: u64 where
  "u64_MAX = - 1"

definition shared_channel_new :: "nat \<Rightarrow> bool \<Rightarrow> ('d, 'w) shared_channel" where
  "shared_channel_new max_messages richat =
     \<lparr>sc_head = of_nat max_messages + 1, sc_replay_floor = 0, sc_recovery_epoch = 0,
      sc_tail = of_nat max_messages, sc_mask = of_nat max_messages - 1,
      sc_buffer = map (\<lambda>i. \<lparr>ri_replay_index = u64_MAX, ri_pos = of_nat i, ri_slot = 0, ri_data = None\<rparr>)
        [0..<max_messages],
      sc_slots = [], sc_wakers = (if richat then Some [] else None)\<rparr>"

definition sender_shared_new ::
    "('d, 'w) shared_channel \<Rightarrow> nat \<Rightarrow> usize \<Rightarrow> commitment_level \<Rightarrow> ('d, 'w) sender_shared" where
  "sender_shared_new sh max_messages max_bytes c =
     \<lparr>ss_commitment = c, ss_shared = sh, ss_head = of_nat max_messages + 1, ss_tail = of_nat max_messages,
      ss_bytes_total = 0, ss_bytes_max = max_bytes, ss_incomplete_through = None\<rparr>"

subsection \<open>\<open>SenderShared::push\<close>\<close>

text \<open>Removing the message of a cell moves the head and the byte count, and raises the
  journal bound when the message was stored.\<close>

definition floor_after :: "'d ritem \<Rightarrow> u64 \<Rightarrow> u64" where
  "floor_after it fl = (if ri_replay_index it \<noteq> u64_MAX then ri_replay_index it + 1 else fl)"

definition evict_cell ::
    "('d \<Rightarrow> nat) \<Rightarrow> 'd ritem \<Rightarrow> 'd \<Rightarrow> ('d, 'w) sender_shared \<Rightarrow> ('d, 'w) sender_shared" where
  "evict_cell sz it d ss = ss\<lparr>ss_head := ss_head ss + 1, ss_bytes_total := ss_bytes_total ss - of_nat (sz d),
     ss_shared := (ss_shared ss)\<lparr>sc_replay_floor := floor_after it (sc_replay_floor (ss_shared ss))\<rparr>\<rparr>"

definition set_cell :: "nat \<Rightarrow> 'd ritem \<Rightarrow> ('d, 'w) sender_shared \<Rightarrow> ('d, 'w) sender_shared" where
  "set_cell i it ss = ss\<lparr>ss_shared := (ss_shared ss)\<lparr>sc_buffer := (sc_buffer (ss_shared ss))[i := it]\<rparr>\<rparr>"

definition cell_at :: "('d, 'w) shared_channel \<Rightarrow> u64 \<Rightarrow> 'd ritem option" where
  "cell_at sh p = (let idx = get_idx (sc_mask sh) p in
     if idx < length (sc_buffer sh) then Some (sc_buffer sh ! idx) else None)"

definition rpush_write :: "('d \<Rightarrow> nat) \<Rightarrow> ('d, 'w) sender_shared \<Rightarrow> slot \<Rightarrow> 'd \<Rightarrow> u64 option \<Rightarrow>
    (('d, 'w) sender_shared \<times> slot option) option" where
  "rpush_write sz ss sl m replay_index =
     (let ss1 = ss\<lparr>ss_tail := ss_tail ss + 1, ss_bytes_total := ss_bytes_total ss + of_nat (sz m)\<rparr> in
      Option.bind (cell_at (ss_shared ss1) (ss_tail ss1)) (\<lambda>it.
        let (ss2, removed) = (case ri_data it of
               Some old \<Rightarrow> (evict_cell sz it old ss1, Some (ri_slot it))
             | None \<Rightarrow> (ss1, None)) in
        Some (set_cell (get_idx (sc_mask (ss_shared ss2)) (ss_tail ss2))
          \<lparr>ri_replay_index = (case replay_index of Some i \<Rightarrow> i | None \<Rightarrow> u64_MAX), ri_pos = ss_tail ss2,
           ri_slot = sl, ri_data = Some m\<rparr> ss2, removed)))"

function rdrop_by_bytes :: "('d \<Rightarrow> nat) \<Rightarrow> ('d, 'w) sender_shared \<Rightarrow> slot option \<Rightarrow>
    (('d, 'w) sender_shared \<times> slot option) option" where
  "rdrop_by_bytes sz ss removed =
     (if ss_bytes_max ss \<le> ss_bytes_total ss \<and> ss_head ss < ss_tail ss
      then (case cell_at (ss_shared ss) (ss_head ss) of None \<Rightarrow> None | Some it \<Rightarrow>
        (case ri_data it of None \<Rightarrow> None | Some d \<Rightarrow>
           rdrop_by_bytes sz (evict_cell sz it d
             (set_cell (get_idx (sc_mask (ss_shared ss)) (ss_head ss)) (it\<lparr>ri_data := None\<rparr>) ss))
             (note_removed removed (ri_slot it))))
      else Some (ss, removed))"
  by pat_completeness auto
termination
proof (relation "measure (\<lambda>(sz, ss, r). unat (ss_tail ss) - unat (ss_head ss))", goal_cases)
  case (2 sz ss r it d)
  then have lt: "ss_head ss < ss_tail ss" by simp
  have "unat (ss_head ss + 1) = Suc (unat (ss_head ss))" using lt by (rule unat_inc)
  with lt show ?case by (simp add: evict_cell_def set_cell_def word_less_nat_alt)
qed simp

declare rdrop_by_bytes.simps [simp del]

definition slot_covered :: "slot option \<Rightarrow> slot \<Rightarrow> bool" where
  "slot_covered incomplete sl \<longleftrightarrow> (case incomplete of None \<Rightarrow> False | Some u \<Rightarrow> sl \<le> u)"

text \<open>Publishing the positions, the entry of a new slot, and the removal of the slots that
  are no longer complete.\<close>

definition rpush_slots ::
    "('d, 'w) sender_shared \<Rightarrow> slot \<Rightarrow> slot option \<Rightarrow> ('d, 'w) sender_shared" where
  "rpush_slots ss sl removed =
     (let sh1 = (ss_shared ss)\<lparr>sc_head := ss_head ss, sc_tail := ss_tail ss\<rparr>;
          sh2 = (if slot_covered (ss_incomplete_through ss) sl then sh1
                 else sh1\<lparr>sc_slots := bt_or_insert sl (ss_tail ss) (sc_slots sh1)\<rparr>) in
      case removed of
        None \<Rightarrow> ss\<lparr>ss_shared := sh2\<rparr>
      | Some remove_upto0 \<Rightarrow>
          (let remove_upto = max (case ss_incomplete_through ss of Some u \<Rightarrow> u | None \<Rightarrow> 0) remove_upto0 in
           ss\<lparr>ss_shared := sh2\<lparr>sc_slots := bt_pop_while (\<lambda>s. s \<le> remove_upto) (sc_slots sh2)\<rparr>,
              ss_incomplete_through := Some remove_upto\<rparr>))"

definition rpush :: "('d \<Rightarrow> nat) \<Rightarrow> ('d, 'w) sender_shared \<Rightarrow> slot \<Rightarrow> 'd \<Rightarrow> u64 option \<Rightarrow>
    ('d, 'w) sender_shared option" where
  "rpush sz ss sl m replay_index =
     Option.bind (rpush_write sz ss sl m replay_index) (\<lambda>(ss1, removed1).
     Option.bind (rdrop_by_bytes sz ss1 removed1) (\<lambda>(ss2, removed2).
       Some (rpush_slots ss2 sl removed2)))"

text \<open>A run of the sender.\<close>

fun rpush_all :: "('d \<Rightarrow> nat) \<Rightarrow> ('d, 'w) sender_shared \<Rightarrow> (slot \<times> 'd \<times> u64 option) list \<Rightarrow>
    ('d, 'w) sender_shared option" where
  "rpush_all sz ss [] = Some ss"
| "rpush_all sz ss ((sl, m, i) # ms) = Option.bind (rpush sz ss sl m i) (\<lambda>ss'. rpush_all sz ss' ms)"

subsection \<open>Receivers\<close>

text \<open>\<open>ReceiverSync::try_recv\<close> on the channel of the commitment, and the choice of that channel.\<close>

datatype rrecv_error = RLagged | RClosed

definition try_recv_shared :: "('d, 'w) shared_channel \<Rightarrow> u64 \<Rightarrow> (rrecv_error + 'd option) option" where
  "try_recv_shared sh head =
     (if head \<le> sc_tail sh then
        (case cell_at sh head of None \<Rightarrow> None | Some it \<Rightarrow>
          if ri_pos it \<noteq> head then Some (Inl RLagged)
          else Some (case ri_data it of None \<Rightarrow> Inl RLagged | Some d \<Rightarrow> Inr (Some d)))
      else Some (Inr None))"

record ('d, 'w) receiver_sync =
  rsy_processed :: "('d, 'w) shared_channel"
  rsy_confirmed :: "('d, 'w) shared_channel option"
  rsy_finalized :: "('d, 'w) shared_channel option"

definition try_recv :: "('d, 'w) receiver_sync \<Rightarrow> commitment_level \<Rightarrow> u64 \<Rightarrow> (rrecv_error + 'd option) option" where
  "try_recv r c head =
     (case (case c of Processed \<Rightarrow> Some (rsy_processed r) | Confirmed \<Rightarrow> rsy_confirmed r
          | Finalized \<Rightarrow> rsy_finalized r) of
        None \<Rightarrow> Some (Inl RClosed)
      | Some sh \<Rightarrow> try_recv_shared sh head)"

text \<open>\<open>ReceiverAsync\<close>; \<open>encode\<close> is the encoding of an update without filters.\<close>

record receiver_async =
  ra_head :: u64
  ra_finished :: bool
  ra_accounts :: bool
  ra_transactions :: bool
  ra_entries :: bool
  ra_block_footers :: bool
  ra_entry_update_parents :: bool

fun async_skips :: "receiver_async \<Rightarrow> 'x parsed_message \<Rightarrow> bool" where
  "async_skips r (RP_Account _) = (\<not> ra_accounts r)"
| "async_skips r (RP_Transaction _) = (\<not> ra_transactions r)"
| "async_skips r (RP_Entry _) = (\<not> ra_entries r)"
| "async_skips r (RP_BlockFooter _ _ _) = (\<not> ra_block_footers r)"
| "async_skips r (RP_EntryUpdateParent _ _ _) = (\<not> ra_entry_update_parents r)"
| "async_skips r (RP_Block _) = True"
| "async_skips r _ = False"

definition async_wait :: "'w \<Rightarrow> ('d, 'w) shared_channel \<Rightarrow> ('d, 'w) shared_channel" where
  "async_wait w sh = sh\<lparr>sc_wakers := map_option (\<lambda>ws. ws @ [w]) (sc_wakers sh)\<rparr>"

partial_function (option) async_recv_ref ::
    "('x parsed_message \<Rightarrow> bytes) \<Rightarrow> ('x parsed_message, 'w) shared_channel \<Rightarrow> receiver_async \<Rightarrow> 'w \<Rightarrow> u64 \<Rightarrow>
     ((rrecv_error + bytes option) \<times> receiver_async \<times> ('x parsed_message, 'w) shared_channel) option" where
  "async_recv_ref encode sh r w tail =
     (if ra_head r \<le> tail then
        (case cell_at sh (ra_head r) of None \<Rightarrow> None | Some it \<Rightarrow>
           if ri_pos it \<noteq> ra_head r then Some (Inl RLagged, r, sh)
           else (let r' = r\<lparr>ra_head := ra_head r + 1\<rparr> in
             case ri_data it of
               None \<Rightarrow> Some (Inl RLagged, r', sh)
             | Some m \<Rightarrow> if async_skips r m then async_recv_ref encode sh r' w tail
                 else Some (Inr (Some (encode m)), r', sh)))
      else Some (Inr None, r, async_wait w sh))"

datatype 'a rpoll = RPending | RReady 'a

definition async_poll_next ::
    "('x parsed_message \<Rightarrow> bytes) \<Rightarrow> ('x parsed_message, 'w) shared_channel \<Rightarrow> receiver_async \<Rightarrow> 'w \<Rightarrow>
     ((rrecv_error + bytes) option rpoll \<times> receiver_async \<times> ('x parsed_message, 'w) shared_channel) option" where
  "async_poll_next encode sh r w =
     (if ra_finished r then Some (RReady None, r, sh)
      else map_option (\<lambda>(res, r', sh').
        case res of
          Inr (Some v) \<Rightarrow> (RReady (Some (Inr v)), r', sh')
        | Inr None \<Rightarrow> (RPending, r', sh')
        | Inl e \<Rightarrow> (RReady (Some (Inl e)), r'\<lparr>ra_finished := True\<rparr>, sh'))
        (async_recv_ref encode sh r w (sc_tail sh)))"

subsection \<open>\<open>SharedChannel::get_head_by_replay_index\<close>\<close>

function head_search :: "('d, 'w) shared_channel \<Rightarrow> u64 \<Rightarrow> u64 \<Rightarrow> u64 \<Rightarrow> u64 option" where
  "head_search sh replay_index low high =
     (if low < high then
        (let mid = low + (high - low) div 2 in
         case cell_at sh mid of None \<Rightarrow> None | Some it \<Rightarrow>
           if ri_replay_index it < replay_index then head_search sh replay_index (mid + 1) high
           else head_search sh replay_index low mid)
      else Some low)"
  by pat_completeness auto

lemma search_mid:
  fixes low high :: u64
  assumes "low < high"
  shows "unat (low + (high - low) div 2) = unat low + (unat high - unat low) div 2"
proof -
  have u: "unat (high - low) = unat high - unat low"
    using assms by (simp add: unat_sub less_imp_le)
  have "unat ((high - low) div 2) = (unat high - unat low) div 2"
    by (simp add: unat_div u)
  moreover have "unat high < 2 ^ LENGTH(64)" by (rule unsigned_less)
  then have "unat low + (unat high - unat low) div 2 < 2 ^ LENGTH(64)"
    using assms unfolding word_less_nat_alt by linarith
  ultimately show ?thesis by (simp add: unat_plus_simple word_le_nat_alt unat_word_ariths)
qed

termination head_search
proof (relation "measure (\<lambda>(sh, i, low, high). unat high - unat low)", goal_cases)
  case (2 sh i low high mid it)
  have m: "unat mid = unat low + (unat high - unat low) div 2" using search_mid [OF 2(1)] 2(2) by simp
  then have "unat mid < unat high" using 2(1) by (simp add: word_less_nat_alt)
  then have "unat (mid + 1) = Suc (unat mid)" by (intro unat_inc) (simp add: word_less_nat_alt)
  with m 2(1) show ?case by (simp add: word_less_nat_alt)
next
  case (3 sh i low high mid it)
  have "unat mid = unat low + (unat high - unat low) div 2" using search_mid [OF 3(1)] 3(2) by simp
  with 3(1) show ?case by (simp add: word_less_nat_alt)
qed simp

declare head_search.simps [simp del]

definition get_head_by_replay_index :: "('d, 'w) shared_channel \<Rightarrow> u64 \<Rightarrow> u64 option option" where
  "get_head_by_replay_index sh replay_index =
     (if replay_index < sc_replay_floor sh then Some None
      else map_option Some (head_search sh replay_index (sc_head sh) (sc_tail sh + 1)))"

subsection \<open>The abstract channel\<close>

text \<open>The messages that the ring holds, oldest first, with their slots and journal indices.\<close>

type_synonym 'd entry = "slot \<times> 'd \<times> u64"

definition cell_msg :: "'d ritem \<Rightarrow> 'd entry" where
  "cell_msg it = (ri_slot it, the (ri_data it), ri_replay_index it)"

definition journal_index :: "u64 option \<Rightarrow> u64" where
  "journal_index ri = (case ri of Some i \<Rightarrow> i | None \<Rightarrow> u64_MAX)"

text \<open>The bound after the messages \<open>l\<close> were evicted, oldest first.\<close>

definition journal_floor :: "u64 \<Rightarrow> 'd entry list \<Rightarrow> u64" where
  "journal_floor fl l = foldl (\<lambda>fl x. if snd (snd x) \<noteq> u64_MAX then snd (snd x) + 1 else fl) fl l"

definition rlog :: "('d, 'w) sender_shared \<Rightarrow> 'd entry list" where
  "rlog ss = map cell_msg (ring_cells (sc_buffer (ss_shared ss)) (unat (ss_head ss)) (unat (ss_tail ss)))"

definition msgs_bytes :: "('d \<Rightarrow> nat) \<Rightarrow> 'd entry list \<Rightarrow> usize" where
  "msgs_bytes sz l = of_nat (sum_list (map (\<lambda>x. sz (fst (snd x))) l))"

definition rring_ok :: "('d \<Rightarrow> nat) \<Rightarrow> ('d, 'w) sender_shared \<Rightarrow> bool" where
  "rring_ok sz ss \<longleftrightarrow> (\<exists>k. sc_mask (ss_shared ss) = mask k \<and> length (sc_buffer (ss_shared ss)) = 2 ^ k) \<and>
     ring_ok ri_pos ri_data (sc_buffer (ss_shared ss)) (unat (ss_head ss)) (unat (ss_tail ss)) \<and>
     ss_bytes_total ss = msgs_bytes sz (rlog ss)"

text \<open>The history of a channel with \<open>N\<close> cells: the message at position \<open>N + 1 + i\<close> is
  \<open>hist ! i\<close>; the ring holds a suffix of it. A slot is in the index iff it occurs in the
  history and is newer than every slot that has lost a message, and its entry is the
  position of its first message.\<close>

definition slots_complete :: "nat \<Rightarrow> slot list \<Rightarrow> ('d, 'w) sender_shared \<Rightarrow> bool" where
  "slots_complete N hist ss \<longleftrightarrow> bt_ok (sc_slots (ss_shared ss)) \<and>
     (\<forall>i < length hist. N + 1 + i < unat (ss_head ss) \<longrightarrow> slot_covered (ss_incomplete_through ss) (hist ! i)) \<and>
     (\<forall>s v. bt_get (sc_slots (ss_shared ss)) s = Some v \<longleftrightarrow>
        \<not> slot_covered (ss_incomplete_through ss) s \<and>
        (\<exists>i < length hist. unat v = N + 1 + i \<and> hist ! i = s \<and> (\<forall>j < i. hist ! j \<noteq> s)))"

definition rchan_ok :: "('d \<Rightarrow> nat) \<Rightarrow> u64 \<Rightarrow> 'd entry list \<Rightarrow> ('d, 'w) sender_shared \<Rightarrow> bool" where
  "rchan_ok sz fl ms ss \<longleftrightarrow> rring_ok sz ss \<and>
     unat (ss_tail ss) = length (sc_buffer (ss_shared ss)) + length ms \<and>
     rlog ss = drop (unat (ss_head ss) - length (sc_buffer (ss_shared ss)) - 1) ms \<and>
     slots_complete (length (sc_buffer (ss_shared ss))) (map fst ms) ss \<and>
     sc_head (ss_shared ss) = ss_head ss \<and> sc_tail (ss_shared ss) = ss_tail ss \<and>
     sc_replay_floor (ss_shared ss) =
       journal_floor fl (take (unat (ss_head ss) - length (sc_buffer (ss_shared ss)) - 1) ms) \<and>
     (unat (ss_tail ss) < unat (ss_head ss) \<or> ss_bytes_total ss < ss_bytes_max ss \<or> ss_head ss = ss_tail ss)"

subsection \<open>Lemmas\<close>

interpretation richat_ring: ring_cell ri_pos ri_slot ri_data
  "\<lambda>i p s d it. \<lparr>ri_replay_index = i, ri_pos = p, ri_slot = s, ri_data = Some d\<rparr>" "\<lambda>it. it\<lparr>ri_data := None\<rparr>"
  by unfold_locales simp_all

lemma msgs_bytes_simps [simp]:
  "msgs_bytes sz [] = 0"
  "msgs_bytes sz (x # l) = of_nat (sz (fst (snd x))) + msgs_bytes sz l"
  "msgs_bytes sz (l @ l') = msgs_bytes sz l + msgs_bytes sz l'"
  by (simp_all add: msgs_bytes_def)

lemma length_rlog: "length (rlog ss) = Suc (unat (ss_tail ss)) - unat (ss_head ss)"
  unfolding rlog_def ring_cells_def by (simp only: length_map length_upt)

lemma rring_cell:
  assumes "rring_ok sz ss"
  shows "get_idx (sc_mask (ss_shared ss)) p = unat p mod length (sc_buffer (ss_shared ss))"
    and "cell_at (ss_shared ss) p = Some (sc_buffer (ss_shared ss) ! (unat p mod length (sc_buffer (ss_shared ss))))"
proof -
  obtain k where k: "sc_mask (ss_shared ss) = mask k" "length (sc_buffer (ss_shared ss)) = 2 ^ k"
    using assms by (auto simp: rring_ok_def)
  then show e: "get_idx (sc_mask (ss_shared ss)) p = unat p mod length (sc_buffer (ss_shared ss))"
    by (simp add: get_idx_mod)
  show "cell_at (ss_shared ss) p = Some (sc_buffer (ss_shared ss) ! (unat p mod length (sc_buffer (ss_shared ss))))"
    unfolding cell_at_def Let_def e using k by simp
qed

lemma rlog_Cons:
  assumes "unat (ss_head ss) \<le> unat (ss_tail ss)"
  shows "rlog ss = cell_msg (sc_buffer (ss_shared ss) ! (unat (ss_head ss) mod length (sc_buffer (ss_shared ss)))) # tl (rlog ss)"
  using assms by (simp add: rlog_def ring_cells_def upt_rec [of "unat (ss_head ss)"])

text \<open>One step of the byte loop drops the first message of the log.\<close>

lemma rdrop_step:
  fixes ss :: "('d, 'w) sender_shared"
  assumes ok: "rring_ok sz ss" and lt: "ss_head ss < ss_tail ss"
  defines "i \<equiv> unat (ss_head ss) mod length (sc_buffer (ss_shared ss))"
  defines "it \<equiv> sc_buffer (ss_shared ss) ! i"
  defines "ss' \<equiv> evict_cell sz it (the (ri_data it)) (set_cell i (it\<lparr>ri_data := None\<rparr>) ss)"
  shows "ri_data it \<noteq> None" and "rring_ok sz ss'" and "rlog ss = cell_msg it # rlog ss'"
    and "unat (ss_head ss') = Suc (unat (ss_head ss))"
proof -
  let ?h = "unat (ss_head ss)" and ?t = "unat (ss_tail ss)" and ?b = "sc_buffer (ss_shared ss)"
  have r: "ring_ok ri_pos ri_data ?b ?h ?t" using ok by (simp add: rring_ok_def)
  have h: "?h < ?t" using lt by (simp add: word_less_nat_alt)
  have s: "ss_head ss' = ss_head ss + 1" "ss_tail ss' = ss_tail ss"
    "sc_buffer (ss_shared ss') = ?b[i := it\<lparr>ri_data := None\<rparr>]" "sc_mask (ss_shared ss') = sc_mask (ss_shared ss)"
    "ss_bytes_total ss' = ss_bytes_total ss - of_nat (sz (the (ri_data it)))"
    by (simp_all add: ss'_def evict_cell_def set_cell_def)
  show h1: "unat (ss_head ss') = Suc ?h" unfolding s using lt by (rule unat_inc)
  show "ri_data it \<noteq> None"
    using richat_ring.ring_cellD(1) [OF r, of ?h] r h by (simp add: it_def i_def ring_ok_def)
  have "rlog ss' = tl (rlog ss)"
    unfolding rlog_def h1 s(2,3) i_def using richat_ring.ring_clear_cells [OF r] h by (simp add: map_tl)
  then show l: "rlog ss = cell_msg it # rlog ss'" using rlog_Cons [of ss] h by (simp add: it_def i_def)
  have "ring_ok ri_pos ri_data (sc_buffer (ss_shared ss')) (unat (ss_head ss')) (unat (ss_tail ss'))"
    using richat_ring.ring_clear [OF r] h unfolding h1 s(2,3) by (simp add: i_def it_def)
  moreover have "ss_bytes_total ss = msgs_bytes sz (rlog ss)" using ok by (simp add: rring_ok_def)
  then have "ss_bytes_total ss' = msgs_bytes sz (rlog ss')" unfolding s(5) using l by (simp add: cell_msg_def)
  ultimately show "rring_ok sz ss'" using ok s by (simp add: rring_ok_def)
qed

text \<open>What an eviction leaves unchanged, and what it reports.\<close>

definition evicts :: "'d entry list \<Rightarrow> slot option \<Rightarrow> ('d, 'w) sender_shared \<Rightarrow> ('d, 'w) sender_shared \<Rightarrow> bool" where
  "evicts dropped r ss ss' \<longleftrightarrow> rlog ss = dropped @ rlog ss' \<and>
     unat (ss_head ss') = unat (ss_head ss) + length dropped \<and>
     (\<forall>x\<in>set dropped. removed_covers r (fst x)) \<and> ss_tail ss' = ss_tail ss \<and>
     length (sc_buffer (ss_shared ss')) = length (sc_buffer (ss_shared ss)) \<and>
     ss_bytes_max ss' = ss_bytes_max ss \<and> ss_incomplete_through ss' = ss_incomplete_through ss \<and>
     sc_slots (ss_shared ss') = sc_slots (ss_shared ss) \<and>
     sc_replay_floor (ss_shared ss') = journal_floor (sc_replay_floor (ss_shared ss)) dropped"

lemma rdrop_by_bytes_spec:
  assumes "rring_ok sz ss"
  shows "\<exists>ss' r' dropped. rdrop_by_bytes sz ss r = Some (ss', r') \<and> rring_ok sz ss' \<and> evicts dropped r' ss ss' \<and>
    (\<forall>s. removed_covers r s \<longrightarrow> removed_covers r' s) \<and>
    (ss_bytes_total ss' < ss_bytes_max ss' \<or> \<not> ss_head ss' < ss_tail ss')"
  using assms
proof (induction sz ss r rule: rdrop_by_bytes.induct)
  case (1 sz ss r)
  show ?case
  proof (cases "ss_bytes_max ss \<le> ss_bytes_total ss \<and> ss_head ss < ss_tail ss")
    case False
    then show ?thesis using "1.prems" by (subst rdrop_by_bytes.simps) (auto simp: evicts_def journal_floor_def intro!: exI [of _ "[]"])
  next
    case True
    let ?i = "unat (ss_head ss) mod length (sc_buffer (ss_shared ss))"
    let ?it = "sc_buffer (ss_shared ss) ! ?i"
    let ?s = "evict_cell sz ?it (the (ri_data ?it)) (set_cell ?i (?it\<lparr>ri_data := None\<rparr>) ss)"
    note step = rdrop_step [OF "1.prems" conjunct2 [OF True]]
    obtain d where d: "ri_data ?it = Some d" using step(1) by auto
    note cell = rring_cell [OF "1.prems", of "ss_head ss"]
    have eq: "rdrop_by_bytes sz ss r = rdrop_by_bytes sz ?s (note_removed r (ri_slot ?it))"
      using True d by (subst rdrop_by_bytes.simps) (simp add: cell)
    from "1.IH" [OF True cell(2) d] step(2) d cell(1)
    obtain ss' r' dropped where IH: "rdrop_by_bytes sz ?s (note_removed r (ri_slot ?it)) = Some (ss', r')"
      "rring_ok sz ss'" "evicts dropped r' ?s ss'"
      "\<forall>s. removed_covers (note_removed r (ri_slot ?it)) s \<longrightarrow> removed_covers r' s"
      "ss_bytes_total ss' < ss_bytes_max ss' \<or> \<not> ss_head ss' < ss_tail ss'" by auto
    have "evicts (cell_msg ?it # dropped) r' ss ss'"
      using IH(3,4) step(3,4) note_removed_covers [of r "ri_slot ?it"]
      by (simp add: evicts_def cell_msg_def)
        (simp add: evict_cell_def set_cell_def journal_floor_def floor_after_def)
    moreover have "\<forall>s. removed_covers r s \<longrightarrow> removed_covers r' s" using IH(4) note_removed_mono by blast
    ultimately show ?thesis unfolding eq using IH(1,2,5) by blast
  qed
qed

lemma rpush_write_spec:
  fixes ss :: "('d, 'w) sender_shared"
  assumes ok: "rring_ok sz ss" and tail: "Suc (unat (ss_tail ss)) < 2 ^ 64"
  shows "\<exists>ss' r dropped. rpush_write sz ss sl m ri = Some (ss', r) \<and> rring_ok sz ss' \<and>
    rlog ss @ [(sl, m, journal_index ri)] = dropped @ rlog ss' \<and> unat (ss_head ss') = unat (ss_head ss) + length dropped \<and>
    (\<forall>x\<in>set dropped. removed_covers r (fst x)) \<and>
    ss_tail ss' = ss_tail ss + 1 \<and> unat (ss_tail ss') = Suc (unat (ss_tail ss)) \<and>
    length (sc_buffer (ss_shared ss')) = length (sc_buffer (ss_shared ss)) \<and>
    ss_bytes_max ss' = ss_bytes_max ss \<and> ss_incomplete_through ss' = ss_incomplete_through ss \<and>
    sc_slots (ss_shared ss') = sc_slots (ss_shared ss) \<and> unat (ss_head ss') \<le> unat (ss_tail ss') \<and>
    sc_replay_floor (ss_shared ss') = journal_floor (sc_replay_floor (ss_shared ss)) dropped"
proof -
  let ?b = "sc_buffer (ss_shared ss)" and ?h = "unat (ss_head ss)" and ?t = "unat (ss_tail ss)"
  let ?n = "length ?b"
  define it where "it = ?b ! (Suc ?t mod ?n)"
  define dropped where "dropped = (if ri_data it = None then [] else [cell_msg it])"
  define r where "r = (if ri_data it = None then None else Some (ri_slot it))"
  define it' where "it' = \<lparr>ri_replay_index = journal_index ri, ri_pos = ss_tail ss + 1,
    ri_slot = sl, ri_data = Some m\<rparr>"
  define ss1 where "ss1 = ss\<lparr>ss_tail := ss_tail ss + 1, ss_bytes_total := ss_bytes_total ss + of_nat (sz m)\<rparr>"
  define ss2 where "ss2 = (if ri_data it = None then ss1 else evict_cell sz it (the (ri_data it)) ss1)"
  define ss' where "ss' = set_cell (Suc ?t mod ?n) it' ss2"
  have ro: "ring_ok ri_pos ri_data ?b ?h ?t" and bytes: "ss_bytes_total ss = msgs_bytes sz (rlog ss)"
    using ok by (simp_all add: rring_ok_def)
  have t1: "unat (ss_tail ss + 1) = Suc ?t" using tail by (simp add: unat_inc_bound)
  note cell = rring_cell [OF ok, of "ss_tail ss + 1", unfolded t1]
  have s: "ss_tail ss' = ss_tail ss + 1" "sc_buffer (ss_shared ss') = ?b[Suc ?t mod ?n := it']"
    "ss_head ss' = (if ri_data it = None then ss_head ss else ss_head ss + 1)"
    "sc_mask (ss_shared ss') = sc_mask (ss_shared ss)"
    "ss_bytes_total ss' = (if ri_data it = None then ss_bytes_total ss + of_nat (sz m)
       else ss_bytes_total ss + of_nat (sz m) - of_nat (sz (the (ri_data it))))"
    by (simp_all add: ss'_def ss2_def ss1_def evict_cell_def set_cell_def)
  have w: "rpush_write sz ss sl m ri = Some (ss', r)"
    using cell by (cases "ri_data it")
      (simp_all add: rpush_write_def Let_def it_def ss'_def ss2_def ss1_def r_def it'_def evict_cell_def journal_index_def)
  have full: "ri_data it \<noteq> None \<longleftrightarrow> Suc ?t = ?h + ?n"
    unfolding it_def by (rule richat_ring.ring_next_full [OF ro])
  have b: "?n < ?h" "?h \<le> Suc ?t" "0 < ?n" using ro by (auto simp: ring_ok_def)
  have h': "unat (ss_head ss') = (if ri_data it = None then ?h else Suc ?h)"
  proof (cases "ri_data it = None")
    case False
    then have "Suc ?h \<le> Suc ?t" using full b by linarith
    then have "Suc ?h < 2 ^ LENGTH(64)" using tail by simp
    with False show ?thesis by (simp add: s unat_inc_bound)
  qed (simp add: s)
  have ro': "ring_ok ri_pos ri_data (sc_buffer (ss_shared ss')) (unat (ss_head ss')) (Suc ?t)"
    unfolding s(2) by (rule richat_ring.ring_write [OF ro]) (use tail t1 h' in \<open>simp_all add: it'_def it_def\<close>)
  have "ring_cells (sc_buffer (ss_shared ss')) (unat (ss_head ss')) (Suc ?t) =
      drop (unat (ss_head ss') - ?h) (ring_cells ?b ?h ?t) @ [it']"
    unfolding s(2) by (rule richat_ring.ring_write_cells [OF ro]) (simp add: h' it_def)
  then have log': "rlog ss' = drop (length dropped) (rlog ss) @ [(sl, m, journal_index ri)]"
    using h' by (simp add: rlog_def s(1) t1 dropped_def drop_map it'_def cell_msg_def)
  have "take (length dropped) (rlog ss) = dropped"
  proof (cases "ri_data it = None")
    case False
    then have e: "Suc ?t = ?h + ?n" using full by simp
    then have "?h \<le> ?t" "?b ! (?h mod ?n) = it" using b by (linarith, simp add: it_def)
    then show ?thesis using rlog_Cons [of ss] False by (cases "rlog ss") (auto simp: dropped_def)
  qed (simp add: dropped_def)
  then have log: "rlog ss @ [(sl, m, journal_index ri)] = dropped @ rlog ss'" "msgs_bytes sz (rlog ss) = msgs_bytes sz dropped + msgs_bytes sz (drop (length dropped) (rlog ss))"
    unfolding log' by (metis append.assoc append_take_drop_id, metis append_take_drop_id msgs_bytes_simps(3))
  have "ss_bytes_total ss' = msgs_bytes sz (rlog ss')"
    unfolding s(5) log' bytes log(2) by (simp add: dropped_def cell_msg_def)
  then have "rring_ok sz ss'" using ok ro' t1 by (simp add: rring_ok_def s)
  moreover have "unat (ss_head ss') \<le> Suc ?t"
    using h' b full by (cases "ri_data it = None") (simp_all add: Suc_le_eq)
  ultimately show ?thesis using w log(1) h' t1 s
    by (intro exI [of _ ss'] exI [of _ r] exI [of _ dropped])
      (auto simp: dropped_def r_def removed_covers_def cell_msg_def ss'_def ss2_def ss1_def evict_cell_def set_cell_def
        journal_floor_def floor_after_def)
qed

lemma removed_covers_upto:
  "slot_covered (Some (max (case u of Some x \<Rightarrow> x | None \<Rightarrow> 0) r)) s \<longleftrightarrow> slot_covered u s \<or> removed_covers (Some r) s"
  by (cases u) (auto simp: slot_covered_def removed_covers_def max_def)

lemma rpush_slots_fields [simp]:
  "ss_head (rpush_slots ss sl r) = ss_head ss" "ss_tail (rpush_slots ss sl r) = ss_tail ss"
  "sc_buffer (ss_shared (rpush_slots ss sl r)) = sc_buffer (ss_shared ss)"
  "sc_mask (ss_shared (rpush_slots ss sl r)) = sc_mask (ss_shared ss)"
  "ss_bytes_total (rpush_slots ss sl r) = ss_bytes_total ss" "ss_bytes_max (rpush_slots ss sl r) = ss_bytes_max ss"
  "sc_head (ss_shared (rpush_slots ss sl r)) = ss_head ss" "sc_tail (ss_shared (rpush_slots ss sl r)) = ss_tail ss"
  "sc_replay_floor (ss_shared (rpush_slots ss sl r)) = sc_replay_floor (ss_shared ss)"
  by (simp_all add: rpush_slots_def Let_def split: option.split)

lemma rpush_slots_covered:
  "slot_covered (ss_incomplete_through (rpush_slots ss sl r)) s \<longleftrightarrow>
     slot_covered (ss_incomplete_through ss) s \<or> removed_covers r s"
  by (cases r) (simp_all add: rpush_slots_def Let_def removed_covers_upto, simp add: removed_covers_def)

lemma rpush_slots_get:
  assumes "bt_ok (sc_slots (ss_shared ss))"
  shows "bt_ok (sc_slots (ss_shared (rpush_slots ss sl r)))"
    and "bt_get (sc_slots (ss_shared (rpush_slots ss sl r))) s =
      (if r \<noteq> None \<and> (slot_covered (ss_incomplete_through ss) s \<or> removed_covers r s) then None
       else if s = sl \<and> \<not> slot_covered (ss_incomplete_through ss) sl
         \<and> bt_get (sc_slots (ss_shared ss)) s = None then Some (ss_tail ss)
       else bt_get (sc_slots (ss_shared ss)) s)"
proof -
  define m2 where "m2 = (if slot_covered (ss_incomplete_through ss) sl then sc_slots (ss_shared ss)
    else bt_or_insert sl (ss_tail ss) (sc_slots (ss_shared ss)))"
  have ok2: "bt_ok m2" using assms by (simp add: m2_def bt_oks)
  have g2: "bt_get m2 s = (if s = sl \<and> \<not> slot_covered (ss_incomplete_through ss) sl
         \<and> bt_get (sc_slots (ss_shared ss)) s = None then Some (ss_tail ss)
       else bt_get (sc_slots (ss_shared ss)) s)"
    using assms by (auto simp: m2_def map_laws split: option.splits)
  have m: "sc_slots (ss_shared (rpush_slots ss sl r)) = (case r of None \<Rightarrow> m2 | Some u \<Rightarrow>
      bt_pop_while (\<lambda>s. s \<le> max (case ss_incomplete_through ss of Some x \<Rightarrow> x | None \<Rightarrow> 0) u) m2)"
    by (simp add: rpush_slots_def Let_def m2_def split: option.split)
  show "bt_ok (sc_slots (ss_shared (rpush_slots ss sl r)))"
    unfolding m using ok2 by (simp add: bt_oks split: option.split)
  show "bt_get (sc_slots (ss_shared (rpush_slots ss sl r))) s =
      (if r \<noteq> None \<and> (slot_covered (ss_incomplete_through ss) s \<or> removed_covers r s) then None
       else if s = sl \<and> \<not> slot_covered (ss_incomplete_through ss) sl
         \<and> bt_get (sc_slots (ss_shared ss)) s = None then Some (ss_tail ss)
       else bt_get (sc_slots (ss_shared ss)) s)"
  proof (cases r)
    case None
    then show ?thesis unfolding m by (simp add: g2)
  next
    case (Some u)
    define x where "x = max (case ss_incomplete_through ss of Some x \<Rightarrow> x | None \<Rightarrow> 0) u"
    have "s \<le> x \<longleftrightarrow> slot_covered (ss_incomplete_through ss) s \<or> removed_covers r s"
      using removed_covers_upto [of "ss_incomplete_through ss" u s] Some by (simp add: x_def slot_covered_def)
    then have "bt_get (bt_pop_while (\<lambda>s. s \<le> x) m2) s =
        (if slot_covered (ss_incomplete_through ss) s \<or> removed_covers r s then None else bt_get m2 s)"
      using bt_get_pop_upto [OF ok2, of x s] by (simp add: not_le [symmetric])
    then show ?thesis unfolding m x_def [symmetric] g2 by (simp add: Some x_def)
  qed
qed

text \<open>The index of the complete slots over a push.\<close>

lemma slots_complete_push:
  assumes inv: "slots_complete N hist ss" and N: "unat (ss_tail ss2) = N + 1 + length hist"
    and ev: "\<And>i. i < Suc (length hist) \<Longrightarrow> N + 1 + i < unat (ss_head ss2) \<Longrightarrow>
      N + 1 + i < unat (ss_head ss) \<or> removed_covers r ((hist @ [sl]) ! i)"
    and h: "unat (ss_head ss) \<le> Suc (N + length hist)"
    and same: "ss_incomplete_through ss2 = ss_incomplete_through ss" "sc_slots (ss_shared ss2) = sc_slots (ss_shared ss)"
  shows "slots_complete N (hist @ [sl]) (rpush_slots ss2 sl r)"
  unfolding slots_complete_def
proof (intro conjI allI impI)
  let ?ss = "rpush_slots ss2 sl r"
  let ?first = "\<lambda>hist (s :: slot) (v :: u64). \<exists>i < length hist. unat v = N + 1 + i \<and> hist ! i = s \<and> (\<forall>j < i. hist ! j \<noteq> s)"
  have bt: "bt_ok (sc_slots (ss_shared ss2))" using inv same by (simp add: slots_complete_def)
  show "bt_ok (sc_slots (ss_shared ?ss))" by (rule rpush_slots_get(1) [OF bt])
  have inv_ev: "\<And>i. i < length hist \<Longrightarrow> N + 1 + i < unat (ss_head ss) \<Longrightarrow> slot_covered (ss_incomplete_through ss) (hist ! i)"
    using inv by (auto simp: slots_complete_def)
  show "slot_covered (ss_incomplete_through ?ss) ((hist @ [sl]) ! i)"
    if "i < length (hist @ [sl])" "N + 1 + i < unat (ss_head ?ss)" for i
  proof -
    have "N + 1 + i < unat (ss_head ss) \<or> removed_covers r ((hist @ [sl]) ! i)" using ev [of i] that by simp
    then show ?thesis
    proof
      assume a: "N + 1 + i < unat (ss_head ss)"
      then have "i < length hist" using h by linarith
      with inv_ev a show ?thesis by (simp add: rpush_slots_covered same nth_append)
    qed (simp add: rpush_slots_covered)
  qed
  fix s v
  have old: "bt_get (sc_slots (ss_shared ss2)) s = Some v' \<longleftrightarrow>
      \<not> slot_covered (ss_incomplete_through ss) s \<and> ?first hist s v'" for v'
    using inv same by (auto simp: slots_complete_def)
  have new: "?first (hist @ [sl]) s v' \<longleftrightarrow> ?first hist s v' \<or> s \<notin> set hist \<and> s = sl \<and> v' = ss_tail ss2" for v'
  proof
    assume "?first (hist @ [sl]) s v'"
    then obtain i where i: "i < Suc (length hist)" "unat v' = N + 1 + i" "(hist @ [sl]) ! i = s"
      "\<forall>j<i. (hist @ [sl]) ! j \<noteq> s" by auto
    show "?first hist s v' \<or> s \<notin> set hist \<and> s = sl \<and> v' = ss_tail ss2"
    proof (cases "i < length hist")
      case True
      then show ?thesis using i by (auto simp: nth_append)
    next
      case False
      then have "i = length hist" using i(1) by simp
      then show ?thesis using i N by (auto simp: nth_append in_set_conv_nth word_unat_eq_iff)
    qed
  next
    assume "?first hist s v' \<or> s \<notin> set hist \<and> s = sl \<and> v' = ss_tail ss2"
    then show "?first (hist @ [sl]) s v'"
    proof
      assume "?first hist s v'"
      then show ?thesis by (fastforce simp: nth_append)
    next
      assume "s \<notin> set hist \<and> s = sl \<and> v' = ss_tail ss2"
      then show ?thesis using N by (intro exI [of _ "length hist"]) (auto simp: nth_append in_set_conv_nth)
    qed
  qed
  have hist: "bt_get (sc_slots (ss_shared ss2)) s = None \<Longrightarrow> \<not> slot_covered (ss_incomplete_through ss) s \<Longrightarrow> s \<notin> set hist"
  proof
    assume none: "bt_get (sc_slots (ss_shared ss2)) s = None" "\<not> slot_covered (ss_incomplete_through ss) s" "s \<in> set hist"
    define i where "i = (LEAST i. i < length hist \<and> hist ! i = s)"
    have ex: "\<exists>i. i < length hist \<and> hist ! i = s" using none(3) by (simp add: in_set_conv_nth)
    have i: "i < length hist" "hist ! i = s" using LeastI_ex [OF ex] by (simp_all add: i_def)
    have f: "\<forall>j < i. hist ! j \<noteq> s" using not_less_Least i(1) unfolding i_def by fastforce
    have "N + 1 + i < 2 ^ 64" using i(1) N unsigned_less [of "ss_tail ss2", where 'a = nat] by simp
    then have "unat (of_nat (N + 1 + i) :: u64) = N + 1 + i" by (rule unat_of_nat_u64)
    then have "?first hist s (of_nat (N + 1 + i))" by (intro exI [of _ i] conjI i f)
    with none(2) have "bt_get (sc_slots (ss_shared ss2)) s = Some (of_nat (N + 1 + i))"
      using old [of "of_nat (N + 1 + i)"] by blast
    with none(1) show False by simp
  qed
  show "(bt_get (sc_slots (ss_shared ?ss)) s = Some v) =
      (\<not> slot_covered (ss_incomplete_through ?ss) s \<and> ?first (hist @ [sl]) s v)"
  proof (cases "slot_covered (ss_incomplete_through ss) s \<or> removed_covers r s")
    case True
    have n: "bt_get (sc_slots (ss_shared ss2)) s = None" if "slot_covered (ss_incomplete_through ss) s"
      using old that by (cases "bt_get (sc_slots (ss_shared ss2)) s") blast+
    have "bt_get (sc_slots (ss_shared ?ss)) s = None"
      unfolding rpush_slots_get(2) [OF bt] same(1) using True n by (cases r) (auto simp: removed_covers_def)
    with True show ?thesis by (simp add: rpush_slots_covered same(1))
  next
    case False
    have c: "\<not> slot_covered (ss_incomplete_through ss) s" "\<not> removed_covers r s" using False by blast+
    have g: "bt_get (sc_slots (ss_shared ?ss)) s = (if s = sl \<and> bt_get (sc_slots (ss_shared ss2)) s = None
        then Some (ss_tail ss2) else bt_get (sc_slots (ss_shared ss2)) s)"
      unfolding rpush_slots_get(2) [OF bt] same(1) using c by auto
    have f: "?first hist s v \<longleftrightarrow> bt_get (sc_slots (ss_shared ss2)) s = Some v" using old [of v] c(1) by blast
    have h: "s \<in> set hist \<longleftrightarrow> bt_get (sc_slots (ss_shared ss2)) s \<noteq> None"
    proof
      assume "bt_get (sc_slots (ss_shared ss2)) s \<noteq> None"
      then obtain v' where "bt_get (sc_slots (ss_shared ss2)) s = Some v'" by blast
      then show "s \<in> set hist" using old [of v'] by (auto simp: in_set_conv_nth)
    qed (use hist c in blast)
    show ?thesis
      unfolding rpush_slots_covered new same(1) f g h using c by auto
  qed
qed

lemma rpush_ok:
  fixes ss :: "('d, 'w) sender_shared"
  assumes ok: "rchan_ok sz fl ms ss" and tail: "Suc (unat (ss_tail ss)) < 2 ^ 64"
  shows "\<exists>ss'. rpush sz ss sl m ri = Some ss' \<and> rchan_ok sz fl (ms @ [(sl, m, journal_index ri)]) ss' \<and>
    length (sc_buffer (ss_shared ss')) = length (sc_buffer (ss_shared ss)) \<and> ss_bytes_max ss' = ss_bytes_max ss"
proof -
  let ?N = "length (sc_buffer (ss_shared ss))"
  have rr: "rring_ok sz ss" and len: "unat (ss_tail ss) = ?N + length ms"
    and log: "rlog ss = drop (unat (ss_head ss) - ?N - 1) ms"
    and sc: "slots_complete ?N (map fst ms) ss" using ok by (simp_all add: rchan_ok_def)
  have hN: "?N < unat (ss_head ss)" and hT: "unat (ss_head ss) \<le> Suc (unat (ss_tail ss))"
    using rr by (auto simp: rring_ok_def ring_ok_def)
  obtain ss1 r1 d1 where w: "rpush_write sz ss sl m ri = Some (ss1, r1)" "rring_ok sz ss1"
      "rlog ss @ [(sl, m, journal_index ri)] = d1 @ rlog ss1" "unat (ss_head ss1) = unat (ss_head ss) + length d1"
      "\<forall>x\<in>set d1. removed_covers r1 (fst x)" "unat (ss_tail ss1) = Suc (unat (ss_tail ss))"
      "length (sc_buffer (ss_shared ss1)) = ?N" "ss_bytes_max ss1 = ss_bytes_max ss"
      "ss_incomplete_through ss1 = ss_incomplete_through ss" "sc_slots (ss_shared ss1) = sc_slots (ss_shared ss)"
      "unat (ss_head ss1) \<le> unat (ss_tail ss1)"
      "sc_replay_floor (ss_shared ss1) = journal_floor (sc_replay_floor (ss_shared ss)) d1"
    using rpush_write_spec [OF rr tail, of sl m ri] by blast
  obtain ss2 r2 d2 where e: "rdrop_by_bytes sz ss1 r1 = Some (ss2, r2)" "rring_ok sz ss2" "evicts d2 r2 ss1 ss2"
      "\<forall>s. removed_covers r1 s \<longrightarrow> removed_covers r2 s"
      "ss_bytes_total ss2 < ss_bytes_max ss2 \<or> \<not> ss_head ss2 < ss_tail ss2"
    using rdrop_by_bytes_spec [OF w(2), of r1] by blast
  let ?ss = "rpush_slots ss2 sl r2"
  let ?d = "d1 @ d2"
  have f: "unat (ss_head ss2) = unat (ss_head ss) + length ?d" "ss_tail ss2 = ss_tail ss1"
    "length (sc_buffer (ss_shared ss2)) = ?N" "ss_bytes_max ss2 = ss_bytes_max ss"
    "ss_incomplete_through ss2 = ss_incomplete_through ss" "sc_slots (ss_shared ss2) = sc_slots (ss_shared ss)"
    "\<forall>x\<in>set ?d. removed_covers r2 (fst x)" using e(3,4) w by (auto simp: evicts_def)
  have l: "rlog ss @ [(sl, m, journal_index ri)] = ?d @ rlog ss2" using w(3) e(3) by (simp add: evicts_def)
  have sub: "unat (ss_head ss) - ?N - 1 \<le> length ms" using hT len by linarith
  have whole: "drop (unat (ss_head ss) - ?N - 1) (ms @ [(sl, m, journal_index ri)]) = ?d @ rlog ss2"
    using l log sub by (simp add: drop_append)
  then have "rlog ss2 = drop (length ?d) (drop (unat (ss_head ss) - ?N - 1) (ms @ [(sl, m, journal_index ri)]))" by simp
  also have "\<dots> = drop (unat (ss_head ss2) - ?N - 1) (ms @ [(sl, m, journal_index ri)])"
    using f(1) hN by (simp only: drop_drop) (simp add: add.commute)
  finally have log': "rlog ?ss = drop (unat (ss_head ss2) - ?N - 1) (ms @ [(sl, m, journal_index ri)])" by (simp add: rlog_def)
  have "slots_complete ?N (map fst ms @ [sl]) ?ss"
  proof (rule slots_complete_push [OF sc])
    show "unat (ss_tail ss2) = ?N + 1 + length (map fst ms)" using f(2) w(6) len by simp
    show "unat (ss_head ss) \<le> Suc (?N + length (map fst ms))" using hT len by simp
    fix i assume i: "i < Suc (length (map fst ms))" "?N + 1 + i < unat (ss_head ss2)"
    show "?N + 1 + i < unat (ss_head ss) \<or> removed_covers r2 ((map fst ms @ [sl]) ! i)"
    proof (cases "?N + 1 + i < unat (ss_head ss)")
      case False
      define j where "j = i - (unat (ss_head ss) - ?N - 1)"
      have j: "j < length ?d" "i = unat (ss_head ss) - ?N - 1 + j" using False i(2) f(1) hN by (simp_all add: j_def)
      have "(ms @ [(sl, m, journal_index ri)]) ! i = drop (unat (ss_head ss) - ?N - 1) (ms @ [(sl, m, journal_index ri)]) ! j"
        unfolding j(2) using sub by (subst nth_drop) simp_all
      also have "\<dots> = ?d ! j" unfolding whole nth_append using j(1) by simp
      finally have "(ms @ [(sl, m, journal_index ri)]) ! i = ?d ! j" .
      then have "map fst (ms @ [(sl, m, journal_index ri)]) ! i = fst (?d ! j)" using i(1) by (subst nth_map) simp_all
      then have "(map fst ms @ [sl]) ! i = fst (?d ! j)" by simp
      then show ?thesis using f(7) j(1) nth_mem by metis
    qed simp
  qed (use f in simp_all)
  moreover have "rring_ok sz ?ss" using e(2) by (simp add: rring_ok_def rlog_def)
  moreover have "unat (ss_tail ss2) < unat (ss_head ss2) \<or> ss_bytes_total ss2 < ss_bytes_max ss2 \<or> ss_head ss2 = ss_tail ss2"
    using e(5) by (auto simp: word_less_nat_alt word_unat_eq_iff)
  moreover have "sc_replay_floor (ss_shared ss2) =
      journal_floor fl (take (unat (ss_head ss2) - ?N - 1) (ms @ [(sl, m, journal_index ri)]))"
  proof -
    have "unat (ss_head ss2) - ?N - 1 = unat (ss_head ss) - ?N - 1 + length ?d" using f(1) hN by linarith
    moreover have "take (length ?d) (drop (unat (ss_head ss) - ?N - 1) (ms @ [(sl, m, journal_index ri)])) = ?d"
      unfolding whole by simp
    ultimately have "take (unat (ss_head ss2) - ?N - 1) (ms @ [(sl, m, journal_index ri)]) =
        take (unat (ss_head ss) - ?N - 1) (ms @ [(sl, m, journal_index ri)]) @ ?d" by (simp only: take_add)
    moreover have "take (unat (ss_head ss) - ?N - 1) (ms @ [(sl, m, journal_index ri)]) =
        take (unat (ss_head ss) - ?N - 1) ms" using sub by simp
    ultimately have "take (unat (ss_head ss2) - ?N - 1) (ms @ [(sl, m, journal_index ri)]) =
        take (unat (ss_head ss) - ?N - 1) ms @ ?d" by simp
    then show ?thesis using ok w(12) e(3) by (simp add: rchan_ok_def evicts_def journal_floor_def)
  qed
  ultimately have "rchan_ok sz fl (ms @ [(sl, m, journal_index ri)]) ?ss"
    using log' f(2,3) w(6) len by (simp add: rchan_ok_def)
  moreover have "rpush sz ss sl m ri = Some ?ss" by (simp add: rpush_def w(1) e(1))
  ultimately show ?thesis using f(3,4) by simp
qed

lemma rchan_new:
  assumes "N = 2 ^ k" and "k < 63"
  shows "rchan_ok sz 0 [] (sender_shared_new (shared_channel_new N richat :: ('d, 'w) shared_channel) N mx c)"
proof -
  define sh :: "('d, 'w) shared_channel" where "sh = shared_channel_new N richat"
  define ss where "ss = sender_shared_new sh N mx c"
  have N: "0 < N" "N < 2 ^ 63"
    using assms power_strict_increasing [of k 63 "2 :: nat"] by simp_all
  have u: "unat (of_nat N :: u64) = N" using N by (simp add: unat_of_nat_u64)
  have u1: "unat (of_nat N + 1 :: u64) = Suc N"
    using unat_of_nat_u64 [of "Suc N"] N by (simp add: add.commute)
  have m: "(of_nat N :: u64) - 1 = mask k" using assms by (simp add: mask_eq_exp_minus_1)
  have f: "unat (ss_head ss) = Suc N" "unat (ss_tail ss) = N" "ss_shared ss = sh" "ss_bytes_total ss = 0"
    "ss_incomplete_through ss = None"
    using u u1 by (simp_all add: ss_def sender_shared_new_def)
  have b: "length (sc_buffer sh) = N" "sc_mask sh = mask k" "sc_slots sh = []" "sc_head sh = ss_head ss" "sc_tail sh = ss_tail ss"
    "sc_replay_floor sh = 0"
    by (simp_all add: sh_def ss_def sender_shared_new_def shared_channel_new_def m)
  have "unat (of_nat (p mod N) :: u64) = (if p = N then 0 else p)" if "N < p + N" "p \<le> N" for p
    using that N by (cases "p = N") (simp_all add: unat_of_nat_u64)
  then have ri: "ring_ok ri_pos ri_data (sc_buffer sh) (Suc N) N"
    using N by (simp add: ring_ok_def sh_def shared_channel_new_def)
  have l: "rlog ss = []" by (simp add: rlog_def ring_cells_def f)
  have "rring_ok sz ss" using ri f b l assms(1) by (auto simp: rring_ok_def)
  moreover have "slots_complete N [] ss"
    by (simp add: slots_complete_def f b)
  ultimately have "rchan_ok sz 0 [] ss" using l f b by (simp add: rchan_ok_def journal_floor_def)
  then show ?thesis by (simp add: ss_def sh_def)
qed

lemma rpush_all_ok:
  assumes "rchan_ok sz fl ms ss" and "unat (ss_tail ss) + length l < 2 ^ 64"
  shows "\<exists>ss'. rpush_all sz ss l = Some ss' \<and> rchan_ok sz fl (ms @ map (\<lambda>(sl, m, i). (sl, m, journal_index i)) l) ss' \<and>
    length (sc_buffer (ss_shared ss')) = length (sc_buffer (ss_shared ss)) \<and> ss_bytes_max ss' = ss_bytes_max ss"
  using assms
proof (induction l arbitrary: ms ss)
  case (Cons x l)
  obtain sl m i where x: "x = (sl, m, i)" by (cases x)
  have "Suc (unat (ss_tail ss)) < 2 ^ 64" using Cons.prems(2) by simp
  from rpush_ok [OF Cons.prems(1) this, of sl m i] obtain ss1 where
    p: "rpush sz ss sl m i = Some ss1" "rchan_ok sz fl (ms @ [(sl, m, journal_index i)]) ss1"
      "length (sc_buffer (ss_shared ss1)) = length (sc_buffer (ss_shared ss))" "ss_bytes_max ss1 = ss_bytes_max ss"
    by blast
  have "unat (ss_tail ss1) = Suc (unat (ss_tail ss))"
    using p(2,3) Cons.prems(1) by (simp add: rchan_ok_def)
  then have "unat (ss_tail ss1) + length l < 2 ^ 64" using Cons.prems(2) by simp
  from Cons.IH [OF p(2) this] show ?case using p by (auto simp: x)
qed simp

lemma rpush_all_new:
  assumes "N = 2 ^ k" and "k < 63" and "N + length l < 2 ^ 64"
  shows "\<exists>ss. rpush_all sz (sender_shared_new (shared_channel_new N richat :: ('d, 'w) shared_channel) N mx c) l = Some ss \<and>
    rchan_ok sz 0 (map (\<lambda>(sl, m, i). (sl, m, journal_index i)) l) ss \<and>
    length (sc_buffer (ss_shared ss)) = N \<and> ss_bytes_max ss = mx"
proof -
  let ?new = "sender_shared_new (shared_channel_new N richat :: ('d, 'w) shared_channel) N mx c"
  have "unat (of_nat N :: u64) = N" using assms(3) by (intro unat_of_nat_u64) simp
  then have "unat (ss_tail ?new) + length l < 2 ^ 64" using assms(3) by (simp add: sender_shared_new_def)
  from rpush_all_ok [OF rchan_new [OF assms(1,2)] this] show ?thesis
    by (simp add: sender_shared_new_def shared_channel_new_def)
qed

text \<open>Reading a position of the ring.\<close>

lemma try_recv_in_ring:
  assumes ok: "rchan_ok sz fl ms ss" and i: "i < length ms"
    and h: "unat (ss_head ss) \<le> length (sc_buffer (ss_shared ss)) + 1 + i"
    and p: "unat p = length (sc_buffer (ss_shared ss)) + 1 + i"
  shows "try_recv_shared (ss_shared ss) p = Some (Inr (Some (fst (snd (ms ! i)))))"
proof -
  let ?b = "sc_buffer (ss_shared ss)" and ?h = "unat (ss_head ss)" and ?t = "unat (ss_tail ss)"
  have rr: "rring_ok sz ss" and tl: "?t = length ?b + length ms" and log: "rlog ss = drop (?h - length ?b - 1) ms"
    and sh: "sc_tail (ss_shared ss) = ss_tail ss" using ok by (simp_all add: rchan_ok_def)
  have ro: "ring_ok ri_pos ri_data ?b ?h ?t" using rr by (simp add: rring_ok_def)
  have b: "length ?b < ?h" "Suc ?t \<le> ?h + length ?b" using ro by (auto simp: ring_ok_def)
  have pt: "unat p \<le> ?t" "?h \<le> unat p" "?t < unat p + length ?b" using p i tl h b by simp_all
  let ?it = "?b ! (unat p mod length ?b)"
  have pos: "ri_pos ?it = p"
    using richat_ring.ring_cellD(2) [OF ro pt(3,1)] p by (simp add: word_unat_eq_iff)
  obtain d where d: "ri_data ?it = Some d" using richat_ring.ring_cellD(1) [OF ro pt(3,1)] pt(2) by auto
  let ?j = "unat p - ?h"
  have "rlog ss ! ?j = cell_msg ?it"
    using pt unfolding rlog_def ring_cells_def by (simp add: nth_append less_Suc_eq_le del: upt_Suc)
  moreover have "rlog ss ! ?j = ms ! i" unfolding log using p h b i by simp
  ultimately have "fst (snd (ms ! i)) = d" using d by (simp add: cell_msg_def)
  then show ?thesis using pt(1) pos d
    by (simp add: try_recv_shared_def sh rring_cell(2) [OF rr] word_le_nat_alt)
qed

text \<open>The binary search over a sorted window.\<close>

lemma head_search_sorted:
  fixes low high r :: u64
  assumes cell: "\<And>p :: u64. low \<le> p \<Longrightarrow> p < high \<Longrightarrow> \<exists>it. cell_at sh p = Some it \<and> ri_replay_index it = f (unat p)"
    and srt: "\<And>a b. unat low \<le> a \<Longrightarrow> a \<le> b \<Longrightarrow> b < unat high \<Longrightarrow> f a \<le> f b" and le: "low \<le> high"
  shows "\<exists>p. head_search sh r low high = Some p \<and> low \<le> p \<and> p \<le> high \<and>
    (\<forall>a. unat low \<le> a \<and> a < unat p \<longrightarrow> f a < r) \<and> (\<forall>a. unat p \<le> a \<and> a < unat high \<longrightarrow> r \<le> f a)"
  using assms
proof (induction sh r low high rule: head_search.induct)
  case (1 sh r low high)
  show ?case
  proof (cases "low < high")
    case False
    then have "low = high" using "1.prems"(3) by simp
    then show ?thesis by (subst head_search.simps) auto
  next
    case True
    define mid where "mid = low + (high - low) div 2"
    have m: "unat mid = unat low + (unat high - unat low) div 2"
      unfolding mid_def by (rule search_mid [OF True])
    have lt: "unat low < unat high" using True by (simp add: word_less_nat_alt)
    have mh: "low \<le> mid" "mid < high" using m lt by (simp_all add: word_le_nat_alt word_less_nat_alt)
    have m1: "unat (mid + 1) = Suc (unat mid)" using mh(2) by (rule unat_inc)
    obtain it where it: "cell_at sh mid = Some it" "ri_replay_index it = f (unat mid)"
      using "1.prems"(1) [OF mh] by blast
    have mn: "unat low \<le> unat mid" "unat mid < unat high" using mh by (simp_all add: word_le_nat_alt word_less_nat_alt)
    show ?thesis
    proof (cases "f (unat mid) < r")
      case True
      have c: "\<exists>it. cell_at sh p = Some it \<and> ri_replay_index it = f (unat p)" if "mid + 1 \<le> p" "p < high" for p
        using "1.prems"(1) [of p] that m1 mn by (simp add: word_le_nat_alt)
      have s: "f a \<le> f b" if "unat (mid + 1) \<le> a" "a \<le> b" "b < unat high" for a b
        using "1.prems"(2) [of a b] that m1 mn by linarith
      have h: "mid + 1 \<le> high" using m1 mn by (simp add: word_le_nat_alt)
      from "1.IH"(1) [OF \<open>low < high\<close> mid_def it(1) _ c s h] True it(2) obtain p where
        p: "head_search sh r (mid + 1) high = Some p" "mid + 1 \<le> p" "p \<le> high"
          "\<forall>a. unat (mid + 1) \<le> a \<and> a < unat p \<longrightarrow> f a < r" "\<forall>a. unat p \<le> a \<and> a < unat high \<longrightarrow> r \<le> f a" by auto
      have "f a < r" if "unat low \<le> a" "a < unat p" for a
      proof (cases "a \<le> unat mid")
        case True
        then show ?thesis using "1.prems"(2) [OF that(1) True mn(2)] \<open>f (unat mid) < r\<close> by simp
      next
        case False
        then show ?thesis using p(4) that m1 by simp
      qed
      moreover have "head_search sh r low high = Some p"
        using \<open>low < high\<close> it True p(1) by (subst head_search.simps) (simp add: Let_def mid_def [symmetric])
      moreover have "low \<le> p" using p(2) m1 mn by (simp add: word_le_nat_alt)
      ultimately show ?thesis using p(3,5) by blast
    next
      case False
      have c: "\<exists>it. cell_at sh p = Some it \<and> ri_replay_index it = f (unat p)" if "low \<le> p" "p < mid" for p
        using "1.prems"(1) [of p] that mh(2) by simp
      have s: "f a \<le> f b" if "unat low \<le> a" "a \<le> b" "b < unat mid" for a b
        using "1.prems"(2) [of a b] that mn by linarith
      from "1.IH"(2) [OF \<open>low < high\<close> mid_def it(1) _ c s mh(1)] False it(2) obtain p where
        p: "head_search sh r low mid = Some p" "low \<le> p" "p \<le> mid"
          "\<forall>a. unat low \<le> a \<and> a < unat p \<longrightarrow> f a < r" "\<forall>a. unat p \<le> a \<and> a < unat mid \<longrightarrow> r \<le> f a" by auto
      have "r \<le> f a" if "unat p \<le> a" "a < unat high" for a
      proof (cases "a < unat mid")
        case False
        then have "f (unat mid) \<le> f a" using "1.prems"(2) [of "unat mid" a] that mn by simp
        then show ?thesis using \<open>\<not> f (unat mid) < r\<close> by simp
      qed (use p(5) that in blast)
      moreover have "head_search sh r low high = Some p"
        using \<open>low < high\<close> it False p(1) by (subst head_search.simps) (simp add: Let_def mid_def [symmetric])
      moreover have "p \<le> high" using p(3) mh(2) by simp
      ultimately show ?thesis using p(2,4) by blast
    qed
  qed
qed

lemma journal_floor_last:
  assumes "\<forall>x\<in>set l. snd (snd x) \<noteq> u64_MAX"
  shows "journal_floor fl l = (if l = [] then fl else snd (snd (last l)) + 1)"
  using assms by (induction l rule: rev_induct) (auto simp: journal_floor_def)

lemma last_take_nth: "0 < n \<Longrightarrow> n \<le> length l \<Longrightarrow> last (take n l) = l ! (n - 1) \<and> take n l \<noteq> []"
  by (cases n) (auto simp: take_Suc_conv_app_nth)

lemma word_less_inc:
  fixes x r :: u64
  assumes "x \<noteq> - 1"
  shows "r < x + 1 \<longleftrightarrow> r \<le> x"
proof -
  have "x < - 1" using assms by (simp add: word_order.not_eq_extremum)
  then have "unat (x + 1) = Suc (unat x)" by (rule unat_inc)
  then show ?thesis by (simp add: word_less_nat_alt word_le_nat_alt less_Suc_eq_le)
qed

lemma rcell_in_ring:
  assumes ok: "rchan_ok sz fl ms ss" and p: "ss_head ss \<le> p" "unat p \<le> unat (ss_tail ss)"
  shows "\<exists>it. cell_at (ss_shared ss) p = Some it \<and>
    ri_replay_index it = snd (snd (ms ! (unat p - length (sc_buffer (ss_shared ss)) - 1)))"
proof -
  let ?b = "sc_buffer (ss_shared ss)" and ?h = "unat (ss_head ss)"
  have rr: "rring_ok sz ss" and log: "rlog ss = drop (?h - length ?b - 1) ms" and tl: "unat (ss_tail ss) = length ?b + length ms"
    using ok by (simp_all add: rchan_ok_def)
  have b: "length ?b < ?h" using rr by (auto simp: rring_ok_def ring_ok_def)
  have hp: "?h \<le> unat p" using p(1) by (simp add: word_le_nat_alt)
  have "rlog ss ! (unat p - ?h) = cell_msg (?b ! (unat p mod length ?b))"
    using hp p(2) unfolding rlog_def ring_cells_def by (simp add: less_Suc_eq_le del: upt_Suc)
  moreover have "rlog ss ! (unat p - ?h) = ms ! (unat p - length ?b - 1)"
    unfolding log using hp b p(2) tl by simp
  ultimately show ?thesis using rring_cell(2) [OF rr, of p] by (simp add: cell_msg_def)
qed

definition example_run :: "(slot \<times> bytes \<times> u64 option) list" where
  "example_run = [(1, [1], Some 10), (1, [2], Some 11), (2, [3], Some 12), (2, [4], Some 13), (3, [5], Some 14)]"

definition example_entries :: "bytes entry list" where
  "example_entries = [(1, [1], 10), (1, [2], 11), (2, [3], 13), (2, [4], 14), (3, [5], 17)]"

definition example_sender :: "(bytes, unit) sender_shared" where
  "example_sender = sender_shared_new (shared_channel_new 4 True) 4 100 Processed"

subsection \<open>Properties\<close>

text \<open>\<^bold>\<open>C18.\<close> The server's ring is a bounded log: any run of pushes into a fresh ring of \<open>N\<close> cells
  returns (it never panics), the ring holds a suffix of what was pushed with at most \<open>N\<close>
  messages, the byte count is the sum of their sizes, and it is below the limit unless at
  most one message is left.\<close>

theorem richat_ring_bounded_log:
  assumes "N = 2 ^ k" and "k < 63" and "N + length l < 2 ^ 64"
  shows "\<exists>ss. rpush_all sz (sender_shared_new (shared_channel_new N richat :: ('d, 'w) shared_channel) N mx c) l = Some ss \<and>
    (\<exists>n \<le> length l. rlog ss = drop n (map (\<lambda>(sl, m, i). (sl, m, journal_index i)) l)) \<and> length (rlog ss) \<le> N \<and>
    ss_bytes_total ss = of_nat (sum_list (map (\<lambda>x. sz (fst (snd x))) (rlog ss))) \<and>
    (ss_bytes_total ss < mx \<or> length (rlog ss) \<le> 1)"
proof -
  let ?new = "sender_shared_new (shared_channel_new N richat :: ('d, 'w) shared_channel) N mx c"
  let ?l = "map (\<lambda>(sl, m, i). (sl, m, journal_index i)) l"
  obtain ss where
    ss: "rpush_all sz ?new l = Some ss" "rchan_ok sz 0 ?l ss" "length (sc_buffer (ss_shared ss)) = N" "ss_bytes_max ss = mx"
    using rpush_all_new [OF assms] by blast
  have h: "Suc (unat (ss_tail ss)) \<le> unat (ss_head ss) + N" "unat (ss_head ss) \<le> Suc (unat (ss_tail ss))"
    using ss(2,3) by (simp_all add: rchan_ok_def rring_ok_def ring_ok_def)
  have log: "rlog ss = drop (unat (ss_head ss) - N - 1) ?l" using ss(2,3) by (simp add: rchan_ok_def)
  have "unat (ss_head ss) - N - 1 \<le> length l" using h(2) ss(2,3) by (simp add: rchan_ok_def)
  moreover have "length (rlog ss) \<le> N" using h(1) by (simp add: length_rlog)
  moreover have "ss_bytes_total ss = of_nat (sum_list (map (\<lambda>x. sz (fst (snd x))) (rlog ss)))"
    using ss(2) by (simp add: rchan_ok_def rring_ok_def msgs_bytes_def)
  moreover have "ss_bytes_total ss < mx \<or> length (rlog ss) \<le> 1"
    using ss(2,4) h(2) by (auto simp: rchan_ok_def length_rlog word_less_nat_alt)
  ultimately show ?thesis using ss(1) log by blast
qed

theorem richat_ring_bounded_log_witness:
  "\<exists>ss. rpush_all length example_sender example_run = Some ss \<and> length (rlog ss) \<le> 4"
proof -
  have "(4 :: nat) = 2 ^ 2" "4 + length example_run < 2 ^ 64" by (simp_all add: example_run_def)
  from richat_ring_bounded_log [OF this(1) _ this(2), of length True 100 Processed]
  show ?thesis by (auto simp: example_sender_def)
qed

text \<open>\<^bold>\<open>C19.\<close> Replay from memory is complete: whenever the slot index of the ring lists a slot, its
  entry is the position of the first message of the slot that was ever pushed, and every
  message from that position on, so every message of the slot, can still be read with
  \<open>try_recv\<close>, in the order of the pushes. A slot that lost a message is not listed, even
  when later messages of it are pushed.\<close>

theorem memory_replay_complete:
  assumes "N = 2 ^ k" and "k < 63" and "N + length l < 2 ^ 64"
  shows "\<exists>ss. rpush_all sz (sender_shared_new (shared_channel_new N richat :: ('d, 'w) shared_channel) N mx c) l = Some ss \<and>
    (\<forall>s v. bt_get (sc_slots (ss_shared ss)) s = Some v \<longrightarrow>
       (\<exists>i < length l. v = of_nat (N + 1 + i) \<and> fst (l ! i) = s \<and> (\<forall>j < i. fst (l ! j) \<noteq> s) \<and>
          (\<forall>j. i \<le> j \<and> j < length l \<longrightarrow>
             try_recv_shared (ss_shared ss) (of_nat (N + 1 + j)) = Some (Inr (Some (fst (snd (l ! j))))))))"
proof -
  let ?new = "sender_shared_new (shared_channel_new N richat :: ('d, 'w) shared_channel) N mx c"
  let ?l = "map (\<lambda>(sl, m, i). (sl, m, journal_index i)) l"
  obtain ss where
    ss: "rpush_all sz ?new l = Some ss" "rchan_ok sz 0 ?l ss" "length (sc_buffer (ss_shared ss)) = N"
    using rpush_all_new [OF assms] by blast
  have nth: "?l ! j = (fst (l ! j), fst (snd (l ! j)), journal_index (snd (snd (l ! j))))" if "j < length l" for j
    using that by (simp add: case_prod_beta)
  have "\<exists>i < length l. v = of_nat (N + 1 + i) \<and> fst (l ! i) = s \<and> (\<forall>j < i. fst (l ! j) \<noteq> s) \<and>
      (\<forall>j. i \<le> j \<and> j < length l \<longrightarrow>
         try_recv_shared (ss_shared ss) (of_nat (N + 1 + j)) = Some (Inr (Some (fst (snd (l ! j))))))"
    if v: "bt_get (sc_slots (ss_shared ss)) s = Some v" for s v
  proof -
    have sc: "slots_complete N (map fst ?l) ss" using ss(2,3) by (simp add: rchan_ok_def)
    from sc v obtain i where cov: "\<not> slot_covered (ss_incomplete_through ss) s"
      and i: "i < length l" "unat v = N + 1 + i" "map fst ?l ! i = s" "\<forall>j < i. map fst ?l ! j \<noteq> s"
      unfolding slots_complete_def by auto
    have h: "unat (ss_head ss) \<le> N + 1 + i"
    proof (rule ccontr)
      assume "\<not> ?thesis"
      then have "slot_covered (ss_incomplete_through ss) (map fst ?l ! i)"
        using sc i(1) unfolding slots_complete_def by auto
      with cov i(3) show False by simp
    qed
    have "try_recv_shared (ss_shared ss) (of_nat (N + 1 + j)) = Some (Inr (Some (fst (snd (l ! j)))))"
      if j: "i \<le> j" "j < length l" for j
    proof -
      have "unat (of_nat (N + 1 + j) :: u64) = N + 1 + j" using j(2) assms(3) by (intro unat_of_nat_u64) linarith
      then show ?thesis using try_recv_in_ring [OF ss(2), of j "of_nat (N + 1 + j)"] h j ss(3) nth [OF j(2)] by simp
    qed
    moreover have "unat (of_nat (N + 1 + i) :: u64) = N + 1 + i"
      using i(1) assms(3) by (intro unat_of_nat_u64) linarith
    then have "v = of_nat (N + 1 + i)" using i(2) by (simp only: word_unat_eq_iff)
    moreover have "fst (l ! j) = map fst ?l ! j" if "j < length l" for j using that by (simp add: case_prod_beta)
    ultimately show ?thesis using i by (intro exI [of _ i]) auto
  qed
  with ss(1) show ?thesis by blast
qed

theorem memory_replay_complete_witness:
  "\<exists>ss. rpush_all length example_sender example_run = Some ss \<and>
    (\<forall>s v. bt_get (sc_slots (ss_shared ss)) s = Some v \<longrightarrow>
       try_recv_shared (ss_shared ss) 9 = Some (Inr (Some [5])))"
proof -
  have e: "(4 :: nat) = 2 ^ 2" "4 + length example_run < 2 ^ 64" by (simp_all add: example_run_def)
  have "(2 :: nat) < 63" by simp
  from memory_replay_complete [where 'w = unit, OF e(1) this e(2), of length True 100 Processed, folded example_sender_def]
  obtain ss where ss: "rpush_all length example_sender example_run = Some ss"
    and all: "\<forall>s v. bt_get (sc_slots (ss_shared ss)) s = Some v \<longrightarrow>
       (\<exists>i < length example_run. v = of_nat (4 + 1 + i) \<and> fst (example_run ! i) = s \<and> (\<forall>j < i. fst (example_run ! j) \<noteq> s) \<and>
          (\<forall>j. i \<le> j \<and> j < length example_run \<longrightarrow> try_recv_shared (ss_shared ss) (of_nat (4 + 1 + j)) =
             Some (Inr (Some (fst (snd (example_run ! j)))))))" by blast
  have "try_recv_shared (ss_shared ss) 9 = Some (Inr (Some [5]))" if "bt_get (sc_slots (ss_shared ss)) s = Some v" for s v
  proof -
    have n: "length example_run = 5" by (simp add: example_run_def)
    from all that obtain i where i: "i < length example_run" "\<forall>j. i \<le> j \<and> j < length example_run \<longrightarrow>
      try_recv_shared (ss_shared ss) (of_nat (4 + 1 + j)) = Some (Inr (Some (fst (snd (example_run ! j)))))" by blast
    have "try_recv_shared (ss_shared ss) (of_nat (4 + 1 + 4)) = Some (Inr (Some (fst (snd (example_run ! 4)))))"
      using i(1) n by (intro i(2) [rule_format]) simp
    then show ?thesis by (simp add: example_run_def)
  qed
  with ss show ?thesis by blast
qed

text \<open>\<^bold>\<open>C20.\<close> The hand-over from the disk journal to memory: in a run whose journal indices are
  strictly increasing, \<open>get_head_by_replay_index\<close> refuses exactly the indices below the
  bound, and then some message that would be needed was evicted; otherwise its binary
  search returns the position of the first message whose index is not smaller, and
  that message and all later ones can be read.\<close>

theorem replay_cursor_exact:
  assumes "N = 2 ^ k" and "k < 63" and "N + length l + 1 < 2 ^ 64"
    and inc: "\<forall>i j. i < j \<and> j < length l \<longrightarrow> snd (snd (l ! i)) < snd (snd (l ! j))"
    and mx: "\<forall>j < length l. snd (snd (l ! j)) \<noteq> u64_MAX"
  shows "\<exists>ss. rpush_all sz (sender_shared_new (shared_channel_new N richat :: ('d, 'w) shared_channel) N mxb c)
      (map (\<lambda>(sl, m, i). (sl, m, Some i)) l) = Some ss \<and>
    (case get_head_by_replay_index (ss_shared ss) r of
       None \<Rightarrow> False
     | Some None \<Rightarrow> (\<exists>j < length l. r \<le> snd (snd (l ! j)) \<and> N + 1 + j < unat (ss_head ss))
     | Some (Some p) \<Rightarrow> (\<exists>i \<le> length l. p = of_nat (N + 1 + i) \<and> (\<forall>j < i. snd (snd (l ! j)) < r) \<and>
         (\<forall>j. i \<le> j \<and> j < length l \<longrightarrow> r \<le> snd (snd (l ! j)) \<and>
            try_recv_shared (ss_shared ss) (of_nat (N + 1 + j)) = Some (Inr (Some (fst (snd (l ! j))))))))"
proof -
  let ?new = "sender_shared_new (shared_channel_new N richat :: ('d, 'w) shared_channel) N mxb c"
  let ?l = "map (\<lambda>(sl, m, i). (sl, m, Some i)) l"
  let ?f = "\<lambda>a. snd (snd (l ! (a - N - 1)))"
  have "N + length ?l < 2 ^ 64" using assms(3) by simp
  from rpush_all_new [OF assms(1,2) this, where 'w = 'w, of sz richat mxb c]
  obtain ss where ss: "rpush_all sz ?new ?l = Some ss" "rchan_ok sz 0 (map (\<lambda>(sl, m, i). (sl, m, journal_index i)) ?l) ss"
    "length (sc_buffer (ss_shared ss)) = N" by blast
  have "map (\<lambda>(sl, m, i). (sl, m, journal_index i)) ?l = l"
    by (induction l) (auto simp: journal_index_def)
  note ss = ss(1) ss(2) [unfolded this] ss(3)
  let ?h = "unat (ss_head ss)"
  have t: "unat (ss_tail ss) = N + length l" "sc_tail (ss_shared ss) = ss_tail ss" "sc_head (ss_shared ss) = ss_head ss"
    using ss(2,3) by (simp_all add: rchan_ok_def)
  have h: "N < ?h" "?h \<le> Suc (N + length l)"
    using ss(2,3) t(1) by (simp_all add: rchan_ok_def rring_ok_def ring_ok_def)
  have t1: "unat (ss_tail ss + 1) = Suc (N + length l)" using t(1) assms(3) by (simp add: unat_inc_bound)
  have mono: "snd (snd (l ! i)) \<le> snd (snd (l ! j))" if "i \<le> j" "j < length l" for i j
    using inc that by (cases "i = j") (auto simp: less_imp_le)
  let ?e = "?h - N - 1"
  have fl: "sc_replay_floor (ss_shared ss) = (if ?e = 0 then 0 else snd (snd (l ! (?e - 1))) + 1)"
  proof -
    have "sc_replay_floor (ss_shared ss) = journal_floor 0 (take ?e l)" using ss(2,3) by (simp add: rchan_ok_def)
    moreover have "\<forall>x\<in>set (take ?e l). snd (snd x) \<noteq> u64_MAX" using mx by (metis in_set_conv_nth in_set_takeD)
    moreover have "last (take ?e l) = l ! (?e - 1) \<and> take ?e l \<noteq> []" if "?e \<noteq> 0"
      using that h by (intro last_take_nth) linarith+
    ultimately show ?thesis by (cases "?e = 0") (simp_all only: journal_floor_last take_0 if_True if_False simp_thms)
  qed
  have evicted: "snd (snd (l ! (?e - 1))) + 1 > r \<longleftrightarrow> r \<le> snd (snd (l ! (?e - 1)))" if "?e \<noteq> 0"
  proof -
    have "snd (snd (l ! (?e - 1))) \<noteq> - 1" using mx that h by (simp add: u64_MAX_def)
    then show ?thesis by (simp add: word_less_inc)
  qed
  show ?thesis
  proof (cases "r < sc_replay_floor (ss_shared ss)")
    case True
    then have "?e \<noteq> 0" using fl by auto
    then have "r \<le> snd (snd (l ! (?e - 1)))" "?e - 1 < length l" "N + 1 + (?e - 1) < ?h"
      using True fl evicted h by auto
    then show ?thesis using ss(1) True by (auto simp: get_head_by_replay_index_def intro!: exI [of _ ss])
  next
    case False
    have w: "ss_head ss \<le> ss_tail ss + 1" using h(2) t1 by (simp add: word_le_nat_alt)
    have cells: "\<exists>it. cell_at (ss_shared ss) p = Some it \<and> ri_replay_index it = ?f (unat p)"
      if "ss_head ss \<le> p" "p < ss_tail ss + 1" for p
      using rcell_in_ring [OF ss(2) that(1)] that(2) t1 t(1) ss(3) by (simp add: word_less_nat_alt)
    have srt: "?f a \<le> ?f b" if "?h \<le> a" "a \<le> b" "b < unat (ss_tail ss + 1)" for a b
      using that h t1 by (intro mono) linarith+
    from head_search_sorted [OF cells srt w, of r] obtain p where
      p: "head_search (ss_shared ss) r (ss_head ss) (ss_tail ss + 1) = Some p" "ss_head ss \<le> p" "p \<le> ss_tail ss + 1"
        "\<forall>a. ?h \<le> a \<and> a < unat p \<longrightarrow> ?f a < r" "\<forall>a. unat p \<le> a \<and> a < unat (ss_tail ss + 1) \<longrightarrow> r \<le> ?f a" by blast
    define i where "i = unat p - N - 1"
    have up: "unat p = N + 1 + i" "?h \<le> N + 1 + i" "i \<le> length l"
      using p(2,3) h t1 by (simp_all add: i_def word_le_nat_alt)
    have below: "snd (snd (l ! j)) < r" if "j < i" for j
    proof (cases "?h \<le> N + 1 + j")
      case True
      then show ?thesis using p(4) [rule_format, of "N + 1 + j"] that up by simp
    next
      case False
      then have e: "?e \<noteq> 0" "j \<le> ?e - 1" "?e - 1 < length l" using h by linarith+
      then have "snd (snd (l ! j)) \<le> snd (snd (l ! (?e - 1)))" by (intro mono)
      also have "\<dots> < r" using \<open>\<not> r < sc_replay_floor (ss_shared ss)\<close> fl evicted e(1) by auto
      finally show ?thesis .
    qed
    have above: "r \<le> snd (snd (l ! j)) \<and>
        try_recv_shared (ss_shared ss) (of_nat (N + 1 + j)) = Some (Inr (Some (fst (snd (l ! j)))))"
      if j: "i \<le> j" "j < length l" for j
    proof
      show "r \<le> snd (snd (l ! j))" using p(5) [rule_format, of "N + 1 + j"] j up t1 by simp
      have "unat (of_nat (N + 1 + j) :: u64) = N + 1 + j" using j(2) assms(3) by (intro unat_of_nat_u64) linarith
      then show "try_recv_shared (ss_shared ss) (of_nat (N + 1 + j)) = Some (Inr (Some (fst (snd (l ! j)))))"
        using try_recv_in_ring [OF ss(2), of j "of_nat (N + 1 + j)"] up j ss(3) by simp
    qed
    have "p = of_nat (N + 1 + i)" unfolding up(1) [symmetric] by simp
    moreover have "get_head_by_replay_index (ss_shared ss) r = Some (Some p)"
      using False p(1) t by (simp add: get_head_by_replay_index_def)
    ultimately show ?thesis using ss(1) up(3) below above
      by (intro exI [of _ ss] conjI) (auto intro!: exI [of _ i])
  qed
qed

theorem replay_cursor_exact_witness:
  "\<exists>ss. rpush_all length example_sender (map (\<lambda>(sl, m, i). (sl, m, Some i)) example_entries) = Some ss \<and>
    (\<forall>p. get_head_by_replay_index (ss_shared ss) 12 = Some (Some p) \<longrightarrow>
       (\<exists>i. p = of_nat (4 + 1 + i) \<and> (\<forall>j < i. snd (snd (example_entries ! j)) < 12)))"
proof -
  have e: "(4 :: nat) = 2 ^ 2" "4 + length example_entries + 1 < 2 ^ 64" by (simp_all add: example_entries_def)
  have "(2 :: nat) < 63" by simp
  have n: "length example_entries = 5" by (simp add: example_entries_def)
  have s: "sorted_wrt (<) (map (\<lambda>x. snd (snd x)) example_entries)" by (simp add: example_entries_def)
  have inc: "\<forall>i j. i < j \<and> j < length example_entries \<longrightarrow> snd (snd (example_entries ! i)) < snd (snd (example_entries ! j))"
    using sorted_wrt_nth_less [OF s] by simp
  have "list_all (\<lambda>x. snd (snd x) \<noteq> u64_MAX) example_entries" by (simp add: example_entries_def u64_MAX_def)
  then have mx: "\<forall>j < length example_entries. snd (snd (example_entries ! j)) \<noteq> u64_MAX" by (simp add: list_all_length)
  from replay_cursor_exact [where 'w = unit, OF e(1) \<open>2 < 63\<close> e(2) inc mx, of length True 100 Processed 12, folded example_sender_def]
  show ?thesis by fastforce
qed

end
