(* ===== verification/Richat_Block.thy ===== *)
theory Richat_Block
  imports Richat_Channel
begin

text \<open>
  The state of a slot in the server's sender (\<open>SlotInfo\<close> and \<open>BankInfo\<close> of
  \<open>richat/src/channel.rs\<close>): the candidate banks of the slot, the reconstruction of a block
  from its transactions, entries, accounts and block meta, and the bank that a confirmed or
  finalized status selects. What the code reports to the metrics about blocks that cannot
  be reconstructed is a result of the operations. \<open>None\<close> is a panic.
\<close>

datatype failed_reason =
  ExtraAccount | ExtraTransaction | ExtraEntry | ExtraBlockMeta | MissedBlockMeta
| MismatchTransactions usize usize
| MismatchEntries usize usize

record 'x bank_info =
  bi_slot :: slot
  bi_block_created :: bool
  bi_failed :: bool
  bi_landed :: bool
  bi_messages :: "'x parsed_message option list"
  bi_accounts_dedup :: "bytes \<rightharpoonup> (u64 \<times> nat)"
  bi_transactions_count :: usize
  bi_entries_count :: usize
  bi_block_meta :: "message_block_meta option"

definition bank_info_new :: "slot \<Rightarrow> 'x bank_info" where
  "bank_info_new sl = \<lparr>bi_slot = sl, bi_block_created = False, bi_failed = False, bi_landed = False,
     bi_messages = [], bi_accounts_dedup = Map.empty, bi_transactions_count = 0, bi_entries_count = 0,
     bi_block_meta = None\<rparr>"

fun extra_reasons :: "'x parsed_message \<Rightarrow> failed_reason list" where
  "extra_reasons (RP_Account _) = [ExtraAccount]"
| "extra_reasons (RP_Transaction _) = [ExtraTransaction]"
| "extra_reasons (RP_Entry _) = [ExtraEntry]"
| "extra_reasons (RP_BlockMeta _) = [ExtraBlockMeta]"
| "extra_reasons _ = []"

subsection \<open>\<open>BankInfo::get_block_message\<close>\<close>

text \<open>\<open>self.messages[i] = None\<close>\<close>

definition clear_message :: "nat \<Rightarrow> 'x bank_info \<Rightarrow> 'x bank_info option" where
  "clear_message i b = (if i < length (bi_messages b) then Some (b\<lparr>bi_messages := (bi_messages b)[i := None]\<rparr>) else None)"

definition push_message :: "'x parsed_message \<Rightarrow> 'x bank_info \<Rightarrow> 'x bank_info" where
  "push_message m b = b\<lparr>bi_messages := bi_messages b @ [Some m]\<rparr>"

definition store_account :: "prost \<Rightarrow> message_account \<Rightarrow> 'x bank_info \<Rightarrow> 'x bank_info option" where
  "store_account P a b =
     (let idx_new = length (bi_messages b); b1 = push_message (RP_Account a) b in
      Option.bind (message_account_write_version P a) (\<lambda>write_version.
        case bi_accounts_dedup b (ma_pubkey a) of
          Some (v, i) \<Rightarrow> if v < write_version
            then map_option (\<lambda>b2. b2\<lparr>bi_accounts_dedup := (bi_accounts_dedup b)(ma_pubkey a \<mapsto> (write_version, idx_new))\<rparr>)
              (clear_message i b1)
            else clear_message idx_new b1
        | None \<Rightarrow> Some (b1\<lparr>bi_accounts_dedup := (bi_accounts_dedup b)(ma_pubkey a \<mapsto> (write_version, idx_new))\<rparr>)))"

fun store_message :: "prost \<Rightarrow> 'x parsed_message \<Rightarrow> 'x bank_info \<Rightarrow> 'x bank_info option" where
  "store_message P (RP_Account a) b = store_account P a b"
| "store_message P (RP_Transaction t) b =
     Some ((push_message (RP_Transaction t) b)\<lparr>bi_transactions_count := bi_transactions_count b + 1\<rparr>)"
| "store_message P (RP_Entry e) b = Some ((push_message (RP_Entry e) b)\<lparr>bi_entries_count := bi_entries_count b + 1\<rparr>)"
| "store_message P (RP_BlockMeta m) b = Some ((push_message (RP_BlockMeta m) b)\<lparr>bi_block_meta := Some m\<rparr>)"
| "store_message P _ b = None"

definition somes :: "'a option list \<Rightarrow> 'a list" where
  "somes = List.map_filter id"

definition bank_complete :: "'x bank_info \<Rightarrow> bool" where
  "bank_complete b = (case bi_block_meta b of None \<Rightarrow> False
     | Some m \<Rightarrow> bm_executed_transaction_count (mb_block_meta m) = bi_transactions_count b \<and>
         bm_entries_count (mb_block_meta m) = bi_entries_count b)"

definition unchecked_create_block :: "message_account list \<Rightarrow> 'x message_transaction list \<Rightarrow> message_entry list \<Rightarrow>
    message_block_meta \<Rightarrow> timestamp \<Rightarrow> 'x message_block" where
  "unchecked_create_block accounts transactions entries meta created_at =
     \<lparr>blk_accounts = accounts, blk_transactions = transactions, blk_entries = entries,
      blk_block_meta = meta, blk_created_at = created_at\<rparr>"

definition create_block :: "'x parsed_message list \<Rightarrow> message_block_meta \<Rightarrow> 'x parsed_message" where
  "create_block ms meta = RP_Block (unchecked_create_block (List.map_filter get_account ms)
     (List.map_filter get_transaction ms) (List.map_filter get_entry ms) meta (mb_created_at meta))"

definition bank_get_block_message :: "prost \<Rightarrow> 'x parsed_message \<Rightarrow> 'x bank_info \<Rightarrow>
    ('x parsed_message option \<times> failed_reason list option \<times> 'x bank_info) option" where
  "bank_get_block_message P m b =
     (case m of RP_BlockFooter _ _ _ \<Rightarrow> Some (None, None, push_message m b)
      | _ \<Rightarrow>
        if bi_block_created b then
          (if \<not> bi_failed b then Some (None, Some (extra_reasons m), b\<lparr>bi_failed := True\<rparr>)
           else Some (None, None, b))
        else Option.bind (store_message P m b) (\<lambda>b1.
          if bank_complete b1
          then (let block = create_block (somes (bi_messages b1)) (the (bi_block_meta b1)) in
                Some (Some block, None, push_message block (b1\<lparr>bi_block_created := True\<rparr>)))
          else Some (None, None, b1)))"

text \<open>\<open>Drop for BankInfo\<close>: what is reported when a bank is freed.\<close>

definition bank_drop_report :: "'x bank_info \<Rightarrow> failed_reason list option" where
  "bank_drop_report b =
     (if \<not> bi_block_created b \<and> \<not> bi_failed b \<and> bi_landed b
      then Some (case bi_block_meta b of
          None \<Rightarrow> [MissedBlockMeta]
        | Some m \<Rightarrow>
           (let executed = bm_executed_transaction_count (mb_block_meta m); entries = bm_entries_count (mb_block_meta m) in
            (if executed \<noteq> bi_transactions_count b then [MismatchTransactions (bi_transactions_count b) executed] else []) @
            (if entries \<noteq> bi_entries_count b then [MismatchEntries (bi_entries_count b) entries] else [])))
      else None)"

subsection \<open>\<open>SlotInfo\<close>\<close>

record 'x rslot_info =
  rsi_slot :: slot
  rsi_index :: u64
  rsi_confirmed_bank :: "bank_id option option"
  rsi_banks :: "(bank_id option, 'x bank_info) btree"
  rsi_cleared_banks :: "bank_id set"

definition rslot_info_new :: "slot \<Rightarrow> u64 \<Rightarrow> 'x rslot_info" where
  "rslot_info_new sl index = \<lparr>rsi_slot = sl, rsi_index = index, rsi_confirmed_bank = None, rsi_banks = [],
     rsi_cleared_banks = {}\<rparr>"

definition slot_abandon :: "'x rslot_info \<Rightarrow> 'x rslot_info" where
  "slot_abandon s = s\<lparr>rsi_banks := map (\<lambda>(k, b). (k, b\<lparr>bi_failed := True\<rparr>)) (rsi_banks s)\<rparr>"

definition select_bank :: "'x rslot_info \<Rightarrow> bank_id option \<Rightarrow> bank_id option" where
  "select_bank s bank = (case bank of Some x \<Rightarrow> Some x
     | None \<Rightarrow> (case Option.bind (rsi_confirmed_bank s) id of Some x \<Rightarrow> Some x
       | None \<Rightarrow> Option.bind (bt_last_key (rsi_banks s)) id))"

definition slot_commit :: "geyser_status \<Rightarrow> bank_id option \<Rightarrow> 'x rslot_info \<Rightarrow>
    bank_id option option \<times> 'x rslot_info" where
  "slot_commit status bank s =
     (let land = (\<lambda>k s'. s'\<lparr>rsi_banks := bt_update k (\<lambda>b. b\<lparr>bi_landed := True\<rparr>) (rsi_banks s')\<rparr>);
          bank' = select_bank s bank in
      if status = SlotConfirmed \<and> rsi_confirmed_bank s = None
      then (Some bank', land bank' (s\<lparr>rsi_confirmed_bank := Some bank'\<rparr>))
      else if status = SlotFinalized then (Some bank', land bank' s)
      else (None, s))"

definition slot_get_block_message :: "prost \<Rightarrow> 'x parsed_message \<Rightarrow> 'x rslot_info \<Rightarrow>
    ('x parsed_message option \<times> failed_reason list option \<times> 'x rslot_info) option" where
  "slot_get_block_message P m s =
     (case m of RP_EntryUpdateParent _ _ _ \<Rightarrow>
        (case parsed_bank_id m of
           Some bank \<Rightarrow> Some (None, None, s\<lparr>rsi_cleared_banks := insert bank (rsi_cleared_banks s),
             rsi_banks := bt_remove (Some bank) (rsi_banks s)\<rparr>)
         | None \<Rightarrow> Some (None, None, s))
      | _ \<Rightarrow>
        (let banks = bt_or_insert (parsed_bank_id m) (bank_info_new (rsi_slot s)) (rsi_banks s) in
         map_option (\<lambda>(block, report, b). (block, report, s\<lparr>rsi_banks := bt_insert (parsed_bank_id m) b banks\<rparr>))
           (Option.bind (bt_get banks (parsed_bank_id m)) (bank_get_block_message P m))))"

definition get_messages_cloned :: "bank_id option \<Rightarrow> 'x rslot_info \<Rightarrow> 'x parsed_message list" where
  "get_messages_cloned bank s = (case bt_get (rsi_banks s) bank of None \<Rightarrow> [] | Some b \<Rightarrow> somes (bi_messages b))"

definition get_messages_owned :: "bank_id option \<Rightarrow> 'x rslot_info \<Rightarrow> 'x parsed_message list \<times> 'x rslot_info" where
  "get_messages_owned bank s = (case bt_get (rsi_banks s) bank of None \<Rightarrow> ([], s)
     | Some b \<Rightarrow> (somes (bi_messages b), s\<lparr>rsi_banks := bt_insert bank (b\<lparr>bi_messages := []\<rparr>) (rsi_banks s)\<rparr>))"

subsection \<open>What a block contains\<close>

text \<open>The version of an account message, and the messages of a bank without the account
  updates that are superseded: an update is live when every other update of the account
  has a smaller version, or the same one and arrived later.\<close>

definition account_version :: "prost \<Rightarrow> message_account \<Rightarrow> u64" where
  "account_version P a = the (message_account_write_version P a)"

definition live :: "prost \<Rightarrow> 'x parsed_message list \<Rightarrow> nat \<Rightarrow> bool" where
  "live P ms i = (case get_account (ms ! i) of None \<Rightarrow> True | Some a \<Rightarrow>
     list_all (\<lambda>j. case get_account (ms ! j) of None \<Rightarrow> True | Some b \<Rightarrow>
       ma_pubkey b \<noteq> ma_pubkey a \<or> account_version P b < account_version P a \<or>
       account_version P b = account_version P a \<and> i \<le> j) [0..<length ms])"

definition live_messages :: "prost \<Rightarrow> 'x parsed_message list \<Rightarrow> 'x parsed_message list" where
  "live_messages P ms = map ((!) ms) (filter (live P ms) [0..<length ms])"

fun get_block_meta :: "'x parsed_message \<Rightarrow> message_block_meta option" where
  "get_block_meta (RP_BlockMeta m) = Some m"
| "get_block_meta _ = None"

definition last_meta :: "'x parsed_message list \<Rightarrow> message_block_meta option" where
  "last_meta ms = (case rev (List.map_filter get_block_meta ms) of [] \<Rightarrow> None | m # _ \<Rightarrow> Some m)"

definition counts_match :: "'x parsed_message list \<Rightarrow> bool" where
  "counts_match ms = (case last_meta ms of None \<Rightarrow> False | Some m \<Rightarrow>
     bm_executed_transaction_count (mb_block_meta m) = of_nat (length (List.map_filter get_transaction ms)) \<and>
     bm_entries_count (mb_block_meta m) = of_nat (length (List.map_filter get_entry ms)))"

definition expected_block :: "prost \<Rightarrow> 'x parsed_message list \<Rightarrow> 'x message_block" where
  "expected_block P ms = \<lparr>blk_accounts = List.map_filter get_account (live_messages P ms),
     blk_transactions = List.map_filter get_transaction ms, blk_entries = List.map_filter get_entry ms,
     blk_block_meta = the (last_meta ms), blk_created_at = mb_created_at (the (last_meta ms))\<rparr>"

text \<open>The messages that reach a bank: a parsed account has a readable version, and a
  status, a block or a change of the parent is never stored.\<close>

fun bank_message :: "prost \<Rightarrow> 'x parsed_message \<Rightarrow> bool" where
  "bank_message P (RP_Account a) = (message_account_write_version P a \<noteq> None)"
| "bank_message P (RP_Slot _) = False"
| "bank_message P (RP_Block _) = False"
| "bank_message P (RP_EntryUpdateParent _ _ _) = False"
| "bank_message P _ = True"

text \<open>A run of a bank, with the block that each message completes.\<close>

fun bank_run :: "prost \<Rightarrow> 'x parsed_message list \<Rightarrow> 'x bank_info \<Rightarrow> ('x parsed_message option list \<times> 'x bank_info) option" where
  "bank_run P [] b = Some ([], b)"
| "bank_run P (m # ms) b = Option.bind (bank_get_block_message P m b) (\<lambda>(block, _, b1).
     map_option (\<lambda>(blocks, b2). (block # blocks, b2)) (bank_run P ms b1))"

text \<open>The state of a bank without a block, after the messages \<open>ms\<close>.\<close>

definition dedup_ok :: "prost \<Rightarrow> 'x parsed_message list \<Rightarrow> (bytes \<rightharpoonup> (u64 \<times> nat)) \<Rightarrow> bool" where
  "dedup_ok P ms d \<longleftrightarrow>
     (\<forall>k v i. d k = Some (v, i) \<longrightarrow> i < length ms \<and> (\<exists>a. ms ! i = RP_Account a \<and> ma_pubkey a = k \<and>
        account_version P a = v \<and> live P ms i)) \<and>
     (\<forall>j < length ms. \<forall>a. ms ! j = RP_Account a \<longrightarrow> d (ma_pubkey a) \<noteq> None)"

definition bank_ok :: "prost \<Rightarrow> 'x parsed_message list \<Rightarrow> 'x bank_info \<Rightarrow> bool" where
  "bank_ok P ms b \<longleftrightarrow> \<not> bi_block_created b \<and>
     bi_messages b = map (\<lambda>i. if live P ms i then Some (ms ! i) else None) [0..<length ms] \<and>
     dedup_ok P ms (bi_accounts_dedup b) \<and>
     bi_transactions_count b = of_nat (length (List.map_filter get_transaction ms)) \<and>
     bi_entries_count b = of_nat (length (List.map_filter get_entry ms)) \<and> bi_block_meta b = last_meta ms"

subsection \<open>Lemmas\<close>

lemma get_account_Some [simp]: "get_account m = Some a \<longleftrightarrow> m = RP_Account a"
  by (cases m) auto

lemma map_filter_snoc [simp]:
  "List.map_filter f (xs @ [x]) = List.map_filter f xs @ (case f x of None \<Rightarrow> [] | Some y \<Rightarrow> [y])"
  by (simp add: List.map_filter_def split: option.split)

lemma map_filter_Nil [simp]: "List.map_filter f [] = []"
  by (simp add: List.map_filter_def)

lemma last_meta_snoc [simp]: "last_meta (ms @ [m]) = (case get_block_meta m of None \<Rightarrow> last_meta ms | Some x \<Rightarrow> Some x)"
  by (simp add: last_meta_def split: option.split)

lemma live_iff:
  "live P ms i \<longleftrightarrow> (\<forall>a. ms ! i = RP_Account a \<longrightarrow> (\<forall>j < length ms. \<forall>b. ms ! j = RP_Account b \<and> ma_pubkey b = ma_pubkey a \<longrightarrow>
     account_version P b < account_version P a \<or> account_version P b = account_version P a \<and> i \<le> j))"
  by (cases "get_account (ms ! i)") (auto simp: live_def list_all_iff split: option.splits)

lemma liveD:
  assumes "live P ms i" "ms ! i = RP_Account a" "j < length ms" "ms ! j = RP_Account b" "ma_pubkey b = ma_pubkey a"
  shows "account_version P b < account_version P a \<or> account_version P b = account_version P a \<and> i \<le> j"
  using assms unfolding live_iff by blast

text \<open>How one more message changes the live ones.\<close>

lemma live_snoc:
  assumes "i < length ms"
  shows "live P (ms @ [m]) i \<longleftrightarrow> live P ms i \<and>
    (\<forall>a b. ms ! i = RP_Account a \<and> m = RP_Account b \<and> ma_pubkey b = ma_pubkey a \<longrightarrow>
       account_version P b \<le> account_version P a)"
  using assms by (auto simp: live_iff nth_append less_Suc_eq le_less)

lemma live_last:
  "live P (ms @ [m]) (length ms) \<longleftrightarrow> (\<forall>a. m = RP_Account a \<longrightarrow> (\<forall>j < length ms. \<forall>b. ms ! j = RP_Account b \<and>
     ma_pubkey b = ma_pubkey a \<longrightarrow> account_version P b < account_version P a))"
  by (auto simp: live_iff nth_append less_Suc_eq)

lemma live_unique:
  assumes "live P ms i" "live P ms j" "i < length ms" "j < length ms" "ms ! i = RP_Account a" "ms ! j = RP_Account b"
    "ma_pubkey a = ma_pubkey b"
  shows "i = j"
  using liveD [OF assms(1,5,4,6)] liveD [OF assms(2,6,3,5)] assms(7) by auto

lemma dedupD:
  assumes "dedup_ok P ms d" "d k = Some (v, i)"
  obtains a where "i < length ms" "ms ! i = RP_Account a" "ma_pubkey a = k" "account_version P a = v" "live P ms i"
  using assms unfolding dedup_ok_def by blast

text \<open>The state after a message that is not an account.\<close>

lemma bank_ok_other:
  assumes ok: "bank_ok P ms b" and m: "get_account m = None"
  shows "bi_messages (push_message m b) = map (\<lambda>i. if live P (ms @ [m]) i then Some ((ms @ [m]) ! i) else None) [0..<length (ms @ [m])]"
    and "dedup_ok P (ms @ [m]) (bi_accounts_dedup b)"
proof -
  have na: "m \<noteq> RP_Account a" for a using m by auto
  have l: "live P (ms @ [m]) i \<longleftrightarrow> live P ms i" if "i < length ms" for i using that na by (simp add: live_snoc)
  have "live P (ms @ [m]) (length ms)" using na by (simp add: live_last)
  then show "bi_messages (push_message m b) = map (\<lambda>i. if live P (ms @ [m]) i then Some ((ms @ [m]) ! i) else None) [0..<length (ms @ [m])]"
    using ok by (auto simp: bank_ok_def push_message_def l nth_append)
  have "dedup_ok P ms (bi_accounts_dedup b)" using ok by (simp add: bank_ok_def)
  then show "dedup_ok P (ms @ [m]) (bi_accounts_dedup b)"
    using l na by (fastforce simp: dedup_ok_def nth_append less_Suc_eq)
qed

lemma bank_ok_account:
  fixes b :: "'x bank_info"
  assumes ok: "bank_ok P ms b" and v: "message_account_write_version P a = Some v"
  shows "\<exists>b'. store_account P a b = Some b' \<and> bank_ok P (ms @ [RP_Account a]) b'"
proof -
  let ?ms = "ms @ [RP_Account a]" and ?n = "length ms" and ?d = "bi_accounts_dedup b"
  let ?cells = "\<lambda>ms. map (\<lambda>i. if live P ms i then Some (ms ! i) else None) [0..<length ms]"
  have av: "account_version P a = v" using v by (simp add: account_version_def)
  have d: "dedup_ok P ms ?d" and msgs: "bi_messages b = ?cells ms" using ok by (simp_all add: bank_ok_def)
  have n: "length (bi_messages b) = ?n" using msgs by simp
  have up: "bank_ok P ?ms (b\<lparr>bi_messages := xs, bi_accounts_dedup := d'\<rparr>)" if "xs = ?cells ?ms" "dedup_ok P ?ms d'" for xs d'
    using ok that by (simp add: bank_ok_def del: upt_Suc)
  show ?thesis
  proof (cases "?d (ma_pubkey a)")
    case None
    have no: "ms ! j = RP_Account c \<Longrightarrow> j < ?n \<Longrightarrow> ma_pubkey c \<noteq> ma_pubkey a" for j c
      using d None unfolding dedup_ok_def by metis
    have l: "live P ?ms i \<longleftrightarrow> live P ms i" if "i < ?n" for i using that no by (fastforce simp: live_snoc)
    have ln: "live P ?ms ?n" using no by (fastforce simp: live_last)
    have "bank_ok P ?ms (b\<lparr>bi_messages := bi_messages b @ [Some (RP_Account a)], bi_accounts_dedup := ?d(ma_pubkey a \<mapsto> (v, ?n))\<rparr>)"
    proof (rule up)
      show "bi_messages b @ [Some (RP_Account a)] = ?cells ?ms" using ln by (auto simp: msgs l nth_append)
      show "dedup_ok P ?ms (?d(ma_pubkey a \<mapsto> (v, ?n)))"
        using d l ln av by (fastforce simp: dedup_ok_def nth_append less_Suc_eq)
    qed
    then show ?thesis using None v by (simp add: store_account_def push_message_def n)
  next
    case (Some e)
    obtain w i where e: "e = (w, i)" by (cases e)
    obtain c where c: "i < ?n" "ms ! i = RP_Account c" "ma_pubkey c = ma_pubkey a" "account_version P c = w" "live P ms i"
      using dedupD [OF d Some [unfolded e]] by metis
    have same: "account_version P c' \<le> w" if "j < ?n" "ms ! j = RP_Account c'" "ma_pubkey c' = ma_pubkey a" for j c'
      using liveD [OF c(5,2) that(1,2)] that(3) c(3,4) by auto
    show ?thesis
    proof (cases "w < v")
      case True
      have l: "live P ?ms j \<longleftrightarrow> live P ms j \<and> j \<noteq> i" if "j < ?n" for j
      proof (cases "j = i")
        case True
        then show ?thesis using that c \<open>w < v\<close> av by (auto simp: live_snoc)
      next
        case False
        then show ?thesis using that live_unique [OF _ c(5) that c(1) _ c(2)] c(3) by (fastforce simp: live_snoc)
      qed
      have ln: "live P ?ms ?n" using same True av by (fastforce simp: live_last)
      have "bank_ok P ?ms (b\<lparr>bi_messages := (bi_messages b @ [Some (RP_Account a)])[i := None],
          bi_accounts_dedup := ?d(ma_pubkey a \<mapsto> (v, ?n))\<rparr>)"
      proof (rule up)
        show "(bi_messages b @ [Some (RP_Account a)])[i := None] = ?cells ?ms"
          using ln c(1) by (intro nth_equalityI) (auto simp: msgs l nth_append nth_list_update less_Suc_eq simp del: upt_Suc)
        show "dedup_ok P ?ms (?d(ma_pubkey a \<mapsto> (v, ?n)))"
          using d l ln av c by (fastforce simp: dedup_ok_def nth_append less_Suc_eq)
      qed
      moreover have "store_account P a b = Some (b\<lparr>bi_messages := (bi_messages b @ [Some (RP_Account a)])[i := None],
          bi_accounts_dedup := ?d(ma_pubkey a \<mapsto> (v, ?n))\<rparr>)"
        using Some e v True c(1) by (simp add: store_account_def push_message_def clear_message_def n)
      ultimately show ?thesis by blast
    next
      case False
      have l: "live P ?ms j \<longleftrightarrow> live P ms j" if "j < ?n" for j
        using that live_unique [OF _ c(5) that c(1) _ c(2)] c False av by (fastforce simp: live_snoc)
      have ln: "\<not> live P ?ms ?n" using c False av by (fastforce simp: live_last)
      have "bank_ok P ?ms (b\<lparr>bi_messages := (bi_messages b @ [Some (RP_Account a)])[?n := None], bi_accounts_dedup := ?d\<rparr>)"
      proof (rule up)
        show "(bi_messages b @ [Some (RP_Account a)])[?n := None] = ?cells ?ms"
          using ln by (intro nth_equalityI) (auto simp: msgs l nth_append nth_list_update less_Suc_eq simp del: upt_Suc)
        show "dedup_ok P ?ms ?d" using d l Some by (fastforce simp: dedup_ok_def nth_append less_Suc_eq)
      qed
      moreover have "store_account P a b = Some (b\<lparr>bi_messages := (bi_messages b @ [Some (RP_Account a)])[?n := None], bi_accounts_dedup := ?d\<rparr>)"
        using Some e v False by (simp add: store_account_def push_message_def clear_message_def n)
      ultimately show ?thesis by blast
    qed
  qed
qed

fun is_footer :: "'x parsed_message \<Rightarrow> bool" where
  "is_footer (RP_BlockFooter _ _ _) = True"
| "is_footer _ = False"

lemma bank_store_ok:
  assumes ok: "bank_ok P ms b" and m: "bank_message P m" "\<not> is_footer m"
  shows "\<exists>b'. store_message P m b = Some b' \<and> bank_ok P (ms @ [m]) b'"
proof (cases "get_account m")
  case (Some a)
  then show ?thesis using bank_ok_account [OF ok] m by auto
next
  case None
  note o = bank_ok_other [OF ok None]
  show ?thesis using m None ok o
    by (cases m) (simp_all add: bank_ok_def push_message_def del: upt_Suc)
qed

lemma bank_footer_ok: "bank_ok P ms b \<Longrightarrow> is_footer m \<Longrightarrow> bank_ok P (ms @ [m]) (push_message m b)"
  using bank_ok_other [of P ms b m] by (cases m) (simp_all add: bank_ok_def push_message_def del: upt_Suc)

lemma bank_complete_iff: "bank_ok P ms b \<Longrightarrow> bank_complete b \<longleftrightarrow> counts_match ms"
  by (simp add: bank_ok_def bank_complete_def counts_match_def split: option.split)

lemma somes_map_if: "somes (map (\<lambda>i. if Q i then Some (f i) else None) xs) = map f (filter Q xs)"
  by (induction xs) (simp_all add: somes_def List.map_filter_def)

lemma somes_live: "bank_ok P ms b \<Longrightarrow> somes (bi_messages b) = live_messages P ms"
  by (simp add: bank_ok_def live_messages_def somes_map_if)

lemma map_filter_drop: "(\<And>x. x \<in> set xs \<Longrightarrow> \<not> Q x \<Longrightarrow> f (g x) = None) \<Longrightarrow>
    List.map_filter f (map g (filter Q xs)) = List.map_filter f (map g xs)"
  by (induction xs) (auto simp: List.map_filter_def)

lemma live_messages_other:
  assumes "\<And>a. f (RP_Account a) = None"
  shows "List.map_filter f (live_messages P ms) = List.map_filter f ms"
proof -
  have "List.map_filter f (live_messages P ms) = List.map_filter f (map ((!) ms) [0..<length ms])"
    unfolding live_messages_def by (rule map_filter_drop) (use assms in \<open>auto simp: live_iff\<close>)
  then show ?thesis by (simp add: map_nth)
qed

lemma create_expected: "create_block (live_messages P ms) (the (last_meta ms)) = RP_Block (expected_block P ms)"
  by (simp add: create_block_def unchecked_create_block_def expected_block_def live_messages_other)

text \<open>A message to a bank without a block.\<close>

lemma bank_step:
  assumes ok: "bank_ok P ms b" and m: "bank_message P m" and inc: "\<not> counts_match ms"
  shows "\<exists>r b'. bank_get_block_message P m b = Some (if counts_match (ms @ [m]) then Some (RP_Block (expected_block P (ms @ [m]))) else None, r, b') \<and>
    (if counts_match (ms @ [m]) then bi_block_created b' else bank_ok P (ms @ [m]) b')"
proof (cases "is_footer m")
  case True
  then have "counts_match (ms @ [m]) \<longleftrightarrow> counts_match ms" by (cases m) (simp_all add: counts_match_def split: option.split)
  with True inc show ?thesis using bank_footer_ok [OF ok True] by (cases m) (simp_all add: bank_get_block_message_def)
next
  case False
  from bank_store_ok [OF ok m False] obtain b1 where b1: "store_message P m b = Some b1" "bank_ok P (ms @ [m]) b1" by blast
  have nc: "\<not> bi_block_created b" using ok by (simp add: bank_ok_def)
  have meta: "bi_block_meta b1 = last_meta (ms @ [m])" using b1(2) by (simp only: bank_ok_def)
  have "bank_get_block_message P m b = (if counts_match (ms @ [m])
      then Some (Some (RP_Block (expected_block P (ms @ [m]))), None,
        push_message (RP_Block (expected_block P (ms @ [m]))) (b1\<lparr>bi_block_created := True\<rparr>))
      else Some (None, None, b1))"
    using False b1(1) nc m
    by (cases m) (simp_all only: bank_get_block_message_def parsed_message.case is_footer.simps if_False bind.bind_lunit
      Let_def bank_complete_iff [OF b1(2)] somes_live [OF b1(2)] meta create_expected simp_thms bank_message.simps)
  then show ?thesis using b1(2) by (simp add: push_message_def)
qed

text \<open>After the block nothing is returned any more.\<close>

lemma bank_step_created:
  assumes "bi_block_created b"
  shows "\<exists>r b'. bank_get_block_message P m b = Some (None, r, b') \<and> bi_block_created b'"
  using assms by (cases m) (simp_all add: bank_get_block_message_def push_message_def)

lemma bank_run_created:
  assumes "bi_block_created b"
  shows "\<exists>b'. bank_run P ms b = Some (replicate (length ms) None, b')"
  using assms
proof (induction ms arbitrary: b)
  case (Cons m ms)
  obtain r b1 where "bank_get_block_message P m b = Some (None, r, b1)" "bi_block_created b1"
    using bank_step_created [OF Cons.prems] by blast
  with Cons.IH [of b1] show ?case by auto
qed simp

lemma all_less_Suc_split: "(\<forall>j < Suc i. Q j) \<longleftrightarrow> Q 0 \<and> (\<forall>j < i. Q (Suc j))"
  by (metis Suc_less_eq less_Suc_eq_0_disj zero_less_Suc)

lemma bank_run_ok:
  assumes "bank_ok P ms0 b" and "\<forall>m\<in>set ms. bank_message P m" and "\<not> counts_match ms0"
  shows "\<exists>outs b'. bank_run P ms b = Some (outs, b') \<and> length outs = length ms \<and> (\<forall>i < length ms. outs ! i =
    (if counts_match (ms0 @ take (Suc i) ms) \<and> (\<forall>j < i. \<not> counts_match (ms0 @ take (Suc j) ms))
     then Some (RP_Block (expected_block P (ms0 @ take (Suc i) ms))) else None))"
  using assms
proof (induction ms arbitrary: ms0 b)
  case (Cons m ms)
  let ?c = "counts_match (ms0 @ [m])"
  obtain r b1 where s: "bank_get_block_message P m b = Some (if ?c then Some (RP_Block (expected_block P (ms0 @ [m]))) else None, r, b1)"
    "if ?c then bi_block_created b1 else bank_ok P (ms0 @ [m]) b1"
    using bank_step [OF Cons.prems(1) _ Cons.prems(3), of m] Cons.prems(2) by auto
  show ?case
  proof (cases ?c)
    case True
    with s bank_run_created [of b1 P ms] obtain b2 where b2: "bank_run P (m # ms) b =
        Some (Some (RP_Block (expected_block P (ms0 @ [m]))) # replicate (length ms) None, b2)" by auto
    have "(Some (RP_Block (expected_block P (ms0 @ [m]))) # replicate (length ms) None) ! i =
      (if counts_match (ms0 @ take (Suc i) (m # ms)) \<and> (\<forall>j < i. \<not> counts_match (ms0 @ take (Suc j) (m # ms)))
       then Some (RP_Block (expected_block P (ms0 @ take (Suc i) (m # ms)))) else None)" if "i < length (m # ms)" for i
      using that True by (cases i) (auto intro!: exI [of _ 0])
    then show ?thesis using b2 by auto
  next
    case False
    have ok1: "bank_ok P (ms0 @ [m]) b1" and all: "\<forall>m\<in>set ms. bank_message P m" using s(2) False Cons.prems(2) by simp_all
    from Cons.IH [OF ok1 all False] obtain outs b2 where o: "bank_run P ms b1 = Some (outs, b2)"
      "length outs = length ms" "\<forall>i < length ms. outs ! i =
        (if counts_match ((ms0 @ [m]) @ take (Suc i) ms) \<and> (\<forall>j < i. \<not> counts_match ((ms0 @ [m]) @ take (Suc j) ms))
         then Some (RP_Block (expected_block P ((ms0 @ [m]) @ take (Suc i) ms))) else None)" by blast
    have "(None # outs) ! i = (if counts_match (ms0 @ take (Suc i) (m # ms)) \<and> (\<forall>j < i. \<not> counts_match (ms0 @ take (Suc j) (m # ms)))
       then Some (RP_Block (expected_block P (ms0 @ take (Suc i) (m # ms)))) else None)" if "i < length (m # ms)" for i
      using that False o(3) by (cases i) (simp_all add: all_less_Suc_split)
    then show ?thesis using s(1) False o(1,2) by auto
  qed
qed simp

lemma bank_ok_new: "bank_ok P [] (bank_info_new sl)"
  by (simp add: bank_ok_def bank_info_new_def dedup_ok_def last_meta_def)

lemma counts_match_Nil: "\<not> counts_match []"
  by (simp add: counts_match_def last_meta_def)

subsection \<open>The bank of a slot\<close>

text \<open>What happens to the state of a slot: a status, another message, or the end of an epoch.\<close>

datatype 'x slot_event = SE_Status geyser_status "bank_id option" | SE_Message "'x parsed_message" | SE_Abandon

inductive slot_step :: "prost \<Rightarrow> 'x rslot_info \<Rightarrow> 'x slot_event \<Rightarrow> 'x rslot_info \<Rightarrow> bool" for P where
  status: "slot_commit st bank s = (r, s') \<Longrightarrow> slot_step P s (SE_Status st bank) s'"
| message: "slot_get_block_message P m s = Some (block, report, s') \<Longrightarrow> slot_step P s (SE_Message m) s'"
| abandon: "slot_step P s SE_Abandon (slot_abandon s)"

inductive_cases slot_statusE: "slot_step P s (SE_Status st bank) s'"
inductive_cases slot_messageE: "slot_step P s (SE_Message m) s'"
inductive_cases slot_abandonE: "slot_step P s SE_Abandon s'"

inductive slot_steps :: "prost \<Rightarrow> 'x rslot_info \<Rightarrow> 'x slot_event list \<Rightarrow> 'x rslot_info \<Rightarrow> bool" for P where
  refl: "slot_steps P s [] s"
| step: "slot_step P s e s1 \<Longrightarrow> slot_steps P s1 es s' \<Longrightarrow> slot_steps P s (e # es) s'"

lemma slot_message_confirmed:
  "slot_get_block_message P m s = Some (block, report, s') \<Longrightarrow> rsi_confirmed_bank s' = rsi_confirmed_bank s"
  by (cases m) (auto simp: slot_get_block_message_def Let_def split: option.splits)

lemma slot_step_confirmed:
  assumes "slot_step P s e s'" and "rsi_confirmed_bank s = Some k"
  shows "rsi_confirmed_bank s' = Some k"
  using assms by cases (auto simp: slot_commit_def Let_def slot_abandon_def slot_message_confirmed split: if_splits)

lemma slot_steps_confirmed:
  assumes "slot_steps P s es s'" and "rsi_confirmed_bank s = Some k"
  shows "rsi_confirmed_bank s' = Some k"
  using assms by induction (auto dest: slot_step_confirmed)

lemma slot_message_cleared:
  "slot_get_block_message P m s = Some (block, report, s') \<Longrightarrow> rsi_cleared_banks s \<subseteq> rsi_cleared_banks s'"
  by (cases m) (auto simp: slot_get_block_message_def Let_def split: option.splits)

definition example_update :: "u8 \<Rightarrow> message_account" where
  "example_update v = \<lparr>ma_pubkey = [1, 2], ma_owner = [], ma_lamports = 0, ma_executable = False, ma_rent_epoch = 0,
     ma_data = (0, 0), ma_txn_signature_offset = None, ma_write_version = 0, ma_slot = 7, ma_is_startup = False,
     ma_bank_id = None, ma_created_at = timestamp_default, ma_buffer = [v], ma_account_offset = 0, ma_range = (0, 1)\<rparr>"

lemma example_version:
  assumes "unat v < 128"
  shows "message_account_write_version prost_ref (example_update v) = Some (ucast v)"
proof -
  have "unleb 10 [v] = Some (unat v, [])" using unleb.simps(3) [of 9 v "[]"] assms by simp
  then show ?thesis using assms
    by (simp add: message_account_write_version_def example_update_def prost_ref_def ref_decode_varint_def)
qed

definition example_transaction :: "unit message_transaction" where
  "example_transaction = \<lparr>mt_signature_offset = None, mt_error = None, mt_account_keys = {}, mt_is_vote = False,
     mt_index = 0, mt_transaction_range = (0, 0), mt_slot = 7, mt_bank_id = 0, mt_created_at = timestamp_default,
     mt_buffer = [], mt_range = (0, 0)\<rparr>"

definition example_entry :: message_entry where
  "example_entry = \<lparr>me_slot = 7, me_index = 0, me_executed_transaction_count = 1, me_bank_id = 0,
     me_created_at = timestamp_default, me_buffer = [], me_range = (0, 0)\<rparr>"

definition example_meta :: message_block_meta where
  "example_meta = \<lparr>mb_block_meta = \<lparr>bm_slot = 7, bm_block_height = None, bm_executed_transaction_count = 1,
     bm_entries_count = 1, bm_bank_id = 0\<rparr>, mb_block_height = 0, mb_created_at = timestamp_default,
     mb_buffer = [], mb_range = (0, 0)\<rparr>"

definition example_bank :: "unit parsed_message list" where
  "example_bank = [RP_Account (example_update 3), RP_Transaction example_transaction, RP_Account (example_update 9),
     RP_Entry example_entry, RP_BlockMeta example_meta]"

subsection \<open>Properties\<close>

text \<open>\<^bold>\<open>C21.\<close> Block reconstruction: for every sequence of messages of a bank, no step panics, and a
  block is produced by exactly the first message after which the last block meta announces
  as many transactions and entries as were received. It holds all transactions and all
  entries in the order of their arrival, and of the account updates those with the
  greatest version of each account.\<close>

theorem block_reconstruction:
  assumes "\<forall>m\<in>set ms. bank_message P m"
  shows "\<exists>blocks b. bank_run P ms (bank_info_new sl) = Some (blocks, b) \<and> length blocks = length ms \<and>
    (\<forall>i < length ms. blocks ! i = (if counts_match (take (Suc i) ms) \<and> (\<forall>j < i. \<not> counts_match (take (Suc j) ms))
       then Some (RP_Block (expected_block P (take (Suc i) ms))) else None))"
  using bank_run_ok [OF bank_ok_new assms counts_match_Nil] by (simp only: append_Nil)

theorem block_reconstruction_witness:
  "\<exists>blocks b. bank_run prost_ref example_bank (bank_info_new 7) = Some (blocks, b) \<and>
    blocks ! 4 = Some (RP_Block (expected_block prost_ref example_bank)) \<and>
    blk_accounts (expected_block prost_ref example_bank) = [example_update 9]"
proof -
  have v: "message_account_write_version prost_ref (example_update 3) = Some 3"
    "message_account_write_version prost_ref (example_update 9) = Some 9"
    by (simp_all add: example_version)
  then have all: "\<forall>m\<in>set example_bank. bank_message prost_ref m" by (simp add: example_bank_def)
  have n: "length example_bank = 5" "take (Suc 4) example_bank = example_bank" by (simp_all add: example_bank_def)
  have c: "counts_match example_bank" "list_all (\<lambda>j. \<not> counts_match (take (Suc j) example_bank)) [0..<4]" by code_simp+
  have ne: "example_update 3 \<noteq> example_update 9" by (simp add: example_update_def)
  have a: "blk_accounts (expected_block prost_ref example_bank) = [example_update 9]"
    using v by (simp add: expected_block_def live_messages_def live_def example_bank_def upt_rec account_version_def
      List.map_filter_def nth_Cons' example_update_def)
  have f: "\<forall>j < 4. \<not> counts_match (take (Suc j) example_bank)" using c(2) by (simp add: list_all_iff)
  from block_reconstruction [OF all, of 7] obtain blocks b where
    r: "bank_run prost_ref example_bank (bank_info_new 7) = Some (blocks, b)"
    "\<forall>i < length example_bank. blocks ! i = (if counts_match (take (Suc i) example_bank) \<and>
      (\<forall>j < i. \<not> counts_match (take (Suc j) example_bank))
     then Some (RP_Block (expected_block prost_ref (take (Suc i) example_bank))) else None)" by blast
  have "4 < length example_bank" using n(1) by simp
  from r(2) [rule_format, OF this] have "blocks ! 4 = Some (RP_Block (expected_block prost_ref example_bank))"
    using c(1) f unfolding n(2) by simp
  with r(1) a show ?thesis by blast
qed

text \<open>\<^bold>\<open>C22.\<close> The bank of a slot is selected once: after the first confirmed status the confirmed bank
  never changes, whatever statuses, messages or epoch changes follow, and a later confirmed
  status selects no bank. A finalized status that names a bank selects this bank; one that names no
  bank selects the confirmed bank when that has a number, and otherwise the last bank of
  the slot that has a number, if there is one.\<close>

theorem confirmed_bank_fixed:
  assumes "slot_commit SlotConfirmed bank s = (Some k, s1)" and "slot_steps P s1 es s2"
  shows "rsi_confirmed_bank s2 = Some k \<and> fst (slot_commit SlotConfirmed bank' s2) = None \<and>
    fst (slot_commit SlotFinalized (Some y) s2) = Some (Some y) \<and>
    fst (slot_commit SlotFinalized None s2) = Some (case k of Some x \<Rightarrow> Some x
      | None \<Rightarrow> (case bt_last_key (rsi_banks s2) of Some b \<Rightarrow> b | None \<Rightarrow> None))"
proof -
  have "rsi_confirmed_bank s1 = Some k" using assms(1) by (auto simp: slot_commit_def Let_def split: if_splits)
  then have "rsi_confirmed_bank s2 = Some k" by (rule slot_steps_confirmed [OF assms(2)])
  then show ?thesis by (auto simp: slot_commit_def Let_def select_bank_def split: option.split)
qed

theorem confirmed_bank_fixed_witness:
  "rsi_confirmed_bank (slot_abandon (snd (slot_commit SlotConfirmed (Some 5) (rslot_info_new 7 0 :: unit rslot_info)))) =
    Some (Some 5)"
proof -
  let ?s = "rslot_info_new 7 0 :: unit rslot_info"
  have c: "slot_commit SlotConfirmed (Some 5) ?s = (Some (Some 5), snd (slot_commit SlotConfirmed (Some 5) ?s))"
    by (simp add: slot_commit_def Let_def select_bank_def rslot_info_new_def)
  have "slot_steps prost_ref (snd (slot_commit SlotConfirmed (Some 5) ?s)) [SE_Abandon]
      (slot_abandon (snd (slot_commit SlotConfirmed (Some 5) ?s)))"
    by (rule slot_steps.step [OF slot_step.abandon slot_steps.refl])
  from confirmed_bank_fixed [OF c this] show ?thesis by simp
qed

text \<open>When the confirmed bank has no number, because its messages came from a source without
  banks, it is not kept: if messages of a numbered bank arrive after the confirmed status,
  a finalized status without a bank selects the numbered one.\<close>

theorem unnumbered_bank_not_kept:
  "\<exists>s1 s2 s3. slot_steps P (rslot_info_new 7 0) [SE_Message (RP_Entry example_entry)] s1 \<and>
    slot_commit SlotConfirmed None s1 = (Some None, s2) \<and>
    slot_steps P s2 [SE_Message (RP_Entry (example_entry\<lparr>me_bank_id := 5\<rparr>))] s3 \<and>
    rsi_confirmed_bank s3 = Some None \<and> fst (slot_commit SlotFinalized None s3) = Some (Some (5 :: bank_id))"
proof -
  let ?s = "rslot_info_new 7 0" and ?e5 = "example_entry\<lparr>me_bank_id := 5\<rparr>"
  let ?b = "\<lambda>e. (push_message (RP_Entry e) (bank_info_new 7))\<lparr>bi_entries_count := 1\<rparr>"
  let ?s1 = "?s\<lparr>rsi_banks := [(None, ?b example_entry)]\<rparr>"
  let ?s2 = "?s\<lparr>rsi_banks := [(None, (?b example_entry)\<lparr>bi_landed := True\<rparr>)], rsi_confirmed_bank := Some None\<rparr>"
  let ?s3 = "?s2\<lparr>rsi_banks := [(None, (?b example_entry)\<lparr>bi_landed := True\<rparr>), (Some 5, ?b ?e5)]\<rparr>"
  note defs = slot_get_block_message_def Let_def rslot_info_new_def bt_or_insert_def bt_get_def bank_get_block_message_def
    bank_info_new_def push_message_def bank_complete_def filter_bank_def nonzero_bank_id_def example_entry_def
  have 1: "slot_get_block_message P (RP_Entry example_entry) ?s = Some (None, None, ?s1)" by (simp add: defs)
  have 2: "slot_commit SlotConfirmed None ?s1 = (Some None, ?s2)"
    by (simp add: slot_commit_def select_bank_def Let_def rslot_info_new_def bt_last_key_def bt_update_def bt_get_def)
  have 3: "slot_get_block_message P (RP_Entry ?e5) ?s2 = Some (None, None, ?s3)" by (simp add: defs)
  have 4: "fst (slot_commit SlotFinalized None ?s3) = Some (Some 5)"
    by (simp add: slot_commit_def select_bank_def Let_def rslot_info_new_def bt_last_key_def)
  have "rsi_confirmed_bank ?s3 = Some None" by simp
  then show ?thesis using 2 4 slot_steps.step [OF slot_step.message [OF 1] slot_steps.refl]
    slot_steps.step [OF slot_step.message [OF 3] slot_steps.refl] by blast
qed

end
