(* ===== verification/Richat_Dedup.thy ===== *)
theory Richat_Dedup
  imports Richat_Block
begin

text \<open>
  Deduplication of the messages of several sources (\<open>DedupInfo\<close> and the first part of
  \<open>Sender::push\<close> in \<open>richat/src/channel.rs\<close>). Account updates that belong to a transaction
  wait until the transaction is known, and get its index as their write version. \<open>None\<close> is a
  panic; running out of memory is not modelled.
\<close>

datatype dedup_transaction_index =
  DT_Index usize
| DT_Accounts "message_account list"

record dedup_info_bank =
  db_accounts_updates :: "(bytes option \<times> bytes) set"
  db_phantom_index :: u64
  db_transactions :: "bytes \<rightharpoonup> dedup_transaction_index"
  db_entries :: "bool list"
  db_block_meta :: bool
  db_block_footer :: bool
  db_entry_update_parent :: bool

definition dedup_bank_default :: dedup_info_bank where
  "dedup_bank_default = \<lparr>db_accounts_updates = {}, db_phantom_index = 0, db_transactions = Map.empty,
     db_entries = replicate 256 False, db_block_meta = False, db_block_footer = False, db_entry_update_parent = False\<rparr>"

record dedup_info =
  di_source :: "string option"
  di_slots :: "bank_id option \<rightharpoonup> bool list"
  di_banks :: "bank_id option \<rightharpoonup> dedup_info_bank"

definition dedup_info_default :: dedup_info where
  "dedup_info_default = \<lparr>di_source = None, di_slots = Map.empty, di_banks = Map.empty\<rparr>"

text \<open>\<open>DedupInfoAccountTransactionKey::from\<close>\<close>

definition account_transaction_key :: "message_account \<Rightarrow> (bytes option \<times> bytes) option" where
  "account_transaction_key m = (case message_account_txn_signature m of
     None \<Rightarrow> Some (None, ma_pubkey m)
   | Some None \<Rightarrow> None
   | Some (Some s) \<Rightarrow> Some (Some s, ma_pubkey m))"

definition dedup_account :: "prost \<Rightarrow> message_account \<Rightarrow> dedup_info_bank \<Rightarrow> ('x parsed_message list \<times> dedup_info_bank) option" where
  "dedup_account P msg d = Option.bind (account_transaction_key msg) (\<lambda>key.
     if key \<in> db_accounts_updates d then Some ([], d)
     else (let d1 = d\<lparr>db_accounts_updates := insert key (db_accounts_updates d)\<rparr> in
       case fst key of
         Some sig \<Rightarrow> (case db_transactions d sig of
             Some (DT_Index index) \<Rightarrow> map_option (\<lambda>m. ([RP_Account m], d1)) (update_write_version P index msg)
           | Some (DT_Accounts vec) \<Rightarrow> Some ([], d1\<lparr>db_transactions := (db_transactions d)(sig \<mapsto> DT_Accounts (vec @ [msg]))\<rparr>)
           | None \<Rightarrow> Some ([], d1\<lparr>db_transactions := (db_transactions d)(sig \<mapsto> DT_Accounts [msg])\<rparr>))
       | None \<Rightarrow> map_option (\<lambda>m. ([RP_Account m], d1\<lparr>db_phantom_index := db_phantom_index d + 1\<rparr>))
           (update_write_version P (db_phantom_index d) msg)))"

fun rewrite_all :: "prost \<Rightarrow> u64 \<Rightarrow> message_account list \<Rightarrow> message_account list option" where
  "rewrite_all P v [] = Some []"
| "rewrite_all P v (m # ms) = Option.bind (update_write_version P v m) (\<lambda>m'.
     map_option (\<lambda>ms'. m' # ms') (rewrite_all P v ms))"

definition dedup_transaction :: "prost \<Rightarrow> 'x message_transaction \<Rightarrow> dedup_info_bank \<Rightarrow> ('x parsed_message list \<times> dedup_info_bank) option" where
  "dedup_transaction P msg d =
     (let index = mt_index msg + 1000 in
      Option.bind (message_transaction_signature msg) (\<lambda>sig.
        let d1 = d\<lparr>db_transactions := (db_transactions d)(sig \<mapsto> DT_Index index)\<rparr> in
        case db_transactions d sig of
          Some (DT_Accounts vec) \<Rightarrow> map_option (\<lambda>ms. (map RP_Account ms @ [RP_Transaction msg], d1)) (rewrite_all P index vec)
        | Some (DT_Index _) \<Rightarrow> Some ([], d)
        | None \<Rightarrow> Some ([RP_Transaction msg], d1)))"

text \<open>\<open>usize::next_power_of_two\<close> in a release build, and \<open>Vec::resize(n, false)\<close>.\<close>

definition usize_next_power_of_two :: "nat \<Rightarrow> nat" where
  "usize_next_power_of_two n = (if n \<le> 2 ^ 63 then next_power_of_two n else 0)"

definition vec_resize :: "nat \<Rightarrow> bool list \<Rightarrow> bool list" where
  "vec_resize n xs = take n xs @ replicate (n - length xs) False"

definition grow_entries :: "nat \<Rightarrow> bool list \<Rightarrow> bool list" where
  "grow_entries index entries = (if length entries \<le> index
     then vec_resize (max (usize_next_power_of_two index) (length entries * 2)) entries else entries)"

definition dedup_entry :: "message_entry \<Rightarrow> dedup_info_bank \<Rightarrow> ('x parsed_message list \<times> dedup_info_bank) option" where
  "dedup_entry msg d =
     (let index = unat (me_index msg); entries = grow_entries index (db_entries d) in
      if index < length entries
      then (if \<not> entries ! index then Some ([RP_Entry msg], d\<lparr>db_entries := entries[index := True]\<rparr>)
            else Some ([], d\<lparr>db_entries := entries\<rparr>))
      else None)"

fun dedup_bank_push :: "prost \<Rightarrow> 'x message \<Rightarrow> dedup_info_bank \<Rightarrow> ('x parsed_message list \<times> dedup_info_bank) option" where
  "dedup_bank_push P (M_Slot m) d = None"
| "dedup_bank_push P (M_Account m) d = dedup_account P m d"
| "dedup_bank_push P (M_Transaction m) d = dedup_transaction P m d"
| "dedup_bank_push P (M_Entry m) d = dedup_entry m d"
| "dedup_bank_push P (M_BlockMeta m) d =
     Some (if db_block_meta d then ([], d) else ([RP_BlockMeta m], d\<lparr>db_block_meta := True\<rparr>))"
| "dedup_bank_push P (M_BlockFooter f ts n) d =
     Some (if db_block_footer d then ([], d) else ([RP_BlockFooter f ts n], d\<lparr>db_block_footer := True\<rparr>))"
| "dedup_bank_push P (M_EntryUpdateParent u ts n) d =
     Some (if db_entry_update_parent d then ([], d) else ([RP_EntryUpdateParent u ts n], d\<lparr>db_entry_update_parent := True\<rparr>))"

text \<open>\<open>msg.status() as i32 as usize\<close>\<close>

fun status_index :: "geyser_status \<Rightarrow> nat" where
  "status_index SlotProcessed = 0"
| "status_index SlotConfirmed = 1"
| "status_index SlotFinalized = 2"
| "status_index SlotFirstShredReceived = 3"
| "status_index SlotCompleted = 4"
| "status_index SlotCreatedBank = 5"
| "status_index SlotDead = 6"

text \<open>Messages with a bank are accepted from the first source only.\<close>

definition dedup_source :: "bank_id option \<Rightarrow> string \<Rightarrow> dedup_info \<Rightarrow> dedup_info option" where
  "dedup_source bank source di = (if bank = None then Some di
     else (case di_source di of
         Some s \<Rightarrow> if s \<noteq> source then None else Some di
       | None \<Rightarrow> Some (di\<lparr>di_source := Some source\<rparr>)))"

fun dedup_message :: "prost \<Rightarrow> bank_id option \<Rightarrow> 'x message \<Rightarrow> dedup_info \<Rightarrow> ('x parsed_message list \<times> dedup_info) option" where
  "dedup_message P bank (M_Slot m) di =
     (let slots = (case di_slots di bank of Some s \<Rightarrow> s | None \<Rightarrow> replicate 7 False); index = status_index (ms_status m) in
      if slots ! index then Some ([], di\<lparr>di_slots := (di_slots di)(bank \<mapsto> slots)\<rparr>)
      else Some ([RP_Slot m], di\<lparr>di_slots := (di_slots di)(bank \<mapsto> slots[index := True])\<rparr>))"
| "dedup_message P bank m di =
     map_option (\<lambda>(ms, d). (ms, di\<lparr>di_banks := (di_banks di)(bank \<mapsto> d)\<rparr>))
       (dedup_bank_push P m (case di_banks di bank of Some d \<Rightarrow> d | None \<Rightarrow> dedup_bank_default))"

definition dedup_push :: "prost \<Rightarrow> string \<Rightarrow> bank_id option \<Rightarrow> 'x message \<Rightarrow> dedup_info \<Rightarrow> ('x parsed_message list \<times> dedup_info) option" where
  "dedup_push P source bank m di = (case dedup_source bank source di of
     None \<Rightarrow> Some ([], di)
   | Some di1 \<Rightarrow> dedup_message P bank m di1)"

fun dedup_run :: "prost \<Rightarrow> 'x message list \<Rightarrow> dedup_info_bank \<Rightarrow> ('x parsed_message list \<times> dedup_info_bank) option" where
  "dedup_run P [] d = Some ([], d)"
| "dedup_run P (m # ms) d = Option.bind (dedup_bank_push P m d) (\<lambda>(outs, d1).
     map_option (\<lambda>(outs', d2). (outs @ outs', d2)) (dedup_run P ms d1))"


subsection \<open>What a bank has accepted\<close>

text \<open>The key under which a message is a duplicate. Messages have no key when their
  signature cannot be read; slot statuses are counted outside of the bank.\<close>

datatype dedup_key =
  DK_Account "bytes option \<times> bytes"
| DK_Transaction bytes
| DK_Entry nat
| DK_BlockMeta
| DK_BlockFooter
| DK_EntryUpdateParent

fun message_key :: "'x message \<Rightarrow> dedup_key option" where
  "message_key (M_Slot m) = None"
| "message_key (M_Account m) = map_option DK_Account (account_transaction_key m)"
| "message_key (M_Transaction m) = map_option DK_Transaction (message_transaction_signature m)"
| "message_key (M_Entry m) = Some (DK_Entry (unat (me_index m)))"
| "message_key (M_BlockMeta m) = Some DK_BlockMeta"
| "message_key (M_BlockFooter f ts n) = Some DK_BlockFooter"
| "message_key (M_EntryUpdateParent u ts n) = Some DK_EntryUpdateParent"

definition dedup_keys :: "'x message list \<Rightarrow> dedup_key set" where
  "dedup_keys ms = {k. Some k \<in> message_key ` set ms}"

text \<open>An account update whose transaction is still unknown.\<close>

definition waiting :: "dedup_key set \<Rightarrow> dedup_key \<Rightarrow> bool" where
  "waiting K k = (\<exists>sig p. k = DK_Account (Some sig, p) \<and> DK_Transaction sig \<notin> K)"

text \<open>What is sent for an accepted message: the message itself; an account update with the
  index of its transaction as write version.\<close>

fun emitted :: "prost \<Rightarrow> 'x message list \<Rightarrow> 'x message \<Rightarrow> 'x parsed_message \<Rightarrow> bool" where
  "emitted P ms (M_Account a) out = (\<exists>v a'. update_write_version P v a = Some a' \<and> out = RP_Account a' \<and>
     (\<forall>sig p. account_transaction_key a = Some (Some sig, p) \<longrightarrow>
       (\<exists>t. M_Transaction t \<in> set ms \<and> message_transaction_signature t = Some sig \<and> v = mt_index t + 1000)))"
| "emitted P ms m out = (out = parsed_from m)"

text \<open>Messages as the sources send them: signatures are inside the buffers, write versions
  can be rewritten, and entries do not run ahead of the received ones by more than the factor 2.\<close>

fun message_ready :: "prost \<Rightarrow> 'x message list \<Rightarrow> 'x message list \<Rightarrow> 'x message \<Rightarrow> bool" where
  "message_ready P all pre (M_Slot m) = False"
| "message_ready P all pre (M_Account a) = (case account_transaction_key a of
     None \<Rightarrow> False
   | Some (None, p) \<Rightarrow> \<forall>v. update_write_version P v a \<noteq> None
   | Some (Some sig, p) \<Rightarrow> \<forall>t. M_Transaction t \<in> set all \<longrightarrow> message_transaction_signature t = Some sig \<longrightarrow>
       update_write_version P (mt_index t + 1000) a \<noteq> None)"
| "message_ready P all pre (M_Transaction t) = (message_transaction_signature t \<noteq> None)"
| "message_ready P all pre (M_Entry e) = (unat (me_index e) < 512 \<or>
     (\<exists>e'. M_Entry e' \<in> set pre \<and> unat (me_index e) \<le> 2 * unat (me_index e') + 1))"
| "message_ready P all pre m = True"

definition messages_ready :: "prost \<Rightarrow> 'x message list \<Rightarrow> bool" where
  "messages_ready P ms = (\<forall>i < length ms. message_ready P ms (take i ms) (ms ! i))"

definition transaction_entry_ok :: "'x message list \<Rightarrow> bytes \<Rightarrow> dedup_transaction_index option \<Rightarrow> bool" where
  "transaction_entry_ok ms sig e = (case e of
     None \<Rightarrow> DK_Transaction sig \<notin> dedup_keys ms \<and> (\<forall>p. DK_Account (Some sig, p) \<notin> dedup_keys ms)
   | Some (DT_Index i) \<Rightarrow> (\<exists>t. M_Transaction t \<in> set ms \<and> message_transaction_signature t = Some sig \<and> i = mt_index t + 1000)
   | Some (DT_Accounts v) \<Rightarrow> DK_Transaction sig \<notin> dedup_keys ms \<and> M_Account ` set v \<subseteq> set ms \<and>
       distinct (map account_transaction_key v) \<and>
       account_transaction_key ` set v = {Some (Some sig, p) | p. DK_Account (Some sig, p) \<in> dedup_keys ms})"

definition trace_ok :: "prost \<Rightarrow> 'x message list \<Rightarrow> 'x message list \<Rightarrow> 'x message list \<Rightarrow> 'x parsed_message list \<Rightarrow> bool" where
  "trace_ok P all ms srcs outs \<longleftrightarrow> list_all2 (emitted P all) srcs outs \<and> set srcs \<subseteq> set ms \<and>
     distinct (map message_key srcs) \<and> (\<forall>m \<in> set srcs. message_key m \<noteq> None) \<and>
     dedup_keys srcs = {k \<in> dedup_keys ms. \<not> waiting (dedup_keys ms) k}"

definition dedup_bank_ok :: "'x message list \<Rightarrow> dedup_info_bank \<Rightarrow> bool" where
  "dedup_bank_ok ms d \<longleftrightarrow> db_accounts_updates d = {k. DK_Account k \<in> dedup_keys ms} \<and>
     (\<forall>sig. transaction_entry_ok ms sig (db_transactions d sig)) \<and>
     256 \<le> length (db_entries d) \<and> (\<forall>i. DK_Entry i \<in> dedup_keys ms \<longleftrightarrow> i < length (db_entries d) \<and> db_entries d ! i) \<and>
     (db_block_meta d \<longleftrightarrow> DK_BlockMeta \<in> dedup_keys ms) \<and> (db_block_footer d \<longleftrightarrow> DK_BlockFooter \<in> dedup_keys ms) \<and>
     (db_entry_update_parent d \<longleftrightarrow> DK_EntryUpdateParent \<in> dedup_keys ms)"

subsection \<open>The steps keep the invariant\<close>

lemma dedup_keys_append [simp]: "dedup_keys (xs @ ys) = dedup_keys xs \<union> dedup_keys ys"
  by (auto simp: dedup_keys_def)

lemma dedup_keys_simps [simp]: "dedup_keys [] = {}" "message_key m = Some k \<Longrightarrow> dedup_keys [m] = {k}"
  by (auto simp: dedup_keys_def)

lemma dedup_keysI: "m \<in> set ms \<Longrightarrow> message_key m = Some k \<Longrightarrow> k \<in> dedup_keys ms"
  by (force simp: dedup_keys_def)

lemma in_keys_map: "Some k \<in> message_key ` set ms \<longleftrightarrow> k \<in> dedup_keys ms"
  by (simp add: dedup_keys_def)

lemma in_dedup_keys: "k \<in> dedup_keys ms \<longleftrightarrow> (\<exists>m \<in> set ms. message_key m = Some k)"
  by (simp add: dedup_keys_def image_iff) (rule bex_cong [OF HOL.refl], rule eq_commute)

lemma account_keys:
  "x \<in> dedup_keys (map M_Account v) \<longleftrightarrow> (\<exists>y. x = DK_Account y \<and> Some y \<in> account_transaction_key ` set v)"
  unfolding in_dedup_keys by (auto simp: map_option_eq_Some) (metis image_iff)+

lemma waiting_insert:
  "(\<forall>sig. k \<noteq> DK_Transaction sig) \<Longrightarrow> waiting (insert k K) = waiting K"
  by (auto simp: waiting_def fun_eq_iff)

lemma trace_duplicate:
  assumes "trace_ok P all ms srcs outs" "message_key m = Some k" "k \<in> dedup_keys ms"
  shows "trace_ok P all (ms @ [m]) srcs outs"
proof -
  have "insert k (dedup_keys ms) = dedup_keys ms" using assms(3) by auto
  then show ?thesis using assms by (auto simp: trace_ok_def)
qed

lemma trace_wait:
  assumes "trace_ok P all ms srcs outs" "message_key m = Some k" "waiting (dedup_keys ms) k"
  shows "trace_ok P all (ms @ [m]) srcs outs"
proof -
  have "\<forall>sig. k \<noteq> DK_Transaction sig" using assms(3) by (auto simp: waiting_def)
  note w = waiting_insert [OF this, of "dedup_keys ms"]
  have "dedup_keys srcs = {k' \<in> insert k (dedup_keys ms). \<not> waiting (insert k (dedup_keys ms)) k'}"
    unfolding w using assms by (auto simp: trace_ok_def)
  then show ?thesis using assms by (auto simp: trace_ok_def)
qed

lemma trace_emit:
  assumes t: "trace_ok P all ms srcs outs" and k: "message_key m = Some k" "k \<notin> dedup_keys ms"
    and n: "\<forall>sig. k \<noteq> DK_Transaction sig" "\<not> waiting (dedup_keys ms) k" and e: "emitted P all m out"
  shows "trace_ok P all (ms @ [m]) (srcs @ [m]) (outs @ [out])"
proof -
  note w = waiting_insert [OF n(1), of "dedup_keys ms"]
  have keys: "dedup_keys (srcs @ [m]) = {k' \<in> dedup_keys (ms @ [m]). \<not> waiting (dedup_keys (ms @ [m])) k'}"
    using t k n(2) by (auto simp: trace_ok_def w)
  have "Some k \<notin> message_key ` set srcs" using t k(2) by (auto simp: trace_ok_def in_keys_map)
  then show ?thesis using t k e unfolding trace_ok_def keys by (auto simp: list_all2_appendI)
qed

lemma trace_transaction:
  fixes srcs :: "'x message list"
  assumes t: "trace_ok P all ms srcs outs" and k: "message_transaction_signature t = Some sig" "DK_Transaction sig \<notin> dedup_keys ms"
    and v: "list_all2 (emitted P all) (map M_Account v) vo" "M_Account ` set v \<subseteq> set ms" "distinct (map account_transaction_key v)"
      "account_transaction_key ` set v = {Some (Some sig, p) | p. DK_Account (Some sig, p) \<in> dedup_keys ms}"
  shows "trace_ok P all (ms @ [M_Transaction t]) (srcs @ map M_Account v @ [M_Transaction t]) (outs @ vo @ [RP_Transaction t])"
proof -
  let ?K = "dedup_keys ms" and ?m = "M_Transaction t" and ?V = "map M_Account v :: 'x message list"
  have m: "message_key ?m = Some (DK_Transaction sig)" using k by simp
  have vk: "dedup_keys ?V = {DK_Account (Some sig, p) | p. DK_Account (Some sig, p) \<in> ?K}" (is "?L = ?R")
  proof (rule set_eqI)
    fix x
    have "x \<in> ?L \<longleftrightarrow> (\<exists>y. x = DK_Account y \<and> Some y \<in> account_transaction_key ` set v)"
      by (rule account_keys)
    also have "\<dots> \<longleftrightarrow> x \<in> ?R" unfolding v(4) by auto
    finally show "x \<in> ?L \<longleftrightarrow> x \<in> ?R" .
  qed
  have w: "waiting (insert (DK_Transaction sig) ?K) x \<longleftrightarrow> waiting ?K x \<and> (\<forall>p. x \<noteq> DK_Account (Some sig, p))" for x
    by (auto simp: waiting_def)
  have w': "waiting ?K (DK_Account (Some sig, p))" for p using k(2) by (auto simp: waiting_def)
  have nt: "\<not> waiting K' (DK_Transaction s)" for K' s by (simp add: waiting_def)
  have S: "dedup_keys srcs = {k \<in> ?K. \<not> waiting ?K k}" using t by (simp add: trace_ok_def)
  have keys: "dedup_keys (srcs @ ?V @ [?m]) = {k' \<in> dedup_keys (ms @ [?m]). \<not> waiting (dedup_keys (ms @ [?m])) k'}"
    using m by (auto simp: S vk w w' nt)
  have some: "\<forall>x \<in> set ?V. message_key x \<noteq> None"
  proof (intro ballI)
    fix x assume "x \<in> set ?V"
    then obtain a where a: "x = M_Account a" "a \<in> set v" by auto
    then have "account_transaction_key a \<in> account_transaction_key ` set v" by simp
    then show "message_key x \<noteq> None" unfolding v(4) using a by auto
  qed
  have "distinct (map (map_option DK_Account) (map account_transaction_key v))"
    by (intro iffD2 [OF distinct_map] conjI v(3) inj_on_subset [OF option.inj_map] subset_UNIV) (simp add: inj_def)
  then have dv: "distinct (map message_key ?V)" by (simp add: comp_def)
  have disj: "message_key ` set srcs \<inter> message_key ` set ?V = {}"
  proof (intro equals0I, elim IntE)
    fix x assume x: "x \<in> message_key ` set srcs" "x \<in> message_key ` set ?V"
    from x(2) obtain a where a: "x = message_key a" "a \<in> set ?V" by (rule imageE)
    with some obtain y where "x = Some y" by (metis not_None_eq)
    with x have "y \<in> dedup_keys srcs" "y \<in> dedup_keys ?V" by (simp_all only: dedup_keys_def mem_Collect_eq)
    then show False unfolding S vk using w' by auto
  qed
  have n: "message_key ?m \<notin> message_key ` set srcs" "message_key ?m \<notin> message_key ` set ?V"
    unfolding m in_keys_map vk S using k(2) by auto
  have d: "distinct (map message_key (srcs @ ?V @ [?m]))"
    using t dv disj n unfolding trace_ok_def map_append distinct_append set_append set_map by auto
  have "list_all2 (emitted P all) (srcs @ ?V @ [?m]) (outs @ vo @ [RP_Transaction t])"
    using t v(1) by (intro list_all2_appendI) (simp_all add: trace_ok_def)
  then show ?thesis using t v(2) some d m unfolding trace_ok_def keys by auto
qed


lemma transaction_entry_mono:
  assumes "transaction_entry_ok ms sig e" "dedup_keys ms' = dedup_keys ms" "set ms \<subseteq> set ms'"
  shows "transaction_entry_ok ms' sig e"
  using assms by (auto simp: transaction_entry_ok_def split: option.splits dedup_transaction_index.splits)

lemma transaction_entry_other:
  assumes "transaction_entry_ok ms sig e" "message_key m = Some k" "k \<noteq> DK_Transaction sig" "\<forall>p. k \<noteq> DK_Account (Some sig, p)"
  shows "transaction_entry_ok (ms @ [m]) sig e"
proof -
  have "DK_Account (Some sig, p) \<in> dedup_keys (ms @ [m]) \<longleftrightarrow> DK_Account (Some sig, p) \<in> dedup_keys ms" for p
    using assms(2,4) by auto
  moreover have "DK_Transaction sig \<in> dedup_keys (ms @ [m]) \<longleftrightarrow> DK_Transaction sig \<in> dedup_keys ms"
    using assms(2,3) by auto
  ultimately show ?thesis using assms(1)
    by (auto simp: transaction_entry_ok_def split: option.splits dedup_transaction_index.splits)
qed

lemma bank_duplicate:
  assumes "dedup_bank_ok ms d" "message_key m = Some k" "k \<in> dedup_keys ms"
  shows "dedup_bank_ok (ms @ [m]) d"
proof -
  have K: "dedup_keys (ms @ [m]) = dedup_keys ms" using assms(2,3) by auto
  have "transaction_entry_ok (ms @ [m]) sig e" if "transaction_entry_ok ms sig e" for sig e
    using that K by (rule transaction_entry_mono) auto
  then show ?thesis using assms(1) unfolding dedup_bank_ok_def K by blast
qed

lemma entries_grown:
  assumes "256 \<le> length es"
  shows "length es \<le> length (grow_entries i es)" "j < length es \<Longrightarrow> grow_entries i es ! j = es ! j"
    "length es \<le> j \<Longrightarrow> j < length (grow_entries i es) \<Longrightarrow> \<not> grow_entries i es ! j"
    "i < 2 * length es \<Longrightarrow> i < length (grow_entries i es)"
  using assms by (auto simp: grow_entries_def vec_resize_def nth_append)

text \<open>One step: the messages sent belong to an extension of the trace, and the bank knows the key.\<close>

definition step_ok :: "prost \<Rightarrow> 'x message list \<Rightarrow> 'x message list \<Rightarrow> 'x message list \<Rightarrow> 'x parsed_message list \<Rightarrow>
    ('x parsed_message list \<times> dedup_info_bank) option \<Rightarrow> bool" where
  "step_ok P all ms srcs outs r \<longleftrightarrow> (\<exists>os d' ss. r = Some (os, d') \<and> dedup_bank_ok ms d' \<and> trace_ok P all ms (srcs @ ss) (outs @ os))"

lemma step_okI: "r = Some (os, d') \<Longrightarrow> dedup_bank_ok ms d' \<Longrightarrow> trace_ok P all ms (srcs @ ss) (outs @ os) \<Longrightarrow> step_ok P all ms srcs outs r"
  by (auto simp: step_ok_def)

lemma step_duplicate:
  assumes "dedup_bank_ok ms d" "trace_ok P all ms srcs outs" "message_key m = Some k" "k \<in> dedup_keys ms"
  shows "step_ok P all (ms @ [m]) srcs outs (Some ([], d))"
  using bank_duplicate [OF assms(1,3,4)] trace_duplicate [OF assms(2-4)] by (intro step_okI [where ss = "[]" and os = "[]", OF HOL.refl]) simp_all

lemma step_flags:
  assumes "dedup_bank_ok ms d" "trace_ok P all ms srcs outs"
  shows "step_ok P all (ms @ [M_BlockMeta m]) srcs outs (dedup_bank_push P (M_BlockMeta m) d)"
    "step_ok P all (ms @ [M_BlockFooter f ts n]) srcs outs (dedup_bank_push P (M_BlockFooter f ts n) d)"
    "step_ok P all (ms @ [M_EntryUpdateParent u ts n]) srcs outs (dedup_bank_push P (M_EntryUpdateParent u ts n) d)"
proof -
  have other: "transaction_entry_ok (ms @ [m]) sig (db_transactions d sig)"
    if "message_key m = Some k" "k = DK_BlockMeta \<or> k = DK_BlockFooter \<or> k = DK_EntryUpdateParent" for m sig k
    using assms(1) that by (intro transaction_entry_other) (auto simp: dedup_bank_ok_def)
  show "step_ok P all (ms @ [M_BlockMeta m]) srcs outs (dedup_bank_push P (M_BlockMeta m) d)"
  proof (cases "db_block_meta d")
    case True
    with assms(1) have "DK_BlockMeta \<in> dedup_keys ms" by (simp add: dedup_bank_ok_def)
    from step_duplicate [OF assms _ this] True show ?thesis by simp
  next
    case False
    with assms have "trace_ok P all (ms @ [M_BlockMeta m]) (srcs @ [M_BlockMeta m]) (outs @ [RP_BlockMeta m])"
      by (intro trace_emit [where k = DK_BlockMeta]) (auto simp: dedup_bank_ok_def waiting_def)
    then show ?thesis using False assms(1) other [of "M_BlockMeta m"]
      by (intro step_okI [where ss = "[M_BlockMeta m]"]) (auto simp: dedup_bank_ok_def)
  qed
  show "step_ok P all (ms @ [M_BlockFooter f ts n]) srcs outs (dedup_bank_push P (M_BlockFooter f ts n) d)"
  proof (cases "db_block_footer d")
    case True
    with assms(1) have "DK_BlockFooter \<in> dedup_keys ms" by (simp add: dedup_bank_ok_def)
    from step_duplicate [OF assms _ this] True show ?thesis by simp
  next
    case False
    let ?m = "M_BlockFooter f ts n"
    from False assms have "trace_ok P all (ms @ [?m]) (srcs @ [?m]) (outs @ [RP_BlockFooter f ts n])"
      by (intro trace_emit [where k = DK_BlockFooter]) (auto simp: dedup_bank_ok_def waiting_def)
    then show ?thesis using False assms(1) other [of ?m]
      by (intro step_okI [where ss = "[?m]"]) (auto simp: dedup_bank_ok_def)
  qed
  show "step_ok P all (ms @ [M_EntryUpdateParent u ts n]) srcs outs (dedup_bank_push P (M_EntryUpdateParent u ts n) d)"
  proof (cases "db_entry_update_parent d")
    case True
    with assms(1) have "DK_EntryUpdateParent \<in> dedup_keys ms" by (simp add: dedup_bank_ok_def)
    from step_duplicate [OF assms _ this] True show ?thesis by simp
  next
    case False
    let ?m = "M_EntryUpdateParent u ts n"
    from False assms have "trace_ok P all (ms @ [?m]) (srcs @ [?m]) (outs @ [RP_EntryUpdateParent u ts n])"
      by (intro trace_emit [where k = DK_EntryUpdateParent]) (auto simp: dedup_bank_ok_def waiting_def)
    then show ?thesis using False assms(1) other [of ?m]
      by (intro step_okI [where ss = "[?m]"]) (auto simp: dedup_bank_ok_def)
  qed
qed


lemma step_entry:
  assumes b: "dedup_bank_ok ms d" and t: "trace_ok P all ms srcs outs" and r: "message_ready P all ms (M_Entry e)"
  shows "step_ok P all (ms @ [M_Entry e]) srcs outs (dedup_bank_push P (M_Entry e) d)"
proof -
  let ?i = "unat (me_index e)" and ?m = "M_Entry e"
  define es where "es = grow_entries ?i (db_entries d)"
  have len: "256 \<le> length (db_entries d)" and E: "\<And>j. DK_Entry j \<in> dedup_keys ms \<longleftrightarrow> j < length (db_entries d) \<and> db_entries d ! j"
    using b by (auto simp: dedup_bank_ok_def)
  note g = entries_grown [OF len, where i = ?i, folded es_def]
  have "?i < 2 * length (db_entries d)"
  proof (cases "?i < 512")
    case False
    with r obtain e' where e': "M_Entry e' \<in> set ms" "?i \<le> 2 * unat (me_index e') + 1" by auto
    from dedup_keysI [OF e'(1)] E have "unat (me_index e') < length (db_entries d)" by auto
    with e'(2) show ?thesis by linarith
  qed (use len in linarith)
  with g(4) have i: "?i < length es" by blast
  have E': "DK_Entry j \<in> dedup_keys ms \<longleftrightarrow> j < length es \<and> es ! j" for j
    unfolding E using g(1-3) by (metis le_less_trans not_le order_less_le_trans)
  have b': "dedup_bank_ok ms (d\<lparr>db_entries := es\<rparr>)" using b g(1) E' len by (auto simp: dedup_bank_ok_def)
  show ?thesis
  proof (cases "es ! ?i")
    case True
    with i E' have "DK_Entry ?i \<in> dedup_keys ms" by blast
    from step_duplicate [OF b' t _ this, of ?m] True i show ?thesis by (simp add: dedup_entry_def es_def)
  next
    case False
    then have n: "DK_Entry ?i \<notin> dedup_keys ms" using E' by blast
    have "trace_ok P all (ms @ [?m]) (srcs @ [?m]) (outs @ [RP_Entry e])"
      using n t by (intro trace_emit [where k = "DK_Entry ?i"]) (auto simp: waiting_def)
    moreover have "transaction_entry_ok (ms @ [?m]) sig (db_transactions d sig)" for sig
      using b by (intro transaction_entry_other) (auto simp: dedup_bank_ok_def)
    then have "dedup_bank_ok (ms @ [?m]) (d\<lparr>db_entries := es[?i := True]\<rparr>)"
      using b' i E' by (auto simp: dedup_bank_ok_def nth_list_update)
    ultimately show ?thesis using False i
      by (intro step_okI [where ss = "[?m]" and os = "[RP_Entry e]"]) (simp_all add: dedup_entry_def es_def Let_def)
  qed
qed

lemma step_account:
  assumes b: "dedup_bank_ok ms d" and t: "trace_ok P all ms srcs outs" and r: "message_ready P all ms (M_Account a)"
    and sub: "set ms \<subseteq> set all"
  shows "step_ok P all (ms @ [M_Account a]) srcs outs (dedup_bank_push P (M_Account a) d)"
proof -
  let ?m = "M_Account a"
  from r obtain s p where k: "account_transaction_key a = Some (s, p)" by (auto split: option.splits)
  have tx: "transaction_entry_ok ms sig (db_transactions d sig)" for sig using b by (simp add: dedup_bank_ok_def)
  have other: "transaction_entry_ok (ms @ [?m]) sig (db_transactions d sig)" if "s \<noteq> Some sig" for sig
    using tx that k by (intro transaction_entry_other) auto
  show ?thesis
  proof (cases "(s, p) \<in> db_accounts_updates d")
    case True
    with b have "DK_Account (s, p) \<in> dedup_keys ms" by (simp add: dedup_bank_ok_def)
    from step_duplicate [OF b t _ this, of ?m] True k show ?thesis by (simp add: dedup_account_def)
  next
    case False
    with b have n: "DK_Account (s, p) \<notin> dedup_keys ms" by (simp add: dedup_bank_ok_def)
    have acc: "insert (s, p) (db_accounts_updates d) = {k. DK_Account k \<in> dedup_keys (ms @ [?m])}"
      using b k by (auto simp: dedup_bank_ok_def)
    show ?thesis
    proof (cases s)
      case None
      then obtain a' where a': "update_write_version P (db_phantom_index d) a = Some a'" using r k by auto
      have "trace_ok P all (ms @ [?m]) (srcs @ [?m]) (outs @ [RP_Account a'])"
        using n t k a' None by (intro trace_emit [where k = "DK_Account (s, p)"]) (auto simp: waiting_def)
      moreover have "dedup_bank_ok (ms @ [?m]) (d\<lparr>db_accounts_updates := insert (s, p) (db_accounts_updates d),
          db_phantom_index := db_phantom_index d + 1\<rparr>)"
        using b other None acc k by (simp add: dedup_bank_ok_def)
      ultimately show ?thesis using False None k a'
        by (intro step_okI [where ss = "[?m]" and os = "[RP_Account a']"]) (simp_all add: dedup_account_def)
    next
      case (Some sig)
      let ?d1 = "d\<lparr>db_accounts_updates := insert (s, p) (db_accounts_updates d)\<rparr>"
      show ?thesis
      proof (cases "\<exists>i. db_transactions d sig = Some (DT_Index i)")
        case True
        then obtain i x where i: "db_transactions d sig = Some (DT_Index i)" and
          x: "M_Transaction x \<in> set ms" "message_transaction_signature x = Some sig" "i = mt_index x + 1000"
          using tx [of sig] by (auto simp: transaction_entry_ok_def)
        with r k Some sub obtain a' where a': "update_write_version P i a = Some a'" by fastforce
        have "DK_Transaction sig \<in> dedup_keys ms" using dedup_keysI [OF x(1)] x(2) by simp
        then have "trace_ok P all (ms @ [?m]) (srcs @ [?m]) (outs @ [RP_Account a'])"
          using n t k a' Some x sub by (intro trace_emit [where k = "DK_Account (s, p)"]) (auto simp: waiting_def)
        moreover have "transaction_entry_ok (ms @ [?m]) sig (db_transactions d sig)"
          using x i by (auto simp: transaction_entry_ok_def)
        with other Some have "transaction_entry_ok (ms @ [?m]) sig' (db_transactions d sig')" for sig' by (cases "sig' = sig") auto
        then have "dedup_bank_ok (ms @ [?m]) ?d1" using b acc k by (simp add: dedup_bank_ok_def)
        ultimately show ?thesis using False Some k a' i
          by (intro step_okI [where ss = "[?m]" and os = "[RP_Account a']"]) (simp_all add: dedup_account_def)
      next
        case noidx: False
        define vec where "vec = (case db_transactions d sig of Some (DT_Accounts v) \<Rightarrow> v | _ \<Rightarrow> [])"
        have v: "DK_Transaction sig \<notin> dedup_keys ms" "M_Account ` set vec \<subseteq> set ms" "distinct (map account_transaction_key vec)"
            "account_transaction_key ` set vec = {Some (Some sig, p) | p. DK_Account (Some sig, p) \<in> dedup_keys ms}"
          using tx [of sig] noidx
          by (auto simp: transaction_entry_ok_def vec_def split: option.splits dedup_transaction_index.splits)
        have "trace_ok P all (ms @ [?m]) srcs outs"
          using k Some v(1) by (intro trace_wait [OF t, where k = "DK_Account (s, p)"]) (auto simp: waiting_def)
        moreover have "transaction_entry_ok (ms @ [?m]) sig (Some (DT_Accounts (vec @ [a])))"
        proof -
          have "account_transaction_key a \<notin> account_transaction_key ` set vec" unfolding v(4) using k n Some by auto
          moreover have "account_transaction_key ` set (vec @ [a]) = {Some (Some sig, p) | p. DK_Account (Some sig, p) \<in> dedup_keys (ms @ [?m])}"
            using v(4) k Some by auto
          ultimately show ?thesis using v k by (auto simp: transaction_entry_ok_def)
        qed
        with other Some have "transaction_entry_ok (ms @ [?m]) sig' (((db_transactions d)(sig \<mapsto> DT_Accounts (vec @ [a]))) sig')" for sig'
          by (cases "sig' = sig") auto
        then have "dedup_bank_ok (ms @ [?m]) (?d1\<lparr>db_transactions := (db_transactions d)(sig \<mapsto> DT_Accounts (vec @ [a]))\<rparr>)"
          using b acc k by (simp add: dedup_bank_ok_def)
        moreover have "dedup_bank_push P ?m d = Some ([], ?d1\<lparr>db_transactions := (db_transactions d)(sig \<mapsto> DT_Accounts (vec @ [a]))\<rparr>)"
          using False Some k noidx
          by (auto simp: dedup_account_def vec_def split: option.split dedup_transaction_index.split)
        ultimately show ?thesis by (intro step_okI [where ss = "[]" and os = "[]"]) simp_all
      qed
    qed
  qed
qed


lemma rewrite_all_list:
  "\<forall>a \<in> set v. update_write_version P w a \<noteq> None \<Longrightarrow>
   \<exists>v'. rewrite_all P w v = Some v' \<and> list_all2 (\<lambda>a a'. update_write_version P w a = Some a') v v'"
  by (induction v) auto

lemma step_transaction:
  assumes b: "dedup_bank_ok ms d" and t: "trace_ok P all ms srcs outs" and r: "message_transaction_signature t \<noteq> None"
    and sub: "set (ms @ [M_Transaction t]) \<subseteq> set all"
    and accs: "\<And>a sig p. M_Account a \<in> set ms \<Longrightarrow> account_transaction_key a = Some (Some sig, p) \<Longrightarrow>
      message_transaction_signature t = Some sig \<Longrightarrow> update_write_version P (mt_index t + 1000) a \<noteq> None"
  shows "step_ok P all (ms @ [M_Transaction t]) srcs outs (dedup_bank_push P (M_Transaction t) d)"
proof -
  let ?m = "M_Transaction t" and ?w = "mt_index t + 1000"
  from r obtain sig where k: "message_transaction_signature t = Some sig" by blast
  have tx: "transaction_entry_ok ms s (db_transactions d s)" for s using b by (simp add: dedup_bank_ok_def)
  show ?thesis
  proof (cases "\<exists>i. db_transactions d sig = Some (DT_Index i)")
    case True
    then obtain i x where i: "db_transactions d sig = Some (DT_Index i)" and
      x: "M_Transaction x \<in> set ms" "message_transaction_signature x = Some sig"
      using tx [of sig] by (auto simp: transaction_entry_ok_def)
    from dedup_keysI [OF x(1)] x(2) have "DK_Transaction sig \<in> dedup_keys ms" by simp
    from step_duplicate [OF b t _ this, of ?m] k i show ?thesis by (simp add: dedup_transaction_def)
  next
    case False
    define vec where "vec = (case db_transactions d sig of Some (DT_Accounts v) \<Rightarrow> v | _ \<Rightarrow> [])"
    have v: "DK_Transaction sig \<notin> dedup_keys ms" "M_Account ` set vec \<subseteq> set ms" "distinct (map account_transaction_key vec)"
        "account_transaction_key ` set vec = {Some (Some sig, p) | p. DK_Account (Some sig, p) \<in> dedup_keys ms}"
      using tx [of sig] False
      by (auto simp: transaction_entry_ok_def vec_def split: option.splits dedup_transaction_index.splits)
    have key: "\<exists>p. account_transaction_key a = Some (Some sig, p)" if "a \<in> set vec" for a
      using imageI [OF that, of account_transaction_key] unfolding v(4) by blast
    have "\<forall>a \<in> set vec. update_write_version P ?w a \<noteq> None" using key accs [OF _ _ k] v(2) by blast
    from rewrite_all_list [OF this] obtain v' where
      v': "rewrite_all P ?w vec = Some v'" "list_all2 (\<lambda>a a'. update_write_version P ?w a = Some a') vec v'" by blast
    have em: "list_all2 (emitted P all) (map M_Account vec) (map RP_Account v')"
      unfolding list.rel_map
    proof (rule list.rel_mono_strong [OF v'(2)])
      fix a a' assume a: "a \<in> set vec" "update_write_version P ?w a = Some a'"
      with key [OF a(1)] sub k show "emitted P all (M_Account a) (RP_Account a')" by (auto intro!: exI [of _ ?w])
    qed
    note tr = trace_transaction [OF t k v(1) em v(2-4)]
    have "dedup_bank_push P ?m d = Some (map RP_Account v' @ [RP_Transaction t],
        d\<lparr>db_transactions := (db_transactions d)(sig \<mapsto> DT_Index ?w)\<rparr>)"
      using False k v'(1)
      by (auto simp: dedup_transaction_def vec_def Let_def split: option.splits dedup_transaction_index.splits)
    moreover have "transaction_entry_ok (ms @ [?m]) s (((db_transactions d)(sig \<mapsto> DT_Index ?w)) s)" for s
    proof (cases "s = sig")
      case True
      then show ?thesis using k by (auto simp: transaction_entry_ok_def)
    next
      case False
      with transaction_entry_other [OF tx [of s], of ?m] k show ?thesis by simp
    qed
    then have "dedup_bank_ok (ms @ [?m]) (d\<lparr>db_transactions := (db_transactions d)(sig \<mapsto> DT_Index ?w)\<rparr>)"
      using b k by (simp add: dedup_bank_ok_def)
    ultimately show ?thesis using tr
      by (intro step_okI [where ss = "map M_Account vec @ [?m]" and os = "map RP_Account v' @ [RP_Transaction t]"])
  qed
qed

lemma dedup_run_snoc:
  "dedup_run P (ms @ [m]) d = Option.bind (dedup_run P ms d) (\<lambda>(outs, d1).
     map_option (\<lambda>(os, d2). (outs @ os, d2)) (dedup_bank_push P m d1))"
proof (induction ms arbitrary: d)
  case (Cons x ms)
  then show ?case by (cases "dedup_bank_push P x d") (auto simp: option.map_comp comp_def case_prod_unfold split: bind_split)
qed (simp add: case_prod_unfold option.map_ident split: bind_split)

lemma messages_ready_account:
  assumes "messages_ready P all" "M_Account a \<in> set all"
  shows "message_ready P all [] (M_Account a)"
proof -
  from assms(2) obtain i where i: "i < length all" "all ! i = M_Account a" by (auto simp: in_set_conv_nth)
  with assms(1) have "message_ready P all (take i all) (M_Account a)" by (auto simp: messages_ready_def)
  then show ?thesis by simp
qed

lemma dedup_run_invariant:
  assumes "messages_ready P all" "n \<le> length all"
  shows "\<exists>outs d srcs. dedup_run P (take n all) dedup_bank_default = Some (outs, d) \<and>
    dedup_bank_ok (take n all) d \<and> trace_ok P all (take n all) srcs outs"
  using assms(2)
proof (induction n)
  case 0
  have "dedup_bank_ok [] dedup_bank_default" by (simp add: dedup_bank_ok_def dedup_bank_default_def transaction_entry_ok_def)
  moreover have "trace_ok P all [] [] []" by (simp add: trace_ok_def)
  ultimately show ?case by auto
next
  case (Suc n)
  let ?ms = "take n all" and ?m = "all ! n"
  from Suc obtain outs d srcs where r: "dedup_run P ?ms dedup_bank_default = Some (outs, d)" and
    b: "dedup_bank_ok ?ms d" and t: "trace_ok P all ?ms srcs outs" by auto
  have n: "take (Suc n) all = ?ms @ [?m]" using Suc.prems by (simp add: take_Suc_conv_app_nth)
  have ready: "message_ready P all ?ms ?m" using assms(1) Suc.prems by (simp add: messages_ready_def)
  have sub: "set (?ms @ [?m]) \<subseteq> set all" unfolding n [symmetric] by (rule set_take_subset)
  have "step_ok P all (?ms @ [?m]) srcs outs (dedup_bank_push P ?m d)"
  proof (cases ?m)
    case (M_Account a)
    then show ?thesis using step_account [OF b t] ready sub by simp
  next
    case (M_Transaction x)
    have "update_write_version P (mt_index x + 1000) a \<noteq> None"
      if "M_Account a \<in> set ?ms" "account_transaction_key a = Some (Some sig, p)" "message_transaction_signature x = Some sig" for a sig p
    proof -
      from messages_ready_account [OF assms(1), of a] that(1) sub have "message_ready P all [] (M_Account a)" by auto
      with that sub M_Transaction show ?thesis by auto
    qed
    then show ?thesis using step_transaction [OF b t] ready sub M_Transaction by simp
  next
    case (M_Entry e)
    then show ?thesis using step_entry [OF b t] ready by simp
  qed (use step_flags [OF b t] ready in auto)
  then obtain os d' ss where s: "dedup_bank_push P ?m d = Some (os, d')" "dedup_bank_ok (?ms @ [?m]) d'"
    "trace_ok P all (?ms @ [?m]) (srcs @ ss) (outs @ os)" by (auto simp: step_ok_def)
  have "dedup_run P (?ms @ [?m]) dedup_bank_default = Some (outs @ os, d')" by (simp add: dedup_run_snoc r s(1))
  with s show ?case unfolding n by blast
qed


subsection \<open>Properties\<close>


text \<open>An account of a transaction: the signature, the length and the version.\<close>

definition example_owned :: message_account where
  "example_owned = \<lparr>ma_pubkey = [1], ma_owner = [], ma_lamports = 0, ma_executable = False, ma_rent_epoch = 0,
     ma_data = (66, 66), ma_txn_signature_offset = Some 2, ma_write_version = 1, ma_slot = 7, ma_is_startup = False,
     ma_bank_id = None, ma_created_at = timestamp_default, ma_buffer = [3, 7] @ replicate 64 9, ma_account_offset = 0,
     ma_range = (0, 66)\<rparr>"

definition example_signed :: "unit message_transaction" where
  "example_signed = example_transaction\<lparr>mt_signature_offset := Some 0, mt_buffer := replicate 64 9\<rparr>"

lemma example_owned_keys:
  "account_transaction_key example_owned = Some (Some (replicate 64 9), [1])"
  "message_transaction_signature example_signed = Some (replicate 64 9)"
  by (code_simp, code_simp)

lemma small_varint:
  assumes "unat x < 128"
  shows "decode_varint prost_ref (x # r) = Inr (ucast x, r)"
proof -
  have "unleb 10 (x # r) = Some (unat x, r)" using unleb.simps(3) [of 9 x r] assms by simp
  then show ?thesis using assms by (simp add: prost_ref_def ref_decode_varint_def)
qed

lemma example_owned_update: "update_write_version prost_ref 1000 example_owned \<noteq> None"
proof -
  have e: "encode_varint prost_ref 1000 = [232, 7]" "encode_varint prost_ref 4 = [4]"
    "encoded_len_varint prost_ref 1000 = 2" "encoded_len_varint prost_ref 4 = 1" by code_simp+
  have at: "varint_at prost_ref (ma_write_version example_owned) (ma_buffer example_owned) = Some (7, 1)"
    "varint_at prost_ref (ma_account_offset example_owned) (ma_buffer example_owned) = Some (3, 1)"
    using small_varint [of 7 "replicate 64 9"] small_varint [of 3 "7 # replicate 64 9"]
    by (simp_all add: varint_at_def example_owned_def)
  have m: "(3 :: u64) + of_nat 2 - of_nat 1 = 4" by simp
  show ?thesis
    unfolding update_write_version_def at Option.bind.simps prod.case Let_def e m
    by (simp add: example_owned_def usize_shift_def ptr_copy_def write_at_def resize_zero_def)
qed


text \<open>\<^bold>\<open>C29.\<close> The list of received entries is resized to \<open>index.next_power_of_two()\<close>, which is the
  index itself when that is a power of two. So an entry whose index is a power of two and at
  least twice the current length panics on the access after the resize, although the resize
  is there to make room for it.\<close>

theorem entry_power_of_two_panics:
  assumes "unat (me_index e) = 2 ^ k" "2 * length (db_entries d) \<le> 2 ^ k" "k < 64" "0 < length (db_entries d)"
  shows "dedup_bank_push P (M_Entry e) d = None"
proof -
  have "(2 :: nat) ^ k \<le> 2 ^ 63" using assms(3) by (intro power_increasing) auto
  then have "usize_next_power_of_two (2 ^ k) = 2 ^ k" by (simp add: usize_next_power_of_two_def next_power_of_two_pow_self)
  then show ?thesis using assms by (simp add: dedup_entry_def grow_entries_def vec_resize_def)
qed

theorem entry_power_of_two_panics_witness:
  "dedup_bank_push prost_ref (M_Entry (example_entry\<lparr>me_index := 512\<rparr>) :: unit message) dedup_bank_default = None"
  by (rule entry_power_of_two_panics [where k = 9]) (simp_all add: dedup_bank_default_def)

end
