(* ===== verification/Storage_Metadata.thy ===== *)
theory Storage_Metadata
  imports Ordered_Map "HOL-Library.DAList"
begin

text \<open>
  The metadata of the disk journal (\<open>richat/src/storage/metadata.rs\<close>): the rows of the four
  column families with their binary format, the in-memory mirror, and the commits that
  change both. RocksDB is the argument \<open>R\<close>; what the code relies on (a batch is written
  as a whole or not at all, reads return what was written) is the locale \<open>kv_store\<close>.
  Errors are the messages of \<open>anyhow\<close>.
\<close>

type_synonym error = string

subsection \<open>Big-endian integers\<close>

fun be_bytes :: "nat \<Rightarrow> nat \<Rightarrow> bytes" where
  "be_bytes 0 n = []"
| "be_bytes (Suc k) n = of_nat (n div 256 ^ k mod 256) # be_bytes k n"

definition from_be :: "bytes \<Rightarrow> nat" where
  "from_be bs = foldl (\<lambda>n b. 256 * n + unat b) 0 bs"

definition encode_u64_key :: "u64 \<Rightarrow> bytes" where
  "encode_u64_key v = be_bytes 8 (unat v)"

definition decode_u64_key :: "bytes \<Rightarrow> error + u64" where
  "decode_u64_key v = (if length v = 8 then Inr (of_nat (from_be v)) else Inl ''invalid u64 key length'')"

definition take_u16 :: "bytes \<Rightarrow> error + (u16 \<times> bytes)" where
  "take_u16 s = (if 2 \<le> length s then Inr (of_nat (from_be (take 2 s)), drop 2 s)
     else Inl ''unexpected eof while decoding u16'')"

definition take_u32 :: "bytes \<Rightarrow> error + (u32 \<times> bytes)" where
  "take_u32 s = (if 4 \<le> length s then Inr (of_nat (from_be (take 4 s)), drop 4 s)
     else Inl ''unexpected eof while decoding u32'')"

definition take_u64 :: "bytes \<Rightarrow> error + (u64 \<times> bytes)" where
  "take_u64 s = (if 8 \<le> length s then Inr (of_nat (from_be (take 8 s)), drop 8 s)
     else Inl ''unexpected eof while decoding u64'')"

definition take_u8 :: "bytes \<Rightarrow> error + (u8 \<times> bytes)" where
  "take_u8 s = (case s of [] \<Rightarrow> Inl ''unexpected eof while decoding u8'' | b # r \<Rightarrow> Inr (b, r))"

definition take_bool :: "bytes \<Rightarrow> error + (bool \<times> bytes)" where
  "take_bool s = (case s of [] \<Rightarrow> Inl ''unexpected eof while decoding bool''
     | b # r \<Rightarrow> if b = 0 then Inr (False, r) else if b = 1 then Inr (True, r) else Inl ''invalid bool value'')"

subsection \<open>Rows\<close>

record metadata_state =
  st_next_segment_id :: u64
  st_active_segment_id :: u64

definition metadata_state_default :: metadata_state where
  "metadata_state_default = \<lparr>st_next_segment_id = 1, st_active_segment_id = 0\<rparr>"

definition STATE_FORMAT_VERSION :: u16 where
  "STATE_FORMAT_VERSION = 1"

definition state_encode :: "metadata_state \<Rightarrow> bytes" where
  "state_encode s = be_bytes 2 (unat STATE_FORMAT_VERSION) @ be_bytes 8 (unat (st_next_segment_id s)) @
     be_bytes 8 (unat (st_active_segment_id s))"

definition state_decode :: "bytes \<Rightarrow> error + metadata_state" where
  "state_decode v = and_then (take_u16 v) (\<lambda>(version, v).
     if version \<noteq> STATE_FORMAT_VERSION then Inl ''unsupported format version''
     else and_then (take_u64 v) (\<lambda>(next, v). and_then (take_u64 v) (\<lambda>(active, v).
       Inr \<lparr>st_next_segment_id = next, st_active_segment_id = active\<rparr>)))"

record slot_meta =
  sm_slot :: slot
  sm_finalized :: bool
  sm_first_index :: u64
  sm_segment_id :: u64

definition bool_byte :: "bool \<Rightarrow> u8" where
  "bool_byte b = (if b then 1 else 0)"

definition slot_meta_encode :: "slot_meta \<Rightarrow> bytes" where
  "slot_meta_encode m = bool_byte (sm_finalized m) # be_bytes 8 (unat (sm_first_index m)) @
     be_bytes 8 (unat (sm_segment_id m))"

definition slot_meta_decode :: "slot \<Rightarrow> bytes \<Rightarrow> error + slot_meta" where
  "slot_meta_decode sl v = and_then (take_bool v) (\<lambda>(finalized, v). and_then (take_u64 v) (\<lambda>(first, v).
     and_then (take_u64 v) (\<lambda>(seg, v).
       Inr \<lparr>sm_slot = sl, sm_finalized = finalized, sm_first_index = first, sm_segment_id = seg\<rparr>)))"

record segment_meta =
  sg_segment_id :: u64
  sg_sealed :: bool
  sg_last_index :: u64
  sg_file_len :: u64
  sg_chunk_count :: u32

definition segment_empty :: "u64 \<Rightarrow> u64 \<Rightarrow> segment_meta" where
  "segment_empty i len = \<lparr>sg_segment_id = i, sg_sealed = False, sg_last_index = 0, sg_file_len = len, sg_chunk_count = 0\<rparr>"

definition segment_meta_encode :: "segment_meta \<Rightarrow> bytes" where
  "segment_meta_encode m = bool_byte (sg_sealed m) # be_bytes 8 (unat (sg_last_index m)) @
     be_bytes 8 (unat (sg_file_len m)) @ be_bytes 4 (unat (sg_chunk_count m))"

definition segment_meta_decode :: "u64 \<Rightarrow> bytes \<Rightarrow> error + segment_meta" where
  "segment_meta_decode i v = and_then (take_bool v) (\<lambda>(sealed, v). and_then (take_u64 v) (\<lambda>(last, v).
     and_then (take_u64 v) (\<lambda>(len, v). and_then (take_u32 v) (\<lambda>(count, v).
       Inr \<lparr>sg_segment_id = i, sg_sealed = sealed, sg_last_index = last, sg_file_len = len, sg_chunk_count = count\<rparr>))))"

record chunk_meta =
  cm_segment_id :: u64
  cm_offset :: u64
  cm_size :: u64
  cm_compression :: u8
  cm_first_index :: u64
  cm_last_index :: u64

definition chunk_meta_encode :: "chunk_meta \<Rightarrow> bytes" where
  "chunk_meta_encode m = be_bytes 8 (unat (cm_segment_id m)) @ be_bytes 8 (unat (cm_offset m)) @
     be_bytes 8 (unat (cm_size m)) @ [cm_compression m] @ be_bytes 8 (unat (cm_last_index m))"

definition chunk_meta_decode :: "u64 \<Rightarrow> bytes \<Rightarrow> error + chunk_meta" where
  "chunk_meta_decode i v = and_then (take_u64 v) (\<lambda>(seg, v). and_then (take_u64 v) (\<lambda>(offset, v).
     and_then (take_u64 v) (\<lambda>(sz, v). and_then (take_u8 v) (\<lambda>(c, v). and_then (take_u64 v) (\<lambda>(last, v).
       Inr \<lparr>cm_segment_id = seg, cm_offset = offset, cm_size = sz, cm_compression = c, cm_first_index = i,
         cm_last_index = last\<rparr>)))))"

subsection \<open>Commits and the mirror\<close>

record metadata_chunk_commit =
  cc_new_slots :: "slot_meta list"
  cc_updated_slots :: "slot_meta list"
  cc_chunk :: chunk_meta
  cc_segment :: segment_meta
  cc_state :: metadata_state

record metadata_trim_commit =
  tc_removed_slot :: slot
  tc_deleted_slots :: "slot list"
  tc_deleted_segments :: "u64 list"
  tc_deleted_chunks :: "u64 list"

record rotation_commit =
  rc_sealed_segment :: segment_meta
  rc_new_segment :: segment_meta
  rc_state :: metadata_state

record metadata_mirror =
  mm_slots :: "(slot, slot_meta) btree"
  mm_segments :: "(u64, segment_meta) btree"
  mm_chunks :: "chunk_meta list"
  mm_state :: metadata_state
  mm_replay_floor :: u64

definition insert_slots :: "slot_meta list \<Rightarrow> (slot, slot_meta) btree \<Rightarrow> (slot, slot_meta) btree" where
  "insert_slots ms t = foldl (\<lambda>t m. bt_insert (sm_slot m) m t) t ms"

definition mirror_chunk_commit :: "metadata_chunk_commit \<Rightarrow> metadata_mirror \<Rightarrow> metadata_mirror" where
  "mirror_chunk_commit c m = m\<lparr>mm_slots := insert_slots (cc_updated_slots c) (insert_slots (cc_new_slots c) (mm_slots m)),
     mm_segments := bt_insert (sg_segment_id (cc_segment c)) (cc_segment c) (mm_segments m),
     mm_chunks := mm_chunks m @ [cc_chunk c], mm_state := cc_state c\<rparr>"

definition remove_keys :: "'k list \<Rightarrow> ('k, 'v) btree \<Rightarrow> ('k, 'v) btree" where
  "remove_keys ks t = foldl (\<lambda>t k. bt_remove k t) t ks"

definition mirror_trim_commit :: "metadata_trim_commit \<Rightarrow> metadata_mirror \<Rightarrow> metadata_mirror" where
  "mirror_trim_commit c m = m\<lparr>mm_slots := remove_keys (tc_deleted_slots c) (bt_remove (tc_removed_slot c) (mm_slots m)),
     mm_segments := remove_keys (tc_deleted_segments c) (mm_segments m),
     mm_chunks := filter (\<lambda>ch. cm_segment_id ch \<notin> set (tc_deleted_segments c)) (mm_chunks m)\<rparr>"

definition mirror_rotation_commit :: "rotation_commit \<Rightarrow> metadata_mirror \<Rightarrow> metadata_mirror" where
  "mirror_rotation_commit c m = m\<lparr>mm_segments := bt_insert (sg_segment_id (rc_new_segment c)) (rc_new_segment c)
       (bt_insert (sg_segment_id (rc_sealed_segment c)) (rc_sealed_segment c) (mm_segments m)),
     mm_state := rc_state c\<rparr>"

subsection \<open>The database\<close>

datatype cf = StateCf | SlotsCf | SegmentsCf | ChunksCf

datatype batch_op = Put cf bytes bytes | Delete cf bytes

record 'db rocksdb =
  rdb_write :: "batch_op list \<Rightarrow> 'db \<Rightarrow> error + 'db"
  rdb_get :: "cf \<Rightarrow> bytes \<Rightarrow> 'db \<Rightarrow> error + bytes option"
  rdb_iter :: "cf \<Rightarrow> 'db \<Rightarrow> (error + bytes \<times> bytes) list"

text \<open>\<open>Metadata\<close>: the database and the shared mirror.\<close>

record 'db metadata =
  md_db :: 'db
  md_catalog :: metadata_mirror

text \<open>The keys \<open>b"state"\<close> and \<open>b"replay_floor"\<close>.\<close>

definition state_key :: bytes where
  "state_key = [115, 116, 97, 116, 101]"

definition replay_floor_key :: bytes where
  "replay_floor_key = [114, 101, 112, 108, 97, 121, 95, 102, 108, 111, 111, 114]"

definition read_state :: "'db rocksdb \<Rightarrow> 'db \<Rightarrow> error + metadata_state option" where
  "read_state R db = and_then (rdb_get R StateCf state_key db) (\<lambda>v.
     case v of None \<Rightarrow> Inr None | Some b \<Rightarrow> map_ok Some (state_decode b))"

text \<open>One loop of \<open>load_catalog_from_db\<close>.\<close>

fun load_rows :: "(u64 \<Rightarrow> bytes \<Rightarrow> error + 'v) \<Rightarrow> (error + bytes \<times> bytes) list \<Rightarrow> error + (u64 \<times> 'v) list" where
  "load_rows dec [] = Inr []"
| "load_rows dec (item # items) = and_then item (\<lambda>(key, value).
     and_then (decode_u64_key key) (\<lambda>k. and_then (dec k value) (\<lambda>v.
       map_ok (\<lambda>rows. (k, v) # rows) (load_rows dec items))))"

definition collect_btree :: "('k::linorder \<times> 'v) list \<Rightarrow> ('k, 'v) btree" where
  "collect_btree rows = foldl (\<lambda>t (k, v). bt_insert k v t) [] rows"

definition load_catalog_from_db :: "'db rocksdb \<Rightarrow> 'db \<Rightarrow> error + metadata_mirror" where
  "load_catalog_from_db R db =
     and_then (read_state R db) (\<lambda>st.
     and_then (load_rows slot_meta_decode (rdb_iter R SlotsCf db)) (\<lambda>slots.
     and_then (load_rows segment_meta_decode (rdb_iter R SegmentsCf db)) (\<lambda>segments.
     and_then (load_rows chunk_meta_decode (rdb_iter R ChunksCf db)) (\<lambda>chunks.
     and_then (rdb_get R StateCf replay_floor_key db) (\<lambda>floor.
     and_then (case floor of None \<Rightarrow> Inr 0 | Some b \<Rightarrow> decode_u64_key b) (\<lambda>replay_floor.
       Inr \<lparr>mm_slots = collect_btree slots, mm_segments = collect_btree segments,
         mm_chunks = sort_key cm_first_index (map snd chunks),
         mm_state = (case st of None \<Rightarrow> metadata_state_default | Some s \<Rightarrow> s), mm_replay_floor = replay_floor\<rparr>))))))"

definition metadata_open :: "'db rocksdb \<Rightarrow> 'db \<Rightarrow> error + 'db metadata" where
  "metadata_open R db =
     and_then (read_state R db) (\<lambda>st.
     and_then (if st = None then rdb_write R [Put StateCf state_key (state_encode metadata_state_default)] db
               else Inr db) (\<lambda>db1.
     and_then (load_catalog_from_db R db1) (\<lambda>catalog. Inr \<lparr>md_db = db1, md_catalog = catalog\<rparr>)))"

definition set_replay_floor :: "'db rocksdb \<Rightarrow> u64 \<Rightarrow> 'db metadata \<Rightarrow> error + 'db metadata" where
  "set_replay_floor R index m =
     map_ok (\<lambda>db. m\<lparr>md_db := db, md_catalog := (md_catalog m)\<lparr>mm_replay_floor := index\<rparr>\<rparr>)
       (rdb_write R [Put StateCf replay_floor_key (be_bytes 8 (unat index))] (md_db m))"

definition initialize_empty :: "'db rocksdb \<Rightarrow> metadata_state \<Rightarrow> segment_meta \<Rightarrow> 'db metadata \<Rightarrow> error + 'db metadata" where
  "initialize_empty R st seg m =
     and_then (rdb_write R [Put SegmentsCf (encode_u64_key (sg_segment_id seg)) (segment_meta_encode seg),
       Put StateCf state_key (state_encode st)] (md_db m)) (\<lambda>db.
     map_ok (\<lambda>catalog. m\<lparr>md_db := db, md_catalog := catalog\<rparr>) (load_catalog_from_db R db))"

definition put_slot :: "slot_meta \<Rightarrow> batch_op" where
  "put_slot m = Put SlotsCf (encode_u64_key (sm_slot m)) (slot_meta_encode m)"

definition chunk_batch :: "metadata_chunk_commit \<Rightarrow> batch_op list" where
  "chunk_batch c = map put_slot (cc_new_slots c) @ map put_slot (cc_updated_slots c) @
     [Put ChunksCf (encode_u64_key (cm_first_index (cc_chunk c))) (chunk_meta_encode (cc_chunk c)),
      Put SegmentsCf (encode_u64_key (sg_segment_id (cc_segment c))) (segment_meta_encode (cc_segment c)),
      Put StateCf state_key (state_encode (cc_state c))]"

definition apply_chunk_commit :: "'db rocksdb \<Rightarrow> metadata_chunk_commit \<Rightarrow> 'db metadata \<Rightarrow> error + 'db metadata" where
  "apply_chunk_commit R c m = map_ok (\<lambda>db. m\<lparr>md_db := db, md_catalog := mirror_chunk_commit c (md_catalog m)\<rparr>)
     (rdb_write R (chunk_batch c) (md_db m))"

definition trim_batch :: "metadata_trim_commit \<Rightarrow> batch_op list" where
  "trim_batch c = Delete SlotsCf (encode_u64_key (tc_removed_slot c)) #
     map (\<lambda>s. Delete SlotsCf (encode_u64_key s)) (tc_deleted_slots c) @
     map (\<lambda>i. Delete ChunksCf (encode_u64_key i)) (tc_deleted_chunks c) @
     map (\<lambda>i. Delete SegmentsCf (encode_u64_key i)) (tc_deleted_segments c)"

definition apply_trim_commit :: "'db rocksdb \<Rightarrow> metadata_trim_commit \<Rightarrow> 'db metadata \<Rightarrow> error + 'db metadata" where
  "apply_trim_commit R c m = map_ok (\<lambda>db. m\<lparr>md_db := db, md_catalog := mirror_trim_commit c (md_catalog m)\<rparr>)
     (rdb_write R (trim_batch c) (md_db m))"

definition rotation_batch :: "rotation_commit \<Rightarrow> batch_op list" where
  "rotation_batch c =
     [Put SegmentsCf (encode_u64_key (sg_segment_id (rc_sealed_segment c))) (segment_meta_encode (rc_sealed_segment c)),
      Put SegmentsCf (encode_u64_key (sg_segment_id (rc_new_segment c))) (segment_meta_encode (rc_new_segment c)),
      Put StateCf state_key (state_encode (rc_state c))]"

definition apply_rotation_commit :: "'db rocksdb \<Rightarrow> rotation_commit \<Rightarrow> 'db metadata \<Rightarrow> error + 'db metadata" where
  "apply_rotation_commit R c m = map_ok (\<lambda>db. m\<lparr>md_db := db, md_catalog := mirror_rotation_commit c (md_catalog m)\<rparr>)
     (rdb_write R (rotation_batch c) (md_db m))"

subsection \<open>The contract of the database\<close>

fun content_op :: "(cf \<Rightarrow> bytes \<rightharpoonup> bytes) \<Rightarrow> batch_op \<Rightarrow> (cf \<Rightarrow> bytes \<rightharpoonup> bytes)" where
  "content_op m (Put c k v) = m(c := (m c)(k \<mapsto> v))"
| "content_op m (Delete c k) = m(c := (m c)(k := None))"

definition content_batch :: "batch_op list \<Rightarrow> (cf \<Rightarrow> bytes \<rightharpoonup> bytes) \<Rightarrow> (cf \<Rightarrow> bytes \<rightharpoonup> bytes)" where
  "content_batch ops m = foldl content_op m ops"

locale kv_store =
  fixes R :: "'db rocksdb" and content :: "'db \<Rightarrow> cf \<Rightarrow> bytes \<rightharpoonup> bytes"
  assumes get_row: "rdb_get R c k db = Inr (content db c k)"
    and iter_rows: "\<exists>rows. rdb_iter R c db = map Inr rows \<and> distinct (map fst rows) \<and> map_of rows = content db c"
    and write_batch: "rdb_write R ops db = Inr db' \<Longrightarrow> content db' = content_batch ops (content db)"

text \<open>The rows of a table: the key of every entry is its big-endian number.\<close>

definition rows_of :: "('v \<Rightarrow> bytes) \<Rightarrow> (u64 \<rightharpoonup> 'v) \<Rightarrow> bytes \<rightharpoonup> bytes" where
  "rows_of enc f = (\<lambda>b. case decode_u64_key b of Inl _ \<Rightarrow> None | Inr k \<Rightarrow> map_option enc (f k))"

definition chunk_map :: "chunk_meta list \<Rightarrow> u64 \<rightharpoonup> chunk_meta" where
  "chunk_map cs = map_of (map (\<lambda>c. (cm_first_index c, c)) cs)"

definition floor_row :: "bytes option \<Rightarrow> u64 \<Rightarrow> bool" where
  "floor_row row floor \<longleftrightarrow> (case row of None \<Rightarrow> floor = 0 | Some b \<Rightarrow> b = be_bytes 8 (unat floor))"

text \<open>The mirror is what the database holds.\<close>

definition mirrors :: "(cf \<Rightarrow> bytes \<rightharpoonup> bytes) \<Rightarrow> metadata_mirror \<Rightarrow> bool" where
  "mirrors db m \<longleftrightarrow>
     db SlotsCf = rows_of slot_meta_encode (bt_get (mm_slots m)) \<and>
     db SegmentsCf = rows_of segment_meta_encode (bt_get (mm_segments m)) \<and>
     db ChunksCf = rows_of chunk_meta_encode (chunk_map (mm_chunks m)) \<and>
     db StateCf state_key = Some (state_encode (mm_state m)) \<and>
     floor_row (db StateCf replay_floor_key) (mm_replay_floor m) \<and>
     bt_ok (mm_slots m) \<and> bt_ok (mm_segments m) \<and> sorted_wrt (<) (map cm_first_index (mm_chunks m)) \<and>
     (\<forall>k v. bt_get (mm_slots m) k = Some v \<longrightarrow> sm_slot v = k) \<and>
     (\<forall>k v. bt_get (mm_segments m) k = Some v \<longrightarrow> sg_segment_id v = k)"

subsection \<open>Lemmas\<close>

lemma length_be_bytes [simp]: "length (be_bytes k n) = k"
  by (induction k) simp_all

lemma from_be_Cons: "from_be (b # bs) = unat b * 256 ^ length bs + from_be bs"
proof -
  have "foldl (\<lambda>n b. 256 * n + unat b) a bs = a * 256 ^ length bs + foldl (\<lambda>n b. 256 * n + unat b) 0 bs" for a and bs :: bytes
  proof (induction bs arbitrary: a)
    case (Cons x bs)
    from Cons.IH [of "256 * a + unat x"] Cons.IH [of "unat x"] show ?case by (simp add: algebra_simps)
  qed simp
  from this [of "unat b" bs] show ?thesis by (simp add: from_be_def)
qed

lemma from_be_bytes: "from_be (be_bytes k n) = n mod 256 ^ k"
proof (induction k)
  case 0
  show ?case by (simp add: from_be_def)
next
  case (Suc k)
  have "unat (of_nat (n div 256 ^ k mod 256) :: u8) = n div 256 ^ k mod 256" by (simp add: unat_of_nat)
  then have "from_be (be_bytes (Suc k) n) = n div 256 ^ k mod 256 * 256 ^ k + n mod 256 ^ k"
    using Suc by (simp add: from_be_Cons)
  also have "\<dots> = n mod (256 ^ k * 256)" by (simp add: mod_mult2_eq)
  finally show ?case by (simp add: mult.commute)
qed

lemma from_be_less: "from_be bs < 256 ^ length bs"
proof (induction bs)
  case (Cons b bs)
  have "unat b \<le> 255" using unsigned_less [of b, where 'a = nat] by simp
  then have "unat b * 256 ^ length bs \<le> 255 * 256 ^ length bs" by (rule mult_right_mono) simp
  then have "unat b * 256 ^ length bs + from_be bs < 255 * 256 ^ length bs + 256 ^ length bs" using Cons by linarith
  then show ?case by (simp add: from_be_Cons)
qed (simp add: from_be_def)

lemma be_from_bytes: "be_bytes (length bs) (from_be bs) = bs"
proof (induction bs)
  case (Cons b bs)
  let ?k = "length bs"
  have n: "from_be (b # bs) = unat b * 256 ^ ?k + from_be bs" by (rule from_be_Cons)
  have "from_be (b # bs) div 256 ^ ?k = unat b" using from_be_less [of bs] by (simp add: n)
  moreover have "unat b mod 256 = unat b" using unsigned_less [of b, where 'a = nat] by simp
  moreover have "be_bytes j (x * 256 ^ ?k + y) = be_bytes j y" if "j \<le> ?k" for j x y
    using that
  proof (induction j)
    case (Suc j)
    then obtain d where d: "?k = Suc j + d" using le_Suc_ex by blast
    have "(x * 256 ^ ?k + y) div 256 ^ j mod 256 = y div 256 ^ j mod 256"
    proof -
      have "x * 256 ^ ?k = (x * 256 ^ d * 256) * 256 ^ j" by (simp add: d power_add)
      then have "(x * 256 ^ ?k + y) div 256 ^ j = x * 256 ^ d * 256 + y div 256 ^ j"
        by (simp only:) (rule div_mult_self3, simp)
      then show ?thesis by simp
    qed
    with Suc show ?case by simp
  qed simp
  then have "be_bytes ?k (from_be (b # bs)) = be_bytes ?k (from_be bs)" using n by simp
  ultimately show ?case using Cons by simp
qed simp

lemma take_be [simp]:
  "take_u64 (be_bytes 8 (unat v) @ r) = Inr (v, r)"
  "take_u32 (be_bytes 4 (unat w) @ r) = Inr (w, r)"
  "take_u16 (be_bytes 2 (unat x) @ r) = Inr (x, r)"
  using unsigned_less [of v, where 'a = nat] unsigned_less [of w, where 'a = nat] unsigned_less [of x, where 'a = nat]
  by (simp_all add: take_u64_def take_u32_def take_u16_def from_be_bytes)

lemma take_be_end [simp]:
  "take_u64 (be_bytes 8 (unat v)) = Inr (v, [])" "take_u32 (be_bytes 4 (unat w)) = Inr (w, [])"
  using take_be(1) [of v "[]"] take_be(2) [of w "[]"] by simp_all

lemma take_bool_byte [simp]: "take_bool (bool_byte b # r) = Inr (b, r)"
  by (simp add: take_bool_def bool_byte_def)

lemma take_u8_Cons [simp]: "take_u8 (b # r) = Inr (b, r)"
  by (simp add: take_u8_def)

lemma state_round_trip [simp]: "state_decode (state_encode s) = Inr s"
  by (simp add: state_decode_def state_encode_def)

lemma slot_meta_round_trip [simp]: "slot_meta_decode (sm_slot m) (slot_meta_encode m) = Inr m"
  by (simp add: slot_meta_decode_def slot_meta_encode_def)

lemma segment_meta_round_trip [simp]: "segment_meta_decode (sg_segment_id m) (segment_meta_encode m) = Inr m"
  by (simp add: segment_meta_decode_def segment_meta_encode_def)

lemma chunk_meta_round_trip [simp]: "chunk_meta_decode (cm_first_index m) (chunk_meta_encode m) = Inr m"
  by (simp add: chunk_meta_decode_def chunk_meta_encode_def)

lemma decode_encode_key [simp]: "decode_u64_key (encode_u64_key k) = Inr k"
  using unsigned_less [of k, where 'a = nat] by (simp add: decode_u64_key_def encode_u64_key_def from_be_bytes)

lemma decode_key_Inr: "decode_u64_key b = Inr k \<longleftrightarrow> b = encode_u64_key k"
proof
  assume "decode_u64_key b = Inr k"
  then have l: "length b = 8" and k: "k = of_nat (from_be b)" by (simp_all add: decode_u64_key_def split: if_splits)
  have "from_be b < 2 ^ 64" using from_be_less [of b] l by simp
  then have "unat k = from_be b" by (simp add: k unat_of_nat)
  then show "b = encode_u64_key k" using be_from_bytes [of b] l by (simp add: encode_u64_key_def)
qed simp

lemma encode_key_inj [simp]: "encode_u64_key k = encode_u64_key k' \<longleftrightarrow> k = k'"
  by (metis decode_encode_key sum.inject(2))

lemma rows_of_key [simp]: "rows_of enc f (encode_u64_key k) = map_option enc (f k)"
  by (simp add: rows_of_def)

lemma rows_of_Some: "rows_of enc f b = Some w \<longleftrightarrow> (\<exists>k v. b = encode_u64_key k \<and> f k = Some v \<and> w = enc v)"
  by (auto simp: rows_of_def decode_key_Inr split: sum.splits)

lemma rows_of_put: "rows_of enc (f(k \<mapsto> v)) = (rows_of enc f)(encode_u64_key k \<mapsto> enc v)"
  by (auto simp: fun_eq_iff rows_of_def decode_key_Inr split: sum.splits)

lemma rows_of_delete: "rows_of enc (f(k := None)) = (rows_of enc f)(encode_u64_key k := None)"
  by (auto simp: fun_eq_iff rows_of_def decode_key_Inr split: sum.splits)

lemma bt_eqI:
  assumes "bt_ok t" "bt_ok t'" "bt_get t = bt_get t'"
  shows "t = t'"
proof -
  have d: "distinct (map fst t)" "distinct (map fst t')" using assms(1,2) by (simp_all add: bt_ok_distinct)
  have "set t = set t'" using assms by (auto simp: bt_get_Some_iff [symmetric])
  moreover have "inj_on fst (set t \<union> set t')" using d calculation by (simp add: distinct_map)
  moreover have "sorted (map fst t)" "sorted (map fst t')" using assms(1,2) by (simp_all add: bt_ok_def strict_sorted_imp_sorted)
  ultimately show ?thesis using d by (intro map_sorted_distinct_set_unique [of fst]) simp_all
qed

lemma load_rows_ok:
  assumes "\<And>b w. (b, w) \<in> set rows \<Longrightarrow> \<exists>k v. b = encode_u64_key k \<and> w = enc v \<and> f k = Some v \<and> dec k (enc v) = Inr v"
  shows "\<exists>kvs. load_rows dec (map Inr rows) = Inr kvs \<and> map (\<lambda>(k, v). (encode_u64_key k, enc v)) kvs = rows \<and>
    (\<forall>(k, v) \<in> set kvs. f k = Some v)"
  using assms
proof (induction rows)
  case (Cons r rows)
  obtain b w where r: "r = (b, w)" by (cases r)
  from Cons.prems [of b w] obtain k v where kv: "b = encode_u64_key k" "w = enc v" "f k = Some v" "dec k (enc v) = Inr v"
    by (auto simp: r)
  from Cons.IH Cons.prems obtain kvs where "load_rows dec (map Inr rows) = Inr kvs"
    "map (\<lambda>(k, v). (encode_u64_key k, enc v)) kvs = rows" "\<forall>(k, v) \<in> set kvs. f k = Some v" by fastforce
  then show ?case using kv by (auto simp: r)
qed simp

text \<open>Reading a table returns exactly its entries.\<close>

lemma load_table:
  assumes rows: "distinct (map fst rows)" "map_of rows = rows_of enc f"
    and dec: "\<And>k v. f k = Some v \<Longrightarrow> dec k (enc v) = Inr v"
  shows "\<exists>kvs. load_rows dec (map Inr rows) = Inr kvs \<and> distinct (map fst kvs) \<and> map_of kvs = f"
proof -
  have "\<exists>k v. b = encode_u64_key k \<and> w = enc v \<and> f k = Some v \<and> dec k (enc v) = Inr v" if "(b, w) \<in> set rows" for b w
  proof -
    have "rows_of enc f b = Some w" using that rows by (metis map_of_eq_Some_iff)
    then show ?thesis using dec by (auto simp: rows_of_Some)
  qed
  from load_rows_ok [OF this] obtain kvs where k: "load_rows dec (map Inr rows) = Inr kvs"
    "map (\<lambda>(k, v). (encode_u64_key k, enc v)) kvs = rows" "\<forall>(k, v) \<in> set kvs. f k = Some v" by blast
  have "map fst rows = map encode_u64_key (map fst kvs)" by (simp add: k(2) [symmetric] case_prod_beta)
  then have d: "distinct (map fst kvs)" using rows(1) by (simp only: distinct_map [of encode_u64_key])
  have "map_of kvs x = f x" for x
  proof (cases "f x")
    case None
    then show ?thesis using k(3) by (auto simp: map_of_eq_None_iff)
  next
    case (Some v)
    then have "(encode_u64_key x, enc v) \<in> set rows"
      using rows(2) by (metis map_of_SomeD option.simps(9) rows_of_key)
    then obtain v' where "(x, v') \<in> set kvs" unfolding k(2) [symmetric] by auto
    then show ?thesis using d k(3) Some by auto
  qed
  with k(1) d show ?thesis by blast
qed

lemma collect_btree_ok:
  assumes "distinct (map fst kvs)"
  shows "bt_ok (collect_btree kvs)" and "bt_get (collect_btree kvs) = map_of kvs"
proof -
  have "bt_ok t \<Longrightarrow> bt_ok (foldl (\<lambda>t (k, v). bt_insert k v t) t kvs) \<and>
      bt_get (foldl (\<lambda>t (k, v). bt_insert k v t) t kvs) = bt_get t ++ map_of kvs" for t
    using assms
  proof (induction kvs arbitrary: t)
    case (Cons kv kvs)
    obtain k v where kv: "kv = (k, v)" by (cases kv)
    have "k \<notin> dom (map_of kvs)" using Cons.prems(2) by (simp add: kv dom_map_of_conv_image_fst)
    then have "(bt_get t)(k \<mapsto> v) ++ map_of kvs = bt_get t ++ (map_of kvs)(k \<mapsto> v)"
      by (auto simp: fun_eq_iff map_add_def split: option.split)
    moreover have "bt_ok (bt_insert k v t)" "distinct (map fst kvs)" using Cons.prems by (simp_all add: bt_ok_insert)
    note Cons.IH [OF this]
    ultimately show ?case by (simp only: kv foldl_Cons prod.case map_of.simps fst_conv snd_conv bt_get_insert)
  qed simp
  from this [of "[]"] show "bt_ok (collect_btree kvs)" "bt_get (collect_btree kvs) = map_of kvs"
    by (simp_all add: collect_btree_def)
qed

lemma chunk_map_Some: "distinct (map cm_first_index cs) \<Longrightarrow> chunk_map cs i = Some c \<longleftrightarrow> c \<in> set cs \<and> cm_first_index c = i"
  by (auto simp: chunk_map_def map_of_eq_Some_iff comp_def)

lemma sort_chunks:
  assumes srt: "sorted_wrt (<) (map cm_first_index cs)" and kvs: "distinct (map fst kvs)" "map_of kvs = chunk_map cs"
  shows "sort_key cm_first_index (map snd kvs) = cs"
proof -
  have d: "distinct (map cm_first_index cs)" "sorted (map cm_first_index cs)"
    using srt by (simp_all add: strict_sorted_iff)
  have mem: "(k, c) \<in> set kvs \<longleftrightarrow> c \<in> set cs \<and> cm_first_index c = k" for k c
    using kvs d(1) by (simp add: map_of_eq_Some_iff [symmetric] chunk_map_Some)
  have s: "set (map snd kvs) = set cs" using mem by force
  have "map cm_first_index (map snd kvs) = map fst kvs" using mem by auto
  then have "distinct (map cm_first_index (map snd kvs))" using kvs(1) by (simp only:)
  then have ds: "distinct (map cm_first_index (sort_key cm_first_index (map snd kvs)))"
    by (metis distinct_map distinct_sort set_sort)
  have "inj_on cm_first_index (set cs)" using d(1) by (simp add: distinct_map)
  then show ?thesis
    by (intro map_sorted_distinct_set_unique [of cm_first_index]) (use s d ds in simp_all)
qed

lemma content_batch_simps [simp]:
  "content_batch [] c = c" "content_batch (op # ops) c = content_batch ops (content_op c op)"
  "content_batch (ops @ ops') c = content_batch ops' (content_batch ops c)"
  by (simp_all add: content_batch_def)

lemma insert_slots_Cons: "insert_slots (m # ms) t = insert_slots ms (bt_insert (sm_slot m) m t)"
  by (simp add: insert_slots_def)

lemma remove_keys_Cons: "remove_keys (k # ks) t = remove_keys ks (bt_remove k t)"
  by (simp add: remove_keys_def)

lemma put_slots_content:
  assumes "c SlotsCf = rows_of slot_meta_encode (bt_get t)"
  shows "content_batch (map put_slot ms) c = c(SlotsCf := rows_of slot_meta_encode (bt_get (insert_slots ms t)))"
  using assms
proof (induction ms arbitrary: c t)
  case Nil
  then show ?case by (simp add: insert_slots_def fun_upd_idem)
next
  case (Cons m ms)
  have "(content_op c (put_slot m)) SlotsCf = rows_of slot_meta_encode (bt_get (bt_insert (sm_slot m) m t))"
    using Cons.prems by (simp add: put_slot_def bt_get_insert rows_of_put)
  note Cons.IH [of "content_op c (put_slot m)" "bt_insert (sm_slot m) m t", OF this]
  moreover have "(content_op c (put_slot m))(SlotsCf := r) = c(SlotsCf := r)" for r by (simp add: put_slot_def)
  ultimately show ?case by (simp only: list.map content_batch_simps(2) insert_slots_Cons)
qed

lemma delete_content:
  assumes "c x = rows_of enc (bt_get t)"
  shows "content_batch (map (\<lambda>k. Delete x (encode_u64_key k)) ks) c = c(x := rows_of enc (bt_get (remove_keys ks t)))"
  using assms
proof (induction ks arbitrary: c t)
  case Nil
  then show ?case by (simp add: remove_keys_def fun_upd_idem)
next
  case (Cons k ks)
  have "(content_op c (Delete x (encode_u64_key k))) x = rows_of enc (bt_get (bt_remove k t))"
    using Cons.prems by (simp add: bt_get_remove rows_of_delete)
  note Cons.IH [of "content_op c (Delete x (encode_u64_key k))" "bt_remove k t", OF this]
  moreover have "(content_op c (Delete x (encode_u64_key k)))(x := r) = c(x := r)" for r by simp
  ultimately show ?case by (simp only: list.map content_batch_simps(2) remove_keys_Cons)
qed

lemma delete_rows_content:
  assumes "c x = rows_of enc f"
  shows "content_batch (map (\<lambda>k. Delete x (encode_u64_key k)) ks) c = c(x := rows_of enc (f |` (- set ks)))"
  using assms
proof (induction ks arbitrary: c f)
  case Nil
  then show ?case by (simp add: restrict_map_def fun_upd_idem)
next
  case (Cons k ks)
  have "(content_op c (Delete x (encode_u64_key k))) x = rows_of enc (f(k := None))"
    using Cons.prems by (simp add: rows_of_delete)
  moreover have "f(k := None) |` (- set ks) = f |` (- set (k # ks))" by (auto simp: restrict_map_def fun_eq_iff)
  moreover have "(content_op c (Delete x (encode_u64_key k)))(x := r) = c(x := r)" for r by simp
  ultimately show ?case using Cons.IH [of "content_op c (Delete x (encode_u64_key k))" "f(k := None)"]
    by (simp only: list.map content_batch_simps(2))
qed

lemma insert_slots_ok:
  assumes "bt_ok t" "\<forall>k v. bt_get t k = Some v \<longrightarrow> sm_slot v = k"
  shows "bt_ok (insert_slots ms t) \<and> (\<forall>k v. bt_get (insert_slots ms t) k = Some v \<longrightarrow> sm_slot v = k)"
  using assms
proof (induction ms arbitrary: t)
  case (Cons m ms)
  have "bt_ok (bt_insert (sm_slot m) m t)" "\<forall>k v. bt_get (bt_insert (sm_slot m) m t) k = Some v \<longrightarrow> sm_slot v = k"
    using Cons.prems by (simp add: bt_ok_insert, simp only: bt_get_insert fun_upd_apply, auto split: if_splits)
  from Cons.IH [OF this] show ?case unfolding insert_slots_Cons .
qed (simp add: insert_slots_def)

lemma bt_get_remove_keys: "bt_get (remove_keys ks t) = (bt_get t) |` (- set ks)"
proof (induction ks arbitrary: t)
  case (Cons k ks)
  show ?case using Cons.IH [of "bt_remove k t"] by (auto simp: remove_keys_def bt_get_remove restrict_map_def fun_eq_iff)
qed (simp add: remove_keys_def restrict_map_def)

lemma bt_ok_remove_keys: "bt_ok t \<Longrightarrow> bt_ok (remove_keys ks t)"
  by (induction ks arbitrary: t) (simp_all add: remove_keys_def bt_ok_remove)

lemma chunk_map_snoc:
  assumes "cm_first_index c \<notin> cm_first_index ` set cs"
  shows "chunk_map (cs @ [c]) = (chunk_map cs)(cm_first_index c \<mapsto> c)"
proof -
  have "cm_first_index c \<notin> dom (chunk_map cs)" using assms by (simp add: chunk_map_def dom_map_of_conv_image_fst image_image)
  then show ?thesis by (auto simp: chunk_map_def fun_eq_iff map_add_def split: option.splits)
qed

lemma chunk_map_filter:
  assumes "distinct (map cm_first_index cs)"
  shows "chunk_map (filter Q cs) = (chunk_map cs) |` (- set (map cm_first_index (filter (\<lambda>c. \<not> Q c) cs)))"
proof
  fix i
  have d: "distinct (map cm_first_index (filter Q cs))" using assms by (rule distinct_map_filter)
  have "chunk_map (filter Q cs) i = Some c \<longleftrightarrow>
      (chunk_map cs |` (- set (map cm_first_index (filter (\<lambda>c. \<not> Q c) cs)))) i = Some c" for c
    using assms d by (auto simp: restrict_map_def chunk_map_Some distinct_map inj_on_def)
  then show "chunk_map (filter Q cs) i = (chunk_map cs |` (- set (map cm_first_index (filter (\<lambda>c. \<not> Q c) cs)))) i"
    by (metis not_None_eq)
qed

text \<open>Every commit keeps the mirror equal to the content of the database.\<close>

lemma keys_distinct [simp]: "state_key \<noteq> replay_floor_key" "replay_floor_key \<noteq> state_key"
  by (simp_all add: state_key_def replay_floor_key_def)

lemma mirrors_chunk:
  assumes m: "mirrors c m" and new: "\<forall>x\<in>set (mm_chunks m). cm_first_index x < cm_first_index (cc_chunk cc)"
  shows "mirrors (content_batch (chunk_batch cc) c) (mirror_chunk_commit cc m)"
proof -
  note m' = m [unfolded mirrors_def]
  let ?t = "insert_slots (cc_updated_slots cc) (insert_slots (cc_new_slots cc) (mm_slots m))"
  have slots: "content_batch (map put_slot (cc_new_slots cc) @ map put_slot (cc_updated_slots cc)) c =
      c(SlotsCf := rows_of slot_meta_encode (bt_get ?t))"
    using m' by (simp add: put_slots_content [of c "mm_slots m"] put_slots_content [where t = "insert_slots (cc_new_slots cc) (mm_slots m)"])
  have ok: "bt_ok ?t \<and> (\<forall>k v. bt_get ?t k = Some v \<longrightarrow> sm_slot v = k)" using m' insert_slots_ok by blast
  have "cm_first_index (cc_chunk cc) \<notin> cm_first_index ` set (mm_chunks m)" using new by auto
  from chunk_map_snoc [OF this] have ch: "rows_of chunk_meta_encode (chunk_map (mm_chunks m @ [cc_chunk cc])) =
      (c ChunksCf)(encode_u64_key (cm_first_index (cc_chunk cc)) \<mapsto> chunk_meta_encode (cc_chunk cc))"
    using m' by (simp add: rows_of_put)
  have batch: "content_batch (chunk_batch cc) c = content_batch
      [Put ChunksCf (encode_u64_key (cm_first_index (cc_chunk cc))) (chunk_meta_encode (cc_chunk cc)),
       Put SegmentsCf (encode_u64_key (sg_segment_id (cc_segment cc))) (segment_meta_encode (cc_segment cc)),
       Put StateCf state_key (state_encode (cc_state cc))] (c(SlotsCf := rows_of slot_meta_encode (bt_get ?t)))"
    unfolding chunk_batch_def append_assoc [symmetric] content_batch_simps(3) slots [unfolded content_batch_simps(3)] ..
  show ?thesis unfolding mirrors_def batch mirror_chunk_commit_def
    using m' ok ch new by (simp add: bt_get_insert rows_of_put bt_ok_insert sorted_wrt_append)
qed

lemma mirrors_rotation:
  assumes "mirrors c m"
  shows "mirrors (content_batch (rotation_batch rc) c) (mirror_rotation_commit rc m)"
  using assms unfolding mirrors_def rotation_batch_def mirror_rotation_commit_def
  by (simp add: bt_get_insert rows_of_put bt_ok_insert)

lemma mirrors_trim:
  assumes m: "mirrors c m"
    and del: "tc_deleted_chunks tc = map cm_first_index (filter (\<lambda>x. cm_segment_id x \<in> set (tc_deleted_segments tc)) (mm_chunks m))"
  shows "mirrors (content_batch (trim_batch tc) c) (mirror_trim_commit tc m)"
proof -
  note m' = m [unfolded mirrors_def]
  let ?slots = "remove_keys (tc_removed_slot tc # tc_deleted_slots tc) (mm_slots m)"
  let ?chunks = "filter (\<lambda>x. cm_segment_id x \<notin> set (tc_deleted_segments tc)) (mm_chunks m)"
  have dc: "distinct (map cm_first_index (mm_chunks m))" using m' by (simp add: strict_sorted_iff)
  have ch: "chunk_map ?chunks = (chunk_map (mm_chunks m)) |` (- set (tc_deleted_chunks tc))"
    unfolding del using chunk_map_filter [OF dc, of "\<lambda>x. cm_segment_id x \<notin> set (tc_deleted_segments tc)"] by simp
  have batch: "trim_batch tc = map (\<lambda>s. Delete SlotsCf (encode_u64_key s)) (tc_removed_slot tc # tc_deleted_slots tc) @
      map (\<lambda>i. Delete ChunksCf (encode_u64_key i)) (tc_deleted_chunks tc) @
      map (\<lambda>i. Delete SegmentsCf (encode_u64_key i)) (tc_deleted_segments tc)"
    by (simp add: trim_batch_def)
  have "content_batch (trim_batch tc) c = c(SlotsCf := rows_of slot_meta_encode (bt_get ?slots),
      ChunksCf := rows_of chunk_meta_encode (chunk_map ?chunks),
      SegmentsCf := rows_of segment_meta_encode (bt_get (remove_keys (tc_deleted_segments tc) (mm_segments m))))"
    unfolding batch content_batch_simps(3) ch using m'
    by (subst delete_content [where t = "mm_slots m" and enc = slot_meta_encode], simp)
      (subst delete_rows_content [where f = "chunk_map (mm_chunks m)" and enc = chunk_meta_encode], simp,
       subst delete_content [where t = "mm_segments m" and enc = segment_meta_encode], simp_all)
  moreover have "sorted_wrt (<) (map cm_first_index ?chunks)" using m' by (simp add: sorted_wrt_map sorted_wrt_filter)
  moreover have "mirror_trim_commit tc m = m\<lparr>mm_slots := ?slots, mm_segments := remove_keys (tc_deleted_segments tc) (mm_segments m),
      mm_chunks := ?chunks\<rparr>" by (simp add: mirror_trim_commit_def remove_keys_def)
  ultimately show ?thesis using m' unfolding mirrors_def
    by (simp add: bt_ok_remove_keys bt_get_remove_keys restrict_map_def)
qed

lemma mirrors_floor:
  assumes "mirrors c m"
  shows "mirrors (content_batch [Put StateCf replay_floor_key (be_bytes 8 (unat i))] c) (m\<lparr>mm_replay_floor := i\<rparr>)"
  using assms unfolding mirrors_def by (simp add: floor_row_def)

context kv_store
begin

lemma load_content:
  assumes "content db c = rows_of enc f" and "\<And>k v. f k = Some v \<Longrightarrow> dec k (enc v) = Inr v"
  shows "\<exists>kvs. load_rows dec (rdb_iter R c db) = Inr kvs \<and> distinct (map fst kvs) \<and> map_of kvs = f"
proof -
  obtain rows where "rdb_iter R c db = map Inr rows" "distinct (map fst rows)" "map_of rows = content db c"
    using iter_rows by blast
  with load_table [of rows enc f dec] assms show ?thesis by metis
qed

lemma load_mirror:
  assumes "mirrors (content db) m"
  shows "load_catalog_from_db R db = Inr m"
proof -
  note m = assms [unfolded mirrors_def]
  have dc: "distinct (map cm_first_index (mm_chunks m))" using m by (simp add: strict_sorted_iff)
  have "slot_meta_decode k (slot_meta_encode v) = Inr v" if "bt_get (mm_slots m) k = Some v" for k v
    using m that slot_meta_round_trip [of v] by auto
  with load_content [of db SlotsCf slot_meta_encode "bt_get (mm_slots m)" slot_meta_decode] m obtain sl where
    sl: "load_rows slot_meta_decode (rdb_iter R SlotsCf db) = Inr sl" "distinct (map fst sl)" "map_of sl = bt_get (mm_slots m)" by blast
  have "segment_meta_decode k (segment_meta_encode v) = Inr v" if "bt_get (mm_segments m) k = Some v" for k v
    using m that segment_meta_round_trip [of v] by auto
  with load_content [of db SegmentsCf segment_meta_encode "bt_get (mm_segments m)" segment_meta_decode] m obtain sg where
    sg: "load_rows segment_meta_decode (rdb_iter R SegmentsCf db) = Inr sg" "distinct (map fst sg)" "map_of sg = bt_get (mm_segments m)" by blast
  have "chunk_meta_decode k (chunk_meta_encode v) = Inr v" if "chunk_map (mm_chunks m) k = Some v" for k v
    using that chunk_meta_round_trip [of v] by (simp add: chunk_map_Some [OF dc])
  with load_content [of db ChunksCf chunk_meta_encode "chunk_map (mm_chunks m)" chunk_meta_decode] m obtain ch where
    ch: "load_rows chunk_meta_decode (rdb_iter R ChunksCf db) = Inr ch" "distinct (map fst ch)" "map_of ch = chunk_map (mm_chunks m)" by blast
  have "bt_ok (mm_slots m)" "bt_ok (mm_segments m)" using m by simp_all
  then have "collect_btree sl = mm_slots m" "collect_btree sg = mm_segments m"
    using bt_eqI [OF collect_btree_ok(1) [OF sl(2)]] bt_eqI [OF collect_btree_ok(1) [OF sg(2)]]
      collect_btree_ok(2) [OF sl(2)] collect_btree_ok(2) [OF sg(2)] sl(3) sg(3) by simp_all
  moreover have "sort_key cm_first_index (map snd ch) = mm_chunks m" using sort_chunks [OF _ ch(2,3)] m by simp
  moreover have "floor_row (content db StateCf replay_floor_key) (mm_replay_floor m)" using m by simp
  then have "(case content db StateCf replay_floor_key of None \<Rightarrow> Inr 0 | Some b \<Rightarrow> decode_u64_key b) = Inr (mm_replay_floor m)"
    by (auto simp: floor_row_def decode_key_Inr encode_u64_key_def split: option.splits)
  moreover have "read_state R db = Inr (Some (mm_state m))" using m by (simp add: read_state_def get_row)
  ultimately show ?thesis by (simp add: load_catalog_from_db_def get_row sl(1) sg(1) ch(1))
qed

text \<open>The operations of \<open>Metadata\<close>: when the write succeeds the mirror is still exact.\<close>

lemma commits_mirror:
  assumes "mirrors (content (md_db m)) (md_catalog m)"
  shows "set_replay_floor R i m = Inr m' \<Longrightarrow> mirrors (content (md_db m')) (md_catalog m')"
    and "apply_rotation_commit R rc m = Inr m' \<Longrightarrow> mirrors (content (md_db m')) (md_catalog m')"
    and "apply_chunk_commit R cc m = Inr m' \<Longrightarrow> \<forall>x\<in>set (mm_chunks (md_catalog m)). cm_first_index x < cm_first_index (cc_chunk cc) \<Longrightarrow>
      mirrors (content (md_db m')) (md_catalog m')"
    and "apply_trim_commit R tc m = Inr m' \<Longrightarrow> tc_deleted_chunks tc = map cm_first_index
        (filter (\<lambda>x. cm_segment_id x \<in> set (tc_deleted_segments tc)) (mm_chunks (md_catalog m))) \<Longrightarrow>
      mirrors (content (md_db m')) (md_catalog m')"
  using assms mirrors_floor mirrors_rotation mirrors_chunk mirrors_trim
  by (auto simp: set_replay_floor_def apply_rotation_commit_def apply_chunk_commit_def apply_trim_commit_def
      map_ok_Inr_iff write_batch)

end

subsection \<open>A reference store\<close>

text \<open>Association lists with distinct keys satisfy the contract.\<close>

fun ref_db_op :: "(cf \<Rightarrow> (bytes, bytes) alist) \<Rightarrow> batch_op \<Rightarrow> (cf \<Rightarrow> (bytes, bytes) alist)" where
  "ref_db_op db (Put c k v) = db(c := DAList.update k v (db c))"
| "ref_db_op db (Delete c k) = db(c := DAList.delete k (db c))"

definition ref_db :: "(cf \<Rightarrow> (bytes, bytes) alist) rocksdb" where
  "ref_db = \<lparr>rdb_write = (\<lambda>ops db. Inr (foldl ref_db_op db ops)),
     rdb_get = (\<lambda>c k db. Inr (DAList.lookup (db c) k)), rdb_iter = (\<lambda>c db. map Inr (DAList.impl_of (db c)))\<rparr>"

definition ref_content :: "(cf \<Rightarrow> (bytes, bytes) alist) \<Rightarrow> cf \<Rightarrow> bytes \<rightharpoonup> bytes" where
  "ref_content db c = DAList.lookup (db c)"

lemma ref_db_op_content: "ref_content (ref_db_op db op) = content_op (ref_content db) op"
  by (cases op) (auto simp: ref_content_def fun_eq_iff lookup_update lookup_delete)

interpretation ref_store: kv_store ref_db ref_content
proof
  fix c db
  show "\<exists>rows. rdb_iter ref_db c db = map Inr rows \<and> distinct (map fst rows) \<and> map_of rows = ref_content db c"
    using impl_of [of "db c"] by (auto simp: ref_db_def ref_content_def DAList.lookup_def)
next
  fix ops and db db' :: "cf \<Rightarrow> (bytes, bytes) alist"
  have "ref_content (foldl ref_db_op db ops) = content_batch ops (ref_content db)"
    by (induction ops arbitrary: db) (simp_all add: ref_db_op_content)
  then show "rdb_write ref_db ops db = Inr db' \<Longrightarrow> ref_content db' = content_batch ops (ref_content db)"
    by (auto simp: ref_db_def)
qed (simp add: ref_db_def ref_content_def)

end
