(* ===== verification/Richat_Sender.thy ===== *)
theory Richat_Sender
  imports Richat_Dedup Storage_Metadata
begin

unbundle bit_operations_syntax

text \<open>
  The sender of the server (\<open>Sender\<close>, \<open>Messages\<close> and \<open>GlobalReplayFromSlot\<close> of
  \<open>richat/src/channel.rs\<close>) with the part of the storage facade that it calls
  (\<open>richat/src/storage/mod.rs\<close>). A push runs the deduplication, the slot state and the three
  rings of the earlier theories, and sends commands to the writer of the journal; the
  channel to the writer is the list of the commands sent. The hasher of message ids is an
  argument. Metrics, logging and wakers' tasks are left out; \<open>None\<close> is a panic.
\<close>

subsection \<open>\<open>GlobalReplayFromSlot\<close>\<close>

record global_replay =
  gr_value :: "slot option"
  gr_sources_replay_failed :: "string set"
  gr_sources_total :: nat
  gr_epoch :: u64

definition global_replay_new :: "slot option \<Rightarrow> nat \<Rightarrow> global_replay" where
  "global_replay_new v n = \<lparr>gr_value = v, gr_sources_replay_failed = {}, gr_sources_total = n, gr_epoch = 0\<rparr>"

definition global_replay_store :: "slot \<Rightarrow> global_replay \<Rightarrow> global_replay" where
  "global_replay_store sl g =
     (let g1 = (if (case gr_value g of None \<Rightarrow> True | Some v \<Rightarrow> sl > v) then g\<lparr>gr_sources_replay_failed := {}\<rparr> else g) in
      g1\<lparr>gr_value := Some (max (case gr_value g of None \<Rightarrow> sl | Some v \<Rightarrow> v) sl)\<rparr>)"

definition fallback_to_live :: "string \<Rightarrow> slot option \<Rightarrow> u64 \<Rightarrow> global_replay \<Rightarrow> bool \<times> global_replay" where
  "fallback_to_live source requested epoch g =
     (if requested = None \<or> gr_value g \<noteq> requested \<or> gr_epoch g \<noteq> epoch then (False, g)
      else (let g1 = g\<lparr>gr_sources_replay_failed := insert source (gr_sources_replay_failed g)\<rparr> in
        if card (gr_sources_replay_failed g1) < gr_sources_total g1 then (False, g1)
        else (True, g1\<lparr>gr_value := None, gr_epoch := gr_epoch g + 1, gr_sources_replay_failed := {}\<rparr>)))"

definition update_sources :: "nat \<Rightarrow> global_replay \<Rightarrow> global_replay" where
  "update_sources n g = g\<lparr>gr_sources_total := n, gr_sources_replay_failed := {}\<rparr>"

subsection \<open>The storage facade\<close>

datatype 'x writer_command =
  WC_RestorePayload u64 "'x parsed_message"
| WC_PushMessage commitment_level bool slot u64 u64 "'x parsed_message"
| WC_RemoveReplay slot "u64 option"

record ('x, 'db) rstorage =
  rst_metadata :: "'db metadata"
  rst_commitment_mask :: u8
  rst_sent :: "'x writer_command list"

definition send_command :: "'x writer_command \<Rightarrow> ('x, 'db) rstorage \<Rightarrow> ('x, 'db) rstorage" where
  "send_command c st = st\<lparr>rst_sent := rst_sent st @ [c]\<rparr>"

fun commitment_bit :: "commitment_level \<Rightarrow> u8" where
  "commitment_bit Processed = 1"
| "commitment_bit Confirmed = 2"
| "commitment_bit Finalized = 4"

definition replay_enabled :: "('x, 'db) rstorage \<Rightarrow> commitment_level \<Rightarrow> bool" where
  "replay_enabled st c = (rst_commitment_mask st AND commitment_bit c \<noteq> 0)"

definition next_index :: "('x, 'db) rstorage \<Rightarrow> u64" where
  "next_index st = (let catalog = md_catalog (rst_metadata st) in
     max (if mm_chunks catalog = [] then 0 else cm_last_index (last (mm_chunks catalog)) + 1) (mm_replay_floor catalog))"

definition COMMITMENT_RECORDS :: u8 where
  "COMMITMENT_RECORDS = 128"

definition supports_commitment_replay :: "('x, 'db) rstorage \<Rightarrow> u64 \<Rightarrow> commitment_level \<Rightarrow> bool" where
  "supports_commitment_replay st index c =
     list_all (\<lambda>chunk. if cm_compression chunk AND COMMITMENT_RECORDS = 0 then c = Processed
        else drop_bit 2 (cm_compression chunk) AND commitment_bit c \<noteq> 0)
       (filter (\<lambda>chunk. cm_last_index chunk \<ge> index) (mm_chunks (md_catalog (rst_metadata st))))"

definition supports_block_replay :: "('x, 'db) rstorage \<Rightarrow> u64 \<Rightarrow> bool" where
  "supports_block_replay st index = list_all (\<lambda>chunk. cm_compression chunk AND COMMITMENT_RECORDS \<noteq> 0)
     (filter (\<lambda>chunk. cm_last_index chunk \<ge> index) (mm_chunks (md_catalog (rst_metadata st))))"

record slot_index_value =
  sv_finalized :: bool
  sv_head :: u64

definition read_slots :: "('x, 'db) rstorage \<Rightarrow> (slot, slot_index_value) btree" where
  "read_slots st = (let catalog = md_catalog (rst_metadata st) in
     map (\<lambda>(sl, meta). (sl, \<lparr>sv_finalized = sm_finalized meta, sv_head = sm_first_index meta\<rparr>))
       (filter (\<lambda>(sl, meta). sm_first_index meta \<ge> mm_replay_floor catalog) (mm_slots catalog)))"

subsection \<open>The sender\<close>

record replay_info =
  rp_head :: u64
  rp_messages :: "(u64 \<rightharpoonup> u64) option"

definition replay_info_new :: "u64 \<Rightarrow> replay_info" where
  "replay_info_new head = \<lparr>rp_head = head, rp_messages = None\<rparr>"

record ('x, 'w, 'db) sender =
  sn_slots :: "(slot, 'x rslot_info) btree"
  sn_dedup :: "(slot, dedup_info) btree"
  sn_processed :: "('x parsed_message, 'w) sender_shared"
  sn_confirmed :: "('x parsed_message, 'w) sender_shared option"
  sn_finalized :: "('x parsed_message, 'w) sender_shared option"
  sn_slot_finalized :: slot
  sn_global_replay :: global_replay
  sn_storage :: "('x, 'db) rstorage option"
  sn_storage_max_slots :: nat
  sn_max_unfinalized_slots :: nat
  sn_slot_dropped :: slot
  sn_slots_dropped :: u64
  sn_index :: u64
  sn_replay :: "(slot, replay_info) btree"

text \<open>\<open>SenderShared::push_stored\<close>\<close>

definition push_stored :: "('x parsed_message \<Rightarrow> nat) \<Rightarrow> slot \<Rightarrow> 'x parsed_message \<Rightarrow> ('x, 'db) rstorage option \<Rightarrow> u64 \<Rightarrow> u64 \<Rightarrow>
    ('x parsed_message, 'w) sender_shared \<Rightarrow>
    (('x parsed_message, 'w) sender_shared \<times> ('x, 'db) rstorage option \<times> u64) option" where
  "push_stored sz sl m storage index slot_head ss =
     (case storage of
        Some st \<Rightarrow> if ss_commitment ss = Processed \<or> replay_enabled st (ss_commitment ss)
          then map_option (\<lambda>ss'. (ss', Some (send_command
              (WC_PushMessage (ss_commitment ss) (index = slot_head) sl slot_head index m) st), index + 1))
            (rpush sz ss sl m (Some index))
          else map_option (\<lambda>ss'. (ss', storage, index)) (rpush sz ss sl m None)
      | None \<Rightarrow> map_option (\<lambda>ss'. (ss', storage, index)) (rpush sz ss sl m None))"

definition push_processed :: "('x parsed_message \<Rightarrow> nat) \<Rightarrow> slot \<Rightarrow> u64 \<Rightarrow> 'x parsed_message \<Rightarrow> ('x, 'w, 'db) sender \<Rightarrow>
    ('x, 'w, 'db) sender option" where
  "push_processed sz sl slot_head m s =
     map_option (\<lambda>(ss, st, index). s\<lparr>sn_processed := ss, sn_storage := st, sn_index := index\<rparr>)
       (push_stored sz sl m (sn_storage s) (sn_index s) slot_head (sn_processed s))"

definition push_confirmed :: "('x parsed_message \<Rightarrow> nat) \<Rightarrow> slot \<Rightarrow> u64 \<Rightarrow> 'x parsed_message \<Rightarrow> ('x, 'w, 'db) sender \<Rightarrow>
    ('x, 'w, 'db) sender option" where
  "push_confirmed sz sl slot_head m s = (case sn_confirmed s of None \<Rightarrow> Some s
     | Some sh \<Rightarrow> map_option (\<lambda>(ss, st, index). s\<lparr>sn_confirmed := Some ss, sn_storage := st, sn_index := index\<rparr>)
         (push_stored sz sl m (sn_storage s) (sn_index s) slot_head sh))"

definition push_finalized :: "('x parsed_message \<Rightarrow> nat) \<Rightarrow> slot \<Rightarrow> u64 \<Rightarrow> 'x parsed_message \<Rightarrow> ('x, 'w, 'db) sender \<Rightarrow>
    ('x, 'w, 'db) sender option" where
  "push_finalized sz sl slot_head m s = (case sn_finalized s of None \<Rightarrow> Some s
     | Some sh \<Rightarrow> map_option (\<lambda>(ss, st, index). s\<lparr>sn_finalized := Some ss, sn_storage := st, sn_index := index\<rparr>)
         (push_stored sz sl m (sn_storage s) (sn_index s) slot_head sh))"

fun push_each :: "('m \<Rightarrow> 's \<Rightarrow> 's option) \<Rightarrow> 'm list \<Rightarrow> 's \<Rightarrow> 's option" where
  "push_each f [] s = Some s"
| "push_each f (m # ms) s = Option.bind (f m s) (push_each f ms)"

text \<open>The replay of a restarted source: messages that the journal has are not published
  again, only their payload is restored. The result tells whether the message is skipped.\<close>

definition check_replayed :: "prost \<Rightarrow> (hash_write list \<Rightarrow> u64) \<Rightarrow> slot \<Rightarrow> 'x parsed_message \<Rightarrow> ('x, 'w, 'db) sender \<Rightarrow>
    (bool \<times> ('x, 'w, 'db) sender) option" where
  "check_replayed P H sl m s = (case bt_get (sn_replay s) sl of
     None \<Rightarrow> None
   | Some info \<Rightarrow> (case rp_messages info of
       None \<Rightarrow> Some (False, s)
     | Some messages \<Rightarrow> Option.bind (get_id P H m) (\<lambda>id. case messages id of
         Some index \<Rightarrow> Some (True, s\<lparr>sn_storage := map_option (send_command (WC_RestorePayload index m)) (sn_storage s)\<rparr>)
       | None \<Rightarrow> Some (False, s\<lparr>sn_replay := bt_insert sl (info\<lparr>rp_messages := Some (messages(id \<mapsto> sn_index s))\<rparr>) (sn_replay s)\<rparr>))))"

text \<open>Publishing a slot status: to the higher commitments, with the messages of the selected
  bank when the slot became confirmed or finalized.\<close>

definition promote_confirmed :: "('x parsed_message \<Rightarrow> nat) \<Rightarrow> slot \<Rightarrow> u64 \<Rightarrow> bank_id option \<Rightarrow> ('x, 'w, 'db) sender \<Rightarrow>
    ('x, 'w, 'db) sender option" where
  "promote_confirmed sz sl slot_head bank s =
     (if sn_confirmed s = None then Some s else case bt_get (sn_slots s) sl of None \<Rightarrow> Some s
      | Some info \<Rightarrow> push_each (push_confirmed sz sl slot_head) (get_messages_cloned bank info) s)"

definition promote_finalized :: "('x parsed_message \<Rightarrow> nat) \<Rightarrow> slot \<Rightarrow> u64 \<Rightarrow> bank_id option option \<Rightarrow> ('x, 'w, 'db) sender \<Rightarrow>
    ('x, 'w, 'db) sender option" where
  "promote_finalized sz sl slot_head commitment_bank s =
     (let s1 = s\<lparr>sn_slot_finalized := sl, sn_global_replay := global_replay_store (sl + 1) (sn_global_replay s)\<rparr> in
      if sn_finalized s1 = None then Some s1
      else case commitment_bank of None \<Rightarrow> Some s1
      | Some bank \<Rightarrow> (case bt_get (sn_slots s1) sl of None \<Rightarrow> Some s1
        | Some info \<Rightarrow> push_each (push_finalized sz sl slot_head) (fst (get_messages_owned bank info))
            (s1\<lparr>sn_slots := bt_remove sl (sn_slots s1)\<rparr>)))"

definition publish_status :: "('x parsed_message \<Rightarrow> nat) \<Rightarrow> slot \<Rightarrow> u64 \<Rightarrow> bank_id option option \<Rightarrow> message_slot \<Rightarrow>
    ('x, 'w, 'db) sender \<Rightarrow> ('x, 'w, 'db) sender option" where
  "publish_status sz sl slot_head commitment_bank m s =
     Option.bind (push_confirmed sz sl slot_head (RP_Slot m) s) (\<lambda>s1.
     Option.bind (push_finalized sz sl slot_head (RP_Slot m) s1) (\<lambda>s2.
     Option.bind (case commitment_bank of
         Some bank \<Rightarrow> if ms_status m = SlotConfirmed then promote_confirmed sz sl slot_head bank s2 else Some s2
       | None \<Rightarrow> Some s2) (\<lambda>s3.
       if ms_status m = SlotFinalized then promote_finalized sz sl slot_head commitment_bank s3 else Some s3)))"

definition publish_other :: "('x parsed_message \<Rightarrow> nat) \<Rightarrow> slot \<Rightarrow> u64 \<Rightarrow> bank_id option \<Rightarrow> 'x parsed_message \<Rightarrow>
    ('x, 'w, 'db) sender \<Rightarrow> ('x, 'w, 'db) sender option" where
  "publish_other sz sl slot_head message_bank m s =
     (if (case m of RP_EntryUpdateParent _ _ _ \<Rightarrow> False | _ \<Rightarrow> True) \<and>
         (case bt_get (sn_slots s) sl of None \<Rightarrow> False | Some info \<Rightarrow> rsi_confirmed_bank info = Some message_bank)
      then push_confirmed sz sl slot_head m s else Some s)"

text \<open>The body of the inner loop; the flag is \<open>clean_after_finalized\<close>.\<close>

definition publish :: "prost \<Rightarrow> (hash_write list \<Rightarrow> u64) \<Rightarrow> ('x parsed_message \<Rightarrow> nat) \<Rightarrow> slot \<Rightarrow> u64 \<Rightarrow> bank_id option \<Rightarrow>
    bank_id option option \<Rightarrow> 'x parsed_message \<Rightarrow> bool \<times> ('x, 'w, 'db) sender \<Rightarrow> (bool \<times> ('x, 'w, 'db) sender) option" where
  "publish P H sz sl slot_head message_bank commitment_bank m cs =
     Option.bind (check_replayed P H sl m (snd cs)) (\<lambda>(skip, s1).
       if skip then Some (fst cs, s1)
       else Option.bind (case m of
           RP_Slot ms \<Rightarrow> map_option (\<lambda>s2. (fst cs \<or> ms_status ms = SlotFinalized, s2)) (publish_status sz sl slot_head commitment_bank ms s1)
         | _ \<Rightarrow> map_option (Pair (fst cs)) (publish_other sz sl slot_head message_bank m s1)) (\<lambda>(clean, s2).
         map_option (Pair clean) (push_processed sz sl slot_head m s2)))"

text \<open>The body of the outer loop: the state of the slot, then the message and the block it completes.\<close>

definition sender_message :: "prost \<Rightarrow> (hash_write list \<Rightarrow> u64) \<Rightarrow> ('x parsed_message \<Rightarrow> nat) \<Rightarrow> slot \<Rightarrow> 'x parsed_message \<Rightarrow>
    bool \<times> ('x, 'w, 'db) sender \<Rightarrow> (bool \<times> ('x, 'w, 'db) sender) option" where
  "sender_message P H sz sl m cs =
     (let s = snd cs in
      Option.bind (bt_get (sn_replay s) sl) (\<lambda>replay.
      let info = (case bt_get (sn_slots s) sl of Some i \<Rightarrow> i | None \<Rightarrow> rslot_info_new sl (rp_head replay)) in
      Option.bind (case m of
          RP_Slot ms \<Rightarrow> (let (bank, info') = slot_commit (ms_status ms) (parsed_bank_id m) info in Some (bank, None, info'))
        | _ \<Rightarrow> map_option (\<lambda>(block, report, info'). (None, block, info')) (slot_get_block_message P m info))
        (\<lambda>(commitment_bank, block, info').
          push_each (publish P H sz sl (rsi_index info) (parsed_bank_id m) commitment_bank)
            (m # (case block of Some b \<Rightarrow> [b] | None \<Rightarrow> []))
            (fst cs, s\<lparr>sn_slots := bt_insert sl info' (sn_slots s)\<rparr>))))"

text \<open>The clean-up loops after the messages.\<close>

definition clean_finalized :: "('x, 'w, 'db) sender \<Rightarrow> ('x, 'w, 'db) sender" where
  "clean_finalized s = s\<lparr>sn_slots_dropped := 0,
     sn_slots := bt_pop_while (\<lambda>sl. sl \<le> sn_slot_finalized s) (sn_slots s),
     sn_dedup := bt_pop_while (\<lambda>sl. sl < sn_slot_finalized s) (sn_dedup s)\<rparr>"

function drop_unfinalized :: "('x, 'w, 'db) sender \<Rightarrow> ('x, 'w, 'db) sender" where
  "drop_unfinalized s = (if sn_max_unfinalized_slots s < length (sn_slots s)
     then drop_unfinalized (s\<lparr>sn_slots := tl (sn_slots s), sn_slot_dropped := max (sn_slot_dropped s) (fst (hd (sn_slots s))),
       sn_slots_dropped := sn_slots_dropped s + 1\<rparr>)
     else s)"
  by pat_completeness auto
termination
  by (relation "measure (\<lambda>s. length (sn_slots s))") auto

declare drop_unfinalized.simps [simp del]

definition drop_dedup :: "('x, 'w, 'db) sender \<Rightarrow> ('x, 'w, 'db) sender" where
  "drop_dedup s = s\<lparr>sn_dedup := drop (length (sn_dedup s) - sn_max_unfinalized_slots s) (sn_dedup s)\<rparr>"

definition saturating_sub :: "nat \<Rightarrow> nat \<Rightarrow> nat" where
  "saturating_sub a b = a - b"

fun trim_replay :: "slot \<Rightarrow> (slot, replay_info) btree \<Rightarrow> ('x, 'db) rstorage \<Rightarrow> (slot, replay_info) btree \<times> ('x, 'db) rstorage" where
  "trim_replay first [] st = ([], st)"
| "trim_replay first ((sl, info) # r) st = (if sl < first
     then trim_replay first r (send_command (WC_RemoveReplay sl
       (if r = [] then None else Some (Min (rp_head ` snd ` set r)))) st)
     else ((sl, info) # r, st))"

definition retain_storage :: "('x, 'w, 'db) sender \<Rightarrow> ('x, 'w, 'db) sender" where
  "retain_storage s = (case sn_storage s of
     None \<Rightarrow> s\<lparr>sn_replay := []\<rparr>
   | Some st \<Rightarrow>
      (let first = (case bt_last_key (sn_replay s) of None \<Rightarrow> 0
             | Some sl \<Rightarrow> of_nat (saturating_sub (unat sl) (saturating_sub (sn_storage_max_slots s) 1)));
           (replay, st') = trim_replay first (sn_replay s) st in
       s\<lparr>sn_replay := replay, sn_storage := Some st'\<rparr>))"

text \<open>\<open>Sender::push\<close>\<close>

definition bank_cleared :: "bank_id option \<Rightarrow> 'x message \<Rightarrow> ('x, 'w, 'db) sender \<Rightarrow> bool" where
  "bank_cleared bank m s = (case bank of None \<Rightarrow> False | Some b \<Rightarrow>
     (case m of M_EntryUpdateParent _ _ _ \<Rightarrow> False | _ \<Rightarrow> True) \<and>
     (case bt_get (sn_slots s) (message_slot_of m) of None \<Rightarrow> False | Some info \<Rightarrow> b \<in> rsi_cleared_banks info))"

definition sender_dedup :: "prost \<Rightarrow> bool \<Rightarrow> string \<Rightarrow> 'x message \<Rightarrow> ('x, 'w, 'db) sender \<Rightarrow>
    ('x parsed_message list \<times> ('x, 'w, 'db) sender) option" where
  "sender_dedup P dedup_required source m s =
     (if dedup_required then
        (let sl = message_slot_of m; dedup = (case bt_get (sn_dedup s) sl of Some d \<Rightarrow> d | None \<Rightarrow> dedup_info_default) in
         map_option (\<lambda>(ms, d). (ms, s\<lparr>sn_dedup := bt_insert sl d (sn_dedup s)\<rparr>))
           (dedup_push P source (filter_bank (message_bank_id m)) m dedup))
      else Some ([parsed_from m], s))"

definition sender_wake :: "('x, 'w, 'db) sender \<Rightarrow> 'w list \<times> ('x, 'w, 'db) sender" where
  "sender_wake s = (case sc_wakers (ss_shared (sn_processed s)) of
     None \<Rightarrow> ([], s)
   | Some ws \<Rightarrow> (ws, s\<lparr>sn_processed := (sn_processed s)\<lparr>ss_shared := (ss_shared (sn_processed s))\<lparr>sc_wakers := Some []\<rparr>\<rparr>\<rparr>))"

definition sender_publish :: "prost \<Rightarrow> (hash_write list \<Rightarrow> u64) \<Rightarrow> ('x parsed_message \<Rightarrow> nat) \<Rightarrow> slot \<Rightarrow> 'x parsed_message list \<Rightarrow>
    ('x, 'w, 'db) sender \<Rightarrow> ('x, 'w, 'db) sender option" where
  "sender_publish P H sz sl ms s =
     map_option (\<lambda>(clean, s2). retain_storage (drop_dedup (drop_unfinalized (if clean then clean_finalized s2 else s2))))
       (push_each (sender_message P H sz sl) ms
         (False, s\<lparr>sn_replay := bt_or_insert sl (replay_info_new (sn_index s)) (sn_replay s)\<rparr>))"

definition sender_push :: "prost \<Rightarrow> (hash_write list \<Rightarrow> u64) \<Rightarrow> ('x parsed_message \<Rightarrow> nat) \<Rightarrow> bool \<Rightarrow> string \<Rightarrow> 'x message \<Rightarrow>
    ('x, 'w, 'db) sender \<Rightarrow> ('w list \<times> ('x, 'w, 'db) sender) option" where
  "sender_push P H sz dedup_required source m s =
     (if message_slot_of m \<le> max (sn_slot_finalized s) (sn_slot_dropped s) then Some ([], s)
      else if bank_cleared (filter_bank (message_bank_id m)) m s then Some ([], s)
      else Option.bind (sender_dedup P dedup_required source m s) (\<lambda>(ms, s1).
        if ms = [] then Some ([], s1)
        else map_option sender_wake (sender_publish P H sz (message_slot_of m) ms s1)))"

text \<open>\<open>Sender::begin_live_epoch\<close>\<close>

definition live_shared :: "u64 \<Rightarrow> ('d, 'w) sender_shared \<Rightarrow> ('d, 'w) sender_shared" where
  "live_shared index ss = ss\<lparr>ss_shared := (ss_shared ss)\<lparr>sc_slots := [], sc_replay_floor := index,
     sc_recovery_epoch := sc_recovery_epoch (ss_shared ss) + 1\<rparr>\<rparr>"

definition begin_live_epoch :: "'db rocksdb \<Rightarrow> ('x, 'w, 'db) sender \<Rightarrow> error + ('x, 'w, 'db) sender" where
  "begin_live_epoch R s =
     map_ok (\<lambda>st. s\<lparr>sn_storage := st, sn_slots := [], sn_dedup := [], sn_replay := [],
         sn_processed := live_shared (sn_index s) (sn_processed s),
         sn_confirmed := map_option (live_shared (sn_index s)) (sn_confirmed s),
         sn_finalized := map_option (live_shared (sn_index s)) (sn_finalized s)\<rparr>)
       (case sn_storage s of None \<Rightarrow> Inr None
        | Some st \<Rightarrow> map_ok (\<lambda>md. Some (st\<lparr>rst_metadata := md\<rparr>)) (set_replay_floor R (sn_index s) (rst_metadata st)))"

text \<open>\<open>Messages\<close>: the channels that receivers are given.\<close>

datatype index_location = IL_Storage u64 | IL_Memory u64

definition get_shared :: "('x, 'w, 'db) sender \<Rightarrow> commitment_level \<Rightarrow> ('x parsed_message, 'w) shared_channel option" where
  "get_shared s c = (case c of Processed \<Rightarrow> Some (ss_shared (sn_processed s))
     | Confirmed \<Rightarrow> map_option ss_shared (sn_confirmed s) | Finalized \<Rightarrow> map_option ss_shared (sn_finalized s))"

definition range_min :: "slot \<Rightarrow> (slot, 'v) btree \<Rightarrow> ('v \<Rightarrow> u64) \<Rightarrow> u64 option" where
  "range_min from t head = (case bt_range_from from t of [] \<Rightarrow> None | kv # r \<Rightarrow> Some (Min (head ` snd ` set (kv # r))))"

definition memory_position :: "slot \<Rightarrow> (slot, u64) btree \<Rightarrow> u64 option" where
  "memory_position from slots = (case bt_first_key slots of
     None \<Rightarrow> None
   | Some first \<Rightarrow> if from \<ge> first then range_min from slots id else None)"

definition newest_slot :: "(slot, replay_info) btree \<Rightarrow> (slot, u64) btree \<Rightarrow> slot option" where
  "newest_slot replay slots = (case bt_last_key replay of Some sl \<Rightarrow> Some sl | None \<Rightarrow> bt_last_key slots)"

datatype replay_error =
  RE_FirstAvailable slot slot
| RE_NotEnabled commitment_level
| RE_PredatesHistory
| RE_NoPosition slot

definition storage_position :: "commitment_level \<Rightarrow> slot \<Rightarrow> (slot, replay_info) btree \<Rightarrow> ('x, 'db) rstorage \<Rightarrow>
    replay_error + index_location" where
  "storage_position c from replay st =
     (case bt_first_key replay of
        Some first \<Rightarrow> if from < first then Inl (RE_FirstAvailable from first)
          else (case range_min from replay rp_head of
            None \<Rightarrow> Inl (RE_NoPosition from)
          | Some index \<Rightarrow> if \<not> replay_enabled st c then Inl (RE_NotEnabled c)
              else if \<not> supports_commitment_replay st index c then Inl RE_PredatesHistory
              else Inr (IL_Storage index))
      | None \<Rightarrow> Inl (RE_NoPosition from))"

definition get_current_tail_with_replay :: "('x, 'w, 'db) sender \<Rightarrow> commitment_level \<Rightarrow> slot option \<Rightarrow>
    (replay_error + index_location) option" where
  "get_current_tail_with_replay s c replay_from =
     map_option (\<lambda>sh. case replay_from of
         None \<Rightarrow> Inr (IL_Memory (sc_tail sh + 1))
       | Some from \<Rightarrow> (case memory_position from (sc_slots sh) of
           Some index \<Rightarrow> Inr (IL_Memory index)
         | None \<Rightarrow> if (case newest_slot (sn_replay s) (sc_slots sh) of None \<Rightarrow> False | Some newest \<Rightarrow> from > newest)
             then Inr (IL_Memory (sc_tail sh + 1))
             else (case sn_storage s of
               None \<Rightarrow> Inl (RE_NoPosition from)
             | Some st \<Rightarrow> storage_position c from (sn_replay s) st)))
       (get_shared s c)"

definition get_first_available_slot :: "('x, 'w, 'db) sender \<Rightarrow> slot option" where
  "get_first_available_slot s =
     (case (bt_first_key (sn_replay s), bt_first_key (sc_slots (ss_shared (sn_processed s)))) of
        (Some a, Some b) \<Rightarrow> Some (min a b)
      | (Some a, None) \<Rightarrow> Some a
      | (None, b) \<Rightarrow> b)"

datatype rsubscribe_error = RS_SlotNotAvailable slot | RS_NotInitialized

record messages_filter =
  rf_disable_accounts :: bool
  rf_disable_transactions :: bool
  rf_disable_entries :: bool
  rf_enable_block_footers :: bool
  rf_enable_entry_update_parents :: bool

definition messages_filter_default :: messages_filter where
  "messages_filter_default = \<lparr>rf_disable_accounts = False, rf_disable_transactions = False, rf_disable_entries = False,
     rf_enable_block_footers = False, rf_enable_entry_update_parents = False\<rparr>"

definition messages_subscribe :: "('x, 'w, 'db) sender \<Rightarrow> slot option \<Rightarrow> messages_filter option \<Rightarrow> rsubscribe_error + receiver_async" where
  "messages_subscribe s replay_from richat_filter =
     (let sh = ss_shared (sn_processed s); f = (case richat_filter of Some f \<Rightarrow> f | None \<Rightarrow> messages_filter_default) in
      map_ok (\<lambda>head. \<lparr>ra_head = head, ra_finished = False, ra_accounts = \<not> rf_disable_accounts f,
          ra_transactions = \<not> rf_disable_transactions f, ra_entries = \<not> rf_disable_entries f,
          ra_block_footers = rf_enable_block_footers f, ra_entry_update_parents = rf_enable_entry_update_parents f\<rparr>)
        (case replay_from of
           None \<Rightarrow> Inr (sc_tail sh)
         | Some sl \<Rightarrow> (case bt_get (sc_slots sh) sl of
             Some head \<Rightarrow> Inr head
           | None \<Rightarrow> Inl (case bt_first_key (sc_slots sh) of
               Some first \<Rightarrow> RS_SlotNotAvailable first
             | None \<Rightarrow> RS_NotInitialized))))"

subsection \<open>The messages of a ring\<close>

definition ring_msgs :: "('d, 'w) sender_shared \<Rightarrow> (slot \<times> 'd) set" where
  "ring_msgs ss = {(ri_slot it, d) | it d. it \<in> set (sc_buffer (ss_shared ss)) \<and> ri_data it = Some d}"

lemma ring_msgs_set_cell:
  "ring_msgs (set_cell i it ss) \<subseteq> ring_msgs ss \<union> {(ri_slot it, d) | d. ri_data it = Some d}"
  using set_update_subset_insert [of "sc_buffer (ss_shared ss)" i it]
  by (auto simp: ring_msgs_def set_cell_def)

lemma ring_msgs_evict [simp]: "ring_msgs (evict_cell sz it d ss) = ring_msgs ss"
  by (simp add: ring_msgs_def evict_cell_def)

lemma ring_msgs_drop:
  "rdrop_by_bytes sz ss r = Some (ss', r') \<Longrightarrow> ring_msgs ss' \<subseteq> ring_msgs ss"
proof (induction sz ss r arbitrary: ss' r' rule: rdrop_by_bytes.induct)
  case (1 sz ss r)
  show ?case
  proof (cases "ss_bytes_max ss \<le> ss_bytes_total ss \<and> ss_head ss < ss_tail ss")
    case True
    with 1(2) obtain it d where c: "cell_at (ss_shared ss) (ss_head ss) = Some it" "ri_data it = Some d"
      by (subst (asm) rdrop_by_bytes.simps) (auto split: option.splits)
    let ?ss = "set_cell (get_idx (sc_mask (ss_shared ss)) (ss_head ss)) (it\<lparr>ri_data := None\<rparr>) ss"
    from 1(2) True c have r: "rdrop_by_bytes sz (evict_cell sz it d ?ss) (note_removed r (ri_slot it)) = Some (ss', r')"
      by (subst (asm) rdrop_by_bytes.simps) simp
    have "ring_msgs ss' \<subseteq> ring_msgs ?ss" using 1(1) [OF True c r] by simp
    moreover have "ring_msgs ?ss \<subseteq> ring_msgs ss"
      using ring_msgs_set_cell [of "get_idx (sc_mask (ss_shared ss)) (ss_head ss)" "it\<lparr>ri_data := None\<rparr>" ss] by simp
    ultimately show ?thesis by blast
  next
    case False
    with 1(2) show ?thesis by (subst (asm) rdrop_by_bytes.simps) auto
  qed
qed

lemma ring_msgs_rpush:
  assumes "rpush sz ss sl m i = Some ss'"
  shows "ring_msgs ss' \<subseteq> insert (sl, m) (ring_msgs ss)"
proof -
  from assms obtain ss1 r1 ss2 r2 where w: "rpush_write sz ss sl m i = Some (ss1, r1)" and
    d: "rdrop_by_bytes sz ss1 r1 = Some (ss2, r2)" and s: "ss' = rpush_slots ss2 sl r2"
    by (auto simp: rpush_def bind_eq_Some_conv)
  have "ring_msgs ss1 \<subseteq> insert (sl, m) (ring_msgs ss)"
  proof -
    let ?s = "ss\<lparr>ss_tail := ss_tail ss + 1, ss_bytes_total := ss_bytes_total ss + of_nat (sz m)\<rparr>"
    have "ring_msgs ?s = ring_msgs ss" by (simp add: ring_msgs_def)
    moreover from w obtain ss0 k it where "ss1 = set_cell k it ss0" "ring_msgs ss0 = ring_msgs ?s" "ri_slot it = sl" "ri_data it = Some m"
      by (fastforce simp: rpush_write_def Let_def bind_eq_Some_conv split: option.splits prod.splits)
    ultimately show ?thesis using ring_msgs_set_cell [of k it ss0] by auto
  qed
  moreover have "ring_msgs ss' = ring_msgs ss2"
    by (simp add: s rpush_slots_def Let_def ring_msgs_def split: option.split)
  ultimately show ?thesis using ring_msgs_drop [OF d] by blast
qed

lemma ring_msgs_push_stored:
  assumes "push_stored sz sl m st i h ss = Some (ss', st', i')"
  shows "ring_msgs ss' \<subseteq> insert (sl, m) (ring_msgs ss)"
  using assms by (auto simp: push_stored_def dest: ring_msgs_rpush split: option.splits if_splits)

subsection \<open>The messages of a bank\<close>

definition streamable :: "bank_id option \<Rightarrow> 'x parsed_message \<Rightarrow> bool" where
  "streamable b m \<longleftrightarrow> parsed_bank_id m = b \<and>
     (case m of RP_Slot _ \<Rightarrow> False | RP_EntryUpdateParent _ _ _ \<Rightarrow> False | _ \<Rightarrow> True)"

definition bank_scoped :: "bank_id option \<Rightarrow> 'x bank_info \<Rightarrow> bool" where
  "bank_scoped b bk \<longleftrightarrow> (\<forall>m. Some m \<in> set (bi_messages bk) \<longrightarrow> streamable b m) \<and>
     (\<forall>meta. bi_block_meta bk = Some meta \<longrightarrow> filter_bank (nonzero_bank_id (bm_bank_id (mb_block_meta meta))) = b)"

definition info_scoped :: "'x rslot_info \<Rightarrow> bool" where
  "info_scoped s \<longleftrightarrow> bt_ok (rsi_banks s) \<and> (\<forall>b bk. bt_get (rsi_banks s) b = Some bk \<longrightarrow> bank_scoped b bk)"

lemma bank_scoped_new [simp]: "bank_scoped b (bank_info_new sl)"
  by (simp add: bank_scoped_def bank_info_new_def)

lemma push_message_scoped: "bank_scoped b bk \<Longrightarrow> streamable b m \<Longrightarrow> bank_scoped b (push_message m bk)"
  by (auto simp: bank_scoped_def push_message_def)

lemma clear_message_scoped: "clear_message i bk = Some bk' \<Longrightarrow> bank_scoped b bk \<Longrightarrow> bank_scoped b bk'"
  by (auto simp: bank_scoped_def clear_message_def dest!: set_update_subset_insert [THEN subsetD] split: if_splits)

lemma bank_scoped_fields [simp]:
  "bank_scoped b (bk\<lparr>bi_accounts_dedup := x\<rparr>) = bank_scoped b bk"
  "bank_scoped b (bk\<lparr>bi_transactions_count := n\<rparr>) = bank_scoped b bk"
  "bank_scoped b (bk\<lparr>bi_entries_count := n\<rparr>) = bank_scoped b bk"
  "bank_scoped b (bk\<lparr>bi_block_created := f\<rparr>) = bank_scoped b bk"
  "bank_scoped b (bk\<lparr>bi_failed := f\<rparr>) = bank_scoped b bk"
  "bank_scoped b (bk\<lparr>bi_landed := f\<rparr>) = bank_scoped b bk"
  by (simp_all add: bank_scoped_def)

lemma store_message_scoped:
  assumes "store_message P m bk = Some bk'" "bank_scoped b bk" "streamable b m"
  shows "bank_scoped b bk'"
proof -
  note p = push_message_scoped [OF assms(2,3)]
  show ?thesis
  proof (cases m)
    case (RP_Account a)
    show ?thesis
    proof (cases "bi_accounts_dedup bk (ma_pubkey a)")
      case None
      with RP_Account assms(1) p show ?thesis by (auto simp: store_account_def Let_def bind_eq_Some_conv)
    next
      case (Some vi)
      with RP_Account assms(1) p show ?thesis
        by (cases vi) (auto simp: store_account_def Let_def bind_eq_Some_conv dest: clear_message_scoped split: if_split_asm)
    qed
  next
    case (RP_BlockMeta meta)
    with assms(1,3) p show ?thesis by (auto simp: bank_scoped_def streamable_def)
  qed (use assms(1) p in auto)
qed

lemma bank_message_scoped:
  assumes "bank_get_block_message P m bk = Some (block, r, bk')" "bank_scoped b bk" "streamable b m"
  shows "bank_scoped b bk' \<and> (\<forall>x. block = Some x \<longrightarrow> streamable b x)"
proof (cases "(\<exists>f ts n. m = RP_BlockFooter f ts n) \<or> bi_block_created bk")
  case True
  then show ?thesis using assms push_message_scoped [OF assms(2,3)]
    by (auto simp: bank_get_block_message_def split: parsed_message.splits if_splits)
next
  case False
  with assms(1) obtain b1 where b1: "store_message P m bk = Some b1" and
    r: "(if bank_complete b1 then (let block = create_block (somes (bi_messages b1)) (the (bi_block_meta b1)) in
          Some (Some block, None, push_message block (b1\<lparr>bi_block_created := True\<rparr>))) else Some (None, None, b1)) = Some (block, r, bk')"
    by (auto simp: bank_get_block_message_def bind_eq_Some_conv split: parsed_message.splits)
  note ok = store_message_scoped [OF b1 assms(2,3)]
  show ?thesis
  proof (cases "bank_complete b1")
    case True
    then obtain meta where meta: "bi_block_meta b1 = Some meta" by (auto simp: bank_complete_def split: option.splits)
    with ok have "streamable b (create_block ms meta)" for ms
      by (simp add: streamable_def create_block_def unchecked_create_block_def bank_scoped_def)
    with True r meta ok show ?thesis by (auto simp: Let_def intro!: push_message_scoped)
  qed (use r ok in auto)
qed

lemma slot_message_scoped:
  assumes s: "slot_get_block_message P m info = Some (block, r, info')" and i: "info_scoped info" and m: "\<forall>x. m \<noteq> RP_Slot x"
  shows "info_scoped info'" "block = Some x \<Longrightarrow> streamable (parsed_bank_id m) x"
    "rsi_confirmed_bank info' = rsi_confirmed_bank info"
proof -
  have "info_scoped info' \<and> (\<forall>x. block = Some x \<longrightarrow> streamable (parsed_bank_id m) x) \<and>
    rsi_confirmed_bank info' = rsi_confirmed_bank info"
  proof (cases "\<exists>u ts n. m = RP_EntryUpdateParent u ts n")
    case True
    then show ?thesis using s i
      by (auto simp: slot_get_block_message_def info_scoped_def bt_get_remove bt_oks split: option.splits if_splits)
  next
    case False
    with m have st: "streamable (parsed_bank_id m) m" by (cases m) (auto simp: streamable_def)
    let ?banks = "bt_or_insert (parsed_bank_id m) (bank_info_new (rsi_slot info)) (rsi_banks info)"
    from s False obtain bk b where bk: "bt_get ?banks (parsed_bank_id m) = Some bk" and
      g: "bank_get_block_message P m bk = Some (block, r, b)" and
      info': "info' = info\<lparr>rsi_banks := bt_insert (parsed_bank_id m) b ?banks\<rparr>"
      by (auto simp: slot_get_block_message_def Let_def bind_eq_Some_conv split: parsed_message.splits)
    have ok: "bt_ok ?banks" using i by (simp add: info_scoped_def bt_oks)
    have sc: "bank_scoped k x" if "bt_get ?banks k = Some x" for k x
      using i that by (auto simp: info_scoped_def bt_get_or_insert split: if_splits option.splits)
    from bank_message_scoped [OF g sc [OF bk] st] sc ok info' show ?thesis
      by (auto simp: info_scoped_def bt_get_insert bt_oks split: if_splits)
  qed
  then show "info_scoped info'" "block = Some x \<Longrightarrow> streamable (parsed_bank_id m) x"
    "rsi_confirmed_bank info' = rsi_confirmed_bank info" by blast+
qed

lemma slot_commit_scoped:
  assumes "slot_commit st b info = (r, info')" "info_scoped info"
  shows "info_scoped info'"
    "rsi_confirmed_bank info' = (if st = SlotConfirmed \<and> rsi_confirmed_bank info = None then r else rsi_confirmed_bank info)"
    "st = SlotConfirmed \<Longrightarrow> r \<noteq> None \<Longrightarrow> rsi_confirmed_bank info = None"
  using assms
  by (auto simp: slot_commit_def Let_def info_scoped_def bt_get_update bt_oks split: if_splits)

lemma messages_scoped:
  assumes "info_scoped info" "m \<in> set (get_messages_cloned b info) \<or> m \<in> set (fst (get_messages_owned b info))"
  shows "streamable b m"
proof -
  have "Some m \<in> set xs" if "m \<in> set (somes xs)" for xs using that by (auto simp: somes_def List.map_filter_def)
  with assms show ?thesis
    by (auto simp: info_scoped_def bank_scoped_def get_messages_cloned_def get_messages_owned_def split: option.splits)
qed

subsection \<open>One bank per slot in the streams of the higher commitments\<close>

definition in_stream :: "(slot \<Rightarrow> bank_id option option) \<Rightarrow> slot \<Rightarrow> 'x parsed_message \<Rightarrow> bool" where
  "in_stream \<beta> sl m \<longleftrightarrow> (\<exists>x. m = RP_Slot x) \<or> (\<exists>b. \<beta> sl = Some b \<and> streamable b m)"

definition stream_banks :: "(slot \<Rightarrow> bank_id option option) \<Rightarrow> ('x parsed_message, 'w) sender_shared option \<Rightarrow> bool" where
  "stream_banks \<beta> r \<longleftrightarrow> (\<forall>ss. r = Some ss \<longrightarrow> (\<forall>(sl, m) \<in> ring_msgs ss. in_stream \<beta> sl m))"

definition streams :: "(slot \<Rightarrow> bank_id option option) \<Rightarrow> (slot \<Rightarrow> bank_id option option) \<Rightarrow> ('x, 'w, 'db) sender \<Rightarrow> bool" where
  "streams \<beta> \<gamma> s \<longleftrightarrow> stream_banks \<beta> (sn_confirmed s) \<and> stream_banks \<gamma> (sn_finalized s) \<and> bt_ok (sn_slots s) \<and>
     (\<forall>k info. bt_get (sn_slots s) k = Some info \<longrightarrow> info_scoped info \<and> \<beta> k = rsi_confirmed_bank info) \<and>
     (\<forall>k. bt_get (sn_slots s) k = None \<longrightarrow> max (sn_slot_finalized s) (sn_slot_dropped s) < k \<longrightarrow> \<beta> k = None) \<and>
     (\<forall>k. sn_slot_finalized s < k \<longrightarrow> \<gamma> k = None)"

text \<open>What pushing to the rings leaves alone.\<close>

definition same_replay :: "(slot, replay_info) btree \<Rightarrow> (slot, replay_info) btree \<Rightarrow> bool" where
  "same_replay t t' \<longleftrightarrow> fst ` set t' = fst ` set t \<and> (bt_ok t \<longrightarrow> bt_ok t')"

lemma same_replay_refl [simp]: "same_replay t t"
  by (simp add: same_replay_def)

definition same_slots :: "('x, 'w, 'db) sender \<Rightarrow> ('x, 'w, 'db) sender \<Rightarrow> bool" where
  "same_slots s s' \<longleftrightarrow> sn_slots s' = sn_slots s \<and> sn_dedup s' = sn_dedup s \<and> sn_slot_finalized s' = sn_slot_finalized s \<and>
     sn_slot_dropped s' = sn_slot_dropped s \<and> sn_max_unfinalized_slots s' = sn_max_unfinalized_slots s \<and>
     sn_storage_max_slots s' = sn_storage_max_slots s \<and> same_replay (sn_replay s) (sn_replay s')"

lemma same_slots_refl [simp]: "same_slots s s"
  by (simp add: same_slots_def)

lemma same_slots_trans: "same_slots s s' \<Longrightarrow> same_slots s' s'' \<Longrightarrow> same_slots s s''"
  by (simp add: same_slots_def same_replay_def)

lemma push_each_invariant:
  assumes "push_each f ms s = Some s'" "I s" "\<And>m s s'. m \<in> set ms \<Longrightarrow> I s \<Longrightarrow> f m s = Some s' \<Longrightarrow> I s'"
  shows "I s'"
  using assms
proof (induction ms arbitrary: s)
  case (Cons m ms)
  from Cons.prems(1) obtain s1 where s1: "f m s = Some s1" "push_each f ms s1 = Some s'"
    by (auto simp: bind_eq_Some_conv)
  have "I s1" by (rule Cons.prems(3) [OF _ Cons.prems(2) s1(1)]) simp
  then show ?case by (rule Cons.IH [OF s1(2)]) (rule Cons.prems(3), simp_all)
qed simp

lemma ring_pushes_same:
  "push_processed sz sl h m s = Some s' \<Longrightarrow> same_slots s s'"
  "push_confirmed sz sl h m s = Some s' \<Longrightarrow> same_slots s s'"
  "push_finalized sz sl h m s = Some s' \<Longrightarrow> same_slots s s'"
  by (auto simp: push_processed_def push_confirmed_def push_finalized_def same_slots_def split: option.splits)

lemma ring_pushes_others:
  "push_processed sz sl h m s = Some s' \<Longrightarrow> sn_confirmed s' = sn_confirmed s \<and> sn_finalized s' = sn_finalized s"
  "push_confirmed sz sl h m s = Some s' \<Longrightarrow> sn_finalized s' = sn_finalized s"
  "push_finalized sz sl h m s = Some s' \<Longrightarrow> sn_confirmed s' = sn_confirmed s"
  by (auto simp: push_processed_def push_confirmed_def push_finalized_def split: option.splits)

lemma streams_processed: "push_processed sz sl h m s = Some s' \<Longrightarrow> streams \<beta> \<gamma> s \<Longrightarrow> streams \<beta> \<gamma> s'"
  using ring_pushes_same(1) [of sz sl h m s s'] ring_pushes_others(1) [of sz sl h m s s']
  by (simp add: streams_def same_slots_def)

lemma streams_confirmed:
  assumes "push_confirmed sz sl h m s = Some s'" "streams \<beta> \<gamma> s" "in_stream \<beta> sl m"
  shows "streams \<beta> \<gamma> s'"
proof -
  have "stream_banks \<beta> (sn_confirmed s')"
    using assms by (fastforce simp: push_confirmed_def stream_banks_def streams_def dest: ring_msgs_push_stored split: option.splits)
  then show ?thesis using assms(2) ring_pushes_same(2) [OF assms(1)] ring_pushes_others(2) [OF assms(1)]
    by (simp add: streams_def same_slots_def)
qed

lemma streams_finalized:
  assumes "push_finalized sz sl h m s = Some s'" "streams \<beta> \<gamma> s" "in_stream \<gamma> sl m"
  shows "streams \<beta> \<gamma> s'"
proof -
  have "stream_banks \<gamma> (sn_finalized s')"
    using assms by (fastforce simp: push_finalized_def stream_banks_def streams_def dest: ring_msgs_push_stored split: option.splits)
  then show ?thesis using assms(2) ring_pushes_same(3) [OF assms(1)] ring_pushes_others(3) [OF assms(1)]
    by (simp add: streams_def same_slots_def)
qed

lemma in_stream_slot [simp]: "in_stream \<beta> sl (RP_Slot m)"
  by (simp add: in_stream_def)

lemma stream_banks_mono:
  assumes "stream_banks \<beta> r" "\<And>k b. \<beta> k = Some b \<Longrightarrow> \<beta>' k = Some b"
  shows "stream_banks \<beta>' r"
  unfolding stream_banks_def
proof (intro allI impI ballI)
  fix ss x assume "r = Some ss" "x \<in> ring_msgs ss"
  with assms(1) have "in_stream \<beta> (fst x) (snd x)" by (auto simp: stream_banks_def)
  then have "in_stream \<beta>' (fst x) (snd x)" unfolding in_stream_def using assms(2) by blast
  then show "case x of (sl, m) \<Rightarrow> in_stream \<beta>' sl m" by (simp add: case_prod_unfold)
qed

text \<open>The state of a slot is entered: the bank of the slot can become known.\<close>

lemma streams_enter:
  assumes s: "streams \<beta> \<gamma> s" and new: "max (sn_slot_finalized s) (sn_slot_dropped s) < sl"
    and info: "info = (case bt_get (sn_slots s) sl of Some i \<Rightarrow> i | None \<Rightarrow> rslot_info_new sl h)"
    and info': "info_scoped info'" "\<And>b. rsi_confirmed_bank info = Some b \<Longrightarrow> rsi_confirmed_bank info' = Some b"
  shows "streams (\<beta>(sl := rsi_confirmed_bank info')) \<gamma> (s\<lparr>sn_slots := bt_insert sl info' (sn_slots s)\<rparr>)"
proof -
  have "\<beta> sl = rsi_confirmed_bank info"
    using s new by (auto simp: info streams_def rslot_info_new_def split: option.split)
  with info'(2) have m: "(\<beta>(sl := rsi_confirmed_bank info')) k = Some b" if "\<beta> k = Some b" for k b
    using that by (cases "k = sl") simp_all
  have "stream_banks \<beta> (sn_confirmed s)" using s by (simp add: streams_def)
  from stream_banks_mono [OF this m] have "stream_banks (\<beta>(sl := rsi_confirmed_bank info')) (sn_confirmed s)" .
  then show ?thesis using s info'(1) by (auto simp: streams_def bt_get_insert bt_ok_insert)
qed

lemma info_scoped_entry:
  assumes "streams \<beta> \<gamma> s"
  shows "info_scoped (case bt_get (sn_slots s) sl of Some i \<Rightarrow> i | None \<Rightarrow> rslot_info_new sl h)"
  using assms by (auto simp: streams_def info_scoped_def rslot_info_new_def split: option.split)


text \<open>A status is published; \<open>commitment_bank\<close> is what \<open>SlotInfo::commit\<close> returned.\<close>

lemma streams_promote_confirmed:
  assumes "promote_confirmed sz sl h bank s = Some s'" "streams \<beta> \<gamma> s" "\<beta> sl = Some bank"
  shows "streams \<beta> \<gamma> s' \<and> same_slots s s'"
proof (cases "sn_confirmed s = None \<or> bt_get (sn_slots s) sl = None")
  case False
  then obtain info where info: "bt_get (sn_slots s) sl = Some info" by blast
  with False assms(1) have p: "push_each (push_confirmed sz sl h) (get_messages_cloned bank info) s = Some s'"
    by (auto simp: promote_confirmed_def)
  have "info_scoped info" using assms(2) info by (simp add: streams_def)
  then have "in_stream \<beta> sl m" if "m \<in> set (get_messages_cloned bank info)" for m
    using messages_scoped that assms(3) by (auto simp: in_stream_def)
  then show ?thesis
    by (intro push_each_invariant [OF p, where I = "\<lambda>x. streams \<beta> \<gamma> x \<and> same_slots s x"])
      (use assms(2) in \<open>auto intro: streams_confirmed same_slots_trans ring_pushes_same\<close>)
qed (use assms in \<open>auto simp: promote_confirmed_def split: option.splits\<close>)

definition finalized_at :: "slot \<Rightarrow> ('x, 'w, 'db) sender \<Rightarrow> ('x, 'w, 'db) sender \<Rightarrow> bool" where
  "finalized_at sl s s' \<longleftrightarrow> sn_slot_finalized s' = sl \<and> sn_slot_dropped s' = sn_slot_dropped s \<and>
     (sn_slots s' = sn_slots s \<or> sn_slots s' = bt_remove sl (sn_slots s)) \<and> sn_dedup s' = sn_dedup s \<and>
     sn_max_unfinalized_slots s' = sn_max_unfinalized_slots s \<and> sn_storage_max_slots s' = sn_storage_max_slots s \<and>
     same_replay (sn_replay s) (sn_replay s')"

lemma streams_promote_finalized:
  assumes p: "promote_finalized sz sl h cb s = Some s'" and s: "streams \<beta> \<gamma> s" and new: "sn_slot_finalized s < sl"
  shows "(\<exists>\<gamma>'. streams \<beta> \<gamma>' s') \<and> finalized_at sl s s'"
proof -
  let ?s1 = "s\<lparr>sn_slot_finalized := sl, sn_global_replay := global_replay_store (sl + 1) (sn_global_replay s)\<rparr>"
  have s1: "streams \<beta> \<gamma> ?s1" using s new by (auto simp: streams_def)
  show ?thesis
  proof (cases "sn_finalized s = None \<or> cb = None \<or> bt_get (sn_slots s) sl = None")
    case True
    then have "s' = ?s1" using p by (auto simp: promote_finalized_def Let_def split: option.splits)
    then show ?thesis using s1 by (auto simp: finalized_at_def)
  next
    case False
    then obtain bank info where b: "cb = Some bank" "bt_get (sn_slots s) sl = Some info" by auto
    let ?s2 = "?s1\<lparr>sn_slots := bt_remove sl (sn_slots s)\<rparr>"
    let ?\<gamma> = "\<gamma>(sl := Some bank)"
    from False b p have q: "push_each (push_finalized sz sl h) (fst (get_messages_owned bank info)) ?s2 = Some s'"
      by (auto simp: promote_finalized_def Let_def)
    have g: "\<gamma> sl = None" "stream_banks \<gamma> (sn_finalized s)" using s new by (simp_all add: streams_def)
    have "stream_banks ?\<gamma> (sn_finalized s)" by (rule stream_banks_mono [OF g(2)]) (use g(1) in auto)
    then have s2: "streams \<beta> ?\<gamma> ?s2" using s new by (auto simp: streams_def bt_get_remove bt_ok_remove)
    have "info_scoped info" using s b(2) by (simp add: streams_def)
    then have "in_stream ?\<gamma> sl m" if "m \<in> set (fst (get_messages_owned bank info))" for m
      using messages_scoped that by (auto simp: in_stream_def)
    then have "streams \<beta> ?\<gamma> s' \<and> same_slots ?s2 s'"
      by (intro push_each_invariant [OF q, where I = "\<lambda>x. streams \<beta> ?\<gamma> x \<and> same_slots ?s2 x"])
        (use s2 in \<open>auto intro: streams_finalized same_slots_trans ring_pushes_same\<close>)
    then show ?thesis by (auto simp: finalized_at_def same_slots_def)
  qed
qed

lemma streams_publish_status:
  assumes p: "publish_status sz sl h cb m s = Some s'" and s: "streams \<beta> \<gamma> s" and new: "sn_slot_finalized s < sl"
    and cb: "ms_status m = SlotConfirmed \<Longrightarrow> cb \<noteq> None \<Longrightarrow> \<beta> sl = cb"
  shows "(\<exists>\<gamma>'. streams \<beta> \<gamma>' s') \<and> (if ms_status m = SlotFinalized then finalized_at sl s s' else same_slots s s')"
proof -
  from p obtain s1 s2 s3 where 1: "push_confirmed sz sl h (RP_Slot m) s = Some s1" and
    2: "push_finalized sz sl h (RP_Slot m) s1 = Some s2" and
    3: "(case cb of Some bank \<Rightarrow> if ms_status m = SlotConfirmed then promote_confirmed sz sl h bank s2 else Some s2
       | None \<Rightarrow> Some s2) = Some s3" and
    4: "(if ms_status m = SlotFinalized then promote_finalized sz sl h cb s3 else Some s3) = Some s'"
    by (auto simp: publish_status_def bind_eq_Some_conv)
  note st2 = streams_finalized [OF 2 streams_confirmed [OF 1 s in_stream_slot] in_stream_slot]
  have e2: "same_slots s s2" using ring_pushes_same(2) [OF 1] ring_pushes_same(3) [OF 2] by (rule same_slots_trans)
  have 3: "streams \<beta> \<gamma> s3 \<and> same_slots s2 s3"
    using 3 st2 cb by (auto dest: streams_promote_confirmed [where \<beta> = \<beta> and \<gamma> = \<gamma>] split: option.splits if_splits)
  then have e3: "same_slots s s3" using e2 by (blast intro: same_slots_trans)
  show ?thesis
  proof (cases "ms_status m = SlotFinalized")
    case True
    have "sn_slot_finalized s3 < sl" using new e3 by (simp add: same_slots_def)
    from streams_promote_finalized [OF _ conjunct1 [OF 3] this, of sz h cb s'] 4 True e3 show ?thesis
      by (auto simp: finalized_at_def same_slots_def same_replay_def)
  qed (use 3 4 e3 in auto)
qed

lemma streams_publish_other:
  assumes "publish_other sz sl h bank m s = Some s'" "streams \<beta> \<gamma> s"
    "streamable bank m \<or> (\<exists>u ts n. m = RP_EntryUpdateParent u ts n)"
  shows "streams \<beta> \<gamma> s' \<and> same_slots s s'"
proof (cases "push_confirmed sz sl h m s = Some s' \<and> streamable bank m \<and>
    (\<exists>info. bt_get (sn_slots s) sl = Some info \<and> rsi_confirmed_bank info = Some bank)")
  case True
  then have "in_stream \<beta> sl m" using assms(2) by (auto simp: in_stream_def streams_def)
  then show ?thesis using True assms(2) by (auto intro: streams_confirmed ring_pushes_same)
next
  case False
  then have "s' = s" using assms by (auto simp: publish_other_def split: if_splits option.splits)
  then show ?thesis using assms by simp
qed

lemma keys_bt_overwrite: "bt_get t k = Some i \<Longrightarrow> fst ` set (bt_insert k v t) = fst ` set t"
  by (auto simp: keys_bt_insert dest: bt_get_in_set intro: rev_image_eqI)

lemma check_replayed_same:
  assumes "check_replayed P H sl m s = Some (skip, s')"
  shows "same_slots s s'" "sn_confirmed s' = sn_confirmed s" "sn_finalized s' = sn_finalized s"
proof -
  from assms obtain info where i: "bt_get (sn_replay s) sl = Some info" by (auto simp: check_replayed_def split: option.splits)
  have "s' = s \<or> (\<exists>x. s' = s\<lparr>sn_storage := x\<rparr>) \<or> (\<exists>v. s' = s\<lparr>sn_replay := bt_insert sl v (sn_replay s)\<rparr>)"
    using assms i by (auto simp: check_replayed_def bind_eq_Some_conv split: option.splits)
  then show "same_slots s s'" "sn_confirmed s' = sn_confirmed s" "sn_finalized s' = sn_finalized s"
    by (elim disjE exE; simp add: same_slots_def same_replay_def bt_ok_insert keys_bt_overwrite [OF i])+
qed

text \<open>One message, with the block that it completes.\<close>

definition scoped_message :: "bank_id option \<Rightarrow> 'x parsed_message \<Rightarrow> bool" where
  "scoped_message bank m \<longleftrightarrow> streamable bank m \<or> (\<exists>u ts n. m = RP_EntryUpdateParent u ts n)"

lemma streams_check_replayed:
  "check_replayed P H sl m s = Some (skip, s') \<Longrightarrow> streams \<beta> \<gamma> s \<Longrightarrow> streams \<beta> \<gamma> s'"
  using check_replayed_same [of P H sl m s skip s'] by (simp add: streams_def same_slots_def)

lemma streams_publish_message:
  assumes p: "publish P H sz sl h bank cb m (c, s) = Some (c', s')" and s: "streams \<beta> \<gamma> s" and m: "scoped_message bank m"
  shows "streams \<beta> \<gamma> s' \<and> same_slots s s' \<and> c' = c"
proof -
  from p obtain skip s1 where r: "check_replayed P H sl m s = Some (skip, s1)" and
    q: "skip \<and> (c', s') = (c, s1) \<or> (\<exists>s2. publish_other sz sl h bank m s1 = Some s2 \<and> push_processed sz sl h m s2 = Some s' \<and> c' = c)"
    using m by (auto simp: publish_def bind_eq_Some_conv scoped_message_def streamable_def split: if_splits parsed_message.splits)
  note s1 = streams_check_replayed [OF r s] check_replayed_same(1) [OF r]
  from q show ?thesis
  proof (elim disjE exE conjE)
    fix s2 assume o: "publish_other sz sl h bank m s1 = Some s2" "push_processed sz sl h m s2 = Some s'" "c' = c"
    note s2 = streams_publish_other [OF o(1) s1(1) m [unfolded scoped_message_def]]
    from streams_processed [OF o(2) conjunct1 [OF s2]] ring_pushes_same(1) [OF o(2)] s2 s1(2) o(3)
    show ?thesis by (blast intro: same_slots_trans)
  qed (use s1 in auto)
qed

lemma streams_publish_slot:
  assumes p: "publish P H sz sl h bank cb (RP_Slot m) (c, s) = Some (c', s')" and s: "streams \<beta> \<gamma> s" and new: "sn_slot_finalized s < sl"
    and cb: "ms_status m = SlotConfirmed \<Longrightarrow> cb \<noteq> None \<Longrightarrow> \<beta> sl = cb"
  shows "(\<exists>\<gamma>'. streams \<beta> \<gamma>' s') \<and> (same_slots s s' \<and> c' = c \<or> finalized_at sl s s' \<and> c')"
proof -
  from p obtain skip s1 where r: "check_replayed P H sl (RP_Slot m) s = Some (skip, s1)" and
    q: "skip \<and> (c', s') = (c, s1) \<or> (\<exists>s2. publish_status sz sl h cb m s1 = Some s2 \<and>
      push_processed sz sl h (RP_Slot m) s2 = Some s' \<and> c' = (c \<or> ms_status m = SlotFinalized))"
    by (auto simp: publish_def bind_eq_Some_conv split: if_splits)
  note s1 = streams_check_replayed [OF r s] check_replayed_same(1) [OF r]
  from q show ?thesis
  proof (elim disjE exE conjE)
    fix s2 assume o: "publish_status sz sl h cb m s1 = Some s2" "push_processed sz sl h (RP_Slot m) s2 = Some s'"
      "c' = (c \<or> ms_status m = SlotFinalized)"
    have "sn_slot_finalized s1 < sl" using s1(2) new by (simp add: same_slots_def)
    from streams_publish_status [OF o(1) s1(1) this cb] obtain \<gamma>' where s2: "streams \<beta> \<gamma>' s2"
      "if ms_status m = SlotFinalized then finalized_at sl s1 s2 else same_slots s1 s2" by blast
    from streams_processed [OF o(2) s2(1)] ring_pushes_same(1) [OF o(2)] s2(2) s1(2) o(3)
    show ?thesis by (auto simp: finalized_at_def same_slots_def same_replay_def split: if_splits)
  qed (use s1 in auto)
qed


text \<open>What one iteration of the outer loop does to the slots.\<close>

definition slot_entered :: "slot \<Rightarrow> bool \<times> ('x, 'w, 'db) sender \<Rightarrow> bool \<times> ('x, 'w, 'db) sender \<Rightarrow> bool" where
  "slot_entered sl x y \<longleftrightarrow> (\<exists>info s1. s1 = (snd x)\<lparr>sn_slots := bt_insert sl info (sn_slots (snd x))\<rparr> \<and>
     (same_slots s1 (snd y) \<and> fst y = fst x \<or> finalized_at sl s1 (snd y) \<and> fst y))"

lemma streams_sender_other:
  assumes p: "sender_message P H sz sl m (c, s) = Some (c', s')" and s: "streams \<beta> \<gamma> s"
    and new: "max (sn_slot_finalized s) (sn_slot_dropped s) < sl" and m: "\<forall>x. m \<noteq> RP_Slot x"
  shows "\<exists>\<beta>' info. streams \<beta>' \<gamma> s' \<and> c' = c \<and> same_slots (s\<lparr>sn_slots := bt_insert sl info (sn_slots s)\<rparr>) s'"
proof -
  from p obtain replay where r: "bt_get (sn_replay s) sl = Some replay" by (auto simp: sender_message_def bind_eq_Some_conv)
  define info where "info = (case bt_get (sn_slots s) sl of Some i \<Rightarrow> i | None \<Rightarrow> rslot_info_new sl (rp_head replay))"
  from p m r obtain block rep info' where g: "slot_get_block_message P m info = Some (block, rep, info')" and
    q: "push_each (publish P H sz sl (rsi_index info) (parsed_bank_id m) None) (m # (case block of Some b \<Rightarrow> [b] | None \<Rightarrow> []))
      (c, s\<lparr>sn_slots := bt_insert sl info' (sn_slots s)\<rparr>) = Some (c', s')"
    by (cases m) (auto simp: sender_message_def bind_eq_Some_conv Let_def info_def)
  have i: "info_scoped info" unfolding info_def by (rule info_scoped_entry [OF s])
  note sc = slot_message_scoped [OF g i m]
  let ?s1 = "s\<lparr>sn_slots := bt_insert sl info' (sn_slots s)\<rparr>" and ?\<beta> = "\<beta>(sl := rsi_confirmed_bank info')"
  have s1: "streams ?\<beta> \<gamma> ?s1" by (rule streams_enter [OF s new info_def sc(1)]) (simp add: sc(3))
  have sm: "scoped_message (parsed_bank_id m) x" if "x \<in> set (m # (case block of Some b \<Rightarrow> [b] | None \<Rightarrow> []))" for x
    using that sc(2) m by (cases m) (auto simp: scoped_message_def streamable_def split: option.splits)
  have "streams ?\<beta> \<gamma> (snd (c', s')) \<and> same_slots ?s1 (snd (c', s')) \<and> fst (c', s') = c"
  proof (rule push_each_invariant [OF q, where I = "\<lambda>x. streams ?\<beta> \<gamma> (snd x) \<and> same_slots ?s1 (snd x) \<and> fst x = c"])
    fix x y z assume a: "x \<in> set (m # (case block of Some b \<Rightarrow> [b] | None \<Rightarrow> []))"
      "streams ?\<beta> \<gamma> (snd y) \<and> same_slots ?s1 (snd y) \<and> fst y = c"
      "publish P H sz sl (rsi_index info) (parsed_bank_id m) None x y = Some z"
    have "publish P H sz sl (rsi_index info) (parsed_bank_id m) None x (fst y, snd y) = Some (fst z, snd z)" using a(3) by simp
    from streams_publish_message [OF this conjunct1 [OF a(2)] sm [OF a(1)]] a(2)
    show "streams ?\<beta> \<gamma> (snd z) \<and> same_slots ?s1 (snd z) \<and> fst z = c" by (metis same_slots_trans)
  qed (use s1 in simp)
  then show ?thesis by auto
qed

lemma streams_sender_slot:
  assumes p: "sender_message P H sz sl (RP_Slot m) (c, s) = Some (c', s')" and s: "streams \<beta> \<gamma> s"
    and new: "max (sn_slot_finalized s) (sn_slot_dropped s) < sl"
  shows "(\<exists>\<beta>' \<gamma>'. streams \<beta>' \<gamma>' s') \<and> slot_entered sl (c, s) (c', s')"
proof -
  from p obtain replay where r: "bt_get (sn_replay s) sl = Some replay" by (auto simp: sender_message_def bind_eq_Some_conv)
  define info where "info = (case bt_get (sn_slots s) sl of Some i \<Rightarrow> i | None \<Rightarrow> rslot_info_new sl (rp_head replay))"
  obtain cb info' where g: "slot_commit (ms_status m) (parsed_bank_id (RP_Slot m :: 'a parsed_message)) info = (cb, info')" by (metis surj_pair)
  let ?s1 = "s\<lparr>sn_slots := bt_insert sl info' (sn_slots s)\<rparr>" and ?\<beta> = "\<beta>(sl := rsi_confirmed_bank info')"
  from p r g have q: "publish P H sz sl (rsi_index info) (parsed_bank_id (RP_Slot m :: 'a parsed_message)) cb (RP_Slot m) (c, ?s1) = Some (c', s')"
    by (auto simp: sender_message_def bind_eq_Some_conv Let_def info_def)
  have i: "info_scoped info" unfolding info_def by (rule info_scoped_entry [OF s])
  note sc = slot_commit_scoped [OF g i]
  have s1: "streams ?\<beta> \<gamma> ?s1" by (rule streams_enter [OF s new info_def sc(1)]) (simp add: sc(2))
  have "(\<exists>\<gamma>'. streams ?\<beta> \<gamma>' s') \<and> (same_slots ?s1 s' \<and> c' = c \<or> finalized_at sl ?s1 s' \<and> c')"
    by (rule streams_publish_slot [OF q s1]) (use new sc(2,3) in auto)
  then show ?thesis unfolding slot_entered_def by auto
qed


subsection \<open>A push\<close>

definition loop_result :: "slot \<Rightarrow> ('x, 'w, 'db) sender \<Rightarrow> bool \<times> ('x, 'w, 'db) sender \<Rightarrow> bool" where
  "loop_result sl s y \<longleftrightarrow> (\<exists>\<beta> \<gamma>. streams \<beta> \<gamma> (snd y)) \<and> sn_slot_dropped (snd y) = sn_slot_dropped s \<and>
     sn_max_unfinalized_slots (snd y) = sn_max_unfinalized_slots s \<and> sn_storage_max_slots (snd y) = sn_storage_max_slots s \<and>
     fst ` set (sn_slots (snd y)) \<subseteq> insert sl (fst ` set (sn_slots s)) \<and> same_replay (sn_replay s) (sn_replay (snd y)) \<and>
     (sn_slot_finalized (snd y) = sn_slot_finalized s \<or> sn_slot_finalized (snd y) = sl \<and> fst y)"

lemma keys_bt_remove: "fst ` set (bt_remove k t) \<subseteq> fst ` set t"
  by (auto simp: bt_remove_def)

lemma loop_others:
  assumes "push_each (sender_message P H sz sl) ms (False, s) = Some y" "streams \<beta> \<gamma> s"
    "max (sn_slot_finalized s) (sn_slot_dropped s) < sl" "\<forall>m \<in> set ms. \<forall>x. m \<noteq> RP_Slot x"
  shows "loop_result sl s y"
proof -
  let ?I = "\<lambda>y. loop_result sl s y \<and> sn_slot_finalized (snd y) = sn_slot_finalized s \<and> \<not> fst y"
  have "?I y"
  proof (rule push_each_invariant [OF assms(1), where I = ?I])
    show "?I (False, s)" using assms(2) by (auto simp: loop_result_def)
    fix m y z assume a: "m \<in> set ms" "?I y" "sender_message P H sz sl m y = Some z"
    from a(2) obtain \<beta> \<gamma> where st: "streams \<beta> \<gamma> (snd y)" by (auto simp: loop_result_def)
    have p: "sender_message P H sz sl m (fst y, snd y) = Some (fst z, snd z)" using a(3) by simp
    have n: "max (sn_slot_finalized (snd y)) (sn_slot_dropped (snd y)) < sl" using a(2) assms(3) by (simp add: loop_result_def)
    from streams_sender_other [OF p st n] a(1) assms(4) obtain \<beta>' info where
      "streams \<beta>' \<gamma> (snd z)" "fst z = fst y" "same_slots ((snd y)\<lparr>sn_slots := bt_insert sl info (sn_slots (snd y))\<rparr>) (snd z)" by blast
    with a(2) show "?I z" by (auto simp: loop_result_def same_slots_def same_replay_def keys_bt_insert)
  qed
  then show ?thesis by blast
qed

lemma loop_slot:
  assumes "push_each (sender_message P H sz sl) [RP_Slot m] (False, s) = Some y" "streams \<beta> \<gamma> s"
    "max (sn_slot_finalized s) (sn_slot_dropped s) < sl"
  shows "loop_result sl s y"
proof -
  have "sender_message P H sz sl (RP_Slot m) (False, s) = Some (fst y, snd y)" using assms(1) by (auto simp: bind_eq_Some_conv)
  from streams_sender_slot [OF this assms(2,3)] obtain info where st: "\<exists>\<beta> \<gamma>. streams \<beta> \<gamma> (snd y)" and
    e: "same_slots (s\<lparr>sn_slots := bt_insert sl info (sn_slots s)\<rparr>) (snd y) \<and> \<not> fst y \<or>
      finalized_at sl (s\<lparr>sn_slots := bt_insert sl info (sn_slots s)\<rparr>) (snd y) \<and> fst y"
    by (auto simp: slot_entered_def)
  have keys: "fst ` set (sn_slots (snd y)) \<subseteq> insert sl (fst ` set (sn_slots s))"
  proof -
    have "sn_slots (snd y) = bt_insert sl info (sn_slots s) \<or> sn_slots (snd y) = bt_remove sl (bt_insert sl info (sn_slots s))"
      using e by (auto simp: same_slots_def finalized_at_def)
    then show ?thesis using keys_bt_remove [of sl "bt_insert sl info (sn_slots s)"] by (elim disjE) (simp_all only: keys_bt_insert subset_refl)
  qed
  have "sn_slot_dropped (snd y) = sn_slot_dropped s \<and> sn_max_unfinalized_slots (snd y) = sn_max_unfinalized_slots s \<and>
     sn_storage_max_slots (snd y) = sn_storage_max_slots s \<and> same_replay (sn_replay s) (sn_replay (snd y)) \<and>
     (sn_slot_finalized (snd y) = sn_slot_finalized s \<or> sn_slot_finalized (snd y) = sl \<and> fst y)"
    using e by (elim disjE conjE) (simp_all add: same_slots_def finalized_at_def)
  with st keys show ?thesis unfolding loop_result_def by blast
qed

lemma streams_fewer:
  assumes "streams \<beta> \<gamma> s" "bt_ok t"
    "\<And>k. bt_get t k = bt_get (sn_slots s) k \<or> bt_get t k = None \<and> k \<le> max (sn_slot_finalized s) d"
    "sn_slot_dropped s \<le> d"
  shows "streams \<beta> \<gamma> (s\<lparr>sn_slots := t, sn_slot_dropped := d, sn_slots_dropped := n\<rparr>)"
proof -
  have 1: "info_scoped info \<and> \<beta> k = rsi_confirmed_bank info" if "bt_get t k = Some info" for k info
    using assms(1) assms(3) [of k] that by (auto simp: streams_def)
  have 2: "\<beta> k = None" if "bt_get t k = None" "max (sn_slot_finalized s) d < k" for k
  proof -
    have "\<not> k \<le> max (sn_slot_finalized s) d" unfolding not_le by (rule that(2))
    then have "bt_get (sn_slots s) k = None" using assms(3) [of k] that(1) by auto
    moreover have "max (sn_slot_finalized s) (sn_slot_dropped s) < k" using that(2) assms(4) by auto
    ultimately show ?thesis using assms(1) by (simp add: streams_def)
  qed
  show ?thesis using assms(1,2) 1 2 by (simp add: streams_def)
qed

definition slots_above :: "('x, 'w, 'db) sender \<Rightarrow> bool" where
  "slots_above s \<longleftrightarrow> (\<forall>k \<in> fst ` set (sn_slots s). max (sn_slot_finalized s) (sn_slot_dropped s) < k)"

lemma clean_finalized_ok:
  assumes "loop_result sl s0 (c, s)" "slots_above s0" "max (sn_slot_finalized s0) (sn_slot_dropped s0) < sl"
  shows "\<exists>\<beta> \<gamma>. streams \<beta> \<gamma> (if c then clean_finalized s else s)" "slots_above (if c then clean_finalized s else s)"
proof -
  from assms(1) obtain \<beta> \<gamma> where st: "streams \<beta> \<gamma> s" by (auto simp: loop_result_def)
  then have ok: "bt_ok (sn_slots s)" by (simp add: streams_def)
  let ?t = "bt_pop_while (\<lambda>k. k \<le> sn_slot_finalized s) (sn_slots s)"
  have "streams \<beta> \<gamma> (s\<lparr>sn_slots := ?t, sn_slot_dropped := sn_slot_dropped s, sn_slots_dropped := 0\<rparr>)"
    by (rule streams_fewer [OF st bt_ok_pop_while [OF ok]]) (auto simp: bt_get_pop_upto [OF ok] max_def)
  then have "streams \<beta> \<gamma> (clean_finalized s)" by (simp add: clean_finalized_def streams_def)
  with st show "\<exists>\<beta> \<gamma>. streams \<beta> \<gamma> (if c then clean_finalized s else s)" by auto
  have k0: "max (sn_slot_finalized s0) (sn_slot_dropped s0) < k" if "k \<in> fst ` set (sn_slots s)" for k
  proof -
    have "k = sl \<or> k \<in> fst ` set (sn_slots s0)" using assms(1) that unfolding loop_result_def snd_conv by blast
    then show ?thesis using assms(2,3) unfolding slots_above_def by blast
  qed
  then have "sn_slot_dropped s < k" if "k \<in> fst ` set (sn_slots s)" for k
    using assms(1) that by (simp add: loop_result_def)
  moreover have "sn_slot_finalized s < k" if "k \<in> fst ` set (sn_slots s)" "\<not> c" for k
    using assms(1) k0 [OF that(1)] that(2) by (simp add: loop_result_def)
  moreover have "?t = filter (\<lambda>kv. sn_slot_finalized s < fst kv) (sn_slots s)" by (rule bt_pop_upto_eq_filter [OF ok])
  ultimately show "slots_above (if c then clean_finalized s else s)" by (auto simp: slots_above_def clean_finalized_def)
qed

lemma drop_unfinalized_ok:
  assumes "streams \<beta> \<gamma> s" "slots_above s"
  shows "streams \<beta> \<gamma> (drop_unfinalized s)" "slots_above (drop_unfinalized s)"
    "length (sn_slots (drop_unfinalized s)) \<le> sn_max_unfinalized_slots s"
proof -
  have "streams \<beta> \<gamma> (drop_unfinalized s) \<and> slots_above (drop_unfinalized s) \<and>
    length (sn_slots (drop_unfinalized s)) \<le> sn_max_unfinalized_slots s"
    using assms
  proof (induction s rule: drop_unfinalized.induct)
    case (1 s)
    show ?case
    proof (cases "sn_max_unfinalized_slots s < length (sn_slots s)")
      case True
      then obtain k i t where t: "sn_slots s = (k, i) # t" by (metis length_0_conv list.exhaust not_less_zero surj_pair)
      let ?s = "s\<lparr>sn_slots := tl (sn_slots s), sn_slot_dropped := max (sn_slot_dropped s) (fst (hd (sn_slots s))),
        sn_slots_dropped := sn_slots_dropped s + 1\<rparr>"
      have ok: "bt_ok t" "\<forall>k' \<in> fst ` set t. k < k'" using 1(2) t by (auto simp: streams_def bt_ok_Cons)
      have "streams \<beta> \<gamma> ?s"
        unfolding t list.sel fst_conv
      proof (rule streams_fewer [OF 1(2) ok(1)])
        fix k'
        show "bt_get t k' = bt_get (sn_slots s) k' \<or> bt_get t k' = None \<and> k' \<le> max (sn_slot_finalized s) (max (sn_slot_dropped s) k)"
          using ok(2) by (auto simp: t bt_get_Cons bt_get_None_iff le_max_iff_disj)
      qed auto
      moreover have "slots_above ?s" using 1(3) ok(2) by (auto simp: slots_above_def t)
      ultimately show ?thesis using 1(1) [OF True] True by (subst (1 2 3) drop_unfinalized.simps) simp
    qed (use 1 in \<open>auto simp: drop_unfinalized.simps\<close>)
  qed
  then show "streams \<beta> \<gamma> (drop_unfinalized s)" "slots_above (drop_unfinalized s)"
    "length (sn_slots (drop_unfinalized s)) \<le> sn_max_unfinalized_slots s" by blast+
qed


lemma drop_unfinalized_same:
  "sn_max_unfinalized_slots (drop_unfinalized s) = sn_max_unfinalized_slots s \<and> sn_replay (drop_unfinalized s) = sn_replay s \<and>
   sn_storage (drop_unfinalized s) = sn_storage s \<and> sn_storage_max_slots (drop_unfinalized s) = sn_storage_max_slots s \<and>
   sn_dedup (drop_unfinalized s) = sn_dedup s"
  by (induction s rule: drop_unfinalized.induct) (subst (1 2 3 4 5) drop_unfinalized.simps, auto)

subsection \<open>Retention of the journal\<close>

text \<open>The slots of the journal are within the configured number of slots of the newest one.\<close>

definition replay_within :: "nat \<Rightarrow> (slot, replay_info) btree \<Rightarrow> bool" where
  "replay_within n t \<longleftrightarrow> bt_ok t \<and> (\<forall>k \<in> fst ` set t. \<forall>k' \<in> fst ` set t. unat k' - (n - 1) \<le> unat k)"

lemma trim_replay_result:
  "fst (trim_replay first t st) = bt_pop_while (\<lambda>k. k < first) t"
  by (induction first t st rule: trim_replay.induct) auto

lemma bt_pop_below: "bt_ok t \<Longrightarrow> k \<in> fst ` set (bt_pop_while (\<lambda>k. k < b) t) \<Longrightarrow> b \<le> k"
proof (induction t)
  case (Cons kv t)
  then show ?case by (cases "fst kv < b") (auto simp: bt_ok_Cons not_less dest: order_trans less_imp_le)
qed simp

lemma bt_pop_subset: "set (bt_pop_while P t) \<subseteq> set t"
  by (induction t) auto

lemma retain_storage_within:
  assumes "bt_ok (sn_replay s)"
  shows "replay_within (sn_storage_max_slots s) (sn_replay (retain_storage s))"
proof (cases "sn_storage s")
  case (Some st)
  show ?thesis
  proof (cases "sn_replay s = []")
    case True
    then show ?thesis using Some by (simp add: retain_storage_def bt_last_key_def replay_within_def)
  next
    case False
    define lst where "lst = fst (last (sn_replay s))"
    define first :: slot where "first = of_nat (unat lst - (sn_storage_max_slots s - 1))"
    have r: "sn_replay (retain_storage s) = bt_pop_while (\<lambda>k. k < first) (sn_replay s)"
      using Some False trim_replay_result [of first "sn_replay s" st]
      by (simp add: retain_storage_def bt_last_key_def Let_def saturating_sub_def first_def lst_def case_prod_unfold)
    have "unat lst - (sn_storage_max_slots s - 1) < 2 ^ LENGTH(64)"
      by (rule le_less_trans [OF diff_le_self unsigned_less])
    then have f: "unat first = unat lst - (sn_storage_max_slots s - 1)" unfolding first_def by (simp add: unat_of_nat_u64)
    have last: "k \<le> lst" if "k \<in> fst ` set (sn_replay s)" for k
      using bt_last_props(2) [OF assms, of lst k] that False bt_get_None_iff [of "sn_replay s" k]
      by (simp add: bt_last_key_def lst_def)
    show ?thesis unfolding replay_within_def r
    proof (intro conjI ballI bt_ok_pop_while assms)
      fix k k' assume k: "k \<in> fst ` set (bt_pop_while (\<lambda>k. k < first) (sn_replay s))"
        "k' \<in> fst ` set (bt_pop_while (\<lambda>k. k < first) (sn_replay s))"
      have "first \<le> k" by (rule bt_pop_below [OF assms k(1)])
      moreover have "k' \<le> lst" using last k(2) bt_pop_subset [of "\<lambda>k. k < first" "sn_replay s"] by blast
      ultimately show "unat k' - (sn_storage_max_slots s - 1) \<le> unat k" using f by (simp add: word_le_nat_alt)
    qed
  qed
qed (simp add: retain_storage_def replay_within_def)

lemma replay_within_length:
  assumes "replay_within n t" "0 < n"
  shows "length t \<le> n"
proof (cases "t = []")
  case False
  define ks where "ks = unat ` fst ` set t"
  have "distinct (map fst t)" using assms(1) by (auto simp: replay_within_def intro: bt_ok_distinct)
  then have "length t = card (fst ` set t)" by (metis distinct_card length_map set_map)
  also have "\<dots> = card ks" unfolding ks_def by (rule card_image [symmetric], rule inj_onI) (simp add: word_unat_eq_iff)
  finally have c: "length t = card ks" .
  have ne: "finite ks" "ks \<noteq> {}" using False by (auto simp: ks_def)
  have "ks \<subseteq> {Max ks - (n - 1)..Max ks}"
  proof
    fix x assume x: "x \<in> ks"
    have "Max ks \<in> ks" using ne by (rule Max_in)
    with x obtain a c where ac: "a \<in> fst ` set t" "x = unat a" "c \<in> fst ` set t" "Max ks = unat c" unfolding ks_def by blast
    then have "unat c - (n - 1) \<le> unat a" using assms(1) unfolding replay_within_def by blast
    then have "Max ks - (n - 1) \<le> x" by (simp only: ac(2,4))
    then show "x \<in> {Max ks - (n - 1)..Max ks}" using x ne(1) by simp
  qed
  then have "card ks \<le> card {Max ks - (n - 1)..Max ks}" by (rule card_mono [rotated]) simp
  then show ?thesis using c assms(2) by simp
qed simp


subsection \<open>Runs\<close>

definition sender_ok :: "('x, 'w, 'db) sender \<Rightarrow> bool" where
  "sender_ok s \<longleftrightarrow> (\<exists>\<beta> \<gamma>. streams \<beta> \<gamma> s) \<and> slots_above s \<and> length (sn_slots s) \<le> sn_max_unfinalized_slots s \<and>
     replay_within (sn_storage_max_slots s) (sn_replay s)"

lemma dedup_account_outputs:
  assumes "dedup_account P a d = Some (ms, d')"
  shows "set ms \<subseteq> range RP_Account"
proof -
  from assms obtain key where k: "account_transaction_key a = Some key" by (auto simp: dedup_account_def bind_eq_Some_conv)
  show ?thesis
  proof (cases "fst key")
    case None
    with assms k show ?thesis by (auto simp: dedup_account_def Let_def split: if_splits)
  next
    case (Some sig)
    show ?thesis
    proof (cases "db_transactions d sig")
      case None
      with assms k Some show ?thesis by (auto simp: dedup_account_def Let_def split: if_splits)
    next
      case e: (Some e)
      with assms k Some show ?thesis by (cases e) (auto simp: dedup_account_def Let_def split: if_splits)
    qed
  qed
qed

lemma dedup_transaction_outputs:
  assumes "dedup_transaction P t d = Some (ms, d')"
  shows "set ms \<subseteq> range RP_Account \<union> range RP_Transaction"
proof -
  from assms obtain sig where k: "message_transaction_signature t = Some sig" by (auto simp: dedup_transaction_def bind_eq_Some_conv Let_def)
  show ?thesis
  proof (cases "db_transactions d sig")
    case None
    with assms k show ?thesis by (auto simp: dedup_transaction_def Let_def)
  next
    case e: (Some e)
    with assms k show ?thesis by (cases e) (auto simp: dedup_transaction_def Let_def)
  qed
qed

lemma dedup_bank_no_slot:
  assumes "dedup_bank_push P m d = Some (ms, d')"
  shows "\<forall>y \<in> set ms. \<forall>x. y \<noteq> RP_Slot x"
  using assms dedup_account_outputs [of P _ d ms d'] dedup_transaction_outputs [of P _ d ms d']
  by (cases m) (auto simp: dedup_entry_def Let_def split: if_splits)

lemma dedup_message_other:
  "\<forall>x. m \<noteq> M_Slot x \<Longrightarrow> dedup_message P bank m di = map_option (\<lambda>(ms, d). (ms, di\<lparr>di_banks := (di_banks di)(bank \<mapsto> d)\<rparr>))
     (dedup_bank_push P m (case di_banks di bank of Some d \<Rightarrow> d | None \<Rightarrow> dedup_bank_default))"
  by (cases m) (simp_all del: dedup_bank_push.simps)

lemma dedup_outputs:
  assumes "dedup_push P source bank m di = Some (ms, di')"
  shows "ms = [] \<or> (\<exists>x. ms = [RP_Slot x]) \<or> (\<forall>y \<in> set ms. \<forall>x. y \<noteq> RP_Slot x)"
proof (cases "\<exists>x. m = M_Slot x")
  case True
  then show ?thesis using assms by (auto simp: dedup_push_def Let_def split: option.splits if_splits)
next
  case False
  with assms have "ms = [] \<or> (\<exists>d d'. dedup_bank_push P m d = Some (ms, d'))"
    by (auto simp: dedup_push_def dedup_message_other simp del: dedup_message.simps dedup_bank_push.simps split: option.splits)
  then show ?thesis using dedup_bank_no_slot by blast
qed

lemma sender_dedup_result:
  assumes "sender_dedup P dr source m s = Some (ms, s1)"
  shows "(\<exists>d. s1 = s\<lparr>sn_dedup := d\<rparr>) \<and> (ms = [] \<or> (\<exists>x. ms = [RP_Slot x]) \<or> (\<forall>y \<in> set ms. \<forall>x. y \<noteq> RP_Slot x))"
proof (cases dr)
  case True
  with assms show ?thesis
    by (auto simp: sender_dedup_def Let_def dest: dedup_outputs split: option.splits)
next
  case False
  with assms have "ms = [parsed_from m]" "s1 = s" by (simp_all add: sender_dedup_def)
  then show ?thesis by (cases m) (auto intro: exI [of _ "sn_dedup s"])
qed

lemma streams_kept:
  "streams \<beta> \<gamma> (retain_storage s) = streams \<beta> \<gamma> s" "slots_above (retain_storage s) = slots_above s"
  "sn_slots (retain_storage s) = sn_slots s" "sn_dedup (retain_storage s) = sn_dedup s"
  "sn_max_unfinalized_slots (retain_storage s) = sn_max_unfinalized_slots s"
  "sn_storage_max_slots (retain_storage s) = sn_storage_max_slots s"
  "streams \<beta> \<gamma> (drop_dedup s) = streams \<beta> \<gamma> s" "slots_above (drop_dedup s) = slots_above s"
  "sn_slots (drop_dedup s) = sn_slots s" "sn_max_unfinalized_slots (drop_dedup s) = sn_max_unfinalized_slots s"
  "sn_storage_max_slots (drop_dedup s) = sn_storage_max_slots s" "sn_replay (drop_dedup s) = sn_replay s"
  by (simp_all add: retain_storage_def drop_dedup_def streams_def slots_above_def Let_def split: option.split prod.split)

lemma drop_dedup_length: "length (sn_dedup (drop_dedup s)) \<le> sn_max_unfinalized_slots s"
  by (simp add: drop_dedup_def)

lemma sender_publish_ok:
  assumes p: "sender_publish P H sz sl ms s = Some s'" and ok: "sender_ok s"
    and new: "max (sn_slot_finalized s) (sn_slot_dropped s) < sl"
    and ms: "(\<exists>x. ms = [RP_Slot x]) \<or> (\<forall>y \<in> set ms. \<forall>x. y \<noteq> RP_Slot x)"
  shows "sender_ok s' \<and> length (sn_dedup s') \<le> sn_max_unfinalized_slots s' \<and>
    sn_max_unfinalized_slots s' = sn_max_unfinalized_slots s \<and> sn_storage_max_slots s' = sn_storage_max_slots s"
proof -
  let ?s0 = "s\<lparr>sn_replay := bt_or_insert sl (replay_info_new (sn_index s)) (sn_replay s)\<rparr>"
  from ok obtain \<beta> \<gamma> where st: "streams \<beta> \<gamma> ?s0" and ab: "slots_above ?s0" by (auto simp: sender_ok_def streams_def slots_above_def)
  have rok: "bt_ok (sn_replay ?s0)" using ok by (simp add: sender_ok_def replay_within_def bt_oks)
  from p obtain c s2 where l: "push_each (sender_message P H sz sl) ms (False, ?s0) = Some (c, s2)" and
    s': "s' = retain_storage (drop_dedup (drop_unfinalized (if c then clean_finalized s2 else s2)))"
    by (auto simp: sender_publish_def)
  have n0: "max (sn_slot_finalized ?s0) (sn_slot_dropped ?s0) < sl" using new by simp
  have lr: "loop_result sl ?s0 (c, s2)"
    using ms
  proof (elim disjE exE)
    fix x assume "ms = [RP_Slot x]"
    with l show ?thesis by (intro loop_slot [OF _ st n0]) simp
  next
    assume "\<forall>y \<in> set ms. \<forall>x. y \<noteq> RP_Slot x"
    then show ?thesis by (rule loop_others [OF l st n0])
  qed
  let ?s3 = "if c then clean_finalized s2 else s2"
  from clean_finalized_ok [OF lr ab n0] obtain \<beta>' \<gamma>' where st3: "streams \<beta>' \<gamma>' ?s3" and ab3: "slots_above ?s3" by blast
  note d = drop_unfinalized_ok [OF st3 ab3]
  have e3: "sn_max_unfinalized_slots ?s3 = sn_max_unfinalized_slots s" "sn_storage_max_slots ?s3 = sn_storage_max_slots s"
    "same_replay (sn_replay ?s0) (sn_replay ?s3)"
    using lr by (simp_all add: loop_result_def clean_finalized_def)
  have "bt_ok (sn_replay (drop_dedup (drop_unfinalized ?s3)))"
    using e3(3) rok by (simp only: streams_kept drop_unfinalized_same same_replay_def simp_thms)
  note w = retain_storage_within [OF this]
  let ?s4 = "drop_unfinalized ?s3"
  have "streams \<beta>' \<gamma>' s'" using d(1) by (simp add: s' streams_kept)
  moreover have "slots_above s'" using d(2) by (simp add: s' streams_kept)
  moreover have "sn_max_unfinalized_slots s' = sn_max_unfinalized_slots s" "sn_storage_max_slots s' = sn_storage_max_slots s"
    using e3(1,2) by (simp_all only: s' streams_kept drop_unfinalized_same)
  moreover have "length (sn_slots s') \<le> sn_max_unfinalized_slots s" using d(3) e3(1) by (simp only: s' streams_kept)
  moreover have "replay_within (sn_storage_max_slots s) (sn_replay s')"
    using w e3(2) by (simp only: s' streams_kept drop_unfinalized_same)
  moreover have "length (sn_dedup s') \<le> sn_max_unfinalized_slots s"
    using drop_dedup_length [of ?s4] e3(1) by (simp only: s' streams_kept drop_unfinalized_same)
  ultimately show ?thesis unfolding sender_ok_def by (simp only:) blast
qed


fun sender_run :: "prost \<Rightarrow> (hash_write list \<Rightarrow> u64) \<Rightarrow> ('x parsed_message \<Rightarrow> nat) \<Rightarrow> (bool \<times> string \<times> 'x message) list \<Rightarrow>
    ('x, 'w, 'db) sender \<Rightarrow> ('x, 'w, 'db) sender option" where
  "sender_run P H sz [] s = Some s"
| "sender_run P H sz ((dedup, source, m) # ms) s =
     Option.bind (sender_push P H sz dedup source m s) (\<lambda>(ws, s'). sender_run P H sz ms s')"

lemma sender_wake_ok: "sender_ok (snd (sender_wake s)) = sender_ok s"
  by (simp add: sender_wake_def sender_ok_def streams_def slots_above_def split: option.split)

lemma sender_wake_same:
  "sn_max_unfinalized_slots (snd (sender_wake s)) = sn_max_unfinalized_slots s"
  "sn_storage_max_slots (snd (sender_wake s)) = sn_storage_max_slots s"
  by (simp_all add: sender_wake_def split: option.split)

lemma sender_push_ok:
  assumes "sender_push P H sz dr source m s = Some (ws, s')" "sender_ok s"
  shows "sender_ok s' \<and> sn_max_unfinalized_slots s' = sn_max_unfinalized_slots s \<and> sn_storage_max_slots s' = sn_storage_max_slots s"
proof (cases "message_slot_of m \<le> max (sn_slot_finalized s) (sn_slot_dropped s) \<or> bank_cleared (filter_bank (message_bank_id m)) m s")
  case True
  then have "s' = s" using assms(1) unfolding sender_push_def by (auto split: if_splits)
  then show ?thesis using assms(2) by simp
next
  case False
  then have new: "max (sn_slot_finalized s) (sn_slot_dropped s) < message_slot_of m" by (simp only: not_le de_Morgan_disj)
  from False assms(1) obtain x where x: "sender_dedup P dr source m s = Some x" "(case x of (ms, s1) \<Rightarrow>
      if ms = [] then Some ([], s1) else map_option sender_wake (sender_publish P H sz (message_slot_of m) ms s1)) = Some (ws, s')"
    by (simp only: sender_push_def de_Morgan_disj simp_thms if_False bind_eq_Some_conv) blast
  then obtain ms s1 where d: "sender_dedup P dr source m s = Some (ms, s1)" and
    r: "(if ms = [] then Some ([], s1) else map_option sender_wake (sender_publish P H sz (message_slot_of m) ms s1)) = Some (ws, s')"
    by (cases x) simp
  from sender_dedup_result [OF d] obtain dd where s1: "s1 = s\<lparr>sn_dedup := dd\<rparr>" and
    ms: "ms = [] \<or> (\<exists>x. ms = [RP_Slot x]) \<or> (\<forall>y \<in> set ms. \<forall>x. y \<noteq> RP_Slot x)" by blast
  have ok1: "sender_ok s1" using assms(2) by (simp add: s1 sender_ok_def streams_def slots_above_def)
  show ?thesis
  proof (cases "ms = []")
    case True
    then show ?thesis using r ok1 s1 by auto
  next
    case False
    with r obtain s2 where p: "sender_publish P H sz (message_slot_of m) ms s1 = Some s2" and s': "s' = snd (sender_wake s2)"
      by (auto simp: prod_eq_iff)
    have "max (sn_slot_finalized s1) (sn_slot_dropped s1) < message_slot_of m" using new by (simp add: s1)
    from sender_publish_ok [OF p ok1 this] ms False show ?thesis
      by (simp add: s' sender_wake_ok sender_wake_same s1)
  qed
qed

lemma sender_run_ok:
  "sender_run P H sz xs s = Some s' \<Longrightarrow> sender_ok s \<Longrightarrow> sender_ok s' \<and>
    sn_max_unfinalized_slots s' = sn_max_unfinalized_slots s \<and> sn_storage_max_slots s' = sn_storage_max_slots s"
proof (induction xs arbitrary: s)
  case (Cons x xs)
  obtain dr source m where x: "x = (dr, source, m)" by (metis prod_cases3)
  from Cons.prems(1) x obtain ws s1 where p: "sender_push P H sz dr source m s = Some (ws, s1)" and
    r: "sender_run P H sz xs s1 = Some s'" by (auto simp: bind_eq_Some_conv)
  from sender_push_ok [OF p Cons.prems(2)] Cons.IH [OF r] show ?case by simp
qed simp

text \<open>The sender that \<open>to_sender\<close> builds when there is nothing on disk.\<close>

definition rsender_new :: "nat \<Rightarrow> usize \<Rightarrow> bool \<Rightarrow> bool \<Rightarrow> ('x, 'db) rstorage option \<Rightarrow> nat \<Rightarrow> nat \<Rightarrow> nat \<Rightarrow> ('x, 'w, 'db) sender" where
  "rsender_new max_messages max_bytes richat others storage storage_max_slots max_unfinalized sources_total =
     (let sh = shared_channel_new max_messages richat;
          opt = (\<lambda>c. if others then Some (sender_shared_new sh max_messages max_bytes c) else None) in
      \<lparr>sn_slots = [], sn_dedup = [], sn_processed = sender_shared_new sh max_messages max_bytes Processed,
       sn_confirmed = opt Confirmed, sn_finalized = opt Finalized, sn_slot_finalized = 0,
       sn_global_replay = global_replay_new None sources_total, sn_storage = storage,
       sn_storage_max_slots = storage_max_slots, sn_max_unfinalized_slots = max_unfinalized, sn_slot_dropped = 0,
       sn_slots_dropped = 0, sn_index = 0, sn_replay = []\<rparr>)"

lemma ring_msgs_new: "ring_msgs (sender_shared_new (shared_channel_new n b) n mb c) = {}"
  by (auto simp: ring_msgs_def sender_shared_new_def shared_channel_new_def)

lemma rsender_new_ok: "sender_ok (rsender_new n mb rich others st k u t :: ('x, 'w, 'db) sender)"
proof -
  let ?s = "rsender_new n mb rich others st k u t :: ('x, 'w, 'db) sender"
  have "streams (\<lambda>_. None) (\<lambda>_. None) ?s"
    by (simp add: streams_def rsender_new_def Let_def stream_banks_def ring_msgs_new split: if_splits)
  moreover have "slots_above ?s" by (simp add: slots_above_def rsender_new_def Let_def)
  moreover have "length (sn_slots ?s) \<le> sn_max_unfinalized_slots ?s \<and> replay_within (sn_storage_max_slots ?s) (sn_replay ?s)"
    by (simp add: rsender_new_def Let_def replay_within_def)
  ultimately show ?thesis unfolding sender_ok_def by blast
qed

subsection \<open>Properties\<close>

text \<open>\<^bold>\<open>C30.\<close> The confirmed and the finalized stream carry one bank per slot. After any sequence of
  messages from any sources, with or without deduplication, any two messages of a slot in
  the ring of a higher commitment, other than slot statuses, are of the same bank, and none
  of them is the notice that a bank was replaced. Messages of banks that lost a fork never
  reach the streams of the fork's winner.\<close>

theorem commitment_streams_one_bank:
  assumes "sender_run P H sz xs (rsender_new n mb rich others st k u t) = Some s"
    and "sn_confirmed s = Some r \<or> sn_finalized s = Some r" and "(sl, m) \<in> ring_msgs r" "(sl, m') \<in> ring_msgs r"
    and "\<forall>x. m \<noteq> RP_Slot x" "\<forall>x. m' \<noteq> RP_Slot x"
  shows "parsed_bank_id m = parsed_bank_id m' \<and> (\<forall>u ts n. m \<noteq> RP_EntryUpdateParent u ts n)"
proof -
  from sender_run_ok [OF assms(1) rsender_new_ok] obtain \<beta> \<gamma> where "streams \<beta> \<gamma> s" by (auto simp: sender_ok_def)
  with assms(2) obtain \<delta> where "stream_banks \<delta> (Some r)" by (auto simp: streams_def)
  with assms(3,4) have "in_stream \<delta> sl m" "in_stream \<delta> sl m'" by (auto simp: stream_banks_def)
  with assms(5,6) show ?thesis by (auto simp: in_stream_def streamable_def)
qed

definition example_push :: "bank_id \<Rightarrow> u64 \<Rightarrow> bool \<times> string \<times> unit message" where
  "example_push b i = (True, ''a'', M_Entry (example_entry\<lparr>me_bank_id := b, me_index := i\<rparr>))"

definition example_status :: "geyser_status \<Rightarrow> bank_id \<Rightarrow> slot \<Rightarrow> bool \<times> string \<times> unit message" where
  "example_status st b sl = (True, ''a'', M_Slot \<lparr>ms_slot = sl, ms_parent = None, ms_status = st, ms_dead_error = None,
     ms_bank_id = Some b, ms_created_at = timestamp_default, ms_buffer = [], ms_range = (0, 0)\<rparr>)"

definition example_sender :: "(unit, nat, nat) sender" where
  "example_sender = rsender_new 4 1000 True True None 2 2 1"

definition example_fork :: "(bool \<times> string \<times> unit message) list" where
  "example_fork = [example_push 5 0, example_push 6 0, example_push 5 1, example_status SlotConfirmed 5 7]"

definition in_ring :: "slot \<Rightarrow> 'd \<Rightarrow> ('d, 'w) sender_shared \<Rightarrow> bool" where
  "in_ring sl m r = list_ex (\<lambda>it. ri_slot it = sl \<and> ri_data it = Some m) (sc_buffer (ss_shared r))"

lemma in_ring_msgs: "in_ring sl m r \<Longrightarrow> (sl, m) \<in> ring_msgs r"
  by (auto simp: in_ring_def ring_msgs_def list_ex_iff)

lemma example_fork_run:
  "case sender_run prost_ref (\<lambda>_. 0) (\<lambda>_. 1) example_fork example_sender of None \<Rightarrow> False
   | Some s \<Rightarrow> (case sn_confirmed s of None \<Rightarrow> False | Some r \<Rightarrow>
       in_ring 7 (RP_Entry (example_entry\<lparr>me_bank_id := 5, me_index := 0\<rparr>)) r \<and>
       in_ring 7 (RP_Entry (example_entry\<lparr>me_bank_id := 5, me_index := 1\<rparr>)) r)"
  by code_simp

theorem commitment_streams_one_bank_witness:
  "\<exists>s r. sender_run prost_ref (\<lambda>_. 0) (\<lambda>_. 1) example_fork example_sender = Some s \<and> sn_confirmed s = Some r \<and>
    (7, RP_Entry (example_entry\<lparr>me_bank_id := 5, me_index := 0\<rparr>)) \<in> ring_msgs r \<and>
    (\<forall>m. (7, m) \<in> ring_msgs r \<longrightarrow> (\<forall>x. m \<noteq> RP_Slot x) \<longrightarrow> parsed_bank_id m = Some 5)"
proof -
  let ?e = "RP_Entry (example_entry\<lparr>me_bank_id := 5, me_index := 0\<rparr>) :: unit parsed_message"
  from example_fork_run obtain s r where
    s: "sender_run prost_ref (\<lambda>_. 0) (\<lambda>_. 1) example_fork example_sender = Some s" "sn_confirmed s = Some r" "in_ring 7 ?e r"
    by (auto split: option.splits)
  note e = in_ring_msgs [OF s(3)]
  have "parsed_bank_id m = parsed_bank_id ?e" if "(7, m) \<in> ring_msgs r" "\<forall>x. m \<noteq> RP_Slot x" for m
    by (rule conjunct1 [OF commitment_streams_one_bank [OF s(1) [unfolded example_sender_def] disjI1 [OF s(2)] that(1) e that(2)]]) simp
  moreover have "parsed_bank_id ?e = Some 5" by (simp add: filter_bank_def nonzero_bank_id_def)
  ultimately show ?thesis using s(1,2) e by metis
qed

text \<open>\<^bold>\<open>C31.\<close> The memory of the sender is bounded while slots are not finalized: after any
  sequence of messages it keeps state for at most \<open>max_unfinalized_slots\<close> slots, all newer than
  every finalized and every dropped slot, and the replay positions of at most
  \<open>storage_max_slots\<close> slots, the newest ones of the journal.\<close>

theorem sender_state_bounded:
  assumes "sender_run P H sz xs (rsender_new n mb rich others st k u t) = Some s" and "0 < k"
  shows "length (sn_slots s) \<le> u \<and> length (sn_replay s) \<le> k \<and>
    (\<forall>sl \<in> fst ` set (sn_slots s). max (sn_slot_finalized s) (sn_slot_dropped s) < sl) \<and>
    (\<forall>sl \<in> fst ` set (sn_replay s). \<forall>sl' \<in> fst ` set (sn_replay s). unat sl' - unat sl < k)"
proof -
  have c: "sn_max_unfinalized_slots (rsender_new n mb rich others st k u t :: ('a, 'b, 'c) sender) = u"
    "sn_storage_max_slots (rsender_new n mb rich others st k u t :: ('a, 'b, 'c) sender) = k"
    by (simp_all add: rsender_new_def Let_def)
  from sender_run_ok [OF assms(1) rsender_new_ok] have ok: "slots_above s" "length (sn_slots s) \<le> u" "replay_within k (sn_replay s)"
    by (auto simp: sender_ok_def c)
  have "unat sl' - unat sl < k" if "sl \<in> fst ` set (sn_replay s)" "sl' \<in> fst ` set (sn_replay s)" for sl sl'
  proof -
    have "unat sl' - (k - 1) \<le> unat sl" using ok(3) that unfolding replay_within_def by blast
    then show ?thesis using assms(2) by linarith
  qed
  with ok(1,2) replay_within_length [OF ok(3) assms(2)] show ?thesis unfolding slots_above_def by blast
qed


definition example_storage :: "(unit, nat) rstorage" where
  "example_storage = \<lparr>rst_metadata = \<lparr>md_db = 0, md_catalog = \<lparr>mm_slots = [], mm_segments = [], mm_chunks = [],
       mm_state = metadata_state_default, mm_replay_floor = 0\<rparr>\<rparr>, rst_commitment_mask = 7, rst_sent = []\<rparr>"

definition example_stalled :: "(bool \<times> string \<times> unit message) list" where
  "example_stalled = map (example_status SlotProcessed 5) [7, 8, 9]"

lemma example_stalled_run:
  "case sender_run prost_ref (\<lambda>_. 0) (\<lambda>_. 1) example_stalled (rsender_new 4 1000 True True (Some example_storage) 2 2 1 :: (unit, nat, nat) sender)
     of None \<Rightarrow> False
   | Some s \<Rightarrow> map fst (sn_slots s) = [8, 9] \<and> map fst (sn_replay s) = [8, 9] \<and> sn_slot_dropped s = 7"
  by code_simp

theorem sender_state_bounded_witness:
  "\<exists>s. sender_run prost_ref (\<lambda>_. 0) (\<lambda>_. 1) example_stalled
      (rsender_new 4 1000 True True (Some example_storage) 2 2 1 :: (unit, nat, nat) sender) = Some s \<and>
    sn_slot_dropped s = 7 \<and> length (sn_slots s) \<le> 2 \<and> length (sn_replay s) \<le> 2"
proof -
  from example_stalled_run obtain s where s: "sender_run prost_ref (\<lambda>_. 0) (\<lambda>_. 1) example_stalled
      (rsender_new 4 1000 True True (Some example_storage) 2 2 1 :: (unit, nat, nat) sender) = Some s" "sn_slot_dropped s = 7"
    by (auto split: option.splits)
  with sender_state_bounded [OF s(1)] show ?thesis by auto
qed

end
