(* ===== verification/Storage_Writer.thy ===== *)
theory Storage_Writer
  imports Storage_Metadata
begin

text \<open>
  The ordered append path of the disk journal (\<open>SegmentWriter\<close> of
  \<open>richat/src/storage/segments.rs\<close>): appending a chunk to the active segment file,
  rotation, trimming, recovery at start-up, and the loop that puts the output of the
  compressor threads back into order. The segment files are a map from segment numbers to
  contents; the name of a file is its number with at least twelve digits. A set that the
  code iterates over is the list of its elements in the order of the iteration.
\<close>

record pending_slot =
  pe_slot :: slot
  pe_first_index :: u64

record compressed_chunk =
  zc_compression :: u8
  zc_first_index :: u64
  zc_last_index :: u64
  zc_payload :: bytes
  zc_pending_slots :: "pending_slot list"
  zc_pending_finalized :: "slot list"

record 'db segment_writer =
  wr_files :: "u64 \<rightharpoonup> bytes"
  wr_segment_target_size :: u64
  wr_metadata :: "'db metadata"
  wr_active_segment :: segment_meta

subsection \<open>Commits\<close>

definition build_chunk_commit :: "metadata_mirror \<Rightarrow> segment_meta \<Rightarrow> chunk_meta \<Rightarrow> pending_slot list \<Rightarrow> slot list \<Rightarrow>
    metadata_chunk_commit" where
  "build_chunk_commit catalog active chunk pending_slots pending_finalized =
     (let segment = active\<lparr>sg_last_index := cm_last_index chunk, sg_file_len := sg_file_len active + cm_size chunk,
            sg_chunk_count := sg_chunk_count active + 1\<rparr>;
          new_slots = map (\<lambda>p. \<lparr>sm_slot = pe_slot p, sm_finalized = pe_slot p \<in> set pending_finalized,
            sm_first_index = pe_first_index p, sm_segment_id = cm_segment_id chunk\<rparr>) pending_slots;
          updated_slots = List.map_filter (\<lambda>sl. case bt_get (mm_slots catalog) sl of None \<Rightarrow> None
            | Some meta \<Rightarrow> if sl \<in> sm_slot ` set new_slots then None else Some (meta\<lparr>sm_finalized := True\<rparr>)) pending_finalized in
      \<lparr>cc_new_slots = new_slots, cc_updated_slots = updated_slots, cc_chunk = chunk, cc_segment = segment,
       cc_state = mm_state catalog\<rparr>)"

definition build_trim_commit :: "metadata_mirror \<Rightarrow> slot \<Rightarrow> u64 option \<Rightarrow> metadata_trim_commit" where
  "build_trim_commit catalog sl until =
     (let deleted_segments = (case until of None \<Rightarrow> []
            | Some floor \<Rightarrow> map sg_segment_id (filter (\<lambda>seg. sg_sealed seg \<and> 0 < sg_chunk_count seg \<and> sg_last_index seg < floor)
                (map snd (mm_segments catalog)))) in
      \<lparr>tc_removed_slot = sl,
       tc_deleted_slots = map sm_slot (filter (\<lambda>meta. sm_segment_id meta \<in> set deleted_segments) (map snd (mm_slots catalog))),
       tc_deleted_segments = deleted_segments,
       tc_deleted_chunks = map cm_first_index (filter (\<lambda>c. cm_segment_id c \<in> set deleted_segments) (mm_chunks catalog))\<rparr>)"

subsection \<open>\<open>SegmentWriter\<close>\<close>

text \<open>\<open>seek(SeekFrom::Start(offset))\<close> and \<open>write_all\<close>; a gap is filled with zeros.\<close>

definition file_write_at :: "nat \<Rightarrow> bytes \<Rightarrow> bytes \<Rightarrow> bytes" where
  "file_write_at offset data f =
     take offset f @ replicate (offset - length f) 0 @ data @ drop (offset + length data) f"

text \<open>\<open>remove_orphan_segments\<close>; only names of exactly twelve digits are recognised.\<close>

definition remove_orphan_segments :: "metadata_mirror \<Rightarrow> (u64 \<rightharpoonup> bytes) \<Rightarrow> (u64 \<rightharpoonup> bytes)" where
  "remove_orphan_segments catalog files =
     (\<lambda>i. if unat i < 10 ^ 12 \<and> bt_get (mm_segments catalog) i = None then None else files i)"

definition writer_open :: "'db rocksdb \<Rightarrow> u64 \<Rightarrow> (u64 \<rightharpoonup> bytes) \<Rightarrow> 'db metadata \<Rightarrow> error + 'db segment_writer" where
  "writer_open R target files m =
     (let files1 = remove_orphan_segments (md_catalog m) files; st = mm_state (md_catalog m) in
      and_then (if st_active_segment_id st = 0
        then (let st' = st\<lparr>st_active_segment_id := st_next_segment_id st, st_next_segment_id := st_next_segment_id st + 1\<rparr> in
              if files1 (st_active_segment_id st') \<noteq> None then Inl ''failed to create segment file''
              else map_ok (\<lambda>m'. (files1(st_active_segment_id st' \<mapsto> []), m'))
                (initialize_empty R st' (segment_empty (st_active_segment_id st') 0) m))
        else Inr (files1, m)) (\<lambda>(files2, m2).
      case bt_get (mm_segments (md_catalog m2)) (st_active_segment_id (mm_state (md_catalog m2))) of
        None \<Rightarrow> Inl ''missing active segment metadata''
      | Some active \<Rightarrow> if files2 (sg_segment_id active) = None then Inl ''failed to open active segment''
          else Inr \<lparr>wr_files = files2, wr_segment_target_size = target, wr_metadata = m2, wr_active_segment = active\<rparr>))"

definition rotate_segment :: "'db rocksdb \<Rightarrow> 'db segment_writer \<Rightarrow> error + 'db segment_writer" where
  "rotate_segment R w =
     (let st = mm_state (md_catalog (wr_metadata w)); new_id = st_next_segment_id st;
          st' = st\<lparr>st_next_segment_id := st_next_segment_id st + 1, st_active_segment_id := new_id\<rparr>;
          new_segment = segment_empty new_id 0 in
      if wr_files w new_id \<noteq> None then Inl ''failed to create next segment''
      else map_ok (\<lambda>m. w\<lparr>wr_files := (wr_files w)(new_id \<mapsto> []), wr_metadata := m, wr_active_segment := new_segment\<rparr>)
        (apply_rotation_commit R \<lparr>rc_sealed_segment = (wr_active_segment w)\<lparr>sg_sealed := True\<rparr>,
           rc_new_segment = new_segment, rc_state = st'\<rparr> (wr_metadata w)))"

definition chunk_meta_of :: "segment_meta \<Rightarrow> compressed_chunk \<Rightarrow> chunk_meta" where
  "chunk_meta_of active chunk = \<lparr>cm_segment_id = sg_segment_id active, cm_offset = sg_file_len active,
     cm_size = of_nat (length (zc_payload chunk)), cm_compression = zc_compression chunk,
     cm_first_index = zc_first_index chunk, cm_last_index = zc_last_index chunk\<rparr>"

text \<open>\<open>append_chunk\<close> up to the commit, and with the rotation.\<close>

definition append_commit :: "'db rocksdb \<Rightarrow> compressed_chunk \<Rightarrow> 'db segment_writer \<Rightarrow> error + 'db segment_writer" where
  "append_commit R chunk w =
     (let active = wr_active_segment w; meta = chunk_meta_of active chunk in
      case wr_files w (sg_segment_id active) of
        None \<Rightarrow> Inl ''bad file descriptor''
      | Some f \<Rightarrow>
          (let files = (wr_files w)(sg_segment_id active \<mapsto> file_write_at (unat (sg_file_len active)) (zc_payload chunk) f);
               commit = build_chunk_commit (md_catalog (wr_metadata w)) active meta (zc_pending_slots chunk) (zc_pending_finalized chunk) in
           map_ok (\<lambda>m. w\<lparr>wr_files := files, wr_metadata := m, wr_active_segment := cc_segment commit\<rparr>)
             (apply_chunk_commit R commit (wr_metadata w))))"

definition append_chunk :: "'db rocksdb \<Rightarrow> compressed_chunk \<Rightarrow> 'db segment_writer \<Rightarrow> error + 'db segment_writer" where
  "append_chunk R chunk w = and_then (append_commit R chunk w) (\<lambda>w1.
     if wr_segment_target_size w1 \<le> sg_file_len (wr_active_segment w1) then rotate_segment R w1 else Inr w1)"

definition trim_commit :: "'db rocksdb \<Rightarrow> metadata_trim_commit \<Rightarrow> 'db segment_writer \<Rightarrow> error + 'db segment_writer" where
  "trim_commit R commit w = map_ok (\<lambda>m. w\<lparr>wr_metadata := m\<rparr>) (apply_trim_commit R commit (wr_metadata w))"

definition handle_trim :: "'db rocksdb \<Rightarrow> slot \<Rightarrow> u64 option \<Rightarrow> 'db segment_writer \<Rightarrow> error + 'db segment_writer" where
  "handle_trim R sl until w =
     (let commit = build_trim_commit (md_catalog (wr_metadata w)) sl until in
      map_ok (\<lambda>w1. w1\<lparr>wr_files := (wr_files w1) |` (- set (tc_deleted_segments commit))\<rparr>) (trim_commit R commit w))"

subsection \<open>\<open>SegmentWriter::run\<close>\<close>

datatype compressor_output =
  CO_CompressedChunk u64 compressed_chunk
| CO_Trim u64 slot "u64 option"

fun co_seq :: "compressor_output \<Rightarrow> u64" where
  "co_seq (CO_CompressedChunk seq _) = seq"
| "co_seq (CO_Trim seq _ _) = seq"

fun writer_process :: "'db rocksdb \<Rightarrow> compressor_output \<Rightarrow> 'db segment_writer \<Rightarrow> error + 'db segment_writer" where
  "writer_process R (CO_CompressedChunk _ chunk) w = append_chunk R chunk w"
| "writer_process R (CO_Trim _ sl until) w = handle_trim R sl until w"

text \<open>The inner loop takes the outputs that are next in order; \<open>pending\<close> shrinks.\<close>

function drain_pending :: "('o \<Rightarrow> 'w \<Rightarrow> error + 'w) \<Rightarrow> u64 \<Rightarrow> (u64, 'o) btree \<Rightarrow> 'w \<Rightarrow>
    error + u64 \<times> (u64, 'o) btree \<times> 'w" where
  "drain_pending f next_seq pending w = (case bt_get pending next_seq of
     None \<Rightarrow> Inr (next_seq, pending, w)
   | Some item \<Rightarrow> and_then (f item w) (\<lambda>w1. drain_pending f (next_seq + 1) (bt_remove next_seq pending) w1))"
  by pat_completeness auto
termination
proof (relation "measure (\<lambda>(f, n, p, w). length p)")
  fix f :: "'o \<Rightarrow> 'w \<Rightarrow> error + 'w" and n :: u64 and p w item w1
  assume "bt_get p n = Some (item :: 'o)"
  then have "(n, item) \<in> set p" by (simp add: bt_get_def map_of_SomeD)
  then have "length (bt_remove n p) < length p" unfolding bt_remove_def by (intro length_filter_less) auto
  then show "((f, n + 1, bt_remove n p, w1), f, n, p, w) \<in> measure (\<lambda>(f, n, p, w). length p)" by simp
qed simp

declare drain_pending.simps [simp del]

fun run_ordered :: "('o \<Rightarrow> u64) \<Rightarrow> ('o \<Rightarrow> 'w \<Rightarrow> error + 'w) \<Rightarrow> u64 \<Rightarrow> (u64, 'o) btree \<Rightarrow> 'o list \<Rightarrow> 'w \<Rightarrow> error + 'w" where
  "run_ordered sq f next_seq pending [] w = Inr w"
| "run_ordered sq f next_seq pending (o1 # os) w =
     and_then (drain_pending f next_seq (bt_insert (sq o1) o1 pending) w)
       (\<lambda>(next_seq', pending', w1). run_ordered sq f next_seq' pending' os w1)"

definition writer_run :: "'db rocksdb \<Rightarrow> compressor_output list \<Rightarrow> 'db segment_writer \<Rightarrow> error + 'db segment_writer" where
  "writer_run R outs w = run_ordered co_seq (writer_process R) 0 [] outs w"

subsection \<open>The order of the outputs\<close>

fun process_all :: "('o \<Rightarrow> 'w \<Rightarrow> error + 'w) \<Rightarrow> 'o list \<Rightarrow> 'w \<Rightarrow> error + 'w" where
  "process_all f [] w = Inr w"
| "process_all f (o1 # os) w = and_then (f o1 w) (process_all f os)"

lemma process_all_append: "process_all f (xs @ ys) w = and_then (process_all f xs w) (process_all f ys)"
proof (induction xs arbitrary: w)
  case (Cons x xs)
  then show ?case by (cases "f x w") simp_all
qed simp

text \<open>\<open>L\<close> is the whole list in the order of the sequence numbers. When \<open>m\<close> outputs were
  processed and \<open>A\<close> is the set of positions that arrived, \<open>pending\<close> holds the others.\<close>

definition pending_ok :: "('o \<Rightarrow> u64) \<Rightarrow> 'o list \<Rightarrow> nat set \<Rightarrow> nat \<Rightarrow> (u64, 'o) btree \<Rightarrow> bool" where
  "pending_ok sq L A m pending \<longleftrightarrow> bt_ok pending \<and> m \<le> length L \<and> A \<subseteq> {..<length L} \<and> {..<m} \<subseteq> A \<and>
     (\<forall>k. bt_get pending k = (if unat k \<in> A \<and> m \<le> unat k then Some (L ! unat k) else None))"

lemma drain_ok:
  assumes sq: "\<And>i. i < length L \<Longrightarrow> sq (L ! i) = of_nat i" and n: "length L < 2 ^ 64"
    and ok: "pending_ok sq L A m pending"
  shows "\<exists>m' \<ge> m. m' \<le> length L \<and> (case process_all f (drop m (take m' L)) w of
     Inl e \<Rightarrow> drain_pending f (of_nat m) pending w = Inl e
   | Inr w' \<Rightarrow> \<exists>p'. drain_pending f (of_nat m) pending w = Inr (of_nat m', p', w') \<and> pending_ok sq L A m' p' \<and> m' \<notin> A)"
  using ok
proof (induction "length L - m" arbitrary: m pending w)
  case 0
  then have m: "m = length L" by (simp add: pending_ok_def)
  have "unat (of_nat m :: u64) = m" using m n by (simp add: unat_of_nat_u64)
  then have "bt_get pending (of_nat m) = None" and "m \<notin> A" using 0 m by (auto simp: pending_ok_def)
  moreover from this have "drain_pending f (of_nat m) pending w = Inr (of_nat m, pending, w)"
    by (simp add: drain_pending.simps [of f "of_nat m"])
  ultimately show ?case using 0 m by (intro exI [of _ m]) auto
next
  case (Suc d)
  then have lt: "m < length L" by simp
  have u: "unat (of_nat m :: u64) = m" using lt n by (intro unat_of_nat_u64) simp
  show ?case
  proof (cases "m \<in> A")
    case False
    then have "bt_get pending (of_nat m) = None" using Suc.prems u by (simp add: pending_ok_def)
    then show ?thesis using Suc.prems False lt by (intro exI [of _ m]) (simp add: drain_pending.simps [of f "of_nat m"])
  next
    case True
    let ?p = "bt_remove (of_nat m) pending"
    have g: "bt_get pending (of_nat m) = Some (L ! m)" using Suc.prems u True by (simp add: pending_ok_def)
    have keys: "k \<noteq> of_nat m \<longleftrightarrow> unat k \<noteq> m" for k :: u64 using u by (metis word_unat_eq_iff)
    have p: "pending_ok sq L A (Suc m) ?p"
      using Suc.prems True lt keys
      by (auto simp: pending_ok_def bt_ok_remove bt_get_remove lessThan_Suc le_eq_less_or_eq Suc_le_eq)
    have t: "drop m (take m' L) = L ! m # drop (Suc m) (take m' L)" if "Suc m \<le> m'" for m'
      using that lt by (subst Cons_nth_drop_Suc [symmetric]) simp_all
    show ?thesis
    proof (cases "f (L ! m) w")
      case (Inl e)
      then show ?thesis using g lt t [of "Suc m"]
        by (intro exI [of _ "Suc m"]) (simp add: drain_pending.simps [of f "of_nat m"])
    next
      case (Inr w1)
      have eq: "drain_pending f (of_nat m) pending w = drain_pending f (of_nat (Suc m)) ?p w1"
        using g Inr by (simp add: drain_pending.simps [of f "of_nat m"] add.commute)
      have d: "d = length L - Suc m" using Suc(2) by simp
      from Suc(1) [OF d p, of w1] obtain m' where m': "Suc m \<le> m'" "m' \<le> length L"
        "case process_all f (drop (Suc m) (take m' L)) w1 of
           Inl e \<Rightarrow> drain_pending f (of_nat (Suc m)) ?p w1 = Inl e
         | Inr w' \<Rightarrow> \<exists>p'. drain_pending f (of_nat (Suc m)) ?p w1 = Inr (of_nat m', p', w') \<and> pending_ok sq L A m' p' \<and> m' \<notin> A"
        by blast
      have pa: "process_all f (drop m (take m' L)) w = process_all f (drop (Suc m) (take m' L)) w1"
        unfolding t [OF m'(1)] using Inr by simp
      have "m \<le> m'" using m'(1) by simp
      then show ?thesis using m'(2,3) unfolding pa [symmetric] eq [symmetric] by blast
    qed
  qed
qed

lemma pending_insert:
  assumes ok: "pending_ok sq L A m pending" and i: "i < length L" "sq x = of_nat i" "x = L ! i" "i \<notin> A" and n: "length L < 2 ^ 64"
  shows "pending_ok sq L (insert i A) m (bt_insert (sq x) x pending)"
proof -
  have u: "unat (of_nat i :: u64) = i" using i n by (intro unat_of_nat_u64) simp
  have keys: "k = of_nat i \<longleftrightarrow> unat k = i" for k :: u64 using u by (metis word_unat_eq_iff)
  have "m \<le> i" using ok i(4) by (metis lessThan_iff not_le pending_ok_def subsetD)
  then show ?thesis using ok i(1,3,4) unfolding i(2) by (auto simp: pending_ok_def bt_ok_insert bt_get_insert keys)
qed

lemma run_ordered_ok:
  assumes sq: "\<And>i. i < length L \<Longrightarrow> sq (L ! i) = of_nat i" and n: "length L < 2 ^ 64"
    and ok: "pending_ok sq L A m pending" "m \<notin> A" and os: "os = map ((!) L) is" "distinct is" "set is = {..<length L} - A"
  shows "run_ordered sq f (of_nat m) pending os w = process_all f (drop m L) w"
  using ok os
proof (induction os arbitrary: A m pending "is" w)
  case Nil
  then have "A = {..<length L}" by (auto simp: pending_ok_def)
  with Nil have "m = length L" by (auto simp: pending_ok_def)
  then show ?case by simp
next
  case (Cons x os)
  then obtain i is' where is': "is = i # is'" "x = L ! i" "os = map ((!) L) is'" by (cases "is") auto
  have i: "i < length L" "i \<notin> A" using Cons.prems(5) is'(1) by auto
  have p: "pending_ok sq L (insert i A) m (bt_insert (sq x) x pending)"
    using pending_insert [OF Cons.prems(1) i(1) _ is'(2) i(2) n] sq [OF i(1)] is'(2) by simp
  from drain_ok [where f = f and w = w, OF sq n p] obtain m' where m': "m \<le> m'" "m' \<le> length L"
    "case process_all f (drop m (take m' L)) w of
      Inl e \<Rightarrow> drain_pending f (of_nat m) (bt_insert (sq x) x pending) w = Inl e
    | Inr w' \<Rightarrow> \<exists>p'. drain_pending f (of_nat m) (bt_insert (sq x) x pending) w = Inr (of_nat m', p', w') \<and>
        pending_ok sq L (insert i A) m' p' \<and> m' \<notin> insert i A" by blast
  have split: "drop m L = drop m (take m' L) @ drop m' L"
    using m'(1) by (metis append_take_drop_id drop_drop drop_take le_add_diff_inverse2)
  show ?case
  proof (cases "process_all f (drop m (take m' L)) w")
    case (Inl e)
    then show ?thesis using m'(3) by (simp add: split process_all_append)
  next
    case (Inr w')
    with m'(3) obtain p' where p': "drain_pending f (of_nat m) (bt_insert (sq x) x pending) w = Inr (of_nat m', p', w')"
      "pending_ok sq L (insert i A) m' p'" "m' \<notin> insert i A" by auto
    have "distinct is'" "set is' = {..<length L} - insert i A" using Cons.prems(4,5) is'(1) by auto
    from Cons.IH [OF p'(2,3) is'(3) this] show ?thesis using p'(1) Inr by (simp add: split process_all_append)
  qed
qed

subsection \<open>Crashes\<close>

text \<open>A node that runs a writer, or the files and the database that a crash left. The payloads
  that were ever committed are recorded in \<open>J\<close>, by the index of their first record.\<close>

datatype 'db node = Running "'db segment_writer" | Down "u64 \<rightharpoonup> bytes" 'db

abbreviation wr_catalog :: "'db segment_writer \<Rightarrow> metadata_mirror" where
  "wr_catalog w \<equiv> md_catalog (wr_metadata w)"

abbreviation wr_db :: "'db segment_writer \<Rightarrow> 'db" where
  "wr_db w \<equiv> md_db (wr_metadata w)"

text \<open>The chunks arrive in the order of their indices; files and segment numbers stay far below
  the limits of their types (the name of a segment file has twelve digits).\<close>

definition next_chunk :: "compressed_chunk \<Rightarrow> 'db segment_writer \<Rightarrow> bool" where
  "next_chunk ch w \<longleftrightarrow> zc_first_index ch \<le> zc_last_index ch \<and>
     (\<forall>c\<in>set (mm_chunks (wr_catalog w)). cm_first_index c < zc_first_index ch \<and> cm_last_index c < zc_first_index ch) \<and>
     unat (sg_file_len (wr_active_segment w)) + length (zc_payload ch) < 2 ^ 64"

definition ids_left :: "metadata_mirror \<Rightarrow> bool" where
  "ids_left cat \<longleftrightarrow> unat (st_next_segment_id (mm_state cat)) < 10 ^ 12"

inductive node_step :: "'db rocksdb \<Rightarrow> 'db node \<Rightarrow> (u64 \<rightharpoonup> bytes) \<Rightarrow> 'db node \<Rightarrow> (u64 \<rightharpoonup> bytes) \<Rightarrow> bool" for R where
  append: "append_chunk R ch w = Inr w' \<Longrightarrow> next_chunk ch w \<Longrightarrow> ids_left (wr_catalog w) \<Longrightarrow>
    node_step R (Running w) J (Running w') (J(zc_first_index ch \<mapsto> zc_payload ch))"
| append_torn: "wr_files w (sg_segment_id (wr_active_segment w)) = Some f \<Longrightarrow>
    node_step R (Running w) J (Down ((wr_files w)(sg_segment_id (wr_active_segment w) \<mapsto>
      file_write_at (unat (sg_file_len (wr_active_segment w))) written f)) (wr_db w)) J"
| append_crash: "append_commit R ch w = Inr w' \<Longrightarrow> next_chunk ch w \<Longrightarrow>
    node_step R (Running w) J (Down (wr_files w') (wr_db w')) (J(zc_first_index ch \<mapsto> zc_payload ch))"
| rotate_torn: "append_commit R ch w = Inr w' \<Longrightarrow> next_chunk ch w \<Longrightarrow>
    wr_files w' (st_next_segment_id (mm_state (wr_catalog w'))) = None \<Longrightarrow>
    node_step R (Running w) J (Down ((wr_files w')(st_next_segment_id (mm_state (wr_catalog w')) \<mapsto> [])) (wr_db w'))
      (J(zc_first_index ch \<mapsto> zc_payload ch))"
| trim: "handle_trim R sl until w = Inr w' \<Longrightarrow> node_step R (Running w) J (Running w') J"
| trim_torn: "trim_commit R (build_trim_commit (wr_catalog w) sl until) w = Inr w' \<Longrightarrow>
    - set (tc_deleted_segments (build_trim_commit (wr_catalog w) sl until)) \<subseteq> S \<Longrightarrow>
    node_step R (Running w) J (Down ((wr_files w') |` S) (wr_db w')) J"
| floor: "set_replay_floor R i (wr_metadata w) = Inr m \<Longrightarrow> node_step R (Running w) J (Running (w\<lparr>wr_metadata := m\<rparr>)) J"
| crash: "node_step R (Running w) J (Down (wr_files w) (wr_db w)) J"
| restart: "metadata_open R db = Inr m \<Longrightarrow> ids_left (md_catalog m) \<Longrightarrow> writer_open R target files m = Inr w \<Longrightarrow>
    node_step R (Down files db) J (Running w) J"
| restart_torn: "metadata_open R db = Inr m \<Longrightarrow> (\<forall>i. bt_get (mm_segments (md_catalog m)) i \<noteq> None \<longrightarrow> files' i = files i) \<Longrightarrow>
    node_step R (Down files db) J (Down files' (md_db m)) J"

inductive node_reaches :: "'db rocksdb \<Rightarrow> 'db node \<Rightarrow> (u64 \<rightharpoonup> bytes) \<Rightarrow> 'db node \<Rightarrow> (u64 \<rightharpoonup> bytes) \<Rightarrow> bool" for R where
  start: "node_reaches R n J n J"
| step: "node_reaches R n J n1 J1 \<Longrightarrow> node_step R n1 J1 n2 J2 \<Longrightarrow> node_reaches R n J n2 J2"

text \<open>What every catalog guarantees.\<close>

definition chunk_stored :: "(u64 \<rightharpoonup> bytes) \<Rightarrow> (u64 \<rightharpoonup> bytes) \<Rightarrow> metadata_mirror \<Rightarrow> chunk_meta \<Rightarrow> bool" where
  "chunk_stored files J cat c \<longleftrightarrow> (\<exists>seg f p. bt_get (mm_segments cat) (cm_segment_id c) = Some seg \<and>
     files (cm_segment_id c) = Some f \<and> unat (cm_offset c) + unat (cm_size c) \<le> unat (sg_file_len seg) \<and>
     unat (sg_file_len seg) \<le> length f \<and> cm_last_index c \<le> sg_last_index seg \<and> J (cm_first_index c) = Some p \<and>
     slice (unat (cm_offset c)) (unat (cm_offset c) + unat (cm_size c)) f = Some p)"

definition segment_stored :: "(u64 \<rightharpoonup> bytes) \<Rightarrow> metadata_mirror \<Rightarrow> u64 \<Rightarrow> segment_meta \<Rightarrow> bool" where
  "segment_stored files cat k seg \<longleftrightarrow> 0 < k \<and> k < st_next_segment_id (mm_state cat) \<and>
     (\<exists>f. files k = Some f \<and> unat (sg_file_len seg) \<le> length f)"

definition active_ok :: "metadata_mirror \<Rightarrow> bool" where
  "active_ok cat \<longleftrightarrow> 0 < st_next_segment_id (mm_state cat) \<and>
     (if st_active_segment_id (mm_state cat) = 0 then mm_segments cat = []
      else (\<exists>seg. bt_get (mm_segments cat) (st_active_segment_id (mm_state cat)) = Some seg \<and> \<not> sg_sealed seg))"

definition catalog_ok :: "(u64 \<rightharpoonup> bytes) \<Rightarrow> (u64 \<rightharpoonup> bytes) \<Rightarrow> metadata_mirror \<Rightarrow> bool" where
  "catalog_ok files J cat \<longleftrightarrow> active_ok cat \<and>
     (\<forall>k seg. bt_get (mm_segments cat) k = Some seg \<longrightarrow> segment_stored files cat k seg) \<and>
     (\<forall>c\<in>set (mm_chunks cat). chunk_stored files J cat c)"

definition running_ok :: "('db \<Rightarrow> cf \<Rightarrow> bytes \<rightharpoonup> bytes) \<Rightarrow> (u64 \<rightharpoonup> bytes) \<Rightarrow> 'db segment_writer \<Rightarrow> bool" where
  "running_ok content J w \<longleftrightarrow> mirrors (content (wr_db w)) (wr_catalog w) \<and> catalog_ok (wr_files w) J (wr_catalog w) \<and>
     st_active_segment_id (mm_state (wr_catalog w)) \<noteq> 0 \<and>
     bt_get (mm_segments (wr_catalog w)) (st_active_segment_id (mm_state (wr_catalog w))) = Some (wr_active_segment w) \<and>
     (\<forall>i. unat i < 10 ^ 12 \<and> wr_files w i \<noteq> None \<longrightarrow> bt_get (mm_segments (wr_catalog w)) i \<noteq> None)"

definition down_ok :: "('db \<Rightarrow> cf \<Rightarrow> bytes \<rightharpoonup> bytes) \<Rightarrow> (u64 \<rightharpoonup> bytes) \<Rightarrow> (u64 \<rightharpoonup> bytes) \<Rightarrow> 'db \<Rightarrow> bool" where
  "down_ok content J files db \<longleftrightarrow> content db = (\<lambda>_. Map.empty) \<or>
     (\<exists>cat. mirrors (content db) cat \<and> catalog_ok files J cat)"

subsection \<open>Lemmas\<close>

lemma running_down: "running_ok content J w \<Longrightarrow> down_ok content J (wr_files w) (wr_db w)"
  by (auto simp: running_ok_def down_ok_def)

text \<open>Changing files that no segment refers to.\<close>

lemma catalog_ok_files:
  assumes "catalog_ok files J cat" and "\<forall>i. bt_get (mm_segments cat) i \<noteq> None \<longrightarrow> files' i = files i"
  shows "catalog_ok files' J cat"
  using assms by (fastforce simp: catalog_ok_def segment_stored_def chunk_stored_def)

lemma slice_write_keep:
  assumes "b \<le> off" and "off \<le> length f"
  shows "slice a b (file_write_at off data f) = slice a b f"
  using assms by (auto simp: slice_def file_write_at_def drop_take min_def)

lemma slice_write_new:
  assumes "off \<le> length f"
  shows "slice off (off + length data) (file_write_at off data f) = Some data"
  using assms by (simp add: slice_def file_write_at_def)

lemma length_file_write: "off \<le> length f \<Longrightarrow> off + length data \<le> length (file_write_at off data f)"
  by (simp add: file_write_at_def)

lemma running_active:
  assumes "running_ok content J w"
  obtains f where "wr_files w (sg_segment_id (wr_active_segment w)) = Some f"
    "unat (sg_file_len (wr_active_segment w)) \<le> length f"
    "sg_segment_id (wr_active_segment w) = st_active_segment_id (mm_state (wr_catalog w))"
    "\<not> sg_sealed (wr_active_segment w)"
proof -
  have "sg_segment_id (wr_active_segment w) = st_active_segment_id (mm_state (wr_catalog w))"
    using assms by (auto simp: running_ok_def mirrors_def)
  moreover have "segment_stored (wr_files w) (wr_catalog w) (st_active_segment_id (mm_state (wr_catalog w))) (wr_active_segment w)"
    "\<not> sg_sealed (wr_active_segment w)" using assms by (auto simp: running_ok_def catalog_ok_def active_ok_def)
  ultimately show ?thesis using that by (auto simp: segment_stored_def)
qed

text \<open>Writing behind the committed length of the active segment changes no chunk.\<close>

lemma catalog_ok_write:
  assumes ok: "catalog_ok files J cat" and seg: "bt_get (mm_segments cat) a = Some seg" and f: "files a = Some f"
  shows "catalog_ok (files(a \<mapsto> file_write_at (unat (sg_file_len seg)) data f)) J cat"
proof -
  let ?files = "files(a \<mapsto> file_write_at (unat (sg_file_len seg)) data f)"
  have "segment_stored files cat a seg" using ok seg by (simp add: catalog_ok_def)
  then have len: "unat (sg_file_len seg) \<le> length f" using f by (simp add: segment_stored_def)
  have le: "unat (sg_file_len seg) \<le> length (file_write_at (unat (sg_file_len seg)) data f)"
    using length_file_write [OF len, of data] by linarith
  have "segment_stored ?files cat k s" if "bt_get (mm_segments cat) k = Some s" for k s
    using ok that seg f le by (auto simp: catalog_ok_def segment_stored_def)
  moreover have "chunk_stored ?files J cat c" if "c \<in> set (mm_chunks cat)" for c
  proof -
    have "chunk_stored files J cat c" using ok that by (simp add: catalog_ok_def)
    then show ?thesis using seg f le slice_write_keep [OF _ len] by (cases "cm_segment_id c = a") (auto simp: chunk_stored_def)
  qed
  ultimately show ?thesis using ok by (simp add: catalog_ok_def)
qed

text \<open>The commit of a chunk.\<close>

lemma append_commit_ok:
  assumes kv: "kv_store R content" and run: "running_ok content J w" and ch: "next_chunk ch w" and app: "append_commit R ch w = Inr w'"
  shows "running_ok content (J(zc_first_index ch \<mapsto> zc_payload ch)) w' \<and> mm_state (wr_catalog w') = mm_state (wr_catalog w)"
proof -
  let ?cat = "wr_catalog w" and ?act = "wr_active_segment w"
  let ?a = "sg_segment_id ?act" and ?J = "J(zc_first_index ch \<mapsto> zc_payload ch)"
  let ?meta = "chunk_meta_of ?act ch"
  let ?cc = "build_chunk_commit ?cat ?act ?meta (zc_pending_slots ch) (zc_pending_finalized ch)"
  let ?cat' = "mirror_chunk_commit ?cc ?cat" and ?seg = "cc_segment ?cc"
  obtain f where f: "wr_files w ?a = Some f" "unat (sg_file_len ?act) \<le> length f"
    "?a = st_active_segment_id (mm_state ?cat)" "\<not> sg_sealed ?act" using running_active [OF run] by blast
  let ?f = "file_write_at (unat (sg_file_len ?act)) (zc_payload ch) f" and ?n = "length (zc_payload ch)"
  let ?files = "(wr_files w)(?a \<mapsto> ?f)"
  from app obtain m where m: "apply_chunk_commit R ?cc (wr_metadata w) = Inr m"
    and w': "w' = w\<lparr>wr_files := ?files, wr_metadata := m, wr_active_segment := ?seg\<rparr>"
    by (auto simp: append_commit_def Let_def f(1) map_ok_Inr_iff)
  from m have md: "md_catalog m = ?cat'" by (auto simp: apply_chunk_commit_def map_ok_Inr_iff)
  have act: "bt_get (mm_segments ?cat) ?a = Some ?act" and mi: "mirrors (content (wr_db w)) ?cat"
    and cok: "catalog_ok (wr_files w) J ?cat" using run f(3) by (simp_all add: running_ok_def)
  have cc: "cc_chunk ?cc = ?meta" "cc_state ?cc = mm_state ?cat" by (simp_all add: build_chunk_commit_def Let_def)
  have u: "unat (of_nat ?n :: u64) = ?n" "unat (sg_file_len ?act + of_nat ?n) = unat (sg_file_len ?act) + ?n"
    using ch by (simp_all add: next_chunk_def unat_of_nat_u64 unat_word_ariths)
  have seg: "sg_segment_id ?seg = ?a" "unat (sg_file_len ?seg) = unat (sg_file_len ?act) + ?n" "sg_last_index ?seg = zc_last_index ch"
    "\<not> sg_sealed ?seg" using u f(4) by (simp_all add: build_chunk_commit_def Let_def chunk_meta_of_def)
  have segs: "bt_get (mm_segments ?cat') = (bt_get (mm_segments ?cat))(?a \<mapsto> ?seg)"
    by (simp add: mirror_chunk_commit_def bt_get_insert seg(1))
  have st: "mm_state ?cat' = mm_state ?cat" and chs: "mm_chunks ?cat' = mm_chunks ?cat @ [?meta]"
    by (simp_all add: mirror_chunk_commit_def cc)
  have meta: "cm_first_index ?meta = zc_first_index ch" "cm_segment_id ?meta = ?a" "cm_offset ?meta = sg_file_len ?act"
    "cm_size ?meta = of_nat ?n" "cm_last_index ?meta = zc_last_index ch" by (simp_all add: chunk_meta_of_def)
  then have "\<forall>x\<in>set (mm_chunks ?cat). cm_first_index x < cm_first_index (cc_chunk ?cc)"
    using ch unfolding cc(1) next_chunk_def by simp
  from kv_store.commits_mirror(3) [OF kv mi m this] have mi': "mirrors (content (md_db m)) ?cat'" unfolding md .
  have cok1: "catalog_ok ?files J ?cat" by (rule catalog_ok_write [OF cok act f(1)])
  have lf: "unat (sg_file_len ?seg) \<le> length ?f" using length_file_write [OF f(2), of "zc_payload ch"] seg(2) by simp
  have stored: "bt_get (mm_segments ?cat) k = Some s \<Longrightarrow> segment_stored ?files ?cat k s" for k s
    using cok1 by (simp add: catalog_ok_def)
  have "segment_stored ?files ?cat' k s" if "bt_get (mm_segments ?cat') k = Some s" for k s
    using that stored [of k s] stored [OF act] lf by (cases "k = ?a") (simp_all add: segs st segment_stored_def)
  moreover have "chunk_stored ?files ?J ?cat' c" if c: "c \<in> set (mm_chunks ?cat')" for c
  proof (cases "c \<in> set (mm_chunks ?cat)")
    case True
    then have old: "cm_first_index c < zc_first_index ch" "cm_last_index c \<le> zc_last_index ch"
      using ch by (fastforce simp: next_chunk_def)+
    have "chunk_stored ?files J ?cat c" using cok1 True by (simp add: catalog_ok_def)
    then show ?thesis using old act seg lf by (cases "cm_segment_id c = ?a") (auto simp: chunk_stored_def segs)
  next
    case False
    then have "c = ?meta" using c chs by simp
    then show ?thesis using slice_write_new [OF f(2), of "zc_payload ch"] u seg lf
      by (simp add: chunk_stored_def segs meta)
  qed
  moreover have "active_ok ?cat'" using cok run f(3) seg(4)
    by (simp add: catalog_ok_def active_ok_def running_ok_def segs st)
  ultimately have "catalog_ok ?files ?J ?cat'" by (simp add: catalog_ok_def)
  then show ?thesis using run mi' f(3) by (auto simp: running_ok_def w' md st segs)
qed

lemma mirrors_new_segment:
  assumes "mirrors c m"
  shows "mirrors (content_batch [Put SegmentsCf (encode_u64_key (sg_segment_id seg)) (segment_meta_encode seg),
       Put StateCf state_key (state_encode st)] c) (m\<lparr>mm_segments := bt_insert (sg_segment_id seg) seg (mm_segments m), mm_state := st\<rparr>)"
  using assms unfolding mirrors_def by (simp add: bt_get_insert rows_of_put bt_ok_insert)

text \<open>A fresh segment with the next number becomes the active one.\<close>

lemma catalog_ok_new_segment:
  assumes ok: "catalog_ok files J cat" and left: "ids_left cat" and free: "files n = None"
    and n: "n = st_next_segment_id (mm_state cat)"
    and segs: "bt_get (mm_segments cat') = g(n \<mapsto> segment_empty n 0)"
    and upd: "\<And>k seg. bt_get (mm_segments cat) k = Some seg \<Longrightarrow> \<exists>seg'. g k = Some seg' \<and>
      sg_file_len seg' = sg_file_len seg \<and> sg_last_index seg' = sg_last_index seg"
    and upd': "\<And>k. bt_get (mm_segments cat) k = None \<Longrightarrow> g k = None"
    and st: "mm_state cat' = \<lparr>st_next_segment_id = n + 1, st_active_segment_id = n\<rparr>" and chs: "mm_chunks cat' = mm_chunks cat"
  shows "catalog_ok (files(n \<mapsto> [])) J cat'"
proof -
  let ?files = "files(n \<mapsto> [])"
  have n1: "unat (n + 1) = Suc (unat n)" "n < n + 1"
    using left n by (simp_all add: ids_left_def unat_inc_bound word_less_nat_alt)
  have "0 < n" using ok n by (simp add: catalog_ok_def active_ok_def)
  have stored: "segment_stored files cat k seg" if "bt_get (mm_segments cat) k = Some seg" for k seg
    using ok that by (simp add: catalog_ok_def)
  have ne: "k \<noteq> n" if "bt_get (mm_segments cat) k \<noteq> None" for k using that stored free n by (auto simp: segment_stored_def)
  have "segment_stored ?files cat' k seg" if k: "bt_get (mm_segments cat') k = Some seg" for k seg
  proof (cases "k = n")
    case True
    then show ?thesis using k \<open>0 < n\<close> n1 by (auto simp: segs segment_stored_def segment_empty_def st)
  next
    case False
    then obtain s0 where s0: "bt_get (mm_segments cat) k = Some s0" "sg_file_len seg = sg_file_len s0"
      using k upd upd' segs by (cases "bt_get (mm_segments cat) k") fastforce+
    from stored [OF s0(1)] show ?thesis using False s0(2) n n1 by (auto simp: segment_stored_def st)
  qed
  moreover have "chunk_stored ?files J cat' c" if c: "c \<in> set (mm_chunks cat')" for c
  proof -
    have "chunk_stored files J cat c" using ok c chs by (simp add: catalog_ok_def)
    then obtain seg f p where s: "bt_get (mm_segments cat) (cm_segment_id c) = Some seg" "files (cm_segment_id c) = Some f"
      "unat (cm_offset c) + unat (cm_size c) \<le> unat (sg_file_len seg)" "unat (sg_file_len seg) \<le> length f"
      "cm_last_index c \<le> sg_last_index seg" "J (cm_first_index c) = Some p"
      "slice (unat (cm_offset c)) (unat (cm_offset c) + unat (cm_size c)) f = Some p" by (auto simp: chunk_stored_def)
    moreover from upd [OF s(1)] obtain seg' where "g (cm_segment_id c) = Some seg'"
      "sg_file_len seg' = sg_file_len seg" "sg_last_index seg' = sg_last_index seg" by blast
    moreover have "cm_segment_id c \<noteq> n" using ne s(1) by simp
    ultimately show ?thesis by (auto simp: chunk_stored_def segs)
  qed
  moreover have "active_ok cat'" using \<open>0 < n\<close> n1 by (auto simp: active_ok_def st segs segment_empty_def word_less_nat_alt)
  ultimately show ?thesis by (simp add: catalog_ok_def)
qed

lemma state_update:
  "s\<lparr>st_next_segment_id := a, st_active_segment_id := b\<rparr> = \<lparr>st_next_segment_id = a, st_active_segment_id = b\<rparr>"
  by (cases s) simp

lemma rotate_ok:
  assumes kv: "kv_store R content" and run: "running_ok content J w" and left: "ids_left (wr_catalog w)"
    and rot: "rotate_segment R w = Inr w'"
  shows "running_ok content J w'"
proof -
  let ?cat = "wr_catalog w" and ?act = "wr_active_segment w"
  let ?n = "st_next_segment_id (mm_state ?cat)"
  let ?rc = "\<lparr>rc_sealed_segment = ?act\<lparr>sg_sealed := True\<rparr>, rc_new_segment = segment_empty ?n 0,
    rc_state = (mm_state ?cat)\<lparr>st_next_segment_id := ?n + 1, st_active_segment_id := ?n\<rparr>\<rparr>"
  let ?cat' = "mirror_rotation_commit ?rc ?cat"
  obtain f where f: "?act = ?act" "sg_segment_id ?act = st_active_segment_id (mm_state ?cat)" using running_active [OF run] by blast
  from rot obtain m where free: "wr_files w ?n = None" and m: "apply_rotation_commit R ?rc (wr_metadata w) = Inr m"
    and w': "w' = w\<lparr>wr_files := (wr_files w)(?n \<mapsto> []), wr_metadata := m, wr_active_segment := segment_empty ?n 0\<rparr>"
    by (auto simp: rotate_segment_def Let_def map_ok_Inr_iff split: if_splits)
  from m have md: "md_catalog m = ?cat'" by (auto simp: apply_rotation_commit_def map_ok_Inr_iff)
  have act: "bt_get (mm_segments ?cat) (sg_segment_id ?act) = Some ?act" and mi: "mirrors (content (wr_db w)) ?cat"
    and cok: "catalog_ok (wr_files w) J ?cat" using run f(2) by (simp_all add: running_ok_def)
  have segs: "bt_get (mm_segments ?cat') =
      ((bt_get (mm_segments ?cat))(sg_segment_id ?act \<mapsto> ?act\<lparr>sg_sealed := True\<rparr>))(?n \<mapsto> segment_empty ?n 0)"
    by (simp add: mirror_rotation_commit_def bt_get_insert segment_empty_def)
  have st: "mm_state ?cat' = \<lparr>st_next_segment_id = ?n + 1, st_active_segment_id = ?n\<rparr>" "mm_chunks ?cat' = mm_chunks ?cat"
    by (simp_all add: mirror_rotation_commit_def state_update)
  have "catalog_ok ((wr_files w)(?n \<mapsto> [])) J ?cat'"
    by (rule catalog_ok_new_segment [OF cok left free refl segs]) (use act st in auto)
  moreover have "mirrors (content (md_db m)) ?cat'" using kv_store.commits_mirror(2) [OF kv mi m] by (simp only: md)
  moreover have "?n \<noteq> 0" using cok by (auto simp: catalog_ok_def active_ok_def)
  ultimately show ?thesis using run by (auto simp: running_ok_def w' md st segs)
qed

text \<open>Trimming deletes only sealed segments below the bound, never the active one.\<close>

lemma trim_deleted:
  assumes "mirrors c cat" and "i \<in> set (tc_deleted_segments (build_trim_commit cat sl until))"
  obtains floor seg where "until = Some floor" "bt_get (mm_segments cat) i = Some seg" "sg_sealed seg" "sg_last_index seg < floor"
proof -
  from assms(2) obtain floor seg k where s: "until = Some floor" "(k, seg) \<in> set (mm_segments cat)" "i = sg_segment_id seg"
      "sg_sealed seg" "sg_last_index seg < floor"
    by (auto simp: build_trim_commit_def Let_def split: option.splits)
  have "bt_get (mm_segments cat) k = Some seg" using assms(1) s(2) by (simp add: mirrors_def bt_get_Some_iff)
  moreover from this have "k = i" using assms(1) s(3) by (auto simp: mirrors_def)
  ultimately show ?thesis using that s by blast
qed

lemma trim_commit_ok:
  assumes kv: "kv_store R content" and run: "running_ok content J w" and t: "trim_commit R (build_trim_commit (wr_catalog w) sl until) w = Inr w'"
    and S: "- set (tc_deleted_segments (build_trim_commit (wr_catalog w) sl until)) \<subseteq> S"
  shows "mirrors (content (wr_db w')) (wr_catalog w') \<and> catalog_ok (wr_files w |` S) J (wr_catalog w') \<and>
    wr_files w' = wr_files w \<and> wr_active_segment w' = wr_active_segment w \<and> mm_state (wr_catalog w') = mm_state (wr_catalog w) \<and>
    bt_get (mm_segments (wr_catalog w')) = bt_get (mm_segments (wr_catalog w)) |`
      (- set (tc_deleted_segments (build_trim_commit (wr_catalog w) sl until))) \<and>
    st_active_segment_id (mm_state (wr_catalog w)) \<notin> set (tc_deleted_segments (build_trim_commit (wr_catalog w) sl until))"
proof -
  let ?cat = "wr_catalog w" and ?tc = "build_trim_commit (wr_catalog w) sl until"
  let ?cat' = "mirror_trim_commit ?tc ?cat" and ?D = "set (tc_deleted_segments ?tc)"
  from t obtain m where m: "apply_trim_commit R ?tc (wr_metadata w) = Inr m" and w': "w' = w\<lparr>wr_metadata := m\<rparr>"
    by (auto simp: trim_commit_def map_ok_Inr_iff)
  from m have md: "md_catalog m = ?cat'" by (auto simp: apply_trim_commit_def map_ok_Inr_iff)
  have mi: "mirrors (content (wr_db w)) ?cat" and cok: "catalog_ok (wr_files w) J ?cat" using run by (simp_all add: running_ok_def)
  have "tc_deleted_chunks ?tc = map cm_first_index (filter (\<lambda>x. cm_segment_id x \<in> ?D) (mm_chunks ?cat))"
    by (simp add: build_trim_commit_def Let_def)
  from kv_store.commits_mirror(4) [OF kv mi m this] have mi': "mirrors (content (md_db m)) ?cat'" by (simp only: md)
  have segs: "bt_get (mm_segments ?cat') = bt_get (mm_segments ?cat) |` (- ?D)" and st: "mm_state ?cat' = mm_state ?cat"
    and chs: "set (mm_chunks ?cat') = {c \<in> set (mm_chunks ?cat). cm_segment_id c \<notin> ?D}"
    by (simp_all add: mirror_trim_commit_def bt_get_remove_keys)
  have act: "st_active_segment_id (mm_state ?cat) \<notin> ?D"
  proof
    assume "st_active_segment_id (mm_state ?cat) \<in> ?D"
    then obtain seg where "bt_get (mm_segments ?cat) (st_active_segment_id (mm_state ?cat)) = Some seg" "sg_sealed seg"
      by (rule trim_deleted [OF mi])
    then show False using running_active [OF run] run by (auto simp: running_ok_def)
  qed
  have "active_ok ?cat'" using cok run act by (auto simp: catalog_ok_def active_ok_def running_ok_def segs st)
  moreover have "segment_stored (wr_files w |` S) ?cat' k seg" if "bt_get (mm_segments ?cat') k = Some seg" for k seg
  proof -
    have k: "bt_get (mm_segments ?cat) k = Some seg" "k \<notin> ?D" using that by (auto simp: segs restrict_map_def split: if_splits)
    then have "segment_stored (wr_files w) ?cat k seg" using cok by (simp add: catalog_ok_def)
    then show ?thesis using k(2) S by (auto simp: segment_stored_def st restrict_map_def)
  qed
  moreover have "chunk_stored (wr_files w |` S) J ?cat' c" if "c \<in> set (mm_chunks ?cat')" for c
  proof -
    have c: "chunk_stored (wr_files w) J ?cat c" "cm_segment_id c \<notin> ?D" using that cok by (auto simp: chs catalog_ok_def)
    then have "cm_segment_id c \<in> S" using S by blast
    with c show ?thesis by (auto simp: chunk_stored_def segs)
  qed
  ultimately show ?thesis using mi' act w' md segs st by (simp add: catalog_ok_def)
qed

lemma handle_trim_ok:
  assumes kv: "kv_store R content" and run: "running_ok content J w" and t: "handle_trim R sl until w = Inr w'"
  shows "running_ok content J w'"
proof -
  let ?D = "set (tc_deleted_segments (build_trim_commit (wr_catalog w) sl until))"
  from t obtain w1 where w1: "trim_commit R (build_trim_commit (wr_catalog w) sl until) w = Inr w1"
    and w': "w' = w1\<lparr>wr_files := (wr_files w1) |` (- ?D)\<rparr>" by (auto simp: handle_trim_def Let_def map_ok_Inr_iff)
  note o = trim_commit_ok [OF kv run w1 subset_refl]
  have "\<forall>i. unat i < 10 ^ 12 \<and> (wr_files w |` (- ?D)) i \<noteq> None \<longrightarrow> bt_get (mm_segments (wr_catalog w1)) i \<noteq> None"
    using run o by (auto simp: running_ok_def restrict_map_def)
  then show ?thesis using run o by (simp add: running_ok_def w')
qed

text \<open>Opening the database and the segments.\<close>

lemma metadata_open_ok:
  assumes kv: "kv_store R content" and ok: "down_ok content J files db" and m: "metadata_open R db = Inr m"
  shows "mirrors (content (md_db m)) (md_catalog m) \<and> catalog_ok files J (md_catalog m)"
proof -
  note kg = kv_store.get_row [OF kv] and kl = kv_store.load_mirror [OF kv] and kw = kv_store.write_batch [OF kv]
  show ?thesis
  proof (cases "content db = (\<lambda>_. Map.empty)")
    case True
    let ?cat = "\<lparr>mm_slots = [], mm_segments = [], mm_chunks = [], mm_state = metadata_state_default, mm_replay_floor = 0\<rparr>"
    have "read_state R db = Inr None" using True by (simp add: read_state_def kg)
    with m obtain db1 where db1: "rdb_write R [Put StateCf state_key (state_encode metadata_state_default)] db = Inr db1"
      "load_catalog_from_db R db1 = Inr (md_catalog m)" "md_db m = db1"
      by (auto simp: metadata_open_def and_then_Inr_iff)
    have "mirrors (content db1) ?cat"
      using kw [OF db1(1)] True by (auto simp: mirrors_def rows_of_def chunk_map_def floor_row_def fun_eq_iff split: sum.split)
    moreover from kl [OF this] have "md_catalog m = ?cat" using db1(2) by simp
    ultimately show ?thesis using db1(3) by (simp add: catalog_ok_def active_ok_def metadata_state_default_def)
  next
    case False
    with ok obtain cat where cat: "mirrors (content db) cat" "catalog_ok files J cat" by (auto simp: down_ok_def)
    have "read_state R db = Inr (Some (mm_state cat))" using cat(1) by (simp add: mirrors_def read_state_def kg)
    with m kl [OF cat(1)] have "m = \<lparr>md_db = db, md_catalog = cat\<rparr>" by (simp add: metadata_open_def)
    with cat show ?thesis by simp
  qed
qed

lemma orphans_ok:
  assumes "catalog_ok files J cat"
  shows "catalog_ok (remove_orphan_segments cat files) J cat"
  by (rule catalog_ok_files [OF assms]) (simp add: remove_orphan_segments_def)

lemma writer_open_ok:
  assumes kv: "kv_store R content" and mi: "mirrors (content (md_db m)) (md_catalog m)" and cok: "catalog_ok files J (md_catalog m)"
    and left: "ids_left (md_catalog m)" and w: "writer_open R target files m = Inr w"
  shows "running_ok content J w"
proof (cases "st_active_segment_id (mm_state (md_catalog m)) = 0")
  case False
  let ?cat = "md_catalog m"
  obtain act where "bt_get (mm_segments ?cat) (st_active_segment_id (mm_state ?cat)) = Some act"
    using cok False by (auto simp: catalog_ok_def active_ok_def)
  with w False have "w = \<lparr>wr_files = remove_orphan_segments ?cat files, wr_segment_target_size = target, wr_metadata = m,
      wr_active_segment = act\<rparr>" "bt_get (mm_segments ?cat) (st_active_segment_id (mm_state ?cat)) = Some act"
    by (auto simp: writer_open_def Let_def split: if_splits)
  then show ?thesis using mi orphans_ok [OF cok] False by (simp add: running_ok_def remove_orphan_segments_def)
next
  case True
  let ?cat = "md_catalog m" and ?files = "remove_orphan_segments (md_catalog m) files"
  let ?n = "st_next_segment_id (mm_state ?cat)"
  let ?st = "\<lparr>st_next_segment_id = ?n + 1, st_active_segment_id = ?n\<rparr>"
  let ?cat' = "?cat\<lparr>mm_segments := bt_insert ?n (segment_empty ?n 0) (mm_segments ?cat), mm_state := ?st\<rparr>"
  have st: "(mm_state ?cat)\<lparr>st_active_segment_id := ?n, st_next_segment_id := ?n + 1\<rparr> = ?st" by (cases "mm_state ?cat") simp
  from w True obtain m2 act where free: "?files ?n = None" and m2: "initialize_empty R ?st (segment_empty ?n 0) m = Inr m2"
    and act: "bt_get (mm_segments (md_catalog m2)) (st_active_segment_id (mm_state (md_catalog m2))) = Some act"
    and w': "w = \<lparr>wr_files = ?files(?n \<mapsto> []), wr_segment_target_size = target, wr_metadata = m2, wr_active_segment = act\<rparr>"
    by (auto simp: writer_open_def Let_def st and_then_Inr_iff map_ok_Inr_iff split: if_splits option.splits)
  have id: "sg_segment_id (segment_empty ?n 0) = ?n" by (simp add: segment_empty_def)
  have "mirrors (content (md_db m2)) ?cat'" "md_catalog m2 = ?cat'"
  proof -
    from m2 obtain db where db: "rdb_write R [Put SegmentsCf (encode_u64_key ?n) (segment_meta_encode (segment_empty ?n 0)),
        Put StateCf state_key (state_encode ?st)] (md_db m) = Inr db"
      "load_catalog_from_db R db = Inr (md_catalog m2)" "md_db m2 = db"
      by (auto simp: initialize_empty_def id and_then_Inr_iff map_ok_Inr_iff)
    have "mirrors (content db) ?cat'"
      using mirrors_new_segment [OF mi, of "segment_empty ?n 0" ?st] kv_store.write_batch [OF kv db(1)] by (simp only: id)
    moreover from kv_store.load_mirror [OF kv this] show "md_catalog m2 = ?cat'" using db(2) by simp
    ultimately show "mirrors (content (md_db m2)) ?cat'" using db(3) by simp
  qed
  note m2' = this
  have segs: "bt_get (mm_segments ?cat') = (bt_get (mm_segments ?cat))(?n \<mapsto> segment_empty ?n 0)" by (simp add: bt_get_insert)
  have "catalog_ok (?files(?n \<mapsto> [])) J ?cat'"
    by (rule catalog_ok_new_segment [OF orphans_ok [OF cok] left free refl segs]) simp_all
  moreover have "?n \<noteq> 0" using cok by (auto simp: catalog_ok_def active_ok_def)
  ultimately show ?thesis using m2' act by (auto simp: running_ok_def w' bt_get_insert remove_orphan_segments_def)
qed

lemma catalog_ok_floor: "catalog_ok files J (cat\<lparr>mm_replay_floor := i\<rparr>) \<longleftrightarrow> catalog_ok files J cat"
  by (simp add: catalog_ok_def active_ok_def segment_stored_def chunk_stored_def)

fun node_ok :: "('db \<Rightarrow> cf \<Rightarrow> bytes \<rightharpoonup> bytes) \<Rightarrow> (u64 \<rightharpoonup> bytes) \<Rightarrow> 'db node \<Rightarrow> bool" where
  "node_ok content J (Running w) = running_ok content J w"
| "node_ok content J (Down files db) = down_ok content J files db"

lemma node_step_ok:
  assumes kv: "kv_store R content" and "node_step R n J n' J'" and "node_ok content J n"
  shows "node_ok content J' n'"
  using assms(2,3)
proof cases
  case (append ch w w')
  from append(4,6) obtain w1 where w1: "append_commit R ch w = Inr w1"
    "w' = w1 \<or> rotate_segment R w1 = Inr w'"
    by (auto simp: append_chunk_def and_then_Inr_iff split: if_splits)
  note c = append_commit_ok [OF kv _ append(5) w1(1)]
  have "running_ok content J w" using append assms(3) by simp
  with c have "running_ok content J' w1" "ids_left (wr_catalog w1)" using append by (auto simp: ids_left_def)
  then show ?thesis using w1(2) rotate_ok [OF kv] append by auto
next
  case (append_torn w f written)
  then have r: "running_ok content J w" using assms(3) by simp
  have "sg_segment_id (wr_active_segment w) = st_active_segment_id (mm_state (wr_catalog w))" by (rule running_active [OF r])
  then have "catalog_ok (wr_files w) J (wr_catalog w)" "mirrors (content (wr_db w)) (wr_catalog w)"
    "bt_get (mm_segments (wr_catalog w)) (sg_segment_id (wr_active_segment w)) = Some (wr_active_segment w)"
    using r by (simp_all add: running_ok_def)
  with catalog_ok_write [OF this(1,3), of f written] append_torn show ?thesis by (auto simp: down_ok_def)
next
  case (append_crash ch w w')
  then have "running_ok content J' w'" using append_commit_ok [OF kv _ append_crash(5,4)] assms(3) by simp
  then show ?thesis using running_down append_crash by auto
next
  case (rotate_torn ch w w')
  then have r: "running_ok content J' w'" using append_commit_ok [OF kv _ rotate_torn(5,4)] assms(3) by simp
  have "catalog_ok ((wr_files w')(st_next_segment_id (mm_state (wr_catalog w')) \<mapsto> [])) J' (wr_catalog w')"
  proof (rule catalog_ok_files)
    show ok: "catalog_ok (wr_files w') J' (wr_catalog w')" using r by (simp add: running_ok_def)
    show "\<forall>i. bt_get (mm_segments (wr_catalog w')) i \<noteq> None \<longrightarrow>
        ((wr_files w')(st_next_segment_id (mm_state (wr_catalog w')) \<mapsto> [])) i = wr_files w' i"
      using ok by (fastforce simp: catalog_ok_def segment_stored_def)
  qed
  then show ?thesis using r rotate_torn by (auto simp: running_ok_def down_ok_def)
next
  case (trim sl until w w')
  then show ?thesis using handle_trim_ok [OF kv _ trim(4)] assms(3) by auto
next
  case (trim_torn w sl until w' S)
  then have "running_ok content J w" using assms(3) by simp
  from trim_commit_ok [OF kv this trim_torn(4,5)] show ?thesis using trim_torn by (auto simp: down_ok_def)
next
  case (floor i w m)
  then have r: "running_ok content J w" using assms(3) by simp
  then have "mirrors (content (md_db m)) (md_catalog m)"
    using kv_store.commits_mirror(1) [OF kv _ floor(4)] by (simp add: running_ok_def)
  moreover have "md_catalog m = (wr_catalog w)\<lparr>mm_replay_floor := i\<rparr>"
    using floor(4) by (auto simp: set_replay_floor_def map_ok_Inr_iff)
  ultimately show ?thesis using r floor
    by (simp add: running_ok_def catalog_ok_floor)
next
  case (crash w)
  then show ?thesis using running_down assms(3) by auto
next
  case (restart db m target files w)
  then show ?thesis using metadata_open_ok [OF kv _ restart(4)] writer_open_ok [OF kv _ _ restart(5,6)] assms(3) by auto
next
  case (restart_torn db m files' files)
  then have "mirrors (content (md_db m)) (md_catalog m)" "catalog_ok files J (md_catalog m)"
    using metadata_open_ok [OF kv _ restart_torn(4)] assms(3) by auto
  then show ?thesis using catalog_ok_files restart_torn by (auto simp: down_ok_def)
qed

lemma node_reaches_ok:
  assumes kv: "kv_store R content" and "node_reaches R n J n' J'" and "node_ok content J n"
  shows "node_ok content J' n'"
  using assms(2,3) by induction (auto dest: node_step_ok [OF kv])

lemma reachable_ok:
  assumes "kv_store R content" and "content db0 = (\<lambda>_. Map.empty)" and "node_reaches R (Down Map.empty db0) Map.empty n J"
  shows "node_ok content J n"
  using node_reaches_ok [OF assms(1,3)] assms(2) by (simp add: down_ok_def)

definition empty_mirror :: metadata_mirror where
  "empty_mirror = \<lparr>mm_slots = [], mm_segments = [], mm_chunks = [], mm_state = metadata_state_default, mm_replay_floor = 0\<rparr>"

lemma first_open:
  assumes kv: "kv_store R content" and e: "content db = (\<lambda>_. Map.empty)" and wr: "\<And>ops db. \<exists>db'. rdb_write R ops db = Inr db'"
  shows "\<exists>db1. metadata_open R db = Inr \<lparr>md_db = db1, md_catalog = empty_mirror\<rparr>"
proof -
  obtain db1 where db1: "rdb_write R [Put StateCf state_key (state_encode metadata_state_default)] db = Inr db1" using wr by blast
  have "mirrors (content db1) empty_mirror" using kv_store.write_batch [OF kv db1] e
    by (auto simp: empty_mirror_def mirrors_def rows_of_def chunk_map_def floor_row_def fun_eq_iff split: sum.split)
  from kv_store.load_mirror [OF kv this] show ?thesis
    using db1 e by (simp add: metadata_open_def read_state_def kv_store.get_row [OF kv])
qed

text \<open>Start-up without a segment creates the next one.\<close>

lemma first_segment:
  assumes kv: "kv_store R content" and mi: "mirrors (content (md_db m)) (md_catalog m)"
    and none: "mm_segments (md_catalog m) = []" "st_active_segment_id (mm_state (md_catalog m)) = 0"
    and left: "ids_left (md_catalog m)" and wr: "\<And>ops db. \<exists>db'. rdb_write R ops db = Inr db'"
  shows "\<exists>w. writer_open R target files m = Inr w \<and>
    wr_active_segment w = segment_empty (st_next_segment_id (mm_state (md_catalog m))) 0 \<and>
    st_next_segment_id (mm_state (wr_catalog w)) = st_next_segment_id (mm_state (md_catalog m)) + 1 \<and>
    mm_chunks (wr_catalog w) = mm_chunks (md_catalog m)"
proof -
  let ?cat = "md_catalog m" and ?files = "remove_orphan_segments (md_catalog m) files"
  let ?n = "st_next_segment_id (mm_state ?cat)"
  let ?st = "(mm_state ?cat)\<lparr>st_active_segment_id := ?n, st_next_segment_id := ?n + 1\<rparr>"
  let ?cat' = "?cat\<lparr>mm_segments := bt_insert ?n (segment_empty ?n 0) (mm_segments ?cat), mm_state := ?st\<rparr>"
  have n: "sg_segment_id (segment_empty ?n 0) = ?n" by (simp add: segment_empty_def)
  obtain db1 where db1: "rdb_write R [Put SegmentsCf (encode_u64_key ?n) (segment_meta_encode (segment_empty ?n 0)),
      Put StateCf state_key (state_encode ?st)] (md_db m) = Inr db1" using wr by blast
  have "mirrors (content db1) ?cat'"
    using mirrors_new_segment [OF mi, of "segment_empty ?n 0" ?st] kv_store.write_batch [OF kv db1] by (simp add: n)
  from kv_store.load_mirror [OF kv this] have "initialize_empty R ?st (segment_empty ?n 0) m = Inr (m\<lparr>md_db := db1, md_catalog := ?cat'\<rparr>)"
    using db1 by (simp add: initialize_empty_def n)
  moreover have "?files ?n = None" using left none by (simp add: remove_orphan_segments_def ids_left_def)
  ultimately show ?thesis using none n by (simp add: writer_open_def Let_def bt_get_def)
qed

text \<open>Start-up on files and a database that a crash left.\<close>

lemma recovery:
  assumes kv: "kv_store R content" and ok: "down_ok content J files db" and wr: "\<And>ops db. \<exists>db'. rdb_write R ops db = Inr db'"
  shows "\<exists>m. metadata_open R db = Inr m \<and> (ids_left (md_catalog m) \<longrightarrow> (\<exists>w. writer_open R target files m = Inr w))"
proof -
  have "\<exists>m. metadata_open R db = Inr m"
  proof (cases "content db = (\<lambda>_. Map.empty)")
    case True
    then show ?thesis using first_open [OF kv _ wr] by blast
  next
    case False
    with ok obtain cat where "mirrors (content db) cat" by (auto simp: down_ok_def)
    with kv_store.load_mirror [OF kv this] show ?thesis
      by (simp add: metadata_open_def read_state_def kv_store.get_row [OF kv] mirrors_def)
  qed
  then obtain m where m: "metadata_open R db = Inr m" by blast
  note c = metadata_open_ok [OF kv ok m]
  let ?cat = "md_catalog m"
  have "\<exists>w. writer_open R target files m = Inr w" if left: "ids_left ?cat"
  proof (cases "st_active_segment_id (mm_state ?cat) = 0")
    case False
    then obtain act where act: "bt_get (mm_segments ?cat) (st_active_segment_id (mm_state ?cat)) = Some act"
      using c by (auto simp: catalog_ok_def active_ok_def)
    then have "sg_segment_id act = st_active_segment_id (mm_state ?cat)" using c by (auto simp: mirrors_def)
    moreover have "segment_stored files ?cat (st_active_segment_id (mm_state ?cat)) act" using c act by (simp add: catalog_ok_def)
    ultimately show ?thesis using False act
      by (auto simp: writer_open_def Let_def remove_orphan_segments_def segment_stored_def)
  next
    case True
    then have "mm_segments ?cat = []" using c by (simp add: catalog_ok_def active_ok_def)
    then show ?thesis using first_segment [OF kv _ _ True left wr] c by blast
  qed
  with m show ?thesis by blast
qed

text \<open>Appending a chunk fails only when a write to the database fails.\<close>

lemma append_progress:
  assumes kv: "kv_store R content" and run: "running_ok content J w" and ch: "next_chunk ch w" and left: "ids_left (wr_catalog w)"
    and wr: "\<And>ops db. \<exists>db'. rdb_write R ops db = Inr db'"
  shows "\<exists>w'. append_chunk R ch w = Inr w' \<and> mm_chunks (wr_catalog w') = mm_chunks (wr_catalog w) @ [chunk_meta_of (wr_active_segment w) ch]"
proof -
  obtain f where f: "wr_files w (sg_segment_id (wr_active_segment w)) = Some f" by (rule running_active [OF run])
  obtain db1 where "rdb_write R (chunk_batch (build_chunk_commit (wr_catalog w) (wr_active_segment w)
      (chunk_meta_of (wr_active_segment w) ch) (zc_pending_slots ch) (zc_pending_finalized ch))) (wr_db w) = Inr db1" using wr by blast
  then obtain w1 where w1: "append_commit R ch w = Inr w1"
    "mm_chunks (wr_catalog w1) = mm_chunks (wr_catalog w) @ [chunk_meta_of (wr_active_segment w) ch]"
    using f by (auto simp: append_commit_def Let_def apply_chunk_commit_def mirror_chunk_commit_def build_chunk_commit_def)
  have c: "running_ok content (J(zc_first_index ch \<mapsto> zc_payload ch)) w1" "mm_state (wr_catalog w1) = mm_state (wr_catalog w)"
    using append_commit_ok [OF kv run ch w1(1)] by blast+
  let ?n = "st_next_segment_id (mm_state (wr_catalog w1))"
  have "bt_get (mm_segments (wr_catalog w1)) ?n = None"
    using c(1) by (cases "bt_get (mm_segments (wr_catalog w1)) ?n") (auto simp: running_ok_def catalog_ok_def segment_stored_def)
  then have free: "wr_files w1 ?n = None" using c left unfolding running_ok_def ids_left_def by (metis c(2))
  obtain db2 where "rdb_write R (rotation_batch \<lparr>rc_sealed_segment = (wr_active_segment w1)\<lparr>sg_sealed := True\<rparr>,
      rc_new_segment = segment_empty ?n 0,
      rc_state = (mm_state (wr_catalog w1))\<lparr>st_next_segment_id := ?n + 1, st_active_segment_id := ?n\<rparr>\<rparr>) (wr_db w1) = Inr db2"
    using wr by blast
  then have "\<exists>w'. rotate_segment R w1 = Inr w' \<and> mm_chunks (wr_catalog w') = mm_chunks (wr_catalog w1)"
    using free by (simp add: rotate_segment_def Let_def apply_rotation_commit_def mirror_rotation_commit_def)
  then show ?thesis using w1 by (auto simp: append_chunk_def)
qed

definition example_chunk :: compressed_chunk where
  "example_chunk = \<lparr>zc_compression = 196, zc_first_index = 0, zc_last_index = 1, zc_payload = [3, 0, 7, 9],
     zc_pending_slots = [\<lparr>pe_slot = 7, pe_first_index = 0\<rparr>], zc_pending_finalized = []\<rparr>"

abbreviation empty_db :: "cf \<Rightarrow> (bytes, bytes) alist" where
  "empty_db \<equiv> \<lambda>_. DAList.empty"

lemma empty_db_content: "ref_content empty_db = (\<lambda>_. Map.empty)"
  by (simp add: ref_content_def fun_eq_iff DAList.lookup_empty)

lemma ref_db_writes: "\<exists>db'. rdb_write ref_db ops db = Inr db'"
  by (simp add: ref_db_def)

text \<open>A start and an append on the reference store.\<close>

lemma example_journal:
  obtains w where "node_reaches ref_db (Down Map.empty empty_db) Map.empty (Running w) [0 \<mapsto> [3, 0, 7, 9]]"
    "mm_chunks (wr_catalog w) = [chunk_meta_of (segment_empty 1 0) example_chunk]"
proof -
  note kv = ref_store.kv_store_axioms
  obtain db1 where m: "metadata_open ref_db empty_db = Inr \<lparr>md_db = db1, md_catalog = empty_mirror\<rparr>" (is "_ = Inr ?m")
    using first_open [OF kv empty_db_content ref_db_writes] by blast
  have st: "st_next_segment_id (mm_state empty_mirror) = 1" "st_active_segment_id (mm_state empty_mirror) = 0"
    "mm_segments empty_mirror = []" "mm_chunks empty_mirror = []" by (simp_all add: empty_mirror_def metadata_state_default_def)
  have left: "ids_left (md_catalog ?m)" using st by (simp add: ids_left_def)
  have "down_ok ref_content Map.empty Map.empty empty_db" by (simp add: down_ok_def empty_db_content)
  from metadata_open_ok [OF kv this m] have mi: "mirrors (ref_content (md_db ?m)) (md_catalog ?m)" by simp
  obtain w where w: "writer_open ref_db 1000 Map.empty ?m = Inr w" "wr_active_segment w = segment_empty 1 0"
    "st_next_segment_id (mm_state (wr_catalog w)) = 2" "mm_chunks (wr_catalog w) = []"
    using first_segment [OF kv mi _ _ left ref_db_writes, of 1000 Map.empty] st by auto
  from node_reaches.step [OF node_reaches.start node_step.restart [OF m left w(1)]]
  have r: "node_reaches ref_db (Down Map.empty empty_db) Map.empty (Running w) Map.empty" .
  have run: "running_ok ref_content Map.empty w" using reachable_ok [OF kv empty_db_content r] by simp
  have nx: "next_chunk example_chunk w" using w by (simp add: next_chunk_def example_chunk_def segment_empty_def)
  have left': "ids_left (wr_catalog w)" using w by (simp add: ids_left_def)
  from append_progress [OF kv run nx left' ref_db_writes] obtain w' where
    w': "append_chunk ref_db example_chunk w = Inr w'" "mm_chunks (wr_catalog w') = [chunk_meta_of (segment_empty 1 0) example_chunk]"
    using w by auto
  from node_reaches.step [OF r node_step.append [OF w'(1) nx left']] w'(2) show ?thesis
    by (intro that) (simp_all add: example_chunk_def)
qed

subsection \<open>Properties\<close>

text \<open>\<^bold>\<open>C23.\<close> The journal survives crashes: from an empty store, in every state that is reached by
  appending, rotating, trimming, moving the replay floor, by a crash at any point of these
  operations (a torn write behind the committed length, a created file that is not
  committed, a committed trim whose files are not all deleted) and by restarts, loading the
  database returns exactly the catalog of the running writer, and every chunk of the
  catalog reads back the payload that was committed for it.\<close>

theorem journal_crash_safe:
  assumes "kv_store R content" and "content db0 = (\<lambda>_. Map.empty)" and "node_reaches R (Down Map.empty db0) Map.empty n J"
  shows "case n of
    Running w \<Rightarrow> load_catalog_from_db R (wr_db w) = Inr (wr_catalog w) \<and> (\<forall>c\<in>set (mm_chunks (wr_catalog w)).
      \<exists>f p. wr_files w (cm_segment_id c) = Some f \<and> J (cm_first_index c) = Some p \<and>
        slice (unat (cm_offset c)) (unat (cm_offset c) + unat (cm_size c)) f = Some p)
  | Down files db \<Rightarrow> content db = (\<lambda>_. Map.empty) \<or> (\<exists>cat. load_catalog_from_db R db = Inr cat \<and> (\<forall>c\<in>set (mm_chunks cat).
      \<exists>f p. files (cm_segment_id c) = Some f \<and> J (cm_first_index c) = Some p \<and>
        slice (unat (cm_offset c)) (unat (cm_offset c) + unat (cm_size c)) f = Some p))"
proof -
  have read: "\<exists>f p. files (cm_segment_id c) = Some f \<and> J (cm_first_index c) = Some p \<and>
      slice (unat (cm_offset c)) (unat (cm_offset c) + unat (cm_size c)) f = Some p"
    if "catalog_ok files J cat" "c \<in> set (mm_chunks cat)" for files cat c
    using that by (auto simp: catalog_ok_def chunk_stored_def)
  note ok = reachable_ok [OF assms] and kl = kv_store.load_mirror [OF assms(1)]
  show ?thesis
  proof (cases n)
    case (Running w)
    then show ?thesis using ok kl read by (auto simp: running_ok_def)
  next
    case (Down files db)
    then show ?thesis using ok kl read by (fastforce simp: down_ok_def)
  qed
qed

theorem journal_crash_safe_witness:
  "\<exists>w. node_reaches ref_db (Down Map.empty empty_db) Map.empty (Running w) [0 \<mapsto> [3, 0, 7, 9]] \<and>
    load_catalog_from_db ref_db (wr_db w) = Inr (wr_catalog w) \<and>
    (\<exists>f. wr_files w 1 = Some f \<and> slice 0 4 f = Some [3, 0, 7, 9])"
proof -
  obtain w where w: "node_reaches ref_db (Down Map.empty empty_db) Map.empty (Running w) [0 \<mapsto> [3, 0, 7, 9]]"
    "mm_chunks (wr_catalog w) = [chunk_meta_of (segment_empty 1 0) example_chunk]" by (rule example_journal)
  from journal_crash_safe [OF ref_store.kv_store_axioms empty_db_content w(1)] w show ?thesis
    by (auto simp: chunk_meta_of_def segment_empty_def example_chunk_def)
qed

text \<open>\<^bold>\<open>C24.\<close> Recovery succeeds: whatever a crash left behind, start-up returns a writer when the
  writes to the database succeed and segment numbers are left; orphaned files, missing
  files or leftover bytes never make it fail.\<close>

theorem recovery_succeeds:
  assumes "kv_store R content" and "content db0 = (\<lambda>_. Map.empty)"
    and "node_reaches R (Down Map.empty db0) Map.empty (Down files db) J" and "\<And>ops db. \<exists>db'. rdb_write R ops db = Inr db'"
  shows "\<exists>m. metadata_open R db = Inr m \<and> (ids_left (md_catalog m) \<longrightarrow> (\<exists>w. writer_open R target files m = Inr w))"
  using recovery [OF assms(1) _ assms(4)] reachable_ok [OF assms(1-3)] by simp

theorem recovery_succeeds_witness:
  "\<exists>files db m. node_reaches ref_db (Down Map.empty empty_db) Map.empty (Down files db) [0 \<mapsto> [3, 0, 7, 9]] \<and>
    metadata_open ref_db db = Inr m"
proof -
  obtain w where w: "node_reaches ref_db (Down Map.empty empty_db) Map.empty (Running w) [0 \<mapsto> [3, 0, 7, 9]]"
    by (rule example_journal)
  have r: "node_reaches ref_db (Down Map.empty empty_db) Map.empty (Down (wr_files w) (wr_db w)) [0 \<mapsto> [3, 0, 7, 9]]"
    by (rule node_reaches.step [OF w node_step.crash])
  from recovery_succeeds [OF ref_store.kv_store_axioms empty_db_content r ref_db_writes] r show ?thesis by blast
qed

text \<open>\<^bold>\<open>C25.\<close> Retention never deletes history that is needed: trimming with the bound \<open>floor\<close> keeps every
  chunk that has a record at or above the bound, together with the file it is in.\<close>

theorem trim_keeps_history:
  assumes "kv_store R content" and "content db0 = (\<lambda>_. Map.empty)" and "node_reaches R (Down Map.empty db0) Map.empty (Running w) J"
    and "handle_trim R sl (Some floor) w = Inr w'" and "c \<in> set (mm_chunks (wr_catalog w))" and "floor \<le> cm_last_index c"
  shows "c \<in> set (mm_chunks (wr_catalog w')) \<and> wr_files w' (cm_segment_id c) = wr_files w (cm_segment_id c)"
proof -
  let ?tc = "build_trim_commit (wr_catalog w) sl (Some floor)"
  have run: "running_ok content J w" using reachable_ok [OF assms(1-3)] by simp
  have mi: "mirrors (content (wr_db w)) (wr_catalog w)" and "chunk_stored (wr_files w) J (wr_catalog w) c"
    using run assms(5) by (simp_all add: running_ok_def catalog_ok_def)
  then obtain seg where seg: "bt_get (mm_segments (wr_catalog w)) (cm_segment_id c) = Some seg" "cm_last_index c \<le> sg_last_index seg"
    by (auto simp: chunk_stored_def)
  have "cm_segment_id c \<notin> set (tc_deleted_segments ?tc)"
  proof
    assume "cm_segment_id c \<in> set (tc_deleted_segments ?tc)"
    then obtain fl seg' where "Some floor = Some fl" "bt_get (mm_segments (wr_catalog w)) (cm_segment_id c) = Some seg'"
      "sg_last_index seg' < fl" by (rule trim_deleted [OF mi])
    then show False using seg assms(6) by auto
  qed
  moreover from assms(4) have "mm_chunks (wr_catalog w') = filter (\<lambda>c. cm_segment_id c \<notin> set (tc_deleted_segments ?tc)) (mm_chunks (wr_catalog w))"
    "wr_files w' = wr_files w |` (- set (tc_deleted_segments ?tc))"
    by (auto simp: handle_trim_def trim_commit_def apply_trim_commit_def mirror_trim_commit_def Let_def map_ok_Inr_iff)
  ultimately show ?thesis using assms(5) by simp
qed

theorem trim_keeps_history_witness:
  "\<exists>w w'. handle_trim ref_db 7 (Some 1) w = Inr w' \<and> chunk_meta_of (segment_empty 1 0) example_chunk \<in> set (mm_chunks (wr_catalog w'))"
proof -
  let ?c = "chunk_meta_of (segment_empty 1 0) example_chunk"
  obtain w where w: "node_reaches ref_db (Down Map.empty empty_db) Map.empty (Running w) [0 \<mapsto> [3, 0, 7, 9]]"
    "mm_chunks (wr_catalog w) = [?c]" by (rule example_journal)
  obtain w' where w': "handle_trim ref_db 7 (Some 1) w = Inr w'"
    by (simp add: handle_trim_def trim_commit_def apply_trim_commit_def ref_db_def Let_def)
  have "?c \<in> set (mm_chunks (wr_catalog w))" "1 \<le> cm_last_index ?c" using w(2) by (simp_all add: chunk_meta_of_def example_chunk_def)
  from trim_keeps_history [OF ref_store.kv_store_axioms empty_db_content w(1) w' this] w' show ?thesis by blast
qed

text \<open>\<^bold>\<open>C26.\<close> The compressor threads may finish in any order: whatever the order in which their outputs
  arrive, the writer has the same result as if it had processed them one after the other
  in the order of their sequence numbers, also when an operation fails.\<close>

theorem writer_order_independent:
  assumes "\<And>i. i < length outs \<Longrightarrow> co_seq (outs ! i) = of_nat i" and "length outs < 2 ^ 64" and "distinct arrived" and "set arrived = set outs"
  shows "writer_run R arrived w = process_all (writer_process R) outs w"
proof -
  let ?is = "map (\<lambda>x. unat (co_seq x)) arrived"
  have at: "unat (co_seq (outs ! i)) = i" if "i < length outs" for i
    using that assms(1) [OF that] assms(2) by (simp add: unat_of_nat_u64)
  have nth: "unat (co_seq x) < length outs \<and> outs ! unat (co_seq x) = x" if "x \<in> set arrived" for x
    using that assms(4) at by (auto simp: in_set_conv_nth)
  have a: "arrived = map ((!) outs) ?is" using nth by (simp add: map_idI)
  have "inj_on (\<lambda>x. unat (co_seq x)) (set arrived)" by (rule inj_onI) (metis nth)
  then have d: "distinct ?is" using assms(3) by (simp add: distinct_map)
  have s: "set ?is = {..<length outs} - {}"
  proof -
    have "set outs = (!) outs ` {..<length outs}" by (auto simp: set_conv_nth)
    then have "set ?is = (\<lambda>i. unat (co_seq (outs ! i))) ` {..<length outs}" using assms(4) by (simp add: image_image)
    also have "\<dots> = (\<lambda>i. i) ` {..<length outs}" by (rule image_cong) (simp_all add: at)
    finally show ?thesis by simp
  qed
  have p: "pending_ok co_seq outs {} 0 []" by (simp add: pending_ok_def)
  have "run_ordered co_seq (writer_process R) (of_nat 0) [] arrived w = process_all (writer_process R) (drop 0 outs) w"
    by (rule run_ordered_ok [OF _ assms(2) p _ a d s]) (simp_all add: assms(1))
  then show ?thesis by (simp add: writer_run_def)
qed

theorem writer_order_independent_witness:
  "\<forall>w. writer_run ref_db [CO_Trim 1 8 (Some 5), CO_CompressedChunk 0 example_chunk] w =
    process_all (writer_process ref_db) [CO_CompressedChunk 0 example_chunk, CO_Trim 1 8 (Some 5)] w"
proof
  fix w :: "(cf \<Rightarrow> (bytes, bytes) alist) segment_writer"
  let ?outs = "[CO_CompressedChunk 0 example_chunk, CO_Trim 1 8 (Some 5)]"
  have "co_seq (?outs ! i) = of_nat i" if "i < length ?outs" for i using that by (cases i) simp_all
  then show "writer_run ref_db [CO_Trim 1 8 (Some 5), CO_CompressedChunk 0 example_chunk] w = process_all (writer_process ref_db) ?outs w"
    by (intro writer_order_independent) (simp_all add: insert_commute)
qed

end
