(* ===== verification/Storage_Collector.thy ===== *)
theory Storage_Collector
  imports Richat_Sender Storage_Writer
begin

unbundle bit_operations_syntax

text \<open>
  The first stage of the journal's write pipeline (\<open>run_collector\<close>, \<open>PayloadReferences\<close> and
  \<open>PendingChunkMeta\<close> of \<open>richat/src/storage/segments.rs\<close>): commands of the sender become chunks
  of records, where a message that is published again is a reference to its first record.
  The address of a message's allocation is the argument \<open>ident\<close>; the size of a message is
  the argument \<open>sz\<close>. The channel to the compressor is the list of the outputs. The last part
  composes the sender with the collector.
\<close>

datatype 'x raw_payload = RawMessage "'x parsed_message" | RawReference u64

record 'x raw_record =
  rr_commitment :: commitment_level
  rr_slot :: slot
  rr_block :: bool
  rr_finalized :: bool
  rr_payload :: "'x raw_payload"

definition saturating_add :: "nat \<Rightarrow> nat \<Rightarrow> nat" where
  "saturating_add a b = min (a + b) (2 ^ 64 - 1)"

fun estimated_payload_size :: "('x parsed_message \<Rightarrow> nat) \<Rightarrow> 'x raw_payload \<Rightarrow> nat" where
  "estimated_payload_size sz (RawMessage m) = saturating_add (sz m) 16"
| "estimated_payload_size sz (RawReference i) = 32"

definition estimated_size :: "('x parsed_message \<Rightarrow> nat) \<Rightarrow> 'x raw_record \<Rightarrow> nat" where
  "estimated_size sz r = estimated_payload_size sz (rr_payload r)"

type_synonym identity_key = "u8 \<times> nat"

fun payload_tag :: "'x parsed_message \<Rightarrow> u8" where
  "payload_tag (RP_Slot _) = 0"
| "payload_tag (RP_Account _) = 1"
| "payload_tag (RP_Transaction _) = 2"
| "payload_tag (RP_Entry _) = 3"
| "payload_tag (RP_BlockMeta _) = 4"
| "payload_tag (RP_Block _) = 5"
| "payload_tag (RP_BlockFooter _ _ _) = 6"
| "payload_tag (RP_EntryUpdateParent _ _ _) = 7"

definition payload_identity :: "('x parsed_message \<Rightarrow> nat) \<Rightarrow> 'x parsed_message \<Rightarrow> identity_key" where
  "payload_identity ident m = (payload_tag m, ident m)"

type_synonym payload_references = "(slot, identity_key \<rightharpoonup> u64) btree"

definition slot_references :: "payload_references \<Rightarrow> slot \<Rightarrow> identity_key \<rightharpoonup> u64" where
  "slot_references refs sl = (case bt_get refs sl of Some m \<Rightarrow> m | None \<Rightarrow> Map.empty)"

definition is_block :: "'x parsed_message \<Rightarrow> bool" where
  "is_block m = (case m of RP_Block _ \<Rightarrow> True | _ \<Rightarrow> False)"

definition is_finalized_status :: "'x parsed_message \<Rightarrow> bool" where
  "is_finalized_status m = (case m of RP_Slot s \<Rightarrow> ms_status s = SlotFinalized | _ \<Rightarrow> False)"

text \<open>\<open>PayloadReferences::record\<close>\<close>

definition references_record :: "('x parsed_message \<Rightarrow> nat) \<Rightarrow> slot \<Rightarrow> u64 \<Rightarrow> commitment_level \<Rightarrow> 'x parsed_message \<Rightarrow>
    payload_references \<Rightarrow> 'x raw_record \<times> payload_references" where
  "references_record ident sl index c m refs =
     (let identity = payload_identity ident m; known = slot_references refs sl;
          finalized = (c = Processed \<and> is_finalized_status m);
          (payload, known') = (case known identity of
             Some i \<Rightarrow> (RawReference i, known)
           | None \<Rightarrow> (RawMessage m, known(identity \<mapsto> index)));
          refs1 = bt_insert sl known' refs;
          refs2 = (if finalized then bt_pop_while (\<lambda>old. old \<le> sl) refs1 else refs1) in
      (\<lparr>rr_commitment = c, rr_slot = sl, rr_block = is_block m, rr_finalized = finalized, rr_payload = payload\<rparr>, refs2))"

text \<open>\<open>PendingChunkMeta\<close>; the set of finalized slots is the list of its elements.\<close>

record pending_chunk_meta =
  pm_estimated_uncompressed_size :: nat
  pm_record_count :: u32
  pm_first_index :: u64
  pm_last_index :: u64
  pm_pending_slots :: "pending_slot list"
  pm_pending_finalized :: "slot list"

definition pending_default :: pending_chunk_meta where
  "pending_default = \<lparr>pm_estimated_uncompressed_size = 0, pm_record_count = 0, pm_first_index = 0, pm_last_index = 0,
     pm_pending_slots = [], pm_pending_finalized = []\<rparr>"

definition pending_push :: "('x parsed_message \<Rightarrow> nat) \<Rightarrow> bool \<Rightarrow> slot \<Rightarrow> u64 \<Rightarrow> u64 \<Rightarrow> 'x raw_record \<Rightarrow> pending_chunk_meta \<Rightarrow>
    pending_chunk_meta" where
  "pending_push sz init sl head index r p =
     p\<lparr>pm_first_index := (if pm_record_count p = 0 then index else pm_first_index p), pm_last_index := index,
       pm_estimated_uncompressed_size := saturating_add (pm_estimated_uncompressed_size p) (estimated_size sz r),
       pm_pending_slots := (if init then pm_pending_slots p @ [\<lparr>pe_slot = sl, pe_first_index = head\<rparr>] else pm_pending_slots p),
       pm_pending_finalized := (if rr_finalized r then List.insert sl (pm_pending_finalized p) else pm_pending_finalized p),
       pm_record_count := pm_record_count p + 1\<rparr>"

definition pending_should_flush :: "pending_chunk_meta \<Rightarrow> nat \<Rightarrow> bool" where
  "pending_should_flush p target = (pm_estimated_uncompressed_size p \<ge> target)"

definition pending_is_empty :: "pending_chunk_meta \<Rightarrow> bool" where
  "pending_is_empty p = (pm_record_count p = 0)"

subsection \<open>\<open>run_collector\<close>\<close>

datatype 'x collector_output =
  CL_RawChunk u64 u64 u64 "'x raw_record list" "pending_slot list" "slot list"
| CL_Trim u64 slot "u64 option"

record 'x collector =
  cl_records :: "'x raw_record list"
  cl_pending :: pending_chunk_meta
  cl_next_seq :: u64
  cl_references :: payload_references
  cl_sent :: "'x collector_output list"

definition collector_new :: "'x collector" where
  "collector_new = \<lparr>cl_records = [], cl_pending = pending_default, cl_next_seq = 0, cl_references = [], cl_sent = []\<rparr>"

text \<open>What \<open>recv_timeout\<close> returns: a command, a timeout, or that the sender is gone.\<close>

datatype 'x collector_event = CE_Command "'x writer_command" | CE_Timeout | CE_Closed

definition last_processed :: "'x raw_record list \<Rightarrow> bool" where
  "last_processed rs = (rs \<noteq> [] \<and> rr_commitment (last rs) = Processed)"

text \<open>The first half of an iteration: the new state, whether to flush, and a trim.\<close>

fun collector_receive :: "nat \<Rightarrow> ('x parsed_message \<Rightarrow> nat) \<Rightarrow> ('x parsed_message \<Rightarrow> nat) \<Rightarrow> 'x collector_event \<Rightarrow> 'x collector \<Rightarrow>
    'x collector \<times> bool \<times> (slot \<times> u64 option) option" where
  "collector_receive target sz ident (CE_Command (WC_RestorePayload index m)) c =
     (c\<lparr>cl_references := bt_insert (parsed_slot m) ((slot_references (cl_references c) (parsed_slot m))(payload_identity ident m \<mapsto> index))
        (cl_references c)\<rparr>, False, None)"
| "collector_receive target sz ident (CE_Command (WC_PushMessage com init sl head index m)) c =
     (let (r, refs) = references_record ident sl index com m (cl_references c);
          pending = pending_push sz init sl head index r (cl_pending c) in
      (c\<lparr>cl_references := refs, cl_pending := pending, cl_records := cl_records c @ [r]\<rparr>,
       com = Processed \<and> pending_should_flush pending target, None))"
| "collector_receive target sz ident (CE_Command (WC_RemoveReplay sl until)) c =
     (c\<lparr>cl_references := bt_remove sl (cl_references c)\<rparr>, True, Some (sl, until))"
| "collector_receive target sz ident CE_Timeout c = (c, last_processed (cl_records c), None)"
| "collector_receive target sz ident CE_Closed c = (c, False, None)"

definition collector_flush :: "bool \<Rightarrow> 'x collector \<Rightarrow> error + 'x collector" where
  "collector_flush flush c =
     (if flush \<and> \<not> pending_is_empty (cl_pending c)
      then (if \<not> last_processed (cl_records c) then Inl ''incomplete commitment publication in storage collector''
            else Inr (c\<lparr>cl_pending := pending_default, cl_records := [], cl_next_seq := cl_next_seq c + 1,
              cl_sent := cl_sent c @ [CL_RawChunk (cl_next_seq c) (pm_first_index (cl_pending c)) (pm_last_index (cl_pending c))
                (cl_records c) (pm_pending_slots (cl_pending c)) (pm_pending_finalized (cl_pending c))]\<rparr>))
      else Inr c)"

definition collector_trim :: "(slot \<times> u64 option) option \<Rightarrow> 'x collector \<Rightarrow> 'x collector" where
  "collector_trim trim c = (case trim of None \<Rightarrow> c
     | Some (sl, until) \<Rightarrow> c\<lparr>cl_sent := cl_sent c @ [CL_Trim (cl_next_seq c) sl until], cl_next_seq := cl_next_seq c + 1\<rparr>)"

definition collector_step :: "nat \<Rightarrow> ('x parsed_message \<Rightarrow> nat) \<Rightarrow> ('x parsed_message \<Rightarrow> nat) \<Rightarrow> 'x collector_event \<Rightarrow> 'x collector \<Rightarrow>
    error + 'x collector" where
  "collector_step target sz ident e c =
     (let (c1, should_flush, trim) = collector_receive target sz ident e c in
      map_ok (collector_trim trim) (collector_flush (should_flush \<or> e = CE_Closed) c1))"

fun run_collector :: "nat \<Rightarrow> ('x parsed_message \<Rightarrow> nat) \<Rightarrow> ('x parsed_message \<Rightarrow> nat) \<Rightarrow> 'x collector_event list \<Rightarrow> 'x collector \<Rightarrow>
    error + 'x collector" where
  "run_collector target sz ident [] c = Inr c"
| "run_collector target sz ident (e # es) c = and_then (collector_step target sz ident e c)
     (\<lambda>c1. if e = CE_Closed then Inr c1 else run_collector target sz ident es c1)"

subsection \<open>The order of the commands\<close>

text \<open>The commands of a sender are in order when the journal indices are consecutive and
  everything that is published for one message ends with the record of the processed
  commitment, before a slot is trimmed or the sender stops.\<close>

fun journal_step :: "'x writer_command \<Rightarrow> u64 \<times> bool \<Rightarrow> (u64 \<times> bool) option" where
  "journal_step (WC_RestorePayload _ _) ic = Some ic"
| "journal_step (WC_PushMessage com _ _ _ index _) ic = (if index = fst ic then Some (index + 1, com = Processed) else None)"
| "journal_step (WC_RemoveReplay _ _) ic = (if snd ic then Some ic else None)"

fun journal_run :: "'x writer_command list \<Rightarrow> u64 \<times> bool \<Rightarrow> (u64 \<times> bool) option" where
  "journal_run [] ic = Some ic"
| "journal_run (c # cs) ic = Option.bind (journal_step c ic) (journal_run cs)"

lemma journal_run_append: "journal_run (cs @ cs') ic = Option.bind (journal_run cs ic) (journal_run cs')"
  by (induction cs arbitrary: ic) (auto split: bind_split)

definition command_log :: "('x, 'w, 'db) sender \<Rightarrow> 'x writer_command list" where
  "command_log s = (case sn_storage s of None \<Rightarrow> [] | Some st \<Rightarrow> rst_sent st)"

text \<open>\<open>s\<close> has sent commands in order; the flag tells that the last publication is complete.\<close>

definition in_order :: "bool \<Rightarrow> u64 \<Rightarrow> ('x, 'w, 'db) sender \<Rightarrow> bool" where
  "in_order c i s \<longleftrightarrow> ss_commitment (sn_processed s) = Processed \<and>
     (sn_storage s = None \<longrightarrow> sn_index s = i) \<and>
     (\<exists>c'. journal_run (command_log s) (i, True) = Some (sn_index s, c') \<and> (c \<longrightarrow> c'))"

lemma rpush_commitment: "rpush sz ss sl m i = Some ss' \<Longrightarrow> ss_commitment ss' = ss_commitment ss"
proof -
  have d: "rdrop_by_bytes sz ss r = Some (ss', r') \<Longrightarrow> ss_commitment ss' = ss_commitment ss" for sz ss r ss' r'
  proof (induction sz ss r arbitrary: ss' r' rule: rdrop_by_bytes.induct)
    case (1 sz ss r)
    show ?case
    proof (cases "ss_bytes_max ss \<le> ss_bytes_total ss \<and> ss_head ss < ss_tail ss")
      case True
      with 1(2) obtain it d where c: "cell_at (ss_shared ss) (ss_head ss) = Some it" "ri_data it = Some d"
        by (subst (asm) rdrop_by_bytes.simps) (auto split: option.splits)
      let ?ss = "set_cell (get_idx (sc_mask (ss_shared ss)) (ss_head ss)) (it\<lparr>ri_data := None\<rparr>) ss"
      from 1(2) True c have r: "rdrop_by_bytes sz (evict_cell sz it d ?ss) (note_removed r (ri_slot it)) = Some (ss', r')"
        by (subst (asm) rdrop_by_bytes.simps) simp
      show ?thesis using 1(1) [OF True c r] by (simp add: evict_cell_def set_cell_def)
    next
      case False
      with 1(2) show ?thesis by (subst (asm) rdrop_by_bytes.simps) auto
    qed
  qed
  assume "rpush sz ss sl m i = Some ss'"
  then obtain ss1 r1 ss2 r2 where w: "rpush_write sz ss sl m i = Some (ss1, r1)" and
    r: "rdrop_by_bytes sz ss1 r1 = Some (ss2, r2)" and s: "ss' = rpush_slots ss2 sl r2"
    by (auto simp: rpush_def bind_eq_Some_conv)
  have "ss_commitment ss1 = ss_commitment ss"
    using w by (auto simp: rpush_write_def bind_eq_Some_conv Let_def evict_cell_def set_cell_def split: option.splits)
  moreover have "ss_commitment ss' = ss_commitment ss2" by (simp add: s rpush_slots_def Let_def split: option.split)
  ultimately show ?thesis using d [OF r] by simp
qed


lemma push_stored_cases:
  assumes "push_stored sz sl m st i h ss = Some (ss', st', i')"
  shows "ss_commitment ss' = ss_commitment ss"
    "st' = st \<and> i' = i \<and> (st = None \<or> ss_commitment ss \<noteq> Processed) \<or>
     (\<exists>x. st = Some x \<and> st' = Some (send_command (WC_PushMessage (ss_commitment ss) (i = h) sl h i m) x) \<and> i' = i + 1)"
  using assms by (auto simp: push_stored_def dest: rpush_commitment split: option.splits if_splits)

lemma in_order_weaken: "in_order c i s \<Longrightarrow> in_order False i s"
  by (auto simp: in_order_def)

lemma command_log_send: "sn_storage s = Some x \<Longrightarrow> command_log (s\<lparr>sn_storage := Some (send_command c x)\<rparr>) = command_log s @ [c]"
  by (simp add: command_log_def send_command_def)

lemma in_order_stored:
  assumes p: "push_stored sz sl m (sn_storage s) (sn_index s) h ss = Some (ss', st', i')" and o: "in_order c i s"
    and s': "sn_storage s' = st'" "sn_index s' = i'" "ss_commitment (sn_processed s') = Processed"
  shows "in_order (ss_commitment ss = Processed) i s'"
proof -
  from o obtain c' where j: "journal_run (command_log s) (i, True) = Some (sn_index s, c')" "sn_storage s = None \<longrightarrow> sn_index s = i"
    by (auto simp: in_order_def)
  from push_stored_cases(2) [OF p] show ?thesis
  proof (elim disjE exE conjE)
    fix x assume x: "sn_storage s = Some x" "st' = Some (send_command (WC_PushMessage (ss_commitment ss) (sn_index s = h) sl h (sn_index s) m) x)"
      "i' = sn_index s + 1"
    have "command_log s' = command_log s @ [WC_PushMessage (ss_commitment ss) (sn_index s = h) sl h (sn_index s) m]"
      using x s' by (simp add: command_log_def send_command_def)
    then show ?thesis using j(1) x s' by (simp add: in_order_def journal_run_append)
  qed (use j s' in \<open>auto simp: in_order_def command_log_def\<close>)
qed

lemma in_order_pushes:
  assumes "in_order c i s"
  shows "push_processed sz sl h m s = Some s' \<Longrightarrow> in_order True i s'"
    "push_confirmed sz sl h m s = Some s' \<Longrightarrow> in_order False i s'"
    "push_finalized sz sl h m s = Some s' \<Longrightarrow> in_order False i s'"
proof -
  have pc: "ss_commitment (sn_processed s) = Processed" using assms by (simp add: in_order_def)
  show "in_order True i s'" if p: "push_processed sz sl h m s = Some s'"
  proof -
    from p obtain ss st j where q: "push_stored sz sl m (sn_storage s) (sn_index s) h (sn_processed s) = Some (ss, st, j)"
      and s': "s' = s\<lparr>sn_processed := ss, sn_storage := st, sn_index := j\<rparr>" by (auto simp: push_processed_def)
    have "in_order (ss_commitment (sn_processed s) = Processed) i s'"
      by (rule in_order_stored [OF q assms]) (simp_all add: s' push_stored_cases(1) [OF q] pc)
    then show ?thesis by (simp add: pc)
  qed
  show "in_order False i s'" if p: "push_confirmed sz sl h m s = Some s'"
  proof (cases "sn_confirmed s")
    case (Some sh)
    with p obtain ss st j where q: "push_stored sz sl m (sn_storage s) (sn_index s) h sh = Some (ss, st, j)"
      and s': "s' = s\<lparr>sn_confirmed := Some ss, sn_storage := st, sn_index := j\<rparr>" by (auto simp: push_confirmed_def)
    show ?thesis by (rule in_order_weaken, rule in_order_stored [OF q assms]) (simp_all add: s' pc)
  qed (use p assms in \<open>auto simp: push_confirmed_def intro: in_order_weaken\<close>)
  show "in_order False i s'" if p: "push_finalized sz sl h m s = Some s'"
  proof (cases "sn_finalized s")
    case (Some sh)
    with p obtain ss st j where q: "push_stored sz sl m (sn_storage s) (sn_index s) h sh = Some (ss, st, j)"
      and s': "s' = s\<lparr>sn_finalized := Some ss, sn_storage := st, sn_index := j\<rparr>" by (auto simp: push_finalized_def)
    show ?thesis by (rule in_order_weaken, rule in_order_stored [OF q assms]) (simp_all add: s' pc)
  qed (use p assms in \<open>auto simp: push_finalized_def intro: in_order_weaken\<close>)
qed

lemma in_order_same:
  "sn_processed s' = sn_processed s \<Longrightarrow> sn_storage s' = sn_storage s \<Longrightarrow> sn_index s' = sn_index s \<Longrightarrow> in_order c i s' = in_order c i s"
  by (simp add: in_order_def command_log_def)

lemma in_order_promote:
  assumes "in_order c i s"
  shows "promote_confirmed sz sl h bank s = Some s' \<Longrightarrow> in_order False i s'"
    "promote_finalized sz sl h cb s = Some s' \<Longrightarrow> in_order False i s'"
proof -
  note w = in_order_weaken [OF assms]
  show "in_order False i s'" if p: "promote_confirmed sz sl h bank s = Some s'"
  proof (cases "sn_confirmed s = None \<or> bt_get (sn_slots s) sl = None")
    case False
    then obtain info where "bt_get (sn_slots s) sl = Some info" by auto
    with False p have "push_each (push_confirmed sz sl h) (get_messages_cloned bank info) s = Some s'"
      by (auto simp: promote_confirmed_def)
    then show ?thesis by (rule push_each_invariant [where I = "in_order False i"]) (use w in \<open>auto intro: in_order_pushes\<close>)
  qed (use p w in \<open>auto simp: promote_confirmed_def split: option.splits\<close>)
  show "in_order False i s'" if p: "promote_finalized sz sl h cb s = Some s'"
  proof -
    let ?s1 = "s\<lparr>sn_slot_finalized := sl, sn_global_replay := global_replay_store (sl + 1) (sn_global_replay s)\<rparr>"
    have w1: "in_order False i ?s1" "in_order False i (?s1\<lparr>sn_slots := t\<rparr>)" for t using w by (simp_all add: in_order_def command_log_def)
    show ?thesis
    proof (cases "sn_finalized s = None \<or> cb = None \<or> bt_get (sn_slots s) sl = None")
      case True
      then have "s' = ?s1" using p by (auto simp: promote_finalized_def Let_def split: option.splits)
      then show ?thesis using w1 by simp
    next
      case False
      then obtain bank info where b: "cb = Some bank" "bt_get (sn_slots s) sl = Some info" by auto
      with False p have "push_each (push_finalized sz sl h) (fst (get_messages_owned bank info)) (?s1\<lparr>sn_slots := bt_remove sl (sn_slots s)\<rparr>) = Some s'"
        by (auto simp: promote_finalized_def Let_def)
      then show ?thesis by (rule push_each_invariant [where I = "in_order False i"]) (use w1 in \<open>auto intro: in_order_pushes\<close>)
    qed
  qed
qed

lemma in_order_check_replayed:
  assumes "check_replayed P H sl m s = Some (skip, s')" "in_order c i s"
  shows "in_order c i s'"
proof -
  have e: "sn_processed s' = sn_processed s \<and> sn_index s' = sn_index s \<and> (sn_storage s' = sn_storage s \<or>
      (\<exists>j. sn_storage s' = map_option (send_command (WC_RestorePayload j m)) (sn_storage s)))"
    using assms(1) by (auto simp: check_replayed_def bind_eq_Some_conv split: option.splits) blast
  then have "command_log s' = command_log s \<or> (\<exists>j. command_log s' = command_log s @ [WC_RestorePayload j m])"
    by (cases "sn_storage s") (auto simp: command_log_def send_command_def)
  moreover have "Option.bind x (journal_run [WC_RestorePayload j m]) = x" for x j by (cases x) simp_all
  ultimately have "journal_run (command_log s') (i, True) = journal_run (command_log s) (i, True)"
    by (elim disjE exE) (simp_all only: journal_run_append)
  moreover have "sn_storage s' = None \<longleftrightarrow> sn_storage s = None" using e by auto
  ultimately show ?thesis using assms(2) e by (simp add: in_order_def)
qed

lemma in_order_publish:
  assumes p: "publish P H sz sl h bank cb m x = Some y" and o: "in_order True i (snd x)"
  shows "in_order True i (snd y)"
proof -
  from p obtain skip s1 where r: "check_replayed P H sl m (snd x) = Some (skip, s1)" by (auto simp: publish_def bind_eq_Some_conv)
  note o1 = in_order_check_replayed [OF r o]
  show ?thesis
  proof (cases skip)
    case True
    with p r have "snd y = s1" by (auto simp: publish_def)
    then show ?thesis using o1 by simp
  next
    case False
    have st: "\<exists>c. in_order c i s2" if q: "publish_status sz sl h cb ms s1 = Some s2" for ms s2
    proof -
      from q obtain a b d where 1: "push_confirmed sz sl h (RP_Slot ms) s1 = Some a" and
        2: "push_finalized sz sl h (RP_Slot ms) a = Some b" and
        3: "(case cb of Some bank \<Rightarrow> if ms_status ms = SlotConfirmed then promote_confirmed sz sl h bank b else Some b
           | None \<Rightarrow> Some b) = Some d" and
        4: "(if ms_status ms = SlotFinalized then promote_finalized sz sl h cb d else Some d) = Some s2"
        by (auto simp: publish_status_def bind_eq_Some_conv)
      note b = in_order_pushes(3) [OF in_order_pushes(2) [OF o1 1] 2]
      have d: "in_order False i d" using 3 b in_order_promote(1) [OF b] by (auto split: option.splits if_splits)
      then show ?thesis using 4 in_order_promote(2) [OF d] by (auto split: if_splits intro: exI [of _ False])
    qed
    have ot: "\<exists>c. in_order c i s2" if "publish_other sz sl h bank m s1 = Some s2" for s2
      using that o1 in_order_pushes(2) [OF o1] unfolding publish_other_def by (metis option.inject)
    from p r False obtain s2 where s2: "(\<exists>ms. publish_status sz sl h cb ms s1 = Some s2) \<or> publish_other sz sl h bank m s1 = Some s2"
      and q: "push_processed sz sl h m s2 = Some (snd y)"
      by (cases m) (auto simp: publish_def bind_eq_Some_conv, blast+)
    from s2 st ot obtain c where "in_order c i s2" by blast
    from in_order_pushes(1) [OF this q] show ?thesis .
  qed
qed

lemma in_order_sender_message:
  assumes p: "sender_message P H sz sl m x = Some y" and o: "in_order True i (snd x)"
  shows "in_order True i (snd y)"
proof -
  from p obtain h info' bank cb ms where
    "push_each (publish P H sz sl h bank cb) ms (fst x, (snd x)\<lparr>sn_slots := bt_insert sl info' (sn_slots (snd x))\<rparr>) = Some y"
    by (auto simp: sender_message_def bind_eq_Some_conv Let_def simp del: push_each.simps intro: that)
  then show ?thesis
  proof (rule push_each_invariant [where I = "\<lambda>y. in_order True i (snd y)"])
    show "in_order True i (snd (fst x, (snd x)\<lparr>sn_slots := bt_insert sl info' (sn_slots (snd x))\<rparr>))"
      using o by (simp add: in_order_def command_log_def)
  qed (rule in_order_publish)
qed


lemma trim_commands:
  "\<exists>cs. rst_sent (snd (trim_replay first t st)) = rst_sent st @ cs \<and> (\<forall>i. journal_run cs (i, True) = Some (i, True))"
proof (induction first t st rule: trim_replay.induct)
  case (2 first sl info r st)
  show ?case
  proof (cases "sl < first")
    case True
    from 2 [OF True] obtain cs where cs: "rst_sent (snd (trim_replay first ((sl, info) # r) st)) =
        rst_sent (send_command (WC_RemoveReplay sl (if r = [] then None else Some (Min (rp_head ` snd ` set r)))) st) @ cs"
      "\<forall>i. journal_run cs (i, True) = Some (i, True)" using True by auto
    show ?thesis
      by (rule exI [of _ "WC_RemoveReplay sl (if r = [] then None else Some (Min (rp_head ` snd ` set r))) # cs"])
        (use cs in \<open>simp add: send_command_def\<close>)
  qed (rule exI [of _ "[]"], simp)
qed (rule exI [of _ "[]"], simp)

lemma in_order_retain:
  assumes "in_order True i s"
  shows "in_order True i (retain_storage s)"
proof (cases "sn_storage s")
  case (Some st)
  define t where "t = trim_replay (case bt_last_key (sn_replay s) of None \<Rightarrow> 0
    | Some sl \<Rightarrow> of_nat (saturating_sub (unat sl) (saturating_sub (sn_storage_max_slots s) 1))) (sn_replay s) st"
  have r: "retain_storage s = s\<lparr>sn_replay := fst t, sn_storage := Some (snd t)\<rparr>"
    unfolding retain_storage_def Some t_def Let_def by (simp add: case_prod_unfold)
  from trim_commands obtain cs where "rst_sent (snd t) = rst_sent st @ cs" "\<forall>i. journal_run cs (i, True) = Some (i, True)"
    unfolding t_def by blast
  with assms Some show ?thesis unfolding r by (auto simp: in_order_def command_log_def journal_run_append)
next
  case None
  then have "in_order True i (retain_storage s) = in_order True i s" by (intro in_order_same) (simp_all add: retain_storage_def)
  then show ?thesis using assms by simp
qed

lemma drop_unfinalized_storage:
  "sn_processed (drop_unfinalized s) = sn_processed s \<and> sn_index (drop_unfinalized s) = sn_index s \<and> sn_storage (drop_unfinalized s) = sn_storage s"
  by (induction s rule: drop_unfinalized.induct) (subst (1 2 3) drop_unfinalized.simps, auto)

lemma in_order_sender_publish:
  assumes "sender_publish P H sz sl ms s = Some s'" "in_order True i s"
  shows "in_order True i s'"
proof -
  from assms(1) obtain c s2 where l: "push_each (sender_message P H sz sl) ms
      (False, s\<lparr>sn_replay := bt_or_insert sl (replay_info_new (sn_index s)) (sn_replay s)\<rparr>) = Some (c, s2)" and
    s': "s' = retain_storage (drop_dedup (drop_unfinalized (if c then clean_finalized s2 else s2)))"
    by (auto simp: sender_publish_def)
  have "in_order True i (snd (c, s2))"
  proof (rule push_each_invariant [OF l, where I = "\<lambda>y. in_order True i (snd y)"])
    show "in_order True i (snd (False, s\<lparr>sn_replay := bt_or_insert sl (replay_info_new (sn_index s)) (sn_replay s)\<rparr>))"
      using assms(2) by (simp add: in_order_def command_log_def)
  qed (rule in_order_sender_message)
  then have "in_order True i (drop_dedup (drop_unfinalized (if c then clean_finalized s2 else s2)))"
    by (simp add: in_order_def command_log_def drop_dedup_def clean_finalized_def drop_unfinalized_storage)
  then show ?thesis unfolding s' by (rule in_order_retain)
qed

lemma in_order_push:
  assumes "sender_push P H sz dr source m s = Some (ws, s')" "in_order True i s"
  shows "in_order True i s'"
proof (cases "message_slot_of m \<le> max (sn_slot_finalized s) (sn_slot_dropped s) \<or> bank_cleared (filter_bank (message_bank_id m)) m s")
  case True
  then have "s' = s" using assms(1) unfolding sender_push_def by (auto split: if_splits)
  then show ?thesis using assms(2) by simp
next
  case False
  from False assms(1) obtain x where x: "sender_dedup P dr source m s = Some x" "(case x of (ms, s1) \<Rightarrow>
      if ms = [] then Some ([], s1) else map_option sender_wake (sender_publish P H sz (message_slot_of m) ms s1)) = Some (ws, s')"
    by (simp only: sender_push_def de_Morgan_disj simp_thms if_False bind_eq_Some_conv) blast
  then obtain ms s1 where d: "sender_dedup P dr source m s = Some (ms, s1)" and
    r: "(if ms = [] then Some ([], s1) else map_option sender_wake (sender_publish P H sz (message_slot_of m) ms s1)) = Some (ws, s')"
    by (cases x) simp
  from sender_dedup_result [OF d] have o1: "in_order True i s1" using assms(2) by (auto simp: in_order_def command_log_def)
  show ?thesis
  proof (cases "ms = []")
    case False
    with r obtain s2 where p: "sender_publish P H sz (message_slot_of m) ms s1 = Some s2" and s': "s' = snd (sender_wake s2)"
      by (auto simp: prod_eq_iff)
    from in_order_sender_publish [OF p o1] show ?thesis
      by (simp add: s' sender_wake_def in_order_def command_log_def split: option.split)
  qed (use r o1 in auto)
qed

lemma in_order_run: "sender_run P H sz xs s = Some s' \<Longrightarrow> in_order True i s \<Longrightarrow> in_order True i s'"
proof (induction xs arbitrary: s)
  case (Cons x xs)
  obtain dr source m where x: "x = (dr, source, m)" by (metis prod_cases3)
  from Cons.prems(1) x obtain ws s1 where p: "sender_push P H sz dr source m s = Some (ws, s1)" and
    r: "sender_run P H sz xs s1 = Some s'" by (auto simp: bind_eq_Some_conv)
  from Cons.IH [OF r in_order_push [OF p Cons.prems(2)]] show ?case .
qed simp


subsection \<open>What the collector produces\<close>

text \<open>The chunks are contiguous, numbered in order, not empty, and end with a processed record.\<close>

fun chunk_walk :: "'x collector_output list \<Rightarrow> u64 \<times> u64 \<Rightarrow> (u64 \<times> u64) option" where
  "chunk_walk [] x = Some x"
| "chunk_walk (CL_RawChunk seq first lst rs slots fin # os) (i, n) =
     (if seq = n \<and> first = i \<and> lst = i + of_nat (length rs) - 1 \<and> last_processed rs
      then chunk_walk os (i + of_nat (length rs), n + 1) else None)"
| "chunk_walk (CL_Trim seq sl until # os) (i, n) = (if seq = n then chunk_walk os (i, n + 1) else None)"

fun output_records :: "'x collector_output \<Rightarrow> 'x raw_record list" where
  "output_records (CL_RawChunk _ _ _ rs _ _) = rs"
| "output_records (CL_Trim _ _ _) = []"

definition all_records :: "'x collector \<Rightarrow> 'x raw_record list" where
  "all_records c = concat (map output_records (cl_sent c)) @ cl_records c"

text \<open>The published messages with commitment and slot.\<close>

fun command_push :: "'x writer_command \<Rightarrow> (commitment_level \<times> slot \<times> 'x parsed_message) option" where
  "command_push (WC_PushMessage com init sl h i m) = Some (com, sl, m)"
| "command_push _ = None"

definition pushes :: "'x writer_command list \<Rightarrow> (commitment_level \<times> slot \<times> 'x parsed_message) list" where
  "pushes cs = List.map_filter command_push cs"

text \<open>The journal position \<open>t\<close> holds the message with this identity: in a record of this run,
  which started at index \<open>i\<close>, or in a record of an earlier run that a replay has matched.\<close>

definition payload_at :: "('x parsed_message \<Rightarrow> nat) \<Rightarrow> u64 \<Rightarrow> 'x writer_command list \<Rightarrow> 'x raw_record list \<Rightarrow> slot \<Rightarrow>
    identity_key \<Rightarrow> u64 \<Rightarrow> bool" where
  "payload_at ident i cs rs sl idn t \<longleftrightarrow>
     (\<exists>k m. k < length rs \<and> t = i + of_nat k \<and> rr_payload (rs ! k) = RawMessage m \<and> rr_slot (rs ! k) = sl \<and> payload_identity ident m = idn) \<or>
     (\<exists>m. WC_RestorePayload t m \<in> set cs \<and> parsed_slot m = sl \<and> payload_identity ident m = idn)"

definition record_ok :: "('x parsed_message \<Rightarrow> nat) \<Rightarrow> u64 \<Rightarrow> 'x writer_command list \<Rightarrow> 'x raw_record list \<Rightarrow>
    commitment_level \<times> slot \<times> 'x parsed_message \<Rightarrow> 'x raw_record \<Rightarrow> bool" where
  "record_ok ident i cs earlier p r \<longleftrightarrow> rr_commitment r = fst p \<and> rr_slot r = fst (snd p) \<and> rr_block r = is_block (snd (snd p)) \<and>
     (case rr_payload r of RawMessage m \<Rightarrow> m = snd (snd p)
      | RawReference t \<Rightarrow> payload_at ident i cs earlier (rr_slot r) (payload_identity ident (snd (snd p))) t)"

definition records_ok :: "('x parsed_message \<Rightarrow> nat) \<Rightarrow> u64 \<Rightarrow> 'x writer_command list \<Rightarrow> 'x raw_record list \<Rightarrow> bool" where
  "records_ok ident i cs rs \<longleftrightarrow> length rs = length (pushes cs) \<and>
     (\<forall>j < length rs. record_ok ident i cs (take j rs) (pushes cs ! j) (rs ! j))"

definition references_ok :: "('x parsed_message \<Rightarrow> nat) \<Rightarrow> u64 \<Rightarrow> 'x writer_command list \<Rightarrow> 'x raw_record list \<Rightarrow> payload_references \<Rightarrow> bool" where
  "references_ok ident i cs rs refs \<longleftrightarrow> bt_ok refs \<and> (\<forall>sl idn t. slot_references refs sl idn = Some t \<longrightarrow> payload_at ident i cs rs sl idn t)"

definition collector_ok :: "('x parsed_message \<Rightarrow> nat) \<Rightarrow> u64 \<Rightarrow> 'x writer_command list \<Rightarrow> u64 \<times> bool \<Rightarrow> 'x collector \<Rightarrow> bool" where
  "collector_ok ident i cs ic c \<longleftrightarrow>
     records_ok ident i cs (all_records c) \<and> references_ok ident i cs (all_records c) (cl_references c) \<and>
     (\<exists>j. chunk_walk (cl_sent c) (i, 0) = Some (j, cl_next_seq c) \<and> fst ic = j + of_nat (length (cl_records c)) \<and>
       (cl_records c \<noteq> [] \<longrightarrow> pm_first_index (cl_pending c) = j \<and> pm_last_index (cl_pending c) = fst ic - 1)) \<and>
     pm_record_count (cl_pending c) = of_nat (length (cl_records c)) \<and>
     (cl_records c \<noteq> [] \<longrightarrow> (snd ic \<longleftrightarrow> last_processed (cl_records c)))"

lemma pushes_append [simp]: "pushes (xs @ ys) = pushes xs @ pushes ys"
  by (simp add: pushes_def List.map_filter_def)

lemma pushes_simps [simp]:
  "pushes [] = []" "command_push c = Some p \<Longrightarrow> pushes [c] = [p]"
  "command_push c = None \<Longrightarrow> pushes [c] = []"
  unfolding pushes_def by (simp_all add: List.map_filter_simps)

lemma chunk_walk_append: "chunk_walk (xs @ ys) x = Option.bind (chunk_walk xs x) (chunk_walk ys)"
  by (induction xs x rule: chunk_walk.induct) auto

lemma chunk_walk_length:
  "chunk_walk os x = Some y \<Longrightarrow> fst y = fst x + of_nat (length (concat (map output_records os)))"
  by (induction os x rule: chunk_walk.induct) (auto split: if_splits simp: ac_simps)

lemma payload_at_mono:
  "payload_at ident i cs rs sl idn t \<Longrightarrow> set cs \<subseteq> set cs' \<Longrightarrow> payload_at ident i cs' (rs @ rs') sl idn t"
  unfolding payload_at_def by (elim disjE exE conjE) (force simp: nth_append, blast)

lemma record_ok_more:
  assumes "record_ok ident i cs es q x"
  shows "record_ok ident i (cs @ [c]) es q x"
proof (cases "rr_payload x")
  case (RawReference t)
  with assms have "payload_at ident i cs es (rr_slot x) (payload_identity ident (snd (snd q))) t" by (auto simp: record_ok_def)
  from payload_at_mono [OF this, of "cs @ [c]" "[]"]
  have "payload_at ident i (cs @ [c]) es (rr_slot x) (payload_identity ident (snd (snd q))) t" by auto
  with assms RawReference show ?thesis by (auto simp: record_ok_def)
qed (use assms in \<open>simp add: record_ok_def\<close>)

lemma records_ok_more:
  assumes "records_ok ident i cs rs" "pushes [c] = []"
  shows "records_ok ident i (cs @ [c]) rs"
  using assms by (simp add: records_ok_def record_ok_more)

lemma references_ok_more:
  assumes "references_ok ident i cs rs refs"
  shows "references_ok ident i (cs @ [c]) (rs @ rs') refs"
proof -
  have "payload_at ident i (cs @ [c]) (rs @ rs') sl idn t" if "payload_at ident i cs rs sl idn t" for sl idn t
    using that by (rule payload_at_mono) auto
  then show ?thesis using assms unfolding references_ok_def by blast
qed

lemma records_ok_snoc:
  assumes ok: "records_ok ident i cs rs" and p: "command_push c = Some p" and r: "record_ok ident i (cs @ [c]) rs p r"
  shows "records_ok ident i (cs @ [c]) (rs @ [r])"
proof -
  have l: "length rs = length (pushes cs)" using ok by (simp add: records_ok_def)
  have "record_ok ident i (cs @ [c]) (take j (rs @ [r])) (pushes (cs @ [c]) ! j) ((rs @ [r]) ! j)" if "j < Suc (length rs)" for j
  proof (cases "j = length rs")
    case True
    then show ?thesis using r p l by (simp add: nth_append)
  next
    case False
    with that have j: "j < length rs" by simp
    with ok have "record_ok ident i cs (take j rs) (pushes cs ! j) (rs ! j)" by (simp add: records_ok_def)
    from record_ok_more [OF this] show ?thesis using j l p by (simp add: nth_append)
  qed
  then show ?thesis using l p by (simp add: records_ok_def)
qed


text \<open>A command arrives.\<close>

lemma slot_references_insert:
  "bt_ok refs \<Longrightarrow> slot_references (bt_insert sl f refs) sl' = (if sl' = sl then f else slot_references refs sl')"
  by (simp add: slot_references_def bt_get_insert)

lemma references_ok_insert:
  assumes "references_ok ident i cs rs refs" "\<And>idn t. f idn = Some t \<Longrightarrow> payload_at ident i cs rs sl idn t"
  shows "references_ok ident i cs rs (bt_insert sl f refs)"
  using assms by (auto simp: references_ok_def slot_references_insert bt_ok_insert)

lemma references_ok_fewer:
  assumes "references_ok ident i cs rs refs" "bt_ok refs'" "\<And>sl. bt_get refs' sl = bt_get refs sl \<or> bt_get refs' sl = None"
  shows "references_ok ident i cs rs refs'"
proof -
  have "slot_references refs sl idn = Some t" if "slot_references refs' sl idn = Some t" for sl idn t
    using that assms(3) [of sl] by (auto simp: slot_references_def)
  then show ?thesis using assms(1,2) unfolding references_ok_def by blast
qed

lemma references_okD:
  "references_ok ident i cs rs refs \<Longrightarrow> slot_references refs sl idn = Some t \<Longrightarrow> payload_at ident i cs rs sl idn t"
  unfolding references_ok_def by blast

lemma references_record_ok:
  assumes r: "references_record ident sl index com m refs = (r, refs')" and ok: "references_ok ident i cs rs refs"
    and index: "index = i + of_nat (length rs)" and c: "c = WC_PushMessage com init sl h index m"
  shows "record_ok ident i (cs @ [c]) rs (com, sl, m) r \<and> references_ok ident i (cs @ [c]) (rs @ [r]) refs'"
proof -
  let ?id = "payload_identity ident m" and ?known = "slot_references refs sl"
  have bt: "bt_ok refs" using ok by (simp add: references_ok_def)
  define known' where "known' = (case ?known ?id of Some t \<Rightarrow> ?known | None \<Rightarrow> ?known(?id \<mapsto> index))"
  have rr: "rr_commitment r = com" "rr_slot r = sl" "rr_block r = is_block m"
    "rr_payload r = (case ?known ?id of Some t \<Rightarrow> RawReference t | None \<Rightarrow> RawMessage m)"
    "refs' = (if com = Processed \<and> is_finalized_status m then bt_pop_while (\<lambda>old. old \<le> sl) (bt_insert sl known' refs) else bt_insert sl known' refs)"
    using r by (auto simp: references_record_def Let_def known'_def split: option.splits)
  note more = references_ok_more [OF ok, of c]
  have "record_ok ident i (cs @ [c]) rs (com, sl, m) r"
  proof (cases "?known ?id")
    case (Some t)
    then have "payload_at ident i (cs @ [c]) rs sl ?id t" using references_okD [OF more [of "[]"]] by simp
    then show ?thesis using rr Some by (simp add: record_ok_def)
  qed (use rr in \<open>simp add: record_ok_def\<close>)
  moreover have "payload_at ident i (cs @ [c]) (rs @ [r]) sl idn t" if k: "known' idn = Some t" for idn t
  proof (cases "?known idn = Some t")
    case True
    then show ?thesis by (rule references_okD [OF more])
  next
    case False
    with k have "?known ?id = None" "idn = ?id" "t = index" by (auto simp: known'_def split: option.splits if_splits)
    then show ?thesis unfolding payload_at_def using rr index by (intro disjI1 exI [of _ "length rs"] exI [of _ m]) simp
  qed
  then have "references_ok ident i (cs @ [c]) (rs @ [r]) (bt_insert sl known' refs)"
    by (rule references_ok_insert [OF more])
  then have "references_ok ident i (cs @ [c]) (rs @ [r]) refs'"
    unfolding rr(5)
    by (auto intro!: references_ok_fewer [of ident i "cs @ [c]" "rs @ [r]" "bt_insert sl known' refs"]
        simp: bt_oks bt bt_get_pop_upto split: if_splits)
  ultimately show ?thesis by blast
qed

lemma collector_ok_trim:
  assumes "collector_ok ident i cs ic c"
  shows "collector_ok ident i cs ic (collector_trim t c)"
proof (cases t)
  case (Some x)
  with assms show ?thesis
    by (cases x) (auto simp: collector_trim_def collector_ok_def all_records_def chunk_walk_append)
qed (use assms in \<open>simp add: collector_trim_def\<close>)

lemma collector_ok_flush:
  assumes ok: "collector_ok ident i cs ic c" and f: "flush \<Longrightarrow> snd ic" and n: "length (cl_records c) < 2 ^ 32"
  shows "\<exists>c'. collector_flush flush c = Inr c' \<and> collector_ok ident i cs ic c' \<and> cl_references c' = cl_references c \<and>
    length (cl_records c') \<le> length (cl_records c) \<and> (flush \<longrightarrow> cl_records c' = [])"
proof (cases "flush \<and> cl_records c \<noteq> []")
  case True
  from n have ne: "\<not> pending_is_empty (cl_pending c)"
    using ok True by (auto simp: collector_ok_def pending_is_empty_def of_nat_eq_0_iff word_of_nat_eq_0_iff dest: nat_dvd_not_less)
  have lp: "last_processed (cl_records c)" using ok True f by (simp add: collector_ok_def)
  from ok True obtain j where j: "chunk_walk (cl_sent c) (i, 0) = Some (j, cl_next_seq c)"
    "fst ic = j + of_nat (length (cl_records c))" "pm_first_index (cl_pending c) = j" "pm_last_index (cl_pending c) = fst ic - 1"
    by (auto simp: collector_ok_def)
  let ?c = "c\<lparr>cl_pending := pending_default, cl_records := [], cl_next_seq := cl_next_seq c + 1,
     cl_sent := cl_sent c @ [CL_RawChunk (cl_next_seq c) (pm_first_index (cl_pending c)) (pm_last_index (cl_pending c))
       (cl_records c) (pm_pending_slots (cl_pending c)) (pm_pending_finalized (cl_pending c))]\<rparr>"
  have r: "collector_flush flush c = Inr ?c" using True ne lp by (simp add: collector_flush_def)
  have "all_records ?c = all_records c" by (simp add: all_records_def)
  moreover have "chunk_walk (cl_sent ?c) (i, 0) = Some (fst ic, cl_next_seq c + 1)"
    using j lp by (simp add: chunk_walk_append)
  ultimately have "collector_ok ident i cs ic ?c" using ok by (simp add: collector_ok_def pending_default_def)
  with r show ?thesis by auto
next
  case False
  have "collector_flush flush c = Inr c"
    using False ok by (auto simp: collector_flush_def pending_is_empty_def collector_ok_def)
  then show ?thesis using ok False by auto
qed


lemma collector_ok_references:
  assumes "collector_ok ident i cs ic c" "pushes [cmd] = []" "references_ok ident i (cs @ [cmd]) (all_records c) refs"
  shows "collector_ok ident i (cs @ [cmd]) ic (c\<lparr>cl_references := refs\<rparr>)"
proof -
  have "all_records (c\<lparr>cl_references := refs\<rparr>) = all_records c" by (simp add: all_records_def)
  then show ?thesis using assms records_ok_more [of ident i cs "all_records c" cmd] by (simp add: collector_ok_def)
qed

lemma collector_ok_receive:
  assumes ok: "collector_ok ident i cs ic c" and j: "journal_step cmd ic = Some ic'"
    and rc: "collector_receive target sz ident (CE_Command cmd) c = (c', flush, trim)" and n: "length (cl_records c) < 2 ^ 32"
  shows "collector_ok ident i (cs @ [cmd]) ic' c' \<and> (flush \<longrightarrow> snd ic') \<and> length (cl_records c') \<le> Suc (length (cl_records c))"
proof (cases cmd)
  case (WC_RestorePayload index m)
  let ?f = "(slot_references (cl_references c) (parsed_slot m))(payload_identity ident m \<mapsto> index)"
  have ok1: "references_ok ident i (cs @ [cmd]) (all_records c) (cl_references c)"
    using ok references_ok_more [of ident i cs "all_records c" "cl_references c" cmd "[]"] by (simp add: collector_ok_def)
  have pa: "payload_at ident i (cs @ [cmd]) (all_records c) (parsed_slot m) idn t" if "?f idn = Some t" for idn t
  proof (cases "idn = payload_identity ident m")
    case True
    with that show ?thesis by (auto simp: payload_at_def WC_RestorePayload)
  next
    case False
    with that show ?thesis by (intro references_okD [OF ok1]) simp
  qed
  have "references_ok ident i (cs @ [cmd]) (all_records c) (bt_insert (parsed_slot m) ?f (cl_references c))"
    by (rule references_ok_insert [OF ok1]) (rule pa)
  from collector_ok_references [OF ok _ this] show ?thesis using j rc WC_RestorePayload by auto
next
  case (WC_PushMessage com init sl h index m)
  obtain r refs where r: "references_record ident sl index com m (cl_references c) = (r, refs)" by (metis surj_pair)
  have c': "c' = c\<lparr>cl_references := refs, cl_pending := pending_push sz init sl h index r (cl_pending c), cl_records := cl_records c @ [r]\<rparr>"
    and fl: "flush \<longrightarrow> com = Processed"
    using rc r WC_PushMessage by (auto simp: Let_def)
  have ij: "index = fst ic" "ic' = (index + 1, com = Processed)" using j WC_PushMessage by (auto split: if_splits)
  obtain k where k: "chunk_walk (cl_sent c) (i, 0) = Some (k, cl_next_seq c)" "fst ic = k + of_nat (length (cl_records c))"
    "cl_records c \<noteq> [] \<longrightarrow> pm_first_index (cl_pending c) = k \<and> pm_last_index (cl_pending c) = fst ic - 1"
    "pm_record_count (cl_pending c) = of_nat (length (cl_records c))"
    using ok by (auto simp: collector_ok_def)
  have all: "all_records c' = all_records c @ [r]" by (simp add: c' all_records_def)
  have walk: "fst ic = i + of_nat (length (all_records c))"
    using chunk_walk_length [OF k(1)] k(2) by (simp add: all_records_def)
  have rok: "records_ok ident i cs (all_records c)" "references_ok ident i cs (all_records c) (cl_references c)"
    using ok by (simp_all add: collector_ok_def)
  note rr = references_record_ok [OF r rok(2) walk [folded ij(1)] WC_PushMessage]
  have "records_ok ident i (cs @ [cmd]) (all_records c')"
    unfolding all by (rule records_ok_snoc [OF rok(1) _ conjunct1 [OF rr]]) (simp add: WC_PushMessage)
  moreover have "references_ok ident i (cs @ [cmd]) (all_records c') (cl_references c')" unfolding all using rr by (simp add: c')
  moreover have "cl_sent c' = cl_sent c" "cl_next_seq c' = cl_next_seq c" "cl_records c' = cl_records c @ [r]"
    "pm_record_count (cl_pending c') = of_nat (length (cl_records c'))" "pm_last_index (cl_pending c') = index"
    using k(4) by (simp_all add: c' pending_push_def)
  moreover have "pm_first_index (cl_pending c') = k"
  proof (cases "cl_records c = []")
    case True
    then show ?thesis using k(2,4) ij(1) by (simp add: c' pending_push_def)
  next
    case False
    have "pm_record_count (cl_pending c) \<noteq> 0" using False n k(4)
      by (auto simp: word_of_nat_eq_0_iff dest: nat_dvd_not_less)
    then show ?thesis using False k(3) by (simp add: c' pending_push_def)
  qed
  moreover have "last_processed (cl_records c') = (com = Processed)"
    using rr by (simp add: c' last_processed_def record_ok_def)
  ultimately show ?thesis using k(1,2) fl ij unfolding collector_ok_def by simp
next
  case (WC_RemoveReplay sl until)
  have refs: "references_ok ident i (cs @ [cmd]) (all_records c) (bt_remove sl (cl_references c))"
  proof (rule references_ok_fewer)
    show "references_ok ident i (cs @ [cmd]) (all_records c) (cl_references c)"
      using ok references_ok_more [of ident i cs "all_records c" "cl_references c" cmd "[]"] by (simp add: collector_ok_def)
    show "bt_ok (bt_remove sl (cl_references c))" using ok by (simp add: collector_ok_def references_ok_def bt_oks)
  qed (auto simp: bt_get_remove)
  from collector_ok_references [OF ok _ this] show ?thesis using j rc WC_RemoveReplay by (auto split: if_splits)
qed


lemma collector_step_ok:
  assumes c1: "collector_receive target sz ident e c = (c1, flush, trim)" and ok: "collector_ok ident i cs ic c1"
    and f: "flush \<or> e = CE_Closed \<Longrightarrow> snd ic" and n: "length (cl_records c1) < 2 ^ 32"
  shows "\<exists>c'. collector_step target sz ident e c = Inr c' \<and> collector_ok ident i cs ic c' \<and>
    length (cl_records c') \<le> length (cl_records c1) \<and> (e = CE_Closed \<longrightarrow> cl_records c' = [])"
proof -
  from collector_ok_flush [OF ok f n, of "flush \<or> e = CE_Closed"] obtain c' where
    c': "collector_flush (flush \<or> e = CE_Closed) c1 = Inr c'" "collector_ok ident i cs ic c'"
    "length (cl_records c') \<le> length (cl_records c1)" "e = CE_Closed \<longrightarrow> cl_records c' = []" by auto
  have "collector_step target sz ident e c = Inr (collector_trim trim c')" using c1 c'(1) by (simp add: collector_step_def)
  moreover have "cl_records (collector_trim trim c') = cl_records c'" by (auto simp: collector_trim_def split: option.split)
  ultimately show ?thesis using collector_ok_trim [OF c'(2), of trim] c'(3,4) by auto
qed

text \<open>The commands of a list of events.\<close>

fun event_commands :: "'x collector_event list \<Rightarrow> 'x writer_command list" where
  "event_commands [] = []"
| "event_commands (CE_Command c # es) = c # event_commands es"
| "event_commands (_ # es) = event_commands es"

lemma event_commands_map: "event_commands (map CE_Command cs) = cs"
  by (induction cs) simp_all

lemma run_collector_ok:
  assumes "collector_ok ident i cs ic c" "journal_run (event_commands es) ic = Some ic'" "CE_Closed \<notin> set es"
    "length (cl_records c) + length es < 2 ^ 32" "snd ic'"
  shows "\<exists>c'. run_collector target sz ident (es @ [CE_Closed]) c = Inr c' \<and>
    collector_ok ident i (cs @ event_commands es) ic' c' \<and> cl_records c' = []"
  using assms
proof (induction es arbitrary: cs ic c)
  case Nil
  from collector_step_ok [of target sz ident CE_Closed c c False None i cs ic] Nil show ?case by auto
next
  case (Cons e es)
  show ?case
  proof (cases e)
    case (CE_Command cmd)
    with Cons.prems(2) obtain ic1 where j: "journal_step cmd ic = Some ic1" "journal_run (event_commands es) ic1 = Some ic'"
      by (auto simp: bind_eq_Some_conv)
    obtain c1 flush trim where r: "collector_receive target sz ident (CE_Command cmd) c = (c1, flush, trim)" by (metis prod_cases3)
    have "length (cl_records c) < 2 ^ 32" using Cons.prems(4) by simp
    note ok1 = collector_ok_receive [OF Cons.prems(1) j(1) r this]
    from ok1 Cons.prems(4) have "length (cl_records c1) < 2 ^ 32" by simp
    from collector_step_ok [OF r conjunct1 [OF ok1] _ this] ok1 obtain c2 where
      c2: "collector_step target sz ident (CE_Command cmd) c = Inr c2" "collector_ok ident i (cs @ [cmd]) ic1 c2"
      "length (cl_records c2) \<le> length (cl_records c1)" by auto
    have "\<exists>c'. run_collector target sz ident (es @ [CE_Closed]) c2 = Inr c' \<and>
      collector_ok ident i ((cs @ [cmd]) @ event_commands es) ic' c' \<and> cl_records c' = []"
      by (rule Cons.IH [OF c2(2) j(2)]) (use Cons.prems ok1 c2(3) in auto)
    then show ?thesis using c2(1) CE_Command by simp
  next
    case CE_Timeout
    have "last_processed (cl_records c) \<Longrightarrow> snd ic"
      using Cons.prems(1) by (auto simp: collector_ok_def last_processed_def)
    with collector_step_ok [of target sz ident CE_Timeout c c "last_processed (cl_records c)" None i cs ic] Cons.prems(1,4)
    obtain c2 where c2: "collector_step target sz ident CE_Timeout c = Inr c2" "collector_ok ident i cs ic c2"
      "length (cl_records c2) \<le> length (cl_records c)" by auto
    from Cons.IH [OF c2(2)] Cons.prems(2-5) c2 CE_Timeout show ?thesis by simp
  qed (use Cons.prems(3) in simp)
qed

lemma collector_ok_new: "collector_ok ident i [] (i, True) collector_new"
  by (simp add: collector_ok_def collector_new_def records_ok_def references_ok_def all_records_def slot_references_def
      pending_default_def last_processed_def)

lemma rsender_new_in_order:
  "rst_sent st = [] \<Longrightarrow> in_order True 0 (rsender_new n mb rich others (Some st) k u t)"
  by (auto simp: in_order_def rsender_new_def Let_def command_log_def sender_shared_new_def)


subsection \<open>Properties\<close>

text \<open>\<^bold>\<open>C32.\<close> From the sender to the chunks of the journal. For any run of the sender with
  storage and any timing of the collector (timeouts between any two commands, even inside
  one publication), the collector never rejects the stream: it turns the sent commands into
  chunks with contiguous journal indices starting at 0 and consecutive sequence numbers,
  each ending with a processed record, so that the records a status fans out to are never
  split over two chunks. The records are the published messages in order, one for one; a
  record without a payload refers to an earlier journal position that holds a message with
  the same allocation and slot.\<close>

theorem journal_chunks_complete:
  assumes "sender_run P H sz xs (rsender_new n mb rich others (Some st) k u t) = Some s" and "rst_sent st = []"
    and "event_commands es = command_log s" "CE_Closed \<notin> set es" "length es < 2 ^ 32"
  shows "\<exists>c seq. run_collector target sz' ident (es @ [CE_Closed]) collector_new = Inr c \<and>
    chunk_walk (cl_sent c) (0, 0) = Some (sn_index s, seq) \<and>
    records_ok ident 0 (command_log s) (concat (map output_records (cl_sent c)))"
proof -
  from in_order_run [OF assms(1) rsender_new_in_order [OF assms(2)]] obtain c'
    where "journal_run (command_log s) (0, True) = Some (sn_index s, c')" c' by (auto simp: in_order_def)
  then have j: "journal_run (event_commands es) (0, True) = Some (sn_index s, True)" using assms(3) by simp
  from run_collector_ok [OF collector_ok_new j assms(4), of target sz' ident] assms(5) obtain c where
    c: "run_collector target sz' ident (es @ [CE_Closed]) collector_new = Inr c"
    "collector_ok ident 0 (command_log s) (sn_index s, True) c" "cl_records c = []"
    by (auto simp: collector_new_def assms(3))
  then show ?thesis by (auto simp: collector_ok_def all_records_def)
qed

lemma example_journal_run:
  "case sender_run prost_ref (\<lambda>_. 0) (\<lambda>_. 1) example_fork (rsender_new 4 1000 True True (Some example_storage) 2 2 1 :: (unit, nat, nat) sender)
     of None \<Rightarrow> False
   | Some s \<Rightarrow> length (command_log s) = 8 \<and> sn_index s = 8"
  by code_simp

theorem journal_chunks_complete_witness:
  "\<exists>s c seq. sender_run prost_ref (\<lambda>_. 0) (\<lambda>_. 1) example_fork
      (rsender_new 4 1000 True True (Some example_storage) 2 2 1 :: (unit, nat, nat) sender) = Some s \<and>
    run_collector 100 (\<lambda>_. 1) (\<lambda>_. 0) ((CE_Timeout # map CE_Command (command_log s)) @ [CE_Closed]) collector_new = Inr c \<and>
    chunk_walk (cl_sent c) (0, 0) = Some (8, seq)"
proof -
  from example_journal_run obtain s where s: "sender_run prost_ref (\<lambda>_. 0) (\<lambda>_. 1) example_fork
      (rsender_new 4 1000 True True (Some example_storage) 2 2 1 :: (unit, nat, nat) sender) = Some s"
    "length (command_log s) = 8" "sn_index s = 8" by (auto split: option.splits)
  have e: "event_commands (CE_Timeout # map CE_Command (command_log s)) = command_log s"
    by (simp add: event_commands_map)
  show ?thesis
    using journal_chunks_complete [OF s(1) _ e, of 100 "\<lambda>_. 1" "\<lambda>_. 0"] s by (force simp: example_storage_def)
qed

end
