(* ===== verification/Sender_Slots.thy ===== *)
theory Sender_Slots
  imports Storage_Collector
begin

text \<open>
  Every message that \<open>Sender::push\<close> publishes, to a ring or to the journal, is published under
  the slot that the message itself names. Messages wait in the deduplication and in the banks
  of a slot before they are published, and blocks are created from a block meta; the lemmas
  follow the slot through these places.
\<close>

subsection \<open>The places where a message waits\<close>

definition bank_at :: "slot \<Rightarrow> 'x bank_info \<Rightarrow> bool" where
  "bank_at sl bk \<longleftrightarrow> (\<forall>m. Some m \<in> set (bi_messages bk) \<longrightarrow> parsed_slot m = sl) \<and>
     (\<forall>meta. bi_block_meta bk = Some meta \<longrightarrow> bm_slot (mb_block_meta meta) = sl)"

definition info_at :: "slot \<Rightarrow> 'x rslot_info \<Rightarrow> bool" where
  "info_at sl info \<longleftrightarrow> (\<forall>bk \<in> snd ` set (rsi_banks info). bank_at sl bk)"

definition dedup_bank_at :: "slot \<Rightarrow> dedup_info_bank \<Rightarrow> bool" where
  "dedup_bank_at sl d \<longleftrightarrow> (\<forall>sig v. db_transactions d sig = Some (DT_Accounts v) \<longrightarrow> (\<forall>a \<in> set v. ma_slot a = sl))"

definition dedup_at :: "slot \<Rightarrow> dedup_info \<Rightarrow> bool" where
  "dedup_at sl d \<longleftrightarrow> (\<forall>bank b. di_banks d bank = Some b \<longrightarrow> dedup_bank_at sl b)"

text \<open>The rings and the commands of a sender.\<close>

definition rings :: "('x, 'w, 'db) sender \<Rightarrow> ('x parsed_message, 'w) sender_shared set" where
  "rings s = insert (sn_processed s) (set_option (sn_confirmed s) \<union> set_option (sn_finalized s))"

definition outputs_own :: "('x, 'w, 'db) sender \<Rightarrow> bool" where
  "outputs_own s \<longleftrightarrow> (\<forall>(c, sl, m) \<in> set (pushes (command_log s)). parsed_slot m = sl) \<and>
     (\<forall>r \<in> rings s. \<forall>(sl, m) \<in> ring_msgs r. parsed_slot m = sl)"

definition sender_own :: "('x, 'w, 'db) sender \<Rightarrow> bool" where
  "sender_own s \<longleftrightarrow> outputs_own s \<and> (\<forall>(sl, info) \<in> set (sn_slots s). info_at sl info) \<and>
     (\<forall>(sl, d) \<in> set (sn_dedup s). dedup_at sl d)"

subsection \<open>Sets of map entries\<close>

lemma set_bt_insert: "set (bt_insert k v m) \<subseteq> insert (k, v) (set m)"
  by (induction k v m rule: bt_insert.induct) auto

lemma set_bt_remove: "set (bt_remove k m) \<subseteq> set m"
  by (auto simp: bt_remove_def)

lemma set_bt_pop_while: "set (bt_pop_while Q m) \<subseteq> set m"
  unfolding bt_pop_while_eq by (rule set_dropWhileD [THEN subsetI])

subsection \<open>Deduplication\<close>

lemma bind_SomeE:
  assumes "Option.bind x f = Some y"
  obtains z where "x = Some z" and "f z = Some y"
  using assms by (cases x) auto

lemma update_keeps_slot: "update_write_version P v a = Some a' \<Longrightarrow> ma_slot a' = ma_slot a"
  unfolding update_write_version_def Let_def case_prod_unfold
  by (elim bind_SomeE) (simp only: option.inject, clarsimp)

lemma rewrite_keeps_slot:
  "rewrite_all P v xs = Some ys \<Longrightarrow> \<forall>a \<in> set xs. ma_slot a = sl \<Longrightarrow> \<forall>a \<in> set ys. ma_slot a = sl"
proof (induction xs arbitrary: ys)
  case (Cons x xs)
  from Cons.prems(1) obtain x' ys' where y: "update_write_version P v x = Some x'" "rewrite_all P v xs = Some ys'" "ys = x' # ys'"
    by (auto elim!: bind_SomeE)
  have "ma_slot x' = sl" using update_keeps_slot [OF y(1)] Cons.prems(2) by simp
  with Cons.IH [OF y(2)] Cons.prems(2) y(3) show ?case by simp
qed simp

lemma dedup_bank_at_update:
  "dedup_bank_at sl d \<Longrightarrow> (\<And>v. x = DT_Accounts v \<Longrightarrow> \<forall>a \<in> set v. ma_slot a = sl) \<Longrightarrow>
   dedup_bank_at sl (d\<lparr>db_accounts_updates := K, db_transactions := (db_transactions d)(sig \<mapsto> x)\<rparr>)"
  by (auto simp: dedup_bank_at_def)

lemma dedup_account_own:
  assumes "dedup_account P m d = Some (ms, d')" "dedup_bank_at (ma_slot m) d"
  shows "dedup_bank_at (ma_slot m) d' \<and> (\<forall>x \<in> set ms. parsed_slot x = ma_slot m)"
proof -
  from assms(1) obtain key where k: "account_transaction_key m = Some key" by (auto simp: dedup_account_def bind_eq_Some_conv)
  show ?thesis
  proof (cases "key \<in> db_accounts_updates d")
    case True
    with k assms show ?thesis by (simp add: dedup_account_def)
  next
    case False
    show ?thesis
    proof (cases "fst key")
      case None
      with k False assms show ?thesis
        by (auto simp: dedup_account_def dedup_bank_at_def dest: update_keeps_slot)
    next
      case (Some sig)
      show ?thesis
      proof (cases "db_transactions d sig")
        case None
        with k False Some assms show ?thesis by (auto simp: dedup_account_def dedup_bank_at_def split: if_splits)
      next
        case (Some t)
        with k False \<open>fst key = Some sig\<close> assms show ?thesis
          by (cases t) (auto simp: dedup_account_def dedup_bank_at_def dest: update_keeps_slot split: if_splits)
      qed
    qed
  qed
qed

lemma dedup_transaction_own:
  assumes "dedup_transaction P m d = Some (ms, d')" "dedup_bank_at (mt_slot m) d"
  shows "dedup_bank_at (mt_slot m) d' \<and> (\<forall>x \<in> set ms. parsed_slot x = mt_slot m)"
proof -
  from assms(1) obtain sig where s: "message_transaction_signature m = Some sig"
    by (auto simp: dedup_transaction_def Let_def bind_eq_Some_conv)
  show ?thesis
  proof (cases "db_transactions d sig")
    case None
    with s assms show ?thesis by (auto simp: dedup_transaction_def Let_def dedup_bank_at_def split: if_splits)
  next
    case (Some t)
    show ?thesis
    proof (cases t)
      case (DT_Index i)
      with s Some assms show ?thesis by (simp add: dedup_transaction_def Let_def)
    next
      case (DT_Accounts v)
      with s Some assms(1) obtain v' where v': "rewrite_all P (mt_index m + 1000) v = Some v'"
        "ms = map RP_Account v' @ [RP_Transaction m]" "d' = d\<lparr>db_transactions := (db_transactions d)(sig \<mapsto> DT_Index (mt_index m + 1000))\<rparr>"
        by (auto simp: dedup_transaction_def Let_def)
      have "\<forall>a \<in> set v. ma_slot a = mt_slot m" using assms(2) Some DT_Accounts by (auto simp: dedup_bank_at_def)
      from rewrite_keeps_slot [OF v'(1) this] v'(2,3) assms(2) show ?thesis by (auto simp: dedup_bank_at_def split: if_splits)
    qed
  qed
qed

lemma dedup_bank_push_own:
  assumes "dedup_bank_push P m d = Some (ms, d')" "dedup_bank_at (message_slot_of m) d"
  shows "dedup_bank_at (message_slot_of m) d' \<and> (\<forall>x \<in> set ms. parsed_slot x = message_slot_of m)"
proof (cases m)
  case (M_Account a)
  with assms dedup_account_own [of P a d ms d'] show ?thesis by simp
next
  case (M_Transaction t)
  with assms dedup_transaction_own [of P t d ms d'] show ?thesis by simp
next
  case (M_Entry e)
  with assms show ?thesis by (auto simp: dedup_entry_def dedup_bank_at_def Let_def split: if_splits)
qed (use assms in \<open>auto simp: dedup_bank_at_def split: if_splits\<close>)

lemma dedup_bank_default_at: "dedup_bank_at sl dedup_bank_default"
  by (simp add: dedup_bank_at_def dedup_bank_default_def)

lemma dedup_push_own:
  assumes "dedup_push P source bank m d = Some (ms, d')" "dedup_at (message_slot_of m) d"
  shows "dedup_at (message_slot_of m) d' \<and> (\<forall>x \<in> set ms. parsed_slot x = message_slot_of m)"
proof (cases "dedup_source bank source d")
  case None
  with assms show ?thesis by (simp add: dedup_push_def)
next
  case (Some d1)
  then have b: "di_banks d1 = di_banks d" by (auto simp: dedup_source_def split: if_splits option.splits)
  show ?thesis
  proof (cases "\<exists>x. m = M_Slot x")
    case True
    with Some assms b show ?thesis by (auto simp: dedup_push_def dedup_at_def Let_def split: if_splits)
  next
    case False
    let ?b = "case di_banks d1 bank of Some d \<Rightarrow> d | None \<Rightarrow> dedup_bank_default"
    have q: "dedup_message P bank m d1 = map_option (\<lambda>(ms, d). (ms, d1\<lparr>di_banks := (di_banks d1)(bank \<mapsto> d)\<rparr>)) (dedup_bank_push P m ?b)"
      using False by (cases m) auto
    have "dedup_bank_at (message_slot_of m) ?b"
      using assms(2) b by (auto simp: dedup_at_def dedup_bank_default_at split: option.split)
    moreover obtain b' where "dedup_bank_push P m ?b = Some (ms, b')" "d' = d1\<lparr>di_banks := (di_banks d1)(bank \<mapsto> b')\<rparr>"
      using assms(1) Some q by (auto simp: dedup_push_def)
    ultimately show ?thesis using dedup_bank_push_own [of P m ?b ms b'] assms(2) b by (auto simp: dedup_at_def)
  qed
qed

subsection \<open>Banks\<close>

lemma bank_at_fields [simp]:
  "bank_at sl (bk\<lparr>bi_accounts_dedup := x\<rparr>) = bank_at sl bk"
  "bank_at sl (bk\<lparr>bi_transactions_count := n\<rparr>) = bank_at sl bk"
  "bank_at sl (bk\<lparr>bi_entries_count := n\<rparr>) = bank_at sl bk"
  "bank_at sl (bk\<lparr>bi_block_created := f\<rparr>) = bank_at sl bk"
  "bank_at sl (bk\<lparr>bi_failed := f\<rparr>) = bank_at sl bk"
  "bank_at sl (bk\<lparr>bi_landed := f\<rparr>) = bank_at sl bk"
  by (simp_all add: bank_at_def)

lemma bank_at_new [simp]: "bank_at sl (bank_info_new k)"
  by (simp add: bank_at_def bank_info_new_def)

lemma push_message_at: "bank_at sl bk \<Longrightarrow> parsed_slot m = sl \<Longrightarrow> bank_at sl (push_message m bk)"
  by (auto simp: bank_at_def push_message_def)

lemma clear_message_at: "clear_message i bk = Some bk' \<Longrightarrow> bank_at sl bk \<Longrightarrow> bank_at sl bk'"
  by (auto simp: bank_at_def clear_message_def dest!: set_update_subset_insert [THEN subsetD] split: if_splits)

lemma store_message_at:
  assumes "store_message P m bk = Some bk'" "bank_at sl bk" "parsed_slot m = sl"
  shows "bank_at sl bk'"
proof -
  note p = push_message_at [OF assms(2,3)]
  show ?thesis
  proof (cases m)
    case (RP_Account a)
    show ?thesis
    proof (cases "bi_accounts_dedup bk (ma_pubkey a)")
      case None
      with RP_Account assms(1) p show ?thesis by (auto simp: store_account_def Let_def bind_eq_Some_conv)
    next
      case (Some vi)
      with RP_Account assms(1) p show ?thesis
        by (cases vi) (auto simp: store_account_def Let_def bind_eq_Some_conv dest: clear_message_at split: if_split_asm)
    qed
  next
    case (RP_BlockMeta meta)
    with assms(1,3) p show ?thesis by (auto simp: bank_at_def)
  qed (use assms(1) p in auto)
qed

lemma create_block_slot [simp]: "parsed_slot (create_block ms meta) = bm_slot (mb_block_meta meta)"
  by (simp add: create_block_def unchecked_create_block_def)

lemma bank_message_at:
  assumes "bank_get_block_message P m bk = Some (block, r, bk')" "bank_at sl bk" "parsed_slot m = sl"
  shows "bank_at sl bk' \<and> (\<forall>x. block = Some x \<longrightarrow> parsed_slot x = sl)"
proof (cases "(\<exists>f ts n. m = RP_BlockFooter f ts n) \<or> bi_block_created bk")
  case True
  then show ?thesis using assms push_message_at [OF assms(2,3)]
    by (auto simp: bank_get_block_message_def split: parsed_message.splits if_splits)
next
  case False
  with assms(1) obtain b1 where b1: "store_message P m bk = Some b1" and
    r: "(if bank_complete b1 then (let block = create_block (somes (bi_messages b1)) (the (bi_block_meta b1)) in
          Some (Some block, None, push_message block (b1\<lparr>bi_block_created := True\<rparr>))) else Some (None, None, b1)) = Some (block, r, bk')"
    by (auto simp: bank_get_block_message_def bind_eq_Some_conv split: parsed_message.splits)
  note ok = store_message_at [OF b1 assms(2,3)]
  show ?thesis
  proof (cases "bank_complete b1")
    case True
    then obtain meta where meta: "bi_block_meta b1 = Some meta" by (auto simp: bank_complete_def split: option.splits)
    then have "bm_slot (mb_block_meta meta) = sl" using ok by (simp add: bank_at_def)
    with True r meta ok show ?thesis by (auto simp: Let_def intro!: push_message_at)
  qed (use r ok in auto)
qed

lemma slot_message_at:
  assumes s: "slot_get_block_message P m info = Some (block, r, info')" and i: "info_at sl info" and m: "parsed_slot m = sl"
  shows "info_at sl info' \<and> (\<forall>x. block = Some x \<longrightarrow> parsed_slot x = sl)"
proof (cases "\<exists>u ts n. m = RP_EntryUpdateParent u ts n")
  case True
  then show ?thesis using s i set_bt_remove
    by (fastforce simp: slot_get_block_message_def info_at_def split: option.splits if_splits)
next
  case False
  let ?banks = "bt_or_insert (parsed_bank_id m) (bank_info_new (rsi_slot info)) (rsi_banks info)"
  from s False obtain bk b where bk: "bt_get ?banks (parsed_bank_id m) = Some bk" and
    g: "bank_get_block_message P m bk = Some (block, r, b)" and
    info': "info' = info\<lparr>rsi_banks := bt_insert (parsed_bank_id m) b ?banks\<rparr>"
    by (auto simp: slot_get_block_message_def Let_def bind_eq_Some_conv split: parsed_message.splits)
  have banks: "bank_at sl x" if "(k, x) \<in> set ?banks" for k x
    using that i set_bt_insert [of "parsed_bank_id m" "bank_info_new (rsi_slot info)" "rsi_banks info"]
    by (force simp: bt_or_insert_def info_at_def split: option.splits)
  from bank_message_at [OF g banks [OF bt_get_in_set [OF bk]] m]
  have b: "bank_at sl b" "\<forall>x. block = Some x \<longrightarrow> parsed_slot x = sl" by auto
  have "bank_at sl x" if "(k, x) \<in> set (rsi_banks info')" for k x
    using that set_bt_insert [of "parsed_bank_id m" b ?banks] b(1) banks by (auto simp: info')
  with b(2) show ?thesis by (auto simp: info_at_def)
qed

lemma banks_at_update:
  assumes "\<forall>bk \<in> snd ` set t. bank_at sl bk" "\<And>x. bank_at sl x \<Longrightarrow> bank_at sl (f x)"
  shows "\<forall>bk \<in> snd ` set (bt_update k f t). bank_at sl bk"
proof (cases "bt_get t k")
  case (Some x)
  have "bank_at sl x" using assms(1) bt_get_in_set [OF Some] by force
  then have x: "bank_at sl (f x)" by (rule assms(2))
  show ?thesis
  proof
    fix bk assume "bk \<in> snd ` set (bt_update k f t)"
    then have "bk \<in> snd ` set (bt_insert k (f x) t)" using Some by (simp add: bt_update_def)
    then have "bk \<in> snd ` insert (k, f x) (set t)" using set_bt_insert [of k "f x" t] by blast
    with x assms(1) show "bank_at sl bk" by auto
  qed
qed (use assms(1) in \<open>simp add: bt_update_def\<close>)

lemma info_at_land:
  assumes "info_at sl i"
  shows "info_at sl (i\<lparr>rsi_banks := bt_update k (\<lambda>b. b\<lparr>bi_landed := True\<rparr>) (rsi_banks i)\<rparr>)"
proof -
  have "\<forall>bk \<in> snd ` set (bt_update k (\<lambda>b. b\<lparr>bi_landed := True\<rparr>) (rsi_banks i)). bank_at sl bk"
    using assms unfolding info_at_def by (rule banks_at_update) (simp only: bank_at_fields)
  moreover have "rsi_banks (i\<lparr>rsi_banks := t\<rparr>) = t" for t by simp
  ultimately show ?thesis unfolding info_at_def by (simp only:)
qed

lemma info_at_confirmed [simp]: "info_at sl (i\<lparr>rsi_confirmed_bank := b\<rparr>) = info_at sl i"
  by (simp add: info_at_def)

lemma slot_commit_at:
  assumes "slot_commit st b info = (r, info')" "info_at sl info"
  shows "info_at sl info'"
proof -
  let ?k = "select_bank info b"
  note landed = info_at_land [of sl _ ?k]
  consider "info' = (info\<lparr>rsi_confirmed_bank := Some ?k\<rparr>)\<lparr>rsi_banks := bt_update ?k (\<lambda>b. b\<lparr>bi_landed := True\<rparr>)
      (rsi_banks (info\<lparr>rsi_confirmed_bank := Some ?k\<rparr>))\<rparr>"
    | "info' = info\<lparr>rsi_banks := bt_update ?k (\<lambda>b. b\<lparr>bi_landed := True\<rparr>) (rsi_banks info)\<rparr>" | "info' = info"
    using assms(1) unfolding slot_commit_def Let_def by (simp only: prod.inject split: if_splits) auto
  then show ?thesis
  proof cases
    case 1
    show ?thesis unfolding 1 by (rule landed) (simp add: assms(2))
  next
    case 2
    show ?thesis unfolding 2 by (rule landed) (rule assms(2))
  qed (simp add: assms(2))
qed

lemma messages_at:
  assumes "info_at sl info" "m \<in> set (get_messages_cloned b info) \<or> m \<in> set (fst (get_messages_owned b info))"
  shows "parsed_slot m = sl"
proof -
  have "Some m \<in> set xs" if "m \<in> set (somes xs)" for xs using that by (auto simp: somes_def List.map_filter_def)
  with assms show ?thesis
    by (auto simp: info_at_def bank_at_def get_messages_cloned_def get_messages_owned_def dest!: bt_get_in_set split: option.splits)
qed

subsection \<open>What is published\<close>

lemma outputs_stored:
  assumes p: "push_stored sz sl m (sn_storage s) (sn_index s) h ss = Some (ss', st', i')" and ss: "ss \<in> rings s"
    and m: "parsed_slot m = sl" and o: "outputs_own s"
    and s': "sn_storage s' = st'" "rings s' \<subseteq> insert ss' (rings s)"
  shows "outputs_own s'"
proof -
  have log: "set (pushes (command_log s')) \<subseteq> insert (ss_commitment ss, sl, m) (set (pushes (command_log s)))"
    using push_stored_cases(2) [OF p] s'(1) by (auto simp: command_log_def send_command_def)
  have ring: "ring_msgs ss' \<subseteq> insert (sl, m) (ring_msgs ss)" by (rule ring_msgs_push_stored [OF p])
  show ?thesis unfolding outputs_own_def
  proof (intro conjI ballI)
    fix x assume "x \<in> set (pushes (command_log s'))"
    with log have "x = (ss_commitment ss, sl, m) \<or> x \<in> set (pushes (command_log s))" by blast
    then show "case x of (c, sl, m) \<Rightarrow> parsed_slot m = sl" using m o by (auto simp: outputs_own_def)
  next
    fix r x assume "r \<in> rings s'" "x \<in> ring_msgs r"
    then have "x = (sl, m) \<or> (\<exists>r' \<in> rings s. x \<in> ring_msgs r')" using ring s'(2) ss by blast
    then show "case x of (sl, m) \<Rightarrow> parsed_slot m = sl" using m o by (auto simp: outputs_own_def)
  qed
qed

lemma outputs_processed:
  assumes "push_processed sz sl h m s = Some s'" "parsed_slot m = sl" "outputs_own s"
  shows "outputs_own s'"
proof -
  from assms(1) obtain ss st i where p: "push_stored sz sl m (sn_storage s) (sn_index s) h (sn_processed s) = Some (ss, st, i)"
    "s' = s\<lparr>sn_processed := ss, sn_storage := st, sn_index := i\<rparr>" by (auto simp: push_processed_def)
  show ?thesis by (rule outputs_stored [OF p(1) _ assms(2,3)]) (auto simp: p(2) rings_def)
qed

lemma outputs_confirmed:
  assumes "push_confirmed sz sl h m s = Some s'" "parsed_slot m = sl" "outputs_own s"
  shows "outputs_own s'"
proof (cases "sn_confirmed s")
  case (Some sh)
  with assms(1) obtain ss st i where p: "push_stored sz sl m (sn_storage s) (sn_index s) h sh = Some (ss, st, i)"
    "s' = s\<lparr>sn_confirmed := Some ss, sn_storage := st, sn_index := i\<rparr>" by (auto simp: push_confirmed_def)
  show ?thesis by (rule outputs_stored [OF p(1) _ assms(2,3)]) (auto simp: p(2) rings_def Some)
qed (use assms in \<open>simp add: push_confirmed_def\<close>)

lemma outputs_finalized:
  assumes "push_finalized sz sl h m s = Some s'" "parsed_slot m = sl" "outputs_own s"
  shows "outputs_own s'"
proof (cases "sn_finalized s")
  case (Some sh)
  with assms(1) obtain ss st i where p: "push_stored sz sl m (sn_storage s) (sn_index s) h sh = Some (ss, st, i)"
    "s' = s\<lparr>sn_finalized := Some ss, sn_storage := st, sn_index := i\<rparr>" by (auto simp: push_finalized_def)
  show ?thesis by (rule outputs_stored [OF p(1) _ assms(2,3)]) (auto simp: p(2) rings_def Some)
qed (use assms in \<open>simp add: push_finalized_def\<close>)

lemma outputs_own_cong:
  "command_log s' = command_log s \<Longrightarrow> sn_processed s' = sn_processed s \<Longrightarrow> sn_confirmed s' = sn_confirmed s \<Longrightarrow>
   sn_finalized s' = sn_finalized s \<Longrightarrow> outputs_own s' = outputs_own s"
  by (simp add: outputs_own_def rings_def)

text \<open>Publishing keeps the outputs, and the banks apart from the finalized slot.\<close>

definition fewer :: "('x, 'w, 'db) sender \<Rightarrow> ('x, 'w, 'db) sender \<Rightarrow> bool" where
  "fewer s s' \<longleftrightarrow> set (sn_slots s') \<subseteq> set (sn_slots s) \<and> set (sn_dedup s') \<subseteq> set (sn_dedup s)"

lemma sender_own_fewer: "outputs_own s' \<Longrightarrow> fewer s s' \<Longrightarrow> sender_own s \<Longrightarrow> sender_own s'"
  unfolding sender_own_def fewer_def by blast

lemma fewer_same: "same_slots s s' \<Longrightarrow> fewer s s'"
  by (simp add: fewer_def same_slots_def)

lemma own_pushes:
  "push_processed sz sl h m s = Some s' \<Longrightarrow> parsed_slot m = sl \<Longrightarrow> sender_own s \<Longrightarrow> sender_own s'"
  "push_confirmed sz sl h m s = Some s' \<Longrightarrow> parsed_slot m = sl \<Longrightarrow> sender_own s \<Longrightarrow> sender_own s'"
  "push_finalized sz sl h m s = Some s' \<Longrightarrow> parsed_slot m = sl \<Longrightarrow> sender_own s \<Longrightarrow> sender_own s'"
  by (blast intro: sender_own_fewer fewer_same ring_pushes_same outputs_processed outputs_confirmed outputs_finalized
      dest: sender_own_def [THEN iffD1, THEN conjunct1])+

lemma own_info:
  "sender_own s \<Longrightarrow> bt_get (sn_slots s) sl = Some info \<Longrightarrow> info_at sl info"
  by (auto simp: sender_own_def dest: bt_get_in_set)

lemma own_check_replayed:
  assumes "check_replayed P H sl m s = Some (skip, s')" "sender_own s"
  shows "sender_own s'"
proof (rule sender_own_fewer [OF _ fewer_same [OF check_replayed_same(1) [OF assms(1)]] assms(2)])
  have o: "outputs_own s" using assms(2) by (simp add: sender_own_def)
  have "s' = s \<or> (\<exists>i. s' = s\<lparr>sn_storage := map_option (send_command (WC_RestorePayload i m)) (sn_storage s)\<rparr>) \<or>
      (\<exists>v. s' = s\<lparr>sn_replay := v\<rparr>)"
    using assms(1) by (auto simp: check_replayed_def bind_eq_Some_conv split: option.splits)
  then show "outputs_own s'"
    using o by (elim disjE exE)
      (simp_all add: outputs_own_def rings_def command_log_def send_command_def split: option.splits)
qed

lemma own_promote_confirmed:
  assumes "promote_confirmed sz sl h bank s = Some s'" "sender_own s"
  shows "sender_own s'"
proof (cases "sn_confirmed s = None \<or> bt_get (sn_slots s) sl = None")
  case False
  then obtain info where info: "bt_get (sn_slots s) sl = Some info" by blast
  with False assms(1) have p: "push_each (push_confirmed sz sl h) (get_messages_cloned bank info) s = Some s'"
    by (auto simp: promote_confirmed_def)
  show ?thesis
    by (rule push_each_invariant [OF p, where I = sender_own, OF assms(2)]) (blast intro: own_pushes(2) messages_at [OF own_info [OF assms(2) info]])
qed (use assms in \<open>auto simp: promote_confirmed_def split: option.splits\<close>)

lemma own_promote_finalized:
  assumes p: "promote_finalized sz sl h cb s = Some s'" and s: "sender_own s"
  shows "sender_own s'"
proof -
  let ?s1 = "s\<lparr>sn_slot_finalized := sl, sn_global_replay := global_replay_store (sl + 1) (sn_global_replay s)\<rparr>"
  have o: "outputs_own (?s1\<lparr>sn_slots := t\<rparr>)" "outputs_own ?s1" for t
    using s outputs_own_cong [of "?s1\<lparr>sn_slots := t\<rparr>" s] outputs_own_cong [of ?s1 s] by (simp_all add: sender_own_def command_log_def)
  show ?thesis
  proof (cases "sn_finalized s = None \<or> cb = None \<or> bt_get (sn_slots s) sl = None")
    case True
    then have s': "s' = ?s1" using p by (auto simp: promote_finalized_def Let_def split: option.splits)
    show ?thesis unfolding s' by (rule sender_own_fewer [OF o(2) _ s]) (simp add: fewer_def)
  next
    case False
    then obtain bank info where b: "cb = Some bank" "bt_get (sn_slots s) sl = Some info" by auto
    let ?s2 = "?s1\<lparr>sn_slots := bt_remove sl (sn_slots s)\<rparr>"
    from False b p have q: "push_each (push_finalized sz sl h) (fst (get_messages_owned bank info)) ?s2 = Some s'"
      by (auto simp: promote_finalized_def Let_def)
    have s2: "sender_own ?s2"
      by (rule sender_own_fewer [OF o(1) _ s]) (simp add: fewer_def set_bt_remove)
    show ?thesis
      by (rule push_each_invariant [OF q, where I = sender_own, OF s2]) (blast intro: own_pushes(3) messages_at [OF own_info [OF s b(2)]])
  qed
qed

lemma own_publish_status:
  assumes p: "publish_status sz sl h cb m s = Some s'" and s: "sender_own s" and m: "ms_slot m = sl"
  shows "sender_own s'"
proof -
  from p obtain s1 s2 s3 where 1: "push_confirmed sz sl h (RP_Slot m) s = Some s1" and
    2: "push_finalized sz sl h (RP_Slot m) s1 = Some s2" and
    3: "(case cb of Some bank \<Rightarrow> if ms_status m = SlotConfirmed then promote_confirmed sz sl h bank s2 else Some s2
       | None \<Rightarrow> Some s2) = Some s3" and
    4: "(if ms_status m = SlotFinalized then promote_finalized sz sl h cb s3 else Some s3) = Some s'"
    by (auto simp: publish_status_def bind_eq_Some_conv)
  have "sender_own s2" by (rule own_pushes(3) [OF 2 _ own_pushes(2) [OF 1 _ s]]) (simp_all add: m)
  then have "sender_own s3" using 3 by (auto dest: own_promote_confirmed split: option.splits if_splits)
  then show ?thesis using 4 by (auto dest: own_promote_finalized split: if_splits)
qed

lemma own_publish:
  assumes p: "publish P H sz sl h bank cb m cs = Some cs'" and s: "sender_own (snd cs)" and m: "parsed_slot m = sl"
  shows "sender_own (snd cs')"
proof -
  from p obtain skip s1 where r: "check_replayed P H sl m (snd cs) = Some (skip, s1)" and
    q: "skip \<and> snd cs' = s1 \<or> (\<exists>s2. (publish_other sz sl h bank m s1 = Some s2 \<or>
      (\<exists>x. m = RP_Slot x \<and> publish_status sz sl h cb x s1 = Some s2)) \<and> push_processed sz sl h m s2 = Some (snd cs'))"
  proof -
    from p obtain skip s1 where r: "check_replayed P H sl m (snd cs) = Some (skip, s1)"
      by (auto simp: publish_def elim!: bind_SomeE)
    show thesis
      by (rule that [OF r]) (use p r in \<open>cases m; cases skip; force simp: publish_def bind_eq_Some_conv\<close>)
  qed
  have s1: "sender_own s1" by (rule own_check_replayed [OF r s])
  have "sender_own s2" if "publish_other sz sl h bank m s1 = Some s2" for s2
    using that s1 m own_pushes(2) [of sz sl h m s1 s2] by (auto simp: publish_other_def split: if_splits)
  moreover have "sender_own s2" if "m = RP_Slot x" "publish_status sz sl h cb x s1 = Some s2" for x s2
    using own_publish_status [OF that(2) s1] that(1) m by simp
  ultimately show ?thesis using q s1 m own_pushes(1) by blast
qed

lemma sender_own_enter:
  assumes "sender_own s" "info_at sl info"
  shows "sender_own (s\<lparr>sn_slots := bt_insert sl info (sn_slots s)\<rparr>)"
proof -
  have "outputs_own (s\<lparr>sn_slots := bt_insert sl info (sn_slots s)\<rparr>)"
    using assms(1) outputs_own_cong [of "s\<lparr>sn_slots := bt_insert sl info (sn_slots s)\<rparr>" s] by (simp add: sender_own_def command_log_def)
  then show ?thesis using assms set_bt_insert [of sl info "sn_slots s"] unfolding sender_own_def by auto
qed

lemma own_sender_message:
  assumes p: "sender_message P H sz sl m cs = Some cs'" and s: "sender_own (snd cs)" and m: "parsed_slot m = sl"
  shows "sender_own (snd cs')"
proof -
  from p obtain replay where r: "bt_get (sn_replay (snd cs)) sl = Some replay" by (auto simp: sender_message_def Let_def elim!: bind_SomeE)
  define info where "info = (case bt_get (sn_slots (snd cs)) sl of Some i \<Rightarrow> i | None \<Rightarrow> rslot_info_new sl (rp_head replay))"
  have i: "info_at sl info"
    using own_info [OF s] by (auto simp: info_def info_at_def rslot_info_new_def split: option.split)
  obtain cb block info' where g: "info_at sl info'" "\<forall>x. block = Some x \<longrightarrow> parsed_slot x = sl" and
    q: "push_each (publish P H sz sl (rsi_index info) (parsed_bank_id m) cb) (m # (case block of Some b \<Rightarrow> [b] | None \<Rightarrow> []))
      (fst cs, (snd cs)\<lparr>sn_slots := bt_insert sl info' (sn_slots (snd cs))\<rparr>) = Some cs'"
  proof (cases "\<exists>x. m = RP_Slot x")
    case True
    then obtain x where x: "m = RP_Slot x" by blast
    obtain cb info' where c: "slot_commit (ms_status x) (parsed_bank_id m) info = (cb, info')" by fastforce
    show thesis
      by (rule that [of info' None cb]) (use p r c x slot_commit_at [OF c i] in
        \<open>simp_all add: sender_message_def Let_def info_def [symmetric]\<close>)
  next
    case False
    with p r obtain block rep info' where c: "slot_get_block_message P m info = Some (block, rep, info')" and
      q: "push_each (publish P H sz sl (rsi_index info) (parsed_bank_id m) None) (m # (case block of Some b \<Rightarrow> [b] | None \<Rightarrow> []))
      (fst cs, (snd cs)\<lparr>sn_slots := bt_insert sl info' (sn_slots (snd cs))\<rparr>) = Some cs'"
      by (cases m) (auto simp: sender_message_def Let_def info_def elim!: bind_SomeE)
    show thesis by (rule that [OF _ _ q]) (use slot_message_at [OF c i m] in blast)+
  qed
  have "sender_own (snd (fst cs, (snd cs)\<lparr>sn_slots := bt_insert sl info' (sn_slots (snd cs))\<rparr>))"
    using sender_own_enter [OF s g(1)] by simp
  then show ?thesis
  proof (rule push_each_invariant [OF q, where I = "\<lambda>x. sender_own (snd x)"])
    fix x y z assume x: "x \<in> set (m # (case block of Some b \<Rightarrow> [b] | None \<Rightarrow> []))" "sender_own (snd y)"
      "publish P H sz sl (rsi_index info) (parsed_bank_id m) cb x y = Some z"
    have "parsed_slot x = sl" using x(1) g(2) m by (auto split: option.splits)
    from own_publish [OF x(3,2) this] show "sender_own (snd z)" .
  qed
qed

lemma trim_replay_pushes: "pushes (rst_sent (snd (trim_replay first r st))) = pushes (rst_sent st)"
  by (induction first r st rule: trim_replay.induct) (simp_all add: send_command_def)

lemma own_clean: "sender_own t \<Longrightarrow> sender_own (clean_finalized t)"
  by (rule sender_own_fewer)
    (use outputs_own_cong [of "clean_finalized t" t] in
      \<open>auto simp: sender_own_def fewer_def clean_finalized_def command_log_def dest: set_bt_pop_while [THEN subsetD]\<close>)

lemma own_unfinalized: "sender_own t \<Longrightarrow> sender_own (drop_unfinalized t)"
proof (induction t rule: drop_unfinalized.induct)
  case (1 t)
  have tl: "set (tl (sn_slots t)) \<subseteq> set (sn_slots t)" by (cases "sn_slots t") auto
  let ?t = "t\<lparr>sn_slots := tl (sn_slots t), sn_slot_dropped := max (sn_slot_dropped t) (fst (hd (sn_slots t))),
     sn_slots_dropped := sn_slots_dropped t + 1\<rparr>"
  have "sender_own ?t"
    by (rule sender_own_fewer [OF _ _ 1(2)])
      (use 1(2) tl outputs_own_cong [of ?t t] in \<open>simp_all add: sender_own_def fewer_def command_log_def\<close>)
  with 1 show ?case by (subst drop_unfinalized.simps) simp
qed

lemma own_drop_dedup: "sender_own t \<Longrightarrow> sender_own (drop_dedup t)"
  by (rule sender_own_fewer)
    (use outputs_own_cong [of "drop_dedup t" t] in
      \<open>auto simp: sender_own_def fewer_def drop_dedup_def command_log_def dest: in_set_dropD\<close>)

lemma own_retain:
  assumes "sender_own t"
  shows "sender_own (retain_storage t)"
proof (rule sender_own_fewer [OF _ _ assms])
  have "pushes (command_log (retain_storage t)) = pushes (command_log t)"
    by (simp add: trim_replay_pushes retain_storage_def command_log_def Let_def case_prod_unfold split: option.split)
  moreover have "rings (retain_storage t) = rings t"
    by (simp add: retain_storage_def rings_def Let_def case_prod_unfold split: option.split)
  ultimately show "outputs_own (retain_storage t)" using assms by (simp add: sender_own_def outputs_own_def)
  show "fewer t (retain_storage t)"
    by (simp add: retain_storage_def fewer_def Let_def case_prod_unfold split: option.split)
qed

lemma own_wake: "sender_own t \<Longrightarrow> sender_own (snd (sender_wake t))"
  by (rule sender_own_fewer)
    (auto simp: sender_wake_def sender_own_def outputs_own_def rings_def ring_msgs_def fewer_def command_log_def
      split: option.splits)

lemma own_sender_publish:
  assumes p: "sender_publish P H sz sl ms s = Some s'" and s: "sender_own s" and m: "\<forall>m \<in> set ms. parsed_slot m = sl"
  shows "sender_own s'"
proof -
  let ?s0 = "s\<lparr>sn_replay := bt_or_insert sl (replay_info_new (sn_index s)) (sn_replay s)\<rparr>"
  from p obtain clean s2 where l: "push_each (sender_message P H sz sl) ms (False, ?s0) = Some (clean, s2)" and
    s': "s' = retain_storage (drop_dedup (drop_unfinalized (if clean then clean_finalized s2 else s2)))"
    by (auto simp: sender_publish_def)
  have "sender_own ?s0"
    by (rule sender_own_fewer [OF _ _ s]) (use s outputs_own_cong [of ?s0 s] in \<open>simp_all add: sender_own_def fewer_def command_log_def\<close>)
  then have "sender_own (snd (False, ?s0))" by simp
  from push_each_invariant [OF l, where I = "\<lambda>x. sender_own (snd x)", OF this] own_sender_message m have s2: "sender_own s2" by fastforce
  show ?thesis unfolding s' using s2 by (cases clean) (simp_all add: own_clean own_unfinalized own_drop_dedup own_retain)
qed

lemma own_sender_push:
  assumes p: "sender_push P H sz req source m s = Some (ws, s')" and s: "sender_own s"
  shows "sender_own s'"
proof -
  let ?sl = "message_slot_of m"
  consider "s' = s" | ms s1 where "sender_dedup P req source m s = Some (ms, s1)"
      "ms = [] \<and> s' = s1 \<or> (\<exists>s2. sender_publish P H sz ?sl ms s1 = Some s2 \<and> s' = snd (sender_wake s2))"
    using p by (auto simp: sender_push_def bind_eq_Some_conv split: if_splits)
  then show ?thesis
  proof cases
    case 2
    have d: "sender_own s1 \<and> (\<forall>x \<in> set ms. parsed_slot x = ?sl)"
    proof (cases req)
      case True
      let ?d = "case bt_get (sn_dedup s) ?sl of Some d \<Rightarrow> d | None \<Rightarrow> dedup_info_default"
      from True 2(1) obtain d where d: "dedup_push P source (filter_bank (message_bank_id m)) m ?d = Some (ms, d)"
        "s1 = s\<lparr>sn_dedup := bt_insert ?sl d (sn_dedup s)\<rparr>" by (auto simp: sender_dedup_def Let_def)
      have "dedup_at ?sl ?d"
        using s by (cases "bt_get (sn_dedup s) ?sl") (auto simp: sender_own_def dedup_at_def dedup_info_default_def dest!: bt_get_in_set)
      note o = dedup_push_own [OF d(1) this]
      have "outputs_own s1" using s outputs_own_cong [of s1 s] by (simp add: d(2) sender_own_def command_log_def)
      then show ?thesis using s o set_bt_insert [of ?sl d "sn_dedup s"] by (auto simp: sender_own_def d(2))
    next
      case False
      then show ?thesis using 2(1) s by (auto simp: sender_dedup_def)
    qed
    from 2(2) d own_sender_publish [of P H sz ?sl ms s1] own_wake show ?thesis by blast
  qed (use s in simp)
qed

lemma own_sender_run: "sender_run P H sz xs s = Some s' \<Longrightarrow> sender_own s \<Longrightarrow> sender_own s'"
proof (induction xs arbitrary: s)
  case (Cons x xs)
  obtain req source m where x: "x = (req, source, m)" by (cases x)
  from Cons.prems(1) obtain ws s1 where "sender_push P H sz req source m s = Some (ws, s1)" "sender_run P H sz xs s1 = Some s'"
    unfolding x sender_run.simps by (elim bind_SomeE) (auto split: prod.splits)
  with Cons.IH [of s1] own_sender_push Cons.prems(2) show ?case by blast
qed simp

lemma sender_own_new:
  "(\<And>x. st = Some x \<Longrightarrow> rst_sent x = []) \<Longrightarrow> sender_own (rsender_new n mb rich others st k u t)"
  by (auto simp: sender_own_def outputs_own_def rings_def rsender_new_def Let_def command_log_def ring_msgs_def
      sender_shared_new_def shared_channel_new_def split: option.split if_splits)

end
