(* ===== verification/Storage_Reader.thy ===== *)
theory Storage_Reader
  imports Sender_Slots
begin

unbundle bit_operations_syntax

text \<open>
  The format of the journal's chunks and its reader: the serialization in
  \<open>run_compressor\<close> (\<open>richat/src/storage/segments.rs\<close>) and \<open>richat/src/storage/reader.rs\<close>
  (\<open>ChunkData\<close>, \<open>RecordHeader\<close>, \<open>ChunkLoader\<close>, \<open>DecompressedChunk\<close>, \<open>SegmentReader\<close>). The
  compression library is the record \<open>zstd\<close>; the encoding of a message and its parser are
  the record \<open>payload_codec\<close>, so that the results speak about the bytes that are handed to
  the parser. Segment files are given by the set of the files in the directory and their
  contents, which an open file keeps after the file was removed. Panics and loops that do
  not end are \<open>None\<close>.
\<close>

record zstd =
  zstd_compress :: "i32 \<Rightarrow> bytes \<Rightarrow> error + bytes"
  zstd_decode_all :: "bytes \<Rightarrow> error + bytes"

record 'x payload_codec =
  pc_encode :: "'x parsed_message \<Rightarrow> bytes"
  pc_parse :: "bool \<Rightarrow> bytes \<Rightarrow> error + 'x parsed_message"

datatype chunk_compression = CompressionNone | CompressionZstd i32

fun compression_tag :: "chunk_compression \<Rightarrow> u8" where
  "compression_tag CompressionNone = 0"
| "compression_tag (CompressionZstd _) = 1"

definition compression_from_tag :: "u8 \<Rightarrow> error + chunk_compression" where
  "compression_from_tag tag = (if tag = 0 then Inr CompressionNone else if tag = 1 then Inr (CompressionZstd 0)
     else Inl ''unsupported chunk compression tag'')"

definition REFERENCE_RECORDS :: u8 where
  "REFERENCE_RECORDS = 64"

subsection \<open>\<open>run_compressor\<close>\<close>

fun commitment_tag :: "commitment_level \<Rightarrow> u8" where
  "commitment_tag Processed = 0"
| "commitment_tag Confirmed = 1"
| "commitment_tag Finalized = 2"

definition is_reference :: "'x raw_payload \<Rightarrow> bool" where
  "is_reference p = (case p of RawReference _ \<Rightarrow> True | RawMessage _ \<Rightarrow> False)"

definition record_tag :: "'x raw_record \<Rightarrow> u8" where
  "record_tag r = (commitment_tag (rr_commitment r) OR (if rr_block r then 128 else 0)) OR
     (if is_reference (rr_payload r) then 64 else 0)"

definition payload_bytes :: "prost \<Rightarrow> 'x payload_codec \<Rightarrow> 'x raw_payload \<Rightarrow> bytes" where
  "payload_bytes P E p = (case p of RawMessage m \<Rightarrow> pc_encode E m | RawReference i \<Rightarrow> encode_varint P i)"

definition serialize_record :: "prost \<Rightarrow> 'x payload_codec \<Rightarrow> 'x raw_record \<Rightarrow> bytes" where
  "serialize_record P E r = record_tag r # encode_varint P (rr_slot r) @ payload_bytes P E (rr_payload r)"

definition frame_record :: "prost \<Rightarrow> bytes \<Rightarrow> bytes" where
  "frame_record P b = encode_varint P (of_nat (length b)) @ b"

definition serialize_chunk :: "prost \<Rightarrow> 'x payload_codec \<Rightarrow> 'x raw_record list \<Rightarrow> bytes" where
  "serialize_chunk P E rs = concat (map (\<lambda>r. frame_record P (serialize_record P E r)) rs)"

definition chunk_format :: "u8 \<Rightarrow> chunk_compression option \<Rightarrow> u8" where
  "chunk_format cmask c = ((compression_tag (case c of Some x \<Rightarrow> x | None \<Rightarrow> CompressionNone) OR COMMITMENT_RECORDS) OR REFERENCE_RECORDS) OR
     push_bit 2 (cmask OR 1)"

definition compress_payload :: "zstd \<Rightarrow> chunk_compression option \<Rightarrow> bytes \<Rightarrow> error + bytes" where
  "compress_payload Z c b = (case c of Some (CompressionZstd level) \<Rightarrow> zstd_compress Z level b | _ \<Rightarrow> Inr b)"

fun compressor_step :: "prost \<Rightarrow> 'x payload_codec \<Rightarrow> zstd \<Rightarrow> u8 \<Rightarrow> chunk_compression option \<Rightarrow> 'x collector_output \<Rightarrow> error + compressor_output" where
  "compressor_step P E Z cmask c (CL_RawChunk seq first lst rs slots fin) =
     map_ok (\<lambda>payload. CO_CompressedChunk seq \<lparr>zc_compression = chunk_format cmask c, zc_first_index = first, zc_last_index = lst,
         zc_payload = payload, zc_pending_slots = slots, zc_pending_finalized = fin\<rparr>)
       (compress_payload Z c (serialize_chunk P E rs))"
| "compressor_step P E Z cmask c (CL_Trim seq sl until) = Inr (CO_Trim seq sl until)"

subsection \<open>\<open>ChunkData\<close>\<close>

record chunk_data =
  kd_first_index :: u64
  kd_format :: u8
  kd_bytes :: bytes
  kd_records :: "range list"

definition checked_add :: "nat \<Rightarrow> nat \<Rightarrow> nat option" where
  "checked_add a b = (if a + b < 2 ^ 64 then Some (a + b) else None)"

text \<open>One record: its range, which is also where the next one starts.\<close>

definition next_record :: "prost \<Rightarrow> bytes \<Rightarrow> nat \<Rightarrow> error + range" where
  "next_record P b offset =
     and_then (map_err (\<lambda>_. ''invalid varint'') (decode_varint P (drop offset b))) (\<lambda>(len, remaining).
     let start = length b - length remaining in
     case checked_add start (unat len) of
       None \<Rightarrow> Inl ''record boundary overflow''
     | Some offset' \<Rightarrow> if offset' \<le> length b then Inr (start, offset') else Inl ''record extends past chunk boundary'')"

partial_function (option) scan_records :: "prost \<Rightarrow> bytes \<Rightarrow> nat \<Rightarrow> range list \<Rightarrow> (error + range list) option" where
  "scan_records P b offset acc =
     (if offset < length b then (case next_record P b offset of
          Inl e \<Rightarrow> Some (Inl e)
        | Inr r \<Rightarrow> scan_records P b (snd r) (acc @ [r]))
      else Some (Inr acc))"

definition chunk_data_new :: "prost \<Rightarrow> u64 \<Rightarrow> u8 \<Rightarrow> bytes \<Rightarrow> nat \<Rightarrow> (error + chunk_data) option" where
  "chunk_data_new P first format b count = map_option (\<lambda>res. and_then res (\<lambda>records.
     if length records = count
     then Inr \<lparr>kd_first_index = first, kd_format = format, kd_bytes = b, kd_records = records\<rparr>
     else Inl ''chunk record count does not match metadata'')) (scan_records P b 0 [])"

text \<open>\<open>ChunkData::record\<close>; the outer \<open>None\<close> is the slice panic.\<close>

definition chunk_record :: "chunk_data \<Rightarrow> u64 \<Rightarrow> (error + bytes) option" where
  "chunk_record d index =
     (if index < kd_first_index d then Some (Inl ''record before chunk'')
      else (let i = unat (index - kd_first_index d) in
        if i < length (kd_records d) then map_option Inr (slice (fst (kd_records d ! i)) (snd (kd_records d ! i)) (kd_bytes d))
        else Some (Inl ''record outside chunk'')))"

definition chunk_contains :: "chunk_data \<Rightarrow> u64 \<Rightarrow> bool" where
  "chunk_contains d index = (index \<ge> kd_first_index d \<and> index - kd_first_index d < of_nat (length (kd_records d)))"

definition chunk_size :: "(chunk_data \<Rightarrow> nat) \<Rightarrow> chunk_data \<Rightarrow> nat" where
  "chunk_size cap d = saturating_add (length (kd_bytes d)) (cap d * 16)"

subsection \<open>\<open>RecordHeader\<close>\<close>

record record_header =
  rh_commitment :: commitment_level
  rh_slot :: slot
  rh_block :: bool
  rh_reference :: bool
  rh_payload :: bytes

definition commitment_of_level :: "u8 \<Rightarrow> commitment_level option" where
  "commitment_of_level l = (if l = 0 then Some Processed else if l = 1 then Some Confirmed else if l = 2 then Some Finalized else None)"

definition parse_slot_payload :: "prost \<Rightarrow> commitment_level \<Rightarrow> bool \<Rightarrow> bool \<Rightarrow> bytes \<Rightarrow> error + record_header" where
  "parse_slot_payload P c block reference b =
     map_ok (\<lambda>(sl, rest). \<lparr>rh_commitment = c, rh_slot = sl, rh_block = block, rh_reference = reference, rh_payload = rest\<rparr>)
       (map_err (\<lambda>_. ''invalid record slot'') (decode_varint P b))"

definition header_parse :: "prost \<Rightarrow> bytes \<Rightarrow> u8 \<Rightarrow> error + record_header" where
  "header_parse P b format =
     (if format AND COMMITMENT_RECORDS \<noteq> 0 then
        (case b of [] \<Rightarrow> Inl ''missing commitment header'' | tag # rest \<Rightarrow>
          (let reference = (format AND REFERENCE_RECORDS \<noteq> 0 \<and> tag AND 64 \<noteq> 0);
               level = (if format AND REFERENCE_RECORDS \<noteq> 0 then tag AND 63 else tag AND 127) in
           case commitment_of_level level of
             None \<Rightarrow> Inl ''invalid record commitment''
           | Some c \<Rightarrow> parse_slot_payload P c (tag AND 128 \<noteq> 0) reference rest))
      else parse_slot_payload P Processed False False b)"

definition header_decode :: "'x payload_codec \<Rightarrow> record_header \<Rightarrow> error + 'x parsed_message" where
  "header_decode E h = and_then (map_err (\<lambda>_. ''failed to parse replay message'') (pc_parse E (rh_block h) (rh_payload h))) (\<lambda>m.
     if parsed_slot m = rh_slot h then Inr m else Inl ''payload slot does not match record header'')"

subsection \<open>\<open>ChunkLoader\<close>\<close>

record segment_files =
  sf_linked :: "u64 set"
  sf_contents :: "u64 \<Rightarrow> bytes"

record chunk_loader =
  ld_file :: "u64 option"
  ld_cache :: "chunk_data list"
  ld_cache_bytes :: nat

definition chunk_loader_new :: chunk_loader where
  "chunk_loader_new = \<lparr>ld_file = None, ld_cache = [], ld_cache_bytes = 0\<rparr>"

definition CACHE_BYTES :: nat where
  "CACHE_BYTES = 16 * 1024 * 1024"

fun evict_cache :: "(chunk_data \<Rightarrow> nat) \<Rightarrow> nat \<Rightarrow> chunk_data list \<Rightarrow> nat \<Rightarrow> chunk_data list \<times> nat" where
  "evict_cache cap new [] bytes = ([], bytes)"
| "evict_cache cap new (d # ds) bytes =
     (if length (d # ds) \<ge> 2 \<or> saturating_add bytes new > CACHE_BYTES then evict_cache cap new ds (bytes - chunk_size cap d)
      else (d # ds, bytes))"

definition open_segment :: "segment_files \<Rightarrow> u64 \<Rightarrow> chunk_loader \<Rightarrow> error + chunk_loader" where
  "open_segment fs seg l = (if ld_file l = Some seg then Inr l
     else if seg \<in> sf_linked fs then Inr (l\<lparr>ld_file := Some seg\<rparr>) else Inl ''failed to open replay segment'')"

definition read_exact :: "segment_files \<Rightarrow> u64 \<Rightarrow> nat \<Rightarrow> nat \<Rightarrow> error + bytes" where
  "read_exact fs seg offset sz = (if offset + sz \<le> length (sf_contents fs seg)
     then Inr (take sz (drop offset (sf_contents fs seg))) else Inl ''failed to fill whole buffer'')"

definition decompress_payload :: "zstd \<Rightarrow> u8 \<Rightarrow> bytes \<Rightarrow> error + bytes" where
  "decompress_payload Z compression payload = and_then (compression_from_tag (compression AND 3)) (\<lambda>c. case c of
     CompressionNone \<Rightarrow> Inr payload
   | CompressionZstd _ \<Rightarrow> map_err (\<lambda>_. ''failed to decompress replay chunk'') (zstd_decode_all Z payload))"

definition chunk_count :: "chunk_meta \<Rightarrow> error + nat" where
  "chunk_count meta = (if cm_first_index meta \<le> cm_last_index meta
     then Inr (unat (cm_last_index meta - cm_first_index meta + 1)) else Inl ''invalid chunk indices'')"

text \<open>An offset beyond \<open>i64::MAX\<close> is refused by \<open>seek\<close>; the buffer for more than \<open>isize::MAX\<close> bytes is
  the capacity panic of \<open>vec![0; size]\<close>. Smaller allocations succeed.\<close>

definition read_chunk :: "prost \<Rightarrow> zstd \<Rightarrow> segment_files \<Rightarrow> chunk_meta \<Rightarrow> (error + chunk_data) option" where
  "read_chunk P Z fs meta =
     (if 2 ^ 63 \<le> unat (cm_offset meta) then Some (Inl ''invalid seek'')
      else if 2 ^ 63 \<le> unat (cm_size meta) then None
      else case and_then (read_exact fs (cm_segment_id meta) (unat (cm_offset meta)) (unat (cm_size meta))) (\<lambda>payload.
        and_then (decompress_payload Z (cm_compression meta) payload) (\<lambda>b. map_ok (Pair b) (chunk_count meta))) of
        Inl e \<Rightarrow> Some (Inl e)
      | Inr (b, count) \<Rightarrow> chunk_data_new P (cm_first_index meta) (cm_compression meta) b count)"

definition load :: "prost \<Rightarrow> zstd \<Rightarrow> (chunk_data \<Rightarrow> nat) \<Rightarrow> segment_files \<Rightarrow> chunk_meta \<Rightarrow> chunk_loader \<Rightarrow>
    ((error + chunk_data) \<times> chunk_loader) option" where
  "load P Z cap fs meta l =
     (case find (\<lambda>d. kd_first_index d = cm_first_index meta) (ld_cache l) of
        Some d \<Rightarrow> Some (Inr d, l\<lparr>ld_cache := remove1 d (ld_cache l) @ [d]\<rparr>)
      | None \<Rightarrow> (case open_segment fs (cm_segment_id meta) l of
          Inl e \<Rightarrow> Some (Inl e, l)
        | Inr l1 \<Rightarrow> map_option (\<lambda>res. case res of
            Inl e \<Rightarrow> (Inl e, l1)
          | Inr d \<Rightarrow> (let (cache, bytes) = evict_cache cap (chunk_size cap d) (ld_cache l1) (ld_cache_bytes l1) in
              (Inr d, l1\<lparr>ld_cache := cache @ [d], ld_cache_bytes := bytes + chunk_size cap d\<rparr>)))
            (read_chunk P Z fs meta)))"

text \<open>\<open>slice::partition_point\<close>\<close>

definition partition_point :: "('a \<Rightarrow> bool) \<Rightarrow> 'a list \<Rightarrow> nat" where
  "partition_point p xs = length (takeWhile p xs)"

definition chunk_at :: "chunk_meta list \<Rightarrow> u64 \<Rightarrow> chunk_meta option" where
  "chunk_at chunks index = (let pos = partition_point (\<lambda>c. cm_last_index c < index) chunks in
     if pos < length chunks then Some (chunks ! pos) else None)"

definition payload_chunk :: "prost \<Rightarrow> zstd \<Rightarrow> (chunk_data \<Rightarrow> nat) \<Rightarrow> segment_files \<Rightarrow> chunk_meta list \<Rightarrow> u64 \<Rightarrow> chunk_loader \<Rightarrow>
    ((error + chunk_data) \<times> chunk_loader) option" where
  "payload_chunk P Z cap fs chunks index l = (case chunk_at chunks index of
     Some meta \<Rightarrow> if cm_first_index meta \<le> index then load P Z cap fs meta l else Some (Inl ''replay payload has been pruned'', l)
   | None \<Rightarrow> Some (Inl ''replay payload has been pruned'', l))"

subsection \<open>\<open>DecompressedChunk\<close>\<close>

record replay_selection =
  rs_commitment :: commitment_level
  rs_from_slot :: "slot option"

record 'x scanned_record =
  sr_index :: u64
  sr_payload_index :: "u64 option"
  sr_commitment :: commitment_level
  sr_message :: "'x parsed_message option"

record decompressed_chunk =
  dc_data :: chunk_data
  dc_cursor :: nat
  dc_failed :: bool

definition excluded :: "replay_selection option \<Rightarrow> record_header \<Rightarrow> bool" where
  "excluded sel h = (case sel of None \<Rightarrow> False | Some s \<Rightarrow> rs_commitment s \<noteq> rh_commitment h \<or>
     (case rs_from_slot s of None \<Rightarrow> False | Some sl \<Rightarrow> rh_slot h < sl))"

text \<open>The target of a reference: the message of the record that it names.\<close>

definition decode_target :: "prost \<Rightarrow> 'x payload_codec \<Rightarrow> record_header \<Rightarrow> u64 \<Rightarrow> chunk_data \<Rightarrow> (error + 'x parsed_message) option" where
  "decode_target P E h target d = map_option (\<lambda>res. and_then res (\<lambda>b. and_then (header_parse P b (kd_format d)) (\<lambda>original.
     if \<not> rh_reference original \<and> rh_slot original = rh_slot h \<and> rh_block original = rh_block h
     then header_decode E original else Inl ''payload reference does not match publication''))) (chunk_record d target)"

definition resolve_reference :: "prost \<Rightarrow> 'x payload_codec \<Rightarrow> zstd \<Rightarrow> (chunk_data \<Rightarrow> nat) \<Rightarrow> segment_files \<Rightarrow> chunk_meta list \<Rightarrow>
    chunk_data \<Rightarrow> u64 \<Rightarrow> record_header \<Rightarrow> chunk_loader \<Rightarrow> ((error + u64 \<times> 'x parsed_message) \<times> chunk_loader) option" where
  "resolve_reference P E Z cap fs chunks d index h l =
     (case decode_varint P (rh_payload h) of
        Inl _ \<Rightarrow> Some (Inl ''invalid payload reference'', l)
      | Inr (target, rest) \<Rightarrow>
         if \<not> (rest = [] \<and> target < index) then Some (Inl ''invalid forward or trailing payload reference'', l)
         else (case (if chunk_contains d target then Some (Inr d, l) else payload_chunk P Z cap fs chunks target l) of
             None \<Rightarrow> None
           | Some (Inl e, l1) \<Rightarrow> Some (Inl e, l1)
           | Some (Inr d', l1) \<Rightarrow> map_option (\<lambda>res. (map_ok (Pair target) res, l1)) (decode_target P E h target d')))"

definition read_record :: "prost \<Rightarrow> 'x payload_codec \<Rightarrow> zstd \<Rightarrow> (chunk_data \<Rightarrow> nat) \<Rightarrow> segment_files \<Rightarrow> chunk_meta list \<Rightarrow>
    chunk_data \<Rightarrow> u64 \<Rightarrow> replay_selection option \<Rightarrow> chunk_loader \<Rightarrow> ((error + 'x scanned_record) \<times> chunk_loader) option" where
  "read_record P E Z cap fs chunks d index sel l =
     (case chunk_record d index of None \<Rightarrow> None
      | Some res \<Rightarrow> (case and_then res (\<lambda>b. header_parse P b (kd_format d)) of
          Inl e \<Rightarrow> Some (Inl e, l)
        | Inr h \<Rightarrow>
           (let found = (\<lambda>(i, m). \<lparr>sr_index = index, sr_payload_index = Some i, sr_commitment = rh_commitment h, sr_message = Some m\<rparr>) in
            if excluded sel h
            then Some (Inr \<lparr>sr_index = index, sr_payload_index = None, sr_commitment = rh_commitment h, sr_message = None\<rparr>, l)
            else if rh_reference h
            then map_option (\<lambda>(res, l1). (map_ok found res, l1)) (resolve_reference P E Z cap fs chunks d index h l)
            else Some (map_ok (\<lambda>m. found (index, m)) (header_decode E h), l))))"

definition next_selected :: "prost \<Rightarrow> 'x payload_codec \<Rightarrow> zstd \<Rightarrow> (chunk_data \<Rightarrow> nat) \<Rightarrow> segment_files \<Rightarrow> chunk_meta list \<Rightarrow>
    replay_selection option \<Rightarrow> decompressed_chunk \<Rightarrow> chunk_loader \<Rightarrow>
    ((error + 'x scanned_record) option \<times> decompressed_chunk \<times> chunk_loader) option" where
  "next_selected P E Z cap fs chunks sel k l =
     (if dc_failed k \<or> dc_cursor k = length (kd_records (dc_data k)) then Some (None, k, l)
      else (let index = kd_first_index (dc_data k) + of_nat (dc_cursor k) in
        map_option (\<lambda>(res, l1). (Some res, k\<lparr>dc_cursor := dc_cursor k + 1, dc_failed := (case res of Inl _ \<Rightarrow> True | Inr _ \<Rightarrow> False)\<rparr>, l1))
          (read_record P E Z cap fs chunks (dc_data k) index sel l)))"

subsection \<open>\<open>SegmentReader\<close>\<close>

record segment_reader =
  sd_next_index :: u64
  sd_loader :: chunk_loader
  sd_failed :: bool

definition segment_reader_new :: "u64 \<Rightarrow> segment_reader" where
  "segment_reader_new start = \<lparr>sd_next_index = start, sd_loader = chunk_loader_new, sd_failed = False\<rparr>"

definition load_next :: "prost \<Rightarrow> zstd \<Rightarrow> (chunk_data \<Rightarrow> nat) \<Rightarrow> segment_files \<Rightarrow> chunk_meta list \<Rightarrow> segment_reader \<Rightarrow>
    ((error + decompressed_chunk option) \<times> segment_reader) option" where
  "load_next P Z cap fs chunks r = (case chunk_at chunks (sd_next_index r) of
     None \<Rightarrow> Some (Inr None, r)
   | Some meta \<Rightarrow> if \<not> cm_first_index meta \<le> sd_next_index r then Some (Inl ''replay records were pruned before index'', r)
       else map_option (\<lambda>(res, l). case res of
           Inl e \<Rightarrow> (Inl e, r\<lparr>sd_loader := l\<rparr>)
         | Inr d \<Rightarrow> (Inr (Some \<lparr>dc_data = d, dc_cursor = unat (sd_next_index r - cm_first_index meta), dc_failed = False\<rparr>),
             r\<lparr>sd_loader := l, sd_next_index := cm_last_index meta + 1\<rparr>))
         (load P Z cap fs meta (sd_loader r)))"

definition reader_next :: "prost \<Rightarrow> zstd \<Rightarrow> (chunk_data \<Rightarrow> nat) \<Rightarrow> segment_files \<Rightarrow> chunk_meta list \<Rightarrow> segment_reader \<Rightarrow>
    ((error + decompressed_chunk) option \<times> segment_reader) option" where
  "reader_next P Z cap fs chunks r = (if sd_failed r then Some (None, r)
     else map_option (\<lambda>(res, r1). case res of
         Inr (Some c) \<Rightarrow> (Some (Inr c), r1)
       | Inr None \<Rightarrow> (None, r1)
       | Inl e \<Rightarrow> (Some (Inl e), r1\<lparr>sd_failed := True\<rparr>)) (load_next P Z cap fs chunks r))"


subsection \<open>The bits of the tags\<close>

lemma chunk_format_bits:
  "chunk_format m c AND COMMITMENT_RECORDS \<noteq> 0" "chunk_format m c AND REFERENCE_RECORDS \<noteq> 0"
proof -
  have "bit (chunk_format m c AND COMMITMENT_RECORDS) 7" "bit (chunk_format m c AND REFERENCE_RECORDS) 6"
    by (simp_all add: chunk_format_def COMMITMENT_RECORDS_def REFERENCE_RECORDS_def bit_simps)
  then show "chunk_format m c AND COMMITMENT_RECORDS \<noteq> 0" "chunk_format m c AND REFERENCE_RECORDS \<noteq> 0" by auto
qed

lemma chunk_format_compression:
  "chunk_format m c AND 3 = compression_tag (case c of Some x \<Rightarrow> x | None \<Rightarrow> CompressionNone)"
proof -
  have t: "compression_tag x AND 3 = compression_tag x" for x by (cases x) simp_all
  have "push_bit 2 x AND mask 2 = (0 :: u8)" for x by (rule bit_eqI) (auto simp: bit_simps)
  from this [of "m OR 1"] have "push_bit 2 (m OR 1) AND 3 = 0" by (simp add: mask_eq_exp_minus_1 del: push_bit_or)
  then show ?thesis by (simp add: chunk_format_def COMMITMENT_RECORDS_def REFERENCE_RECORDS_def bit.conj_disj_distrib2 t)
qed

lemma record_tag_bits:
  "(record_tag r AND 64 \<noteq> 0) = is_reference (rr_payload r)" "(record_tag r AND 128 \<noteq> 0) = rr_block r"
  "commitment_of_level (record_tag r AND 63) = Some (rr_commitment r)"
  by (cases "rr_commitment r"; simp add: record_tag_def commitment_of_level_def)+

subsection \<open>The framing\<close>

text \<open>The ranges of framed records that start at \<open>offset\<close>.\<close>

fun frame_ranges :: "prost \<Rightarrow> nat \<Rightarrow> bytes list \<Rightarrow> range list" where
  "frame_ranges P offset [] = []"
| "frame_ranges P offset (b # bs) = (let start = offset + length (encode_varint P (of_nat (length b))) in
     (start, start + length b) # frame_ranges P (start + length b) bs)"

lemma frame_ranges_length [simp]: "length (frame_ranges P offset bs) = length bs"
  by (induction bs arbitrary: offset) (simp_all add: Let_def)

definition chunk_wf :: "chunk_data \<Rightarrow> bool" where
  "chunk_wf d \<longleftrightarrow> (\<forall>r \<in> set (kd_records d). fst r \<le> snd r \<and> snd r \<le> length (kd_bytes d))"

context prost_codec
begin

lemma next_record_frame:
  assumes "length pre + length (frame_record P b) + length post < 2 ^ 64"
  shows "next_record P (pre @ frame_record P b @ post) (length pre) =
    Inr (length pre + length (encode_varint P (of_nat (length b))), length pre + length (frame_record P b))"
proof -
  have "length b < 2 ^ 64" using assms by (simp add: frame_record_def)
  then have "unat (of_nat (length b) :: u64) = length b" by (rule unat_of_nat_u64)
  then show ?thesis using assms
    by (simp add: next_record_def frame_record_def varint_decode checked_add_def map_err_def add.assoc)
qed

lemma scan_frames:
  assumes "length pre + length (concat (map (frame_record P) bs)) < 2 ^ 64"
  shows "scan_records P (pre @ concat (map (frame_record P) bs)) (length pre) acc = Some (Inr (acc @ frame_ranges P (length pre) bs))"
  using assms
proof (induction bs arbitrary: pre acc)
  case Nil
  then show ?case by (subst scan_records.simps) simp
next
  case (Cons b bs)
  let ?post = "concat (map (frame_record P) bs)"
  define B where "B = pre @ frame_record P b @ ?post"
  have n: "next_record P B (length pre) =
    Inr (length pre + length (encode_varint P (of_nat (length b))), length pre + length (frame_record P b))"
    unfolding B_def by (rule next_record_frame) (use Cons.prems in simp)
  have "0 < length (encode_varint P (of_nat (length b)))"
    using varint_prefix [OF varint_decode [of "of_nat (length b)" "[]"]] by auto
  then have "length pre < length B" by (simp add: B_def frame_record_def)
  then have "scan_records P B (length pre) acc = scan_records P B (length pre + length (frame_record P b))
      (acc @ [(length pre + length (encode_varint P (of_nat (length b))), length pre + length (frame_record P b))])"
    by (subst scan_records.simps) (simp add: n)
  also have "\<dots> = Some (Inr (acc @ [(length pre + length (encode_varint P (of_nat (length b))), length pre + length (frame_record P b))] @
      frame_ranges P (length pre + length (frame_record P b)) bs))"
    using Cons.IH [of "pre @ frame_record P b"] Cons.prems by (simp add: B_def)
  finally show ?case by (simp add: B_def Let_def frame_record_def [of P b] add.assoc)
qed

lemma frame_slices:
  "j < length bs \<Longrightarrow> (let r = frame_ranges P (length pre) bs ! j in slice (fst r) (snd r) (pre @ concat (map (frame_record P) bs))) = Some (bs ! j)"
proof (induction bs arbitrary: pre j)
  case (Cons b bs)
  show ?case
  proof (cases j)
    case 0
    then show ?thesis by (simp add: Let_def slice_def frame_record_def)
  next
    case (Suc k)
    with Cons.IH [of k "pre @ frame_record P b"] Cons.prems show ?thesis
      by (simp add: Let_def frame_record_def add.assoc)
  qed
qed simp

text \<open>Scanning ends on every input, and the ranges lie inside it.\<close>

lemma next_record_progress:
  assumes "next_record P b offset = Inr r" "offset < length b"
  shows "offset < snd r \<and> fst r \<le> snd r \<and> snd r \<le> length b"
proof -
  from assms(1) obtain len remaining where d: "decode_varint P (drop offset b) = Inr (len, remaining)" and
    r: "fst r = length b - length remaining" "snd r = fst r + unat len" "snd r \<le> length b"
    by (auto simp: next_record_def checked_add_def map_err_def and_then_Inr_iff Let_def split: sum.splits if_splits prod.splits)
  have "length remaining < length (drop offset b)" by (rule varint_shorter [OF d])
  then have "length remaining + offset < length b" by simp
  then show ?thesis using r by linarith
qed

lemma scan_total:
  assumes "\<forall>r \<in> set acc. fst r \<le> snd r \<and> snd r \<le> length b"
  shows "\<exists>res. scan_records P b offset acc = Some res \<and> (\<forall>rs. res = Inr rs \<longrightarrow> (\<forall>r \<in> set rs. fst r \<le> snd r \<and> snd r \<le> length b))"
  using assms
proof (induction "length b - offset" arbitrary: offset acc rule: less_induct)
  case less
  show ?case
  proof (cases "offset < length b")
    case True
    show ?thesis
    proof (cases "next_record P b offset")
      case (Inr r)
      note p = next_record_progress [OF Inr True]
      have "length b - snd r < length b - offset" using p True by linarith
      from less(1) [OF this, of "acc @ [r]"] less(2) p obtain res where
        "scan_records P b (snd r) (acc @ [r]) = Some res" "\<forall>rs. res = Inr rs \<longrightarrow> (\<forall>r \<in> set rs. fst r \<le> snd r \<and> snd r \<le> length b)"
        by auto
      then show ?thesis using True Inr by (subst scan_records.simps) simp
    qed (use True in \<open>simp add: scan_records.simps [of P b offset acc]\<close>)
  qed (use less(2) in \<open>simp add: scan_records.simps [of P b offset acc]\<close>)
qed

lemma chunk_data_new_total:
  "\<exists>res. chunk_data_new P first format b count = Some res \<and> (\<forall>d. res = Inr d \<longrightarrow> chunk_wf d)"
proof -
  from scan_total [of "[]" b 0] obtain res where r: "scan_records P b 0 [] = Some res"
    "\<And>rs x. res = Inr rs \<Longrightarrow> x \<in> set rs \<Longrightarrow> fst x \<le> snd x \<and> snd x \<le> length b" by auto
  show ?thesis using r(2)
    by (cases res) (auto simp: chunk_data_new_def r(1) chunk_wf_def)
qed

lemma header_round_trip:
  "header_parse P (serialize_record P E r) (chunk_format m c) = Inr \<lparr>rh_commitment = rr_commitment r, rh_slot = rr_slot r,
     rh_block = rr_block r, rh_reference = is_reference (rr_payload r), rh_payload = payload_bytes P E (rr_payload r)\<rparr>"
  using record_tag_bits [of r]
  by (simp add: header_parse_def serialize_record_def chunk_format_bits parse_slot_payload_def varint_decode map_err_def Let_def)

subsection \<open>The reader returns on every input\<close>

lemma read_chunk_total:
  "unat (cm_size meta) < 2 ^ 63 \<Longrightarrow> \<exists>res. read_chunk P Z fs meta = Some res \<and> (\<forall>d. res = Inr d \<longrightarrow> chunk_wf d)"
  unfolding read_chunk_def using chunk_data_new_total by (auto split: sum.split)

end

definition loader_wf :: "chunk_loader \<Rightarrow> bool" where
  "loader_wf l \<longleftrightarrow> (\<forall>d \<in> set (ld_cache l). chunk_wf d)"

definition catalog_allocates :: "chunk_meta list \<Rightarrow> bool" where
  "catalog_allocates chunks \<longleftrightarrow> (\<forall>c \<in> set chunks. unat (cm_size c) < 2 ^ 63)"

lemma chunk_at_allocates: "chunk_at chunks index = Some meta \<Longrightarrow> catalog_allocates chunks \<Longrightarrow> unat (cm_size meta) < 2 ^ 63"
  by (auto simp: chunk_at_def catalog_allocates_def Let_def split: if_splits)

lemma chunk_record_total: "chunk_wf d \<Longrightarrow> \<exists>res. chunk_record d index = Some res"
proof -
  assume wf: "chunk_wf d"
  have "fst r \<le> snd r \<and> snd r \<le> length (kd_bytes d)" if "i < length (kd_records d)" "r = kd_records d ! i" for i r
    using wf that unfolding chunk_wf_def by auto
  then show ?thesis by (simp add: chunk_record_def Let_def slice_def)
qed

lemma evict_cache_subset: "set (fst (evict_cache cap new ds n)) \<subseteq> set ds"
  by (induction cap new ds n rule: evict_cache.induct) auto

lemma open_segment_cache: "open_segment fs seg l = Inr l' \<Longrightarrow> ld_cache l' = ld_cache l"
  by (auto simp: open_segment_def split: if_splits)

lemma load_total:
  assumes P: "prost_codec P" and wf: "loader_wf l" and sz: "unat (cm_size meta) < 2 ^ 63"
  shows "\<exists>res l'. load P Z cap fs meta l = Some (res, l') \<and> loader_wf l' \<and> (\<forall>d. res = Inr d \<longrightarrow> chunk_wf d)"
proof (cases "find (\<lambda>d. kd_first_index d = cm_first_index meta) (ld_cache l)")
  case (Some d)
  then have "d \<in> set (ld_cache l)" by (auto simp: find_Some_iff)
  with Some wf show ?thesis by (auto simp: load_def loader_wf_def dest: notin_set_remove1)
next
  case None
  show ?thesis
  proof (cases "open_segment fs (cm_segment_id meta) l")
    case (Inl e)
    with None wf show ?thesis by (simp add: load_def)
  next
    case (Inr l1)
    have wf1: "loader_wf l1" using wf open_segment_cache [OF Inr] by (simp add: loader_wf_def)
    from prost_codec.read_chunk_total [OF P sz] obtain res where res: "read_chunk P Z fs meta = Some res" "\<forall>d. res = Inr d \<longrightarrow> chunk_wf d"
      by blast
    show ?thesis
    proof (cases res)
      case (Inl e)
      with None \<open>open_segment _ _ _ = _\<close> res wf1 show ?thesis by (simp add: load_def)
    next
      case d: (Inr d)
      have "loader_wf (l1\<lparr>ld_cache := fst (evict_cache cap (chunk_size cap d) (ld_cache l1) (ld_cache_bytes l1)) @ [d], ld_cache_bytes := n\<rparr>)" for n
        using wf1 res(2) d evict_cache_subset [of cap "chunk_size cap d" "ld_cache l1" "ld_cache_bytes l1"]
        by (auto simp: loader_wf_def)
      with None \<open>open_segment _ _ _ = _\<close> res d show ?thesis by (simp add: load_def Let_def case_prod_unfold)
    qed
  qed
qed

lemma payload_chunk_total:
  assumes "prost_codec P" "loader_wf l" "catalog_allocates chunks"
  shows "\<exists>res l'. payload_chunk P Z cap fs chunks index l = Some (res, l') \<and> loader_wf l' \<and> (\<forall>d. res = Inr d \<longrightarrow> chunk_wf d)"
  using load_total [OF assms(1,2) chunk_at_allocates [OF _ assms(3)]] assms(2) by (auto simp: payload_chunk_def split: option.split)

lemma resolve_reference_total:
  assumes P: "prost_codec P" and wf: "chunk_wf d" "loader_wf l" "catalog_allocates chunks"
  shows "\<exists>res l'. resolve_reference P E Z cap fs chunks d index h l = Some (res, l') \<and> loader_wf l'"
proof (cases "decode_varint P (rh_payload h)")
  case (Inr tr)
  obtain target rest where tr: "tr = (target, rest)" by fastforce
  obtain res l' where r: "(if chunk_contains d target then Some (Inr d, l) else payload_chunk P Z cap fs chunks target l) = Some (res, l')"
    "loader_wf l'" "\<forall>d'. res = Inr d' \<longrightarrow> chunk_wf d'"
    using payload_chunk_total [OF P wf(2,3), of Z cap fs target] wf by (cases "chunk_contains d target") auto
  show ?thesis
  proof (cases res)
    case (Inl e)
    then show ?thesis using Inr tr r wf(2) by (simp add: resolve_reference_def)
  next
    case d': (Inr d')
    from r(3) d' obtain x where "chunk_record d' target = Some x" using chunk_record_total by blast
    then show ?thesis using Inr tr r d' wf(2) by (simp add: resolve_reference_def decode_target_def)
  qed
qed (use wf in \<open>simp add: resolve_reference_def\<close>)

lemma read_record_total:
  assumes P: "prost_codec P" and wf: "chunk_wf d" "loader_wf l" "catalog_allocates chunks"
  shows "\<exists>res l'. read_record P E Z cap fs chunks d index sel l = Some (res, l') \<and> loader_wf l'"
proof -
  from chunk_record_total [OF wf(1)] obtain b where b: "chunk_record d index = Some b" by blast
  show ?thesis
  proof (cases "and_then b (\<lambda>b. header_parse P b (kd_format d))")
    case (Inr h)
    obtain res l' where "resolve_reference P E Z cap fs chunks d index h l = Some (res, l')" "loader_wf l'"
      using resolve_reference_total [OF P wf] by blast
    then show ?thesis using b Inr wf(2) by (simp add: read_record_def Let_def)
  qed (use b wf in \<open>simp add: read_record_def\<close>)
qed

lemma next_selected_total:
  assumes "prost_codec P" "chunk_wf (dc_data k)" "loader_wf l" "catalog_allocates chunks"
  shows "\<exists>res k' l'. next_selected P E Z cap fs chunks sel k l = Some (res, k', l') \<and> loader_wf l' \<and> chunk_wf (dc_data k')"
  using read_record_total [OF assms, of E Z cap fs "kd_first_index (dc_data k) + of_nat (dc_cursor k)" sel] assms(2,3)
  by (auto simp: next_selected_def Let_def)

lemma reader_next_total:
  assumes "prost_codec P" "loader_wf (sd_loader r)" "catalog_allocates chunks"
  shows "\<exists>res r'. reader_next P Z cap fs chunks r = Some (res, r') \<and> loader_wf (sd_loader r') \<and>
    (\<forall>c. res = Some (Inr c) \<longrightarrow> chunk_wf (dc_data c))"
proof -
  have "\<exists>res r'. load_next P Z cap fs chunks r = Some (res, r') \<and> loader_wf (sd_loader r') \<and>
    (\<forall>c. res = Inr (Some c) \<longrightarrow> chunk_wf (dc_data c))"
  proof (cases "chunk_at chunks (sd_next_index r)")
    case (Some meta)
    obtain res l' where "load P Z cap fs meta (sd_loader r) = Some (res, l')" "loader_wf l'" "\<forall>d. res = Inr d \<longrightarrow> chunk_wf d"
      using load_total [OF assms(1,2) chunk_at_allocates [OF Some assms(3)]] by blast
    then show ?thesis using Some assms(2) by (cases res) (auto simp: load_next_def)
  qed (use assms in \<open>simp add: load_next_def\<close>)
  then obtain res r' where r: "load_next P Z cap fs chunks r = Some (res, r')" "loader_wf (sd_loader r')"
    "\<forall>c. res = Inr (Some c) \<longrightarrow> chunk_wf (dc_data c)" by blast
  show ?thesis
  proof (cases res)
    case (Inr c)
    then show ?thesis using r assms(2) by (cases c) (auto simp: reader_next_def)
  qed (use r assms in \<open>auto simp: reader_next_def\<close>)
qed

text \<open>A consumer of the reader asks for the next chunk or for the next record of its chunk, while the
  directory and the catalog change between the steps.\<close>

datatype read_step = NextChunk segment_files "chunk_meta list" | NextRecord segment_files "chunk_meta list" "replay_selection option"

fun step_catalog :: "read_step \<Rightarrow> chunk_meta list" where
  "step_catalog (NextChunk fs chunks) = chunks"
| "step_catalog (NextRecord fs chunks sel) = chunks"

fun reader_steps :: "prost \<Rightarrow> 'x payload_codec \<Rightarrow> zstd \<Rightarrow> (chunk_data \<Rightarrow> nat) \<Rightarrow> read_step list \<Rightarrow> segment_reader \<times> decompressed_chunk option \<Rightarrow>
    (segment_reader \<times> decompressed_chunk option) option" where
  "reader_steps P E Z cap [] s = Some s"
| "reader_steps P E Z cap (NextChunk fs chunks # xs) s = Option.bind (reader_next P Z cap fs chunks (fst s)) (\<lambda>(res, r).
     reader_steps P E Z cap xs (r, case res of Some (Inr c) \<Rightarrow> Some c | _ \<Rightarrow> snd s))"
| "reader_steps P E Z cap (NextRecord fs chunks sel # xs) s = (case snd s of
     None \<Rightarrow> reader_steps P E Z cap xs s
   | Some k \<Rightarrow> Option.bind (next_selected P E Z cap fs chunks sel k (sd_loader (fst s))) (\<lambda>(res, k', l).
       reader_steps P E Z cap xs ((fst s)\<lparr>sd_loader := l\<rparr>, Some k')))"

lemma reader_steps_total:
  assumes "prost_codec P" "loader_wf (sd_loader (fst s))" "\<forall>k. snd s = Some k \<longrightarrow> chunk_wf (dc_data k)"
    "\<forall>x \<in> set xs. catalog_allocates (step_catalog x)"
  shows "reader_steps P E Z cap xs s \<noteq> None"
  using assms
proof (induction xs arbitrary: s)
  case (Cons x xs)
  show ?case
  proof (cases x)
    case (NextChunk fs chunks)
    from reader_next_total [OF Cons.prems(1,2), of chunks] NextChunk Cons.prems(4) obtain res r' where r: "reader_next P Z cap fs chunks (fst s) = Some (res, r')"
      "loader_wf (sd_loader r')" "\<And>c. res = Some (Inr c) \<Longrightarrow> chunk_wf (dc_data c)" by force
    have "reader_steps P E Z cap xs (r', case res of Some (Inr c) \<Rightarrow> Some c | _ \<Rightarrow> snd s) \<noteq> None"
      by (rule Cons.IH [OF Cons.prems(1)]) (use r Cons.prems(3,4) in \<open>auto split: option.splits sum.splits\<close>)
    then show ?thesis using NextChunk r(1) by simp
  next
    case (NextRecord fs chunks sel)
    show ?thesis
    proof (cases "snd s")
      case (Some k)
      with Cons.prems(3) have "chunk_wf (dc_data k)" by blast
      from next_selected_total [OF Cons.prems(1) this Cons.prems(2), of chunks] NextRecord Cons.prems(4) obtain res k' l' where
        r: "next_selected P E Z cap fs chunks sel k (sd_loader (fst s)) = Some (res, k', l')" "loader_wf l'" "chunk_wf (dc_data k')"
        by force
      have "reader_steps P E Z cap xs ((fst s)\<lparr>sd_loader := l'\<rparr>, Some k') \<noteq> None"
        by (rule Cons.IH [OF Cons.prems(1)]) (use r Cons.prems(4) in auto)
      then show ?thesis using NextRecord r(1) Some by simp
    qed (use NextRecord Cons in simp)
  qed
qed simp

subsection \<open>Reading back a written journal\<close>

definition zstd_ok :: "zstd \<Rightarrow> bool" where
  "zstd_ok Z \<longleftrightarrow> (\<forall>level b p. zstd_compress Z level b = Inr p \<longrightarrow> zstd_decode_all Z p = Inr b)"

text \<open>The chunk of the records \<open>rs\<close> with the first index \<open>f\<close>, as the writer stores it and the
  reader loads it.\<close>

definition on_disk :: "prost \<Rightarrow> 'x payload_codec \<Rightarrow> zstd \<Rightarrow> segment_files \<Rightarrow> u8 \<Rightarrow> chunk_compression option \<Rightarrow>
    u64 \<times> 'x raw_record list \<Rightarrow> chunk_meta \<Rightarrow> bool" where
  "on_disk P E Z fs cmask algo k meta \<longleftrightarrow> cm_first_index meta = fst k \<and> cm_last_index meta = fst k + of_nat (length (snd k)) - 1 \<and>
     cm_compression meta = chunk_format cmask algo \<and> cm_segment_id meta \<in> sf_linked fs \<and> length (serialize_chunk P E (snd k)) < 2 ^ 64 \<and>
     unat (cm_offset meta) < 2 ^ 63 \<and> unat (cm_size meta) < 2 ^ 63 \<and> (\<exists>payload. compress_payload Z algo (serialize_chunk P E (snd k)) = Inr payload \<and>
        read_exact fs (cm_segment_id meta) (unat (cm_offset meta)) (unat (cm_size meta)) = Inr payload)"

definition chunk_of :: "prost \<Rightarrow> 'x payload_codec \<Rightarrow> u8 \<Rightarrow> chunk_compression option \<Rightarrow> u64 \<times> 'x raw_record list \<Rightarrow> chunk_data" where
  "chunk_of P E cmask algo k = \<lparr>kd_first_index = fst k, kd_format = chunk_format cmask algo, kd_bytes = serialize_chunk P E (snd k),
     kd_records = frame_ranges P 0 (map (serialize_record P E) (snd k))\<rparr>"

lemma unat_plus_nat: "unat (i :: u64) + n < 2 ^ 64 \<Longrightarrow> unat (i + of_nat n) = unat i + n"
  by (simp add: unat_word_ariths unat_of_nat_u64)

lemma last_index:
  fixes i :: u64
  assumes "unat i + n < 2 ^ 64" "0 < n"
  shows "i \<le> i + of_nat n - 1" "i + of_nat n - 1 - i + 1 = of_nat n" "unat (i + of_nat n - 1) = unat i + n - 1"
proof -
  have e: "i + of_nat n - 1 = i + of_nat (n - 1)" using assms(2) by (simp add: of_nat_diff)
  have "unat (i + of_nat (n - 1)) = unat i + (n - 1)" by (rule unat_plus_nat) (use assms in linarith)
  then show "i \<le> i + of_nat n - 1" "unat (i + of_nat n - 1) = unat i + n - 1"
    using assms(2) unfolding e by (simp_all add: word_le_nat_alt)
  show "i + of_nat n - 1 - i + 1 = of_nat n" by simp
qed

context prost_codec
begin

lemma scan_serialized:
  assumes "length (serialize_chunk P E rs) < 2 ^ 64"
  shows "scan_records P (serialize_chunk P E rs) 0 [] = Some (Inr (frame_ranges P 0 (map (serialize_record P E) rs)))"
proof -
  have "serialize_chunk P E rs = concat (map (frame_record P) (map (serialize_record P E) rs))"
    by (simp add: serialize_chunk_def comp_def)
  then show ?thesis using scan_frames [of "[]" "map (serialize_record P E) rs" "[]"] assms by simp
qed

lemma read_chunk_stored:
  assumes "zstd_ok Z" "on_disk P E Z fs cmask algo k meta" "snd k \<noteq> []" "unat (fst k) + length (snd k) < 2 ^ 64"
  shows "read_chunk P Z fs meta = Some (Inr (chunk_of P E cmask algo k))"
proof -
  let ?b = "serialize_chunk P E (snd k)"
  from assms(2) obtain payload where pl: "compress_payload Z algo ?b = Inr payload"
    "read_exact fs (cm_segment_id meta) (unat (cm_offset meta)) (unat (cm_size meta)) = Inr payload"
    and meta: "cm_first_index meta = fst k" "cm_last_index meta = fst k + of_nat (length (snd k)) - 1"
      "cm_compression meta = chunk_format cmask algo" "length ?b < 2 ^ 64" "unat (cm_offset meta) < 2 ^ 63" "unat (cm_size meta) < 2 ^ 63"
    by (auto simp: on_disk_def)
  have d: "decompress_payload Z (chunk_format cmask algo) payload = Inr ?b"
    unfolding decompress_payload_def chunk_format_compression using pl(1) assms(1)
    by (cases algo; cases "the algo") (auto simp: compression_from_tag_def compress_payload_def zstd_ok_def map_err_def)
  have "chunk_count meta = Inr (length (snd k))"
    using last_index [OF assms(4)] assms(3,4) by (simp add: chunk_count_def meta unat_of_nat_u64)
  with meta(5,6) show ?thesis
    by (simp add: read_chunk_def pl(2) meta(1-4) not_le d chunk_data_new_def scan_serialized [OF meta(4)] chunk_of_def)
qed

lemma chunk_of_record:
  assumes "q < length (snd k)" "unat (fst k) + length (snd k) < 2 ^ 64"
  shows "chunk_record (chunk_of P E cmask algo k) (fst k + of_nat q) = Some (Inr (serialize_record P E (snd k ! q)))"
proof -
  let ?bs = "map (serialize_record P E) (snd k)"
  have u: "unat (fst k + of_nat q) = unat (fst k) + q" by (rule unat_plus_nat) (use assms in linarith)
  then have le: "\<not> fst k + of_nat q < fst k" by (simp add: word_less_nat_alt)
  have q: "unat (of_nat q :: u64) = q" by (rule unat_of_nat_u64) (use assms in linarith)
  have "serialize_chunk P E (snd k) = [] @ concat (map (frame_record P) ?bs)" by (simp add: serialize_chunk_def comp_def)
  moreover have "(let r = frame_ranges P (length ([] :: bytes)) ?bs ! q in slice (fst r) (snd r) ([] @ concat (map (frame_record P) ?bs))) = Some (?bs ! q)"
    by (rule frame_slices) (use assms(1) in simp)
  ultimately show ?thesis using le assms(1) by (simp add: chunk_record_def chunk_of_def q Let_def)
qed

end

text \<open>Chunks with contiguous indices from \<open>i\<close>.\<close>

fun contiguous :: "u64 \<Rightarrow> (u64 \<times> 'x raw_record list) list \<Rightarrow> bool" where
  "contiguous i [] = True"
| "contiguous i (k # ks) = (fst k = i \<and> snd k \<noteq> [] \<and> contiguous (i + of_nat (length (snd k))) ks)"

definition journal_records :: "(u64 \<times> 'x raw_record list) list \<Rightarrow> 'x raw_record list" where
  "journal_records ks = concat (map snd ks)"

lemma contiguous_split:
  "contiguous i (pre @ k # post) \<Longrightarrow> fst k = i + of_nat (length (journal_records pre)) \<and> snd k \<noteq> []"
proof (induction pre arbitrary: i)
  case (Cons a pre)
  from Cons.IH [of "i + of_nat (length (snd a))"] Cons.prems show ?case by (simp add: journal_records_def add.assoc)
qed (simp add: journal_records_def)

lemma chunk_at_position:
  assumes "contiguous i ks" "list_all2 (on_disk P E Z fs cmask algo) ks metas" "j < length (journal_records ks)"
    "unat i + length (journal_records ks) < 2 ^ 64"
  shows "\<exists>pre k post meta q. ks = pre @ k # post \<and> on_disk P E Z fs cmask algo k meta \<and>
    chunk_at metas (i + of_nat j) = Some meta \<and> q < length (snd k) \<and> j = length (journal_records pre) + q"
  using assms
proof (induction ks arbitrary: i j metas)
  case (Cons k ks)
  from Cons.prems(2) obtain m ms where m: "metas = m # ms" "on_disk P E Z fs cmask algo k m"
    "list_all2 (on_disk P E Z fs cmask algo) ks ms" by (auto simp: list_all2_Cons1)
  have i: "fst k = i" "snd k \<noteq> []" using Cons.prems(1) by simp_all
  have b: "unat i + length (snd k) < 2 ^ 64" "j < length (snd k) + length (journal_records ks)"
    "unat i + (length (snd k) + length (journal_records ks)) < 2 ^ 64"
    using Cons.prems(3,4) by (simp_all add: journal_records_def)
  have lst: "unat (cm_last_index m) = unat i + length (snd k) - 1"
    using last_index(3) [OF b(1)] i(2) m(2) i(1) by (simp add: on_disk_def)
  have ij: "unat (i + of_nat j) = unat i + j" by (rule unat_plus_nat) (use b in linarith)
  show ?case
  proof (cases "j < length (snd k)")
    case True
    then have "\<not> cm_last_index m < i + of_nat j" using lst ij by (simp add: word_less_nat_alt)
    then have "chunk_at metas (i + of_nat j) = Some m" by (simp add: chunk_at_def partition_point_def m(1))
    with m(2) True have "k # ks = [] @ k # ks \<and> on_disk P E Z fs cmask algo k m \<and> chunk_at metas (i + of_nat j) = Some m \<and>
      j < length (snd k) \<and> j = length (journal_records []) + j" by (simp add: journal_records_def)
    then show ?thesis by blast
  next
    case False
    define j' where "j' = j - length (snd k)"
    have j: "j = length (snd k) + j'" using False by (simp add: j'_def)
    have "0 < length (snd k)" using i(2) by simp
    then have "cm_last_index m < i + of_nat j" using lst ij False unfolding word_less_nat_alt by linarith
    then have at: "chunk_at metas (i + of_nat j) = chunk_at ms (i + of_nat j)" by (simp add: chunk_at_def partition_point_def m(1) Let_def)
    have e: "i + of_nat j = (i + of_nat (length (snd k))) + of_nat j'" by (simp add: j add.assoc)
    have "unat (i + of_nat (length (snd k))) = unat i + length (snd k)" by (rule unat_plus_nat [OF b(1)])
    then have b': "j' < length (journal_records ks)" "unat (i + of_nat (length (snd k))) + length (journal_records ks) < 2 ^ 64"
      using b j by simp_all
    have "contiguous (i + of_nat (length (snd k))) ks" using Cons.prems(1) by simp
    from Cons.IH [OF this m(3) b'] obtain pre k' post meta q where r: "ks = pre @ k' # post" "on_disk P E Z fs cmask algo k' meta"
      "chunk_at ms (i + of_nat (length (snd k)) + of_nat j') = Some meta" "q < length (snd k')" "j' = length (journal_records pre) + q" by blast
    show ?thesis
      by (rule exI [of _ "k # pre"], rule exI [of _ k'], rule exI [of _ post], rule exI [of _ meta], rule exI [of _ q])
        (use r at e j in \<open>simp add: journal_records_def add.assoc\<close>)
  qed
qed (simp add: journal_records_def)

lemma contiguous_unique:
  assumes "contiguous i ks" "unat i + length (journal_records ks) < 2 ^ 64" "k \<in> set ks" "k' \<in> set ks" "fst k = fst k'"
  shows "k = k'"
proof -
  have pos: "\<exists>pre post. ks = pre @ x # post \<and> unat (fst x) = unat i + length (journal_records pre) \<and> snd x \<noteq> []" if "x \<in> set ks" for x
  proof -
    from split_list [OF that] obtain pre post where ks: "ks = pre @ x # post" by blast
    have "unat i + length (journal_records pre) < 2 ^ 64" using assms(2) by (simp add: ks journal_records_def)
    with contiguous_split [OF assms(1) [unfolded ks]] ks show ?thesis using unat_plus_nat by auto
  qed
  from pos [OF assms(3)] obtain pre post where 1: "ks = pre @ k # post" "unat (fst k) = unat i + length (journal_records pre)" "snd k \<noteq> []" by blast
  from pos [OF assms(4)] obtain pre' post' where 2: "ks = pre' @ k' # post'" "unat (fst k') = unat i + length (journal_records pre')" "snd k' \<noteq> []" by blast
  have len: "length (journal_records pre) = length (journal_records pre')" using 1(2) 2(2) assms(5) by simp
  have "pre = pre'"
  proof -
    from 1(1) 2(1) have "pre @ k # post = pre' @ k' # post'" by simp
    then obtain us where "pre = pre' @ us \<and> us @ k # post = k' # post' \<or> pre @ us = pre' \<and> k # post = us @ k' # post'"
      by (auto simp: append_eq_append_conv2)
    then show ?thesis
    proof (elim disjE conjE)
      assume u: "pre = pre' @ us" "us @ k # post = k' # post'"
      then show ?thesis using len 2(3) by (cases us) (auto simp: journal_records_def)
    next
      assume u: "pre @ us = pre'" "k # post = us @ k' # post'"
      then show ?thesis using len 1(3) by (cases us) (auto simp: journal_records_def)
    qed
  qed
  with 1(1) 2(1) show ?thesis by simp
qed

text \<open>A loader whose cache holds chunks of the journal.\<close>

definition loader_good :: "prost \<Rightarrow> 'x payload_codec \<Rightarrow> u8 \<Rightarrow> chunk_compression option \<Rightarrow> (u64 \<times> 'x raw_record list) list \<Rightarrow> chunk_loader \<Rightarrow> bool" where
  "loader_good P E cmask algo ks l \<longleftrightarrow> set (ld_cache l) \<subseteq> chunk_of P E cmask algo ` set ks"

lemma load_stored:
  assumes P: "prost_codec P" and Z: "zstd_ok Z" and ks: "contiguous i ks" "unat i + length (journal_records ks) < 2 ^ 64"
    and k: "k \<in> set ks" "on_disk P E Z fs cmask algo k meta" and l: "loader_good P E cmask algo ks l"
  shows "\<exists>l'. load P Z cap fs meta l = Some (Inr (chunk_of P E cmask algo k), l') \<and> loader_good P E cmask algo ks l'"
proof -
  from split_list [OF k(1)] obtain pre post where s: "ks = pre @ k # post" by blast
  from contiguous_split [OF ks(1) [unfolded s]] have f: "fst k = i + of_nat (length (journal_records pre))" "snd k \<noteq> []" by auto
  have len: "length (journal_records ks) = length (journal_records pre) + length (snd k) + length (journal_records post)"
    by (simp add: s journal_records_def)
  have u: "unat (fst k) = unat i + length (journal_records pre)" unfolding f by (rule unat_plus_nat) (use ks(2) len in linarith)
  have b: "unat (fst k) + length (snd k) < 2 ^ 64" using u ks(2) len by linarith
  have meta: "cm_first_index meta = fst k" "cm_segment_id meta \<in> sf_linked fs" using k(2) by (simp_all add: on_disk_def)
  show ?thesis
  proof (cases "find (\<lambda>d. kd_first_index d = cm_first_index meta) (ld_cache l)")
    case (Some d)
    then have d: "d \<in> set (ld_cache l)" "kd_first_index d = fst k" by (auto simp: find_Some_iff meta)
    with l obtain k' where k': "k' \<in> set ks" "d = chunk_of P E cmask algo k'" unfolding loader_good_def by blast
    with d(2) have "fst k' = fst k" by (simp add: chunk_of_def)
    from contiguous_unique [OF ks k'(1) k(1) this] k'(2) have dk: "d = chunk_of P E cmask algo k" by simp
    have "loader_good P E cmask algo ks (l\<lparr>ld_cache := remove1 d (ld_cache l) @ [d]\<rparr>)"
      using l d(1) set_remove1_subset [of d "ld_cache l"] by (auto simp: loader_good_def)
    with Some dk show ?thesis by (simp add: load_def)
  next
    case None
    have "open_segment fs (cm_segment_id meta) l = Inr (l\<lparr>ld_file := Some (cm_segment_id meta)\<rparr>)"
      using meta(2) by (auto simp: open_segment_def)
    moreover note prost_codec.read_chunk_stored [OF P Z k(2) f(2) b]
    moreover have "loader_good P E cmask algo ks (l\<lparr>ld_file := x, ld_cache := fst (evict_cache cap c (ld_cache l) n) @ [chunk_of P E cmask algo k],
        ld_cache_bytes := y\<rparr>)" for x c n y
      using l k(1) evict_cache_subset [of cap c "ld_cache l" n] by (auto simp: loader_good_def)
    ultimately show ?thesis using None by (simp add: load_def Let_def case_prod_unfold)
  qed
qed

text \<open>The record at a position of the journal.\<close>

lemma chunk_position_record:
  assumes P: "prost_codec P" and ks: "contiguous i ks" "unat i + length (journal_records ks) < 2 ^ 64" "ks = pre @ k # post"
    and q: "q < length (snd k)"
  shows "chunk_record (chunk_of P E cmask algo k) (i + of_nat (length (journal_records pre) + q)) =
      Some (Inr (serialize_record P E (journal_records ks ! (length (journal_records pre) + q))))"
    "fst k \<le> i + of_nat (length (journal_records pre) + q)"
proof -
  from contiguous_split [OF ks(1) [unfolded ks(3)]] have f: "fst k = i + of_nat (length (journal_records pre))" by auto
  have len: "length (journal_records ks) = length (journal_records pre) + length (snd k) + length (journal_records post)"
    by (simp add: ks(3) journal_records_def)
  have u: "unat (fst k) = unat i + length (journal_records pre)" unfolding f by (rule unat_plus_nat) (use ks(2) len in linarith)
  have b: "unat (fst k) + length (snd k) < 2 ^ 64" using u ks(2) len by linarith
  have e: "i + of_nat (length (journal_records pre) + q) = fst k + of_nat q" by (simp add: f add.assoc)
  have "journal_records ks ! (length (journal_records pre) + q) = snd k ! q"
    using q by (simp add: ks(3) journal_records_def nth_append)
  then show "chunk_record (chunk_of P E cmask algo k) (i + of_nat (length (journal_records pre) + q)) =
      Some (Inr (serialize_record P E (journal_records ks ! (length (journal_records pre) + q))))"
    unfolding e using prost_codec.chunk_of_record [OF P q b] by simp
  show "fst k \<le> i + of_nat (length (journal_records pre) + q)"
    unfolding e using unat_plus_nat [of "fst k" q] q b by (simp add: word_le_nat_alt)
qed

lemma chunk_contains_record:
  assumes P: "prost_codec P" and ks: "contiguous i ks" "unat i + length (journal_records ks) < 2 ^ 64" "k \<in> set ks"
    and t: "t < length (journal_records ks)" and c: "chunk_contains (chunk_of P E cmask algo k) (i + of_nat t)"
  shows "chunk_record (chunk_of P E cmask algo k) (i + of_nat t) = Some (Inr (serialize_record P E (journal_records ks ! t)))"
proof -
  from split_list [OF ks(3)] obtain pre post where s: "ks = pre @ k # post" by blast
  from contiguous_split [OF ks(1) [unfolded s]] have f: "fst k = i + of_nat (length (journal_records pre))" by auto
  have len: "length (journal_records ks) = length (journal_records pre) + length (snd k) + length (journal_records post)"
    by (simp add: s journal_records_def)
  have u: "unat (fst k) = unat i + length (journal_records pre)" unfolding f by (rule unat_plus_nat) (use ks(2) len in linarith)
  have ut: "unat (i + of_nat t) = unat i + t" by (rule unat_plus_nat) (use ks(2) t in linarith)
  have n: "unat (of_nat (length (snd k)) :: u64) = length (snd k)" by (rule unat_of_nat_u64) (use ks(2) len in linarith)
  have ge: "fst k \<le> i + of_nat t" and lt: "i + of_nat t - fst k < of_nat (length (snd k))"
    using c by (simp_all add: chunk_contains_def chunk_of_def)
  have le: "length (journal_records pre) \<le> t" using ge u ut by (simp add: word_le_nat_alt)
  have "unat (i + of_nat t - fst k) = t - length (journal_records pre)"
    using unat_sub [OF ge] u ut le by linarith
  with lt n have q: "t - length (journal_records pre) < length (snd k)" by (simp add: word_less_nat_alt)
  from chunk_position_record(1) [OF P ks(1,2) s q] le show ?thesis by simp
qed

definition parsed_payload :: "'x payload_codec \<Rightarrow> slot \<Rightarrow> 'x parsed_message \<Rightarrow> error + 'x parsed_message" where
  "parsed_payload E sl m = header_decode E \<lparr>rh_commitment = Processed, rh_slot = sl, rh_block = is_block m, rh_reference = False,
     rh_payload = pc_encode E m\<rparr>"

definition scanned :: "u64 \<Rightarrow> commitment_level \<Rightarrow> u64 \<Rightarrow> 'x parsed_message \<Rightarrow> 'x scanned_record" where
  "scanned index c t m = \<lparr>sr_index = index, sr_payload_index = Some t, sr_commitment = c, sr_message = Some m\<rparr>"

definition points_to :: "u64 \<Rightarrow> 'x raw_record list \<Rightarrow> 'x raw_record \<Rightarrow> nat \<Rightarrow> u64 \<Rightarrow> 'x parsed_message \<Rightarrow> bool" where
  "points_to i rs r j t m \<longleftrightarrow> (\<exists>k < j. t = i + of_nat k \<and> rr_payload (rs ! k) = RawMessage m \<and> rr_slot (rs ! k) = rr_slot r \<and>
     rr_block (rs ! k) = rr_block r \<and> rr_block r = is_block m)"

lemma read_message_record:
  assumes P: "prost_codec P" and d: "chunk_record d index = Some (Inr (serialize_record P E r))" "kd_format d = chunk_format cmask algo"
    and r: "rr_payload r = RawMessage m" "rr_block r = is_block m"
  shows "read_record P E Z cap fs chunks d index None l =
    Some (map_ok (scanned index (rr_commitment r) index) (parsed_payload E (rr_slot r) m), l)"
proof -
  have "map_ok (\<lambda>m. \<lparr>sr_index = index, sr_payload_index = Some index, sr_commitment = rr_commitment r, sr_message = Some m\<rparr>) x =
      map_ok (scanned index (rr_commitment r) index) x" for x
    by (cases x) (simp_all add: scanned_def)
  with r show ?thesis
    by (simp add: read_record_def d prost_codec.header_round_trip [OF P] excluded_def is_reference_def payload_bytes_def
        Let_def parsed_payload_def header_decode_def)
qed

lemma decode_target_record:
  assumes P: "prost_codec P" and d: "chunk_record d t = Some (Inr (serialize_record P E r'))" "kd_format d = chunk_format cmask algo"
    and r: "rr_payload r' = RawMessage m" "rr_slot r' = rh_slot h" "rr_block r' = rh_block h" "rh_block h = is_block m"
  shows "decode_target P E h t d = Some (parsed_payload E (rh_slot h) m)"
  using r by (simp add: decode_target_def d prost_codec.header_round_trip [OF P] is_reference_def payload_bytes_def
      parsed_payload_def header_decode_def)

lemma chunk_of_format [simp]: "kd_format (chunk_of P E cmask algo k) = chunk_format cmask algo"
  by (simp add: chunk_of_def)

lemma read_reference_record:
  assumes P: "prost_codec P" and Z: "zstd_ok Z" and ks: "contiguous i ks" "unat i + length (journal_records ks) < 2 ^ 64"
    and disk: "list_all2 (on_disk P E Z fs cmask algo) ks metas" and l: "loader_good P E cmask algo ks l"
    and j: "j < length (journal_records ks)" "r = journal_records ks ! j" and k: "k \<in> set ks"
    and d: "chunk_record (chunk_of P E cmask algo k) (i + of_nat j) = Some (Inr (serialize_record P E r))"
    and r: "rr_payload r = RawReference t" "points_to i (journal_records ks) r j t m"
  shows "\<exists>l'. loader_good P E cmask algo ks l' \<and> read_record P E Z cap fs metas (chunk_of P E cmask algo k) (i + of_nat j) None l =
    Some (map_ok (scanned (i + of_nat j) (rr_commitment r) t) (parsed_payload E (rr_slot r) m), l')"
proof -
  from r(2) obtain n where n: "n < j" "t = i + of_nat n" and r': "rr_payload (journal_records ks ! n) = RawMessage m"
    "rr_slot (journal_records ks ! n) = rr_slot r" "rr_block (journal_records ks ! n) = rr_block r" "rr_block r = is_block m"
    by (auto simp: points_to_def)
  let ?d = "chunk_of P E cmask algo k"
  let ?h = "\<lparr>rh_commitment = rr_commitment r, rh_slot = rr_slot r, rh_block = rr_block r, rh_reference = True, rh_payload = encode_varint P t\<rparr>"
  have nl: "n < length (journal_records ks)" using n j by simp
  have "unat (i + of_nat n) = unat i + n" "unat (i + of_nat j) = unat i + j"
    by (rule unat_plus_nat, use ks(2) nl in linarith) (rule unat_plus_nat, use ks(2) j(1) in linarith)
  then have lt: "t < i + of_nat j" using n by (simp add: word_less_nat_alt)
  have dec: "decode_varint P (encode_varint P t) = Inr (t, [])" using prost_codec.varint_decode [OF P, of t "[]"] by simp
  have target: "decode_target P E ?h t d' = Some (parsed_payload E (rr_slot r) m)"
    if "chunk_record d' t = Some (Inr (serialize_record P E (journal_records ks ! n)))" "kd_format d' = chunk_format cmask algo" for d'
    using decode_target_record [OF P that, of m ?h] r' by simp
  have "\<exists>l'. loader_good P E cmask algo ks l' \<and> resolve_reference P E Z cap fs metas ?d (i + of_nat j) ?h l =
      Some (map_ok (Pair t) (parsed_payload E (rr_slot r) m), l')"
  proof (cases "chunk_contains ?d t")
    case True
    have "chunk_record ?d t = Some (Inr (serialize_record P E (journal_records ks ! n)))"
      unfolding n(2) by (rule chunk_contains_record [OF P ks k nl True [unfolded n(2)]])
    from target [OF this] True l lt show ?thesis by (simp add: resolve_reference_def dec)
  next
    case False
    from chunk_at_position [OF ks(1) disk nl ks(2)] obtain pre k' post meta q where s: "ks = pre @ k' # post"
      "on_disk P E Z fs cmask algo k' meta" "chunk_at metas (i + of_nat n) = Some meta" "q < length (snd k')"
      "n = length (journal_records pre) + q" by blast
    note pr = chunk_position_record [OF P ks(1,2) s(1,4), folded s(5), folded n(2)]
    have "k' \<in> set ks" using s(1) by simp
    from load_stored [OF P Z ks this s(2) l] obtain l' where
      l': "load P Z cap fs meta l = Some (Inr (chunk_of P E cmask algo k'), l')" "loader_good P E cmask algo ks l'" by blast
    have "cm_first_index meta \<le> t" using pr(2) s(2) by (simp add: on_disk_def)
    then have "payload_chunk P Z cap fs metas t l = Some (Inr (chunk_of P E cmask algo k'), l')"
      using s(3) [folded n(2)] l'(1) by (simp add: payload_chunk_def)
    with False lt l'(2) target [of "chunk_of P E cmask algo k'"] pr(1) show ?thesis
      by (simp add: resolve_reference_def dec)
  qed
  then obtain l' where l': "loader_good P E cmask algo ks l'" "resolve_reference P E Z cap fs metas ?d (i + of_nat j) ?h l =
      Some (map_ok (Pair t) (parsed_payload E (rr_slot r) m), l')" by blast
  have "map_ok (\<lambda>(i', m). \<lparr>sr_index = i + of_nat j, sr_payload_index = Some i', sr_commitment = rr_commitment r, sr_message = Some m\<rparr>)
      (map_ok (Pair t) x) = map_ok (scanned (i + of_nat j) (rr_commitment r) t) x" for x
    by (cases x) (simp_all add: scanned_def)
  with l' r(1) show ?thesis
    by (simp add: read_record_def d prost_codec.header_round_trip [OF P] excluded_def is_reference_def payload_bytes_def Let_def)
qed

text \<open>A new reader at a position of the journal.\<close>

definition read_at :: "prost \<Rightarrow> 'x payload_codec \<Rightarrow> zstd \<Rightarrow> (chunk_data \<Rightarrow> nat) \<Rightarrow> segment_files \<Rightarrow> chunk_meta list \<Rightarrow> u64 \<Rightarrow>
    (error + 'x scanned_record) option" where
  "read_at P E Z cap fs metas index = (case reader_next P Z cap fs metas (segment_reader_new index) of
     Some (Some (Inr k), r) \<Rightarrow> (case next_selected P E Z cap fs metas None k (sd_loader r) of Some (res, _, _) \<Rightarrow> res | None \<Rightarrow> None)
   | _ \<Rightarrow> None)"

lemma read_position:
  assumes P: "prost_codec P" and Z: "zstd_ok Z" and ks: "contiguous i ks" "unat i + length (journal_records ks) < 2 ^ 64"
    and disk: "list_all2 (on_disk P E Z fs cmask algo) ks metas" and j: "j < length (journal_records ks)" "r = journal_records ks ! j"
    and r: "rr_payload r = RawMessage m \<and> rr_block r = is_block m \<and> t = i + of_nat j \<or>
      rr_payload r = RawReference t \<and> points_to i (journal_records ks) r j t m"
  shows "read_at P E Z cap fs metas (i + of_nat j) = Some (map_ok (scanned (i + of_nat j) (rr_commitment r) t) (parsed_payload E (rr_slot r) m))"
proof -
  let ?index = "i + of_nat j"
  from chunk_at_position [OF ks(1) disk j(1) ks(2)] obtain pre k post meta q where s: "ks = pre @ k # post"
    "on_disk P E Z fs cmask algo k meta" "chunk_at metas ?index = Some meta" "q < length (snd k)" "j = length (journal_records pre) + q" by blast
  note pr = chunk_position_record [OF P ks s(1,4), folded s(5)]
  have k: "k \<in> set ks" using s(1) by simp
  have "loader_good P E cmask algo ks chunk_loader_new" by (simp add: loader_good_def chunk_loader_new_def)
  from load_stored [OF P Z ks k s(2) this] obtain l where
    l: "load P Z cap fs meta chunk_loader_new = Some (Inr (chunk_of P E cmask algo k), l)" "loader_good P E cmask algo ks l" by blast
  have first: "cm_first_index meta = fst k" using s(2) by (simp add: on_disk_def)
  have "fst k = i + of_nat (length (journal_records pre))" using contiguous_split [OF ks(1) [unfolded s(1)]] by simp
  then have idx: "?index = fst k + of_nat q" by (simp add: s(5) add.assoc)
  have "length (snd k) \<le> length (journal_records ks)" by (simp add: s(1) journal_records_def)
  then have q: "unat (of_nat q :: u64) = q" using s(4) ks(2) by (intro unat_of_nat_u64) linarith
  have n: "reader_next P Z cap fs metas (segment_reader_new ?index) = Some (Some (Inr \<lparr>dc_data = chunk_of P E cmask algo k,
      dc_cursor = q, dc_failed = False\<rparr>), \<lparr>sd_next_index = cm_last_index meta + 1, sd_loader = l, sd_failed = False\<rparr>)"
    using l(1) s(3) pr(2) by (simp add: reader_next_def load_next_def segment_reader_new_def first q idx)
  have len: "length (kd_records (chunk_of P E cmask algo k)) = length (snd k)" "kd_first_index (chunk_of P E cmask algo k) = fst k"
    by (simp_all add: chunk_of_def)
  obtain l' where rr: "read_record P E Z cap fs metas (chunk_of P E cmask algo k) ?index None l =
      Some (map_ok (scanned ?index (rr_commitment r) t) (parsed_payload E (rr_slot r) m), l')"
    using r
  proof (elim disjE conjE)
    assume "rr_payload r = RawMessage m" "rr_block r = is_block m" "t = ?index"
    with read_message_record [OF P pr(1) [folded j(2)] chunk_of_format] show thesis using that by simp
  next
    assume "rr_payload r = RawReference t" "points_to i (journal_records ks) r j t m"
    from read_reference_record [OF P Z ks disk l(2) j k pr(1) [folded j(2)] this] show thesis using that by blast
  qed
  then show ?thesis using s(4) by (simp add: read_at_def n next_selected_def len idx [symmetric])
qed

subsection \<open>From the collector to the reader\<close>

fun stored_chunks :: "'x collector_output list \<Rightarrow> (u64 \<times> 'x raw_record list) list" where
  "stored_chunks [] = []"
| "stored_chunks (CL_RawChunk seq first lst rs slots fin # os) = (first, rs) # stored_chunks os"
| "stored_chunks (CL_Trim seq sl until # os) = stored_chunks os"

lemma stored_chunks_records: "journal_records (stored_chunks os) = concat (map output_records os)"
  by (induction os rule: stored_chunks.induct) (simp_all add: journal_records_def)

lemma chunk_walk_contiguous: "chunk_walk os x = Some y \<Longrightarrow> contiguous (fst x) (stored_chunks os)"
  by (induction os x rule: chunk_walk.induct) (auto split: if_splits simp: last_processed_def)

text \<open>An allocation of one slot holds one message.\<close>

definition identities_unique :: "('x parsed_message \<Rightarrow> nat) \<Rightarrow> 'x writer_command list \<Rightarrow> bool" where
  "identities_unique ident cs \<longleftrightarrow> (\<forall>p \<in> set (pushes cs). \<forall>p' \<in> set (pushes cs).
     fst (snd p) = fst (snd p') \<and> payload_identity ident (snd (snd p)) = payload_identity ident (snd (snd p')) \<longrightarrow> snd (snd p) = snd (snd p'))"

lemma record_points_to:
  assumes ok: "records_ok ident i cs rs" and u: "identities_unique ident cs" and no: "\<And>t m. WC_RestorePayload t m \<notin> set cs"
    and j: "j < length rs" "pushes cs ! j = (c, sl, m)"
  shows "rr_commitment (rs ! j) = c \<and> rr_slot (rs ! j) = sl \<and> (\<exists>t. rr_payload (rs ! j) = RawMessage m \<and> rr_block (rs ! j) = is_block m \<and> t = i + of_nat j \<or>
    rr_payload (rs ! j) = RawReference t \<and> points_to i rs (rs ! j) j t m)"
proof -
  have ok': "record_ok ident i cs (take k rs) (pushes cs ! k) (rs ! k)" if "k < length rs" for k
    using ok that by (simp add: records_ok_def)
  note 1 = ok' [OF j(1), unfolded j(2)]
  have len: "length rs = length (pushes cs)" using ok by (simp add: records_ok_def)
  show ?thesis
  proof (cases "rr_payload (rs ! j)")
    case (RawReference t)
    with 1 no obtain k m' where k: "k < j" "t = i + of_nat k" "rr_payload (rs ! k) = RawMessage m'" "rr_slot (rs ! k) = sl"
      "payload_identity ident m' = payload_identity ident m" by (auto simp: record_ok_def payload_at_def)
    have kl: "k < length rs" using k(1) j(1) by simp
    with ok' [OF kl] k(3,4) have "snd (snd (pushes cs ! k)) = m'" "fst (snd (pushes cs ! k)) = sl"  "rr_block (rs ! k) = is_block m'"
      by (simp_all add: record_ok_def)
    moreover have "pushes cs ! k \<in> set (pushes cs)" "pushes cs ! j \<in> set (pushes cs)" using kl j(1) len by simp_all
    ultimately have "m' = m" using u k(5) j(2) unfolding identities_unique_def by fastforce
    then have "points_to i rs (rs ! j) j t m" using k 1 \<open>rr_block (rs ! k) = is_block m'\<close> by (auto simp: points_to_def record_ok_def)
    with 1 RawReference show ?thesis by (auto simp: record_ok_def)
  qed (use 1 in \<open>auto simp: record_ok_def\<close>)
qed

lemma pushes_length: "length (pushes cs) \<le> length cs"
  by (simp add: pushes_def List.map_filter_def)

lemma event_commands_length: "length (event_commands es) \<le> length es"
  by (induction es rule: event_commands.induct) auto

lemma collected_chunks:
  assumes "sender_run PX H sz xs (rsender_new n mb rich others (Some st) k u b) = Some s" "rst_sent st = []"
    and "event_commands es = command_log s" "CE_Closed \<notin> set es" "length es < 2 ^ 32"
    and "run_collector target sz' ident (es @ [CE_Closed]) collector_new = Inr c"
  shows "contiguous 0 (stored_chunks (cl_sent c))" "records_ok ident 0 (command_log s) (journal_records (stored_chunks (cl_sent c)))"
    "length (journal_records (stored_chunks (cl_sent c))) < 2 ^ 32"
proof -
  from in_order_run [OF assms(1) rsender_new_in_order [OF assms(2)]] obtain c'
    where "journal_run (command_log s) (0, True) = Some (sn_index s, c')" c' by (auto simp: in_order_def)
  then have j: "journal_run (event_commands es) (0, True) = Some (sn_index s, True)" using assms(3) by simp
  from run_collector_ok [OF collector_ok_new j assms(4), of target sz' ident] assms(5,6) have
    c: "collector_ok ident 0 (command_log s) (sn_index s, True) c" "cl_records c = []"
    by (auto simp: collector_new_def assms(3))
  then obtain y where "chunk_walk (cl_sent c) (0, 0) = Some y" by (auto simp: collector_ok_def)
  from chunk_walk_contiguous [OF this] show "contiguous 0 (stored_chunks (cl_sent c))" by simp
  show ok: "records_ok ident 0 (command_log s) (journal_records (stored_chunks (cl_sent c)))"
    using c by (simp add: collector_ok_def stored_chunks_records all_records_def)
  show "length (journal_records (stored_chunks (cl_sent c))) < 2 ^ 32"
    using ok pushes_length [of "command_log s"] event_commands_length [of es] assms(3,5) by (simp add: records_ok_def)
qed

lemma collector_runs:
  assumes "sender_run PX H sz xs (rsender_new n mb rich others (Some st) k u b) = Some s" "rst_sent st = []"
    and "event_commands es = command_log s" "CE_Closed \<notin> set es" "length es < 2 ^ 32"
  obtains c where "run_collector target sz' ident (es @ [CE_Closed]) collector_new = Inr c"
proof -
  from in_order_run [OF assms(1) rsender_new_in_order [OF assms(2)]] obtain c'
    where "journal_run (command_log s) (0, True) = Some (sn_index s, c')" c' by (auto simp: in_order_def)
  then have j: "journal_run (event_commands es) (0, True) = Some (sn_index s, True)" using assms(3) by simp
  from run_collector_ok [OF collector_ok_new j assms(4), of target sz' ident] assms(5) show thesis
    using that by (auto simp: collector_new_def)
qed

lemma contiguous_length: "contiguous i ks \<Longrightarrow> length ks \<le> length (journal_records ks)"
proof (induction i ks rule: contiguous.induct)
  case (2 i k ks)
  then show ?case by (cases "snd k") (auto simp: journal_records_def)
qed simp

subsection \<open>Properties\<close>

text \<open>An example: the journal of a fork, with the payloads of the confirmed stream as references into
  the first of its two chunks, each chunk in a segment file of its own.\<close>

definition example_ident :: "unit parsed_message \<Rightarrow> nat" where
  "example_ident m = (case m of RP_Entry e \<Rightarrow> unat (me_index e) + (if me_bank_id e = 5 then 0 else 10) | _ \<Rightarrow> 100)"

definition example_message :: "unit parsed_message" where
  "example_message = RP_Entry (example_entry\<lparr>me_bank_id := 5, me_index := 1\<rparr>)"

definition example_codec :: "unit payload_codec" where
  "example_codec = \<lparr>pc_encode = (\<lambda>m. [of_nat (example_ident m)]), pc_parse = (\<lambda>_ b. if b = [1] then Inr example_message else Inl ''other'')\<rparr>"

definition example_zstd :: zstd where
  "example_zstd = \<lparr>zstd_compress = (\<lambda>_ b. Inr b), zstd_decode_all = (\<lambda>b. Inr b)\<rparr>"

definition example_files :: "(u64 \<times> unit raw_record list) list \<Rightarrow> segment_files" where
  "example_files ks = \<lparr>sf_linked = UNIV, sf_contents = (\<lambda>seg. serialize_chunk prost_ref example_codec (snd (ks ! unat seg)))\<rparr>"

definition example_metas :: "(u64 \<times> unit raw_record list) list \<Rightarrow> chunk_meta list" where
  "example_metas ks = map (\<lambda>n. \<lparr>cm_segment_id = of_nat n, cm_offset = 0, cm_size = of_nat (length (serialize_chunk prost_ref example_codec (snd (ks ! n)))),
     cm_compression = chunk_format 1 None, cm_first_index = fst (ks ! n), cm_last_index = fst (ks ! n) + of_nat (length (snd (ks ! n))) - 1\<rparr>)
     [0..<length ks]"

lemma example_serialized_length: "length (serialize_chunk prost_ref example_codec rs) \<le> 32 * length rs"
proof -
  have v: "length (encode_varint prost_ref x) \<le> 10" for x by (simp add: prost_ref_def ref_varint_length)
  have p: "length (payload_bytes prost_ref example_codec y) \<le> 10" for y
    using v by (simp add: payload_bytes_def example_codec_def split: raw_payload.split)
  have "length (frame_record prost_ref (serialize_record prost_ref example_codec r)) \<le> 32" for r
    using v [of "of_nat (length (serialize_record prost_ref example_codec r))"] v [of "rr_slot r"] p [of "rr_payload r"]
    by (simp add: frame_record_def serialize_record_def)
  then show ?thesis by (induction rs) (auto simp: serialize_chunk_def intro: add_mono)
qed

lemma example_on_disk:
  assumes "length ks < 2 ^ 64" "\<forall>k \<in> set ks. length (serialize_chunk prost_ref example_codec (snd k)) < 2 ^ 63"
  shows "list_all2 (on_disk prost_ref example_codec example_zstd (example_files ks) 1 None) ks (example_metas ks)"
proof -
  have "on_disk prost_ref example_codec example_zstd (example_files ks) 1 None (ks ! n) (example_metas ks ! n)" if "n < length ks" for n
  proof -
    have "unat (of_nat n :: u64) = n" by (rule unat_of_nat_u64) (use that assms(1) in linarith)
    moreover have "length (serialize_chunk prost_ref example_codec (snd (ks ! n))) < 2 ^ 63" using assms(2) that by simp
    ultimately show ?thesis using that
      by (simp add: on_disk_def example_metas_def example_files_def compress_payload_def read_exact_def unat_of_nat_u64)
  qed
  then show ?thesis by (simp add: list_all2_conv_all_nth example_metas_def)
qed

definition example_events :: "unit writer_command list \<Rightarrow> unit collector_event list" where
  "example_events cs = map CE_Command (take 3 cs) @ CE_Timeout # map CE_Command (drop 3 cs)"

lemma example_events_commands: "event_commands (example_events cs) = cs"
proof -
  have "event_commands (es @ es') = event_commands es @ event_commands es'" for es es' :: "unit collector_event list"
    by (induction es rule: event_commands.induct) simp_all
  then show ?thesis by (simp add: example_events_def event_commands_map)
qed

fun is_restore :: "'x writer_command \<Rightarrow> bool" where
  "is_restore (WC_RestorePayload _ _) = True"
| "is_restore _ = False"

lemma example_journal_commands:
  "case sender_run prost_ref (\<lambda>_. 0) (\<lambda>_. 1) example_fork (rsender_new 4 1000 True True (Some example_storage) 2 2 1 :: (unit, nat, nat) sender)
     of None \<Rightarrow> False
   | Some s \<Rightarrow> list_all (\<lambda>x. \<not> is_restore x) (command_log s) \<and> length (command_log s) = 8 \<and> length (pushes (command_log s)) = 8 \<and>
       pushes (command_log s) ! 6 = (Confirmed, 7, example_message) \<and>
       list_all (\<lambda>p. list_all (\<lambda>p'. fst (snd p) = fst (snd p') \<and> payload_identity example_ident (snd (snd p)) = payload_identity example_ident (snd (snd p'))
         \<longrightarrow> snd (snd p) = snd (snd p')) (pushes (command_log s))) (pushes (command_log s))"
  by code_simp

text \<open>The contract of the payload codec for a message: the parser reads back what the encoder
  wrote, as a message of the same slot that is \<open>same\<close>, that is, has the same content. The
  lemma \<open>journal_codec_reads_back\<close> of the root theory shows it for the encoder and the parser of the
  filter.\<close>

definition codec_reads_back :: "'x payload_codec \<Rightarrow> ('x parsed_message \<Rightarrow> 'x parsed_message \<Rightarrow> bool) \<Rightarrow> 'x parsed_message \<Rightarrow> bool" where
  "codec_reads_back E same m \<longleftrightarrow> (\<exists>m'. pc_parse E (is_block m) (pc_encode E m) = Inr m' \<and> parsed_slot m' = parsed_slot m \<and> same m m')"

lemma parsed_payload_back:
  assumes "codec_reads_back E same m" and "parsed_slot m = sl"
  shows "\<exists>m'. parsed_payload E sl m = Inr m' \<and> parsed_slot m' = sl \<and> same m m'"
  using assms by (auto simp: codec_reads_back_def parsed_payload_def header_decode_def map_err_def)

text \<open>\<^bold>\<open>C33.\<close> The journal gives back what was published, from the sender over the collector, the
  compressor and the files to the reader. Take any run of a sender with a fresh journal and
  any timing of the collector, and let the directory and the catalog hold its chunks,
  compressed or not. A reader that starts at the position of a published message, with any size of
  the cache, returns the index, the commitment and the message, when the codec of the
  payloads reads back what it wrote for this message; also where the record is only a reference
  to an earlier one, possibly in another chunk or segment.\<close>

theorem journal_read_back:
  assumes "prost_codec P" and "zstd_ok Z" and "codec_reads_back E same m"
    and "sender_run PX H sz xs (rsender_new n mb rich others (Some st) k u b) = Some s" and "rst_sent st = []"
    and "event_commands es = command_log s" and "CE_Closed \<notin> set es" and "length es < 2 ^ 32"
    and "\<And>t m. WC_RestorePayload t m \<notin> set (command_log s)" and "identities_unique ident (command_log s)"
    and "run_collector target sz' ident (es @ [CE_Closed]) collector_new = Inr c"
    and "list_all2 (on_disk P E Z fs cmask algo) (stored_chunks (cl_sent c)) metas"
    and "j < length (pushes (command_log s))" and "pushes (command_log s) ! j = (com, sl, m)"
  shows "\<exists>r m'. read_at P E Z cap fs metas (of_nat j) = Some (Inr r) \<and> sr_index r = of_nat j \<and> sr_commitment r = com \<and>
    sr_message r = Some m' \<and> parsed_slot m' = sl \<and> same m m'"
proof -
  note ch = collected_chunks [OF assms(4-8,11)]
  let ?rs = "journal_records (stored_chunks (cl_sent c))"
  have j: "j < length ?rs" using ch(2) assms(13) by (simp add: records_ok_def)
  from record_points_to [OF ch(2) assms(10,9) j assms(14)] obtain t where r: "rr_commitment (?rs ! j) = com" "rr_slot (?rs ! j) = sl"
    "rr_payload (?rs ! j) = RawMessage m \<and> rr_block (?rs ! j) = is_block m \<and> t = 0 + of_nat j \<or>
      rr_payload (?rs ! j) = RawReference t \<and> points_to 0 ?rs (?rs ! j) j t m" by auto
  have "unat (0 :: u64) + length ?rs < 2 ^ 64" using ch(3) by simp
  from read_position [OF assms(1,2) ch(1) this assms(12) j HOL.refl r(3)] r(1,2)
  have "read_at P E Z cap fs metas (of_nat j) = Some (map_ok (scanned (of_nat j) com t) (parsed_payload E sl m))" by simp
  moreover have "sender_own s"
    by (rule own_sender_run [OF assms(4) sender_own_new]) (use assms(5) in simp)
  then have "parsed_slot m = sl"
    using assms(13,14) nth_mem [of j "pushes (command_log s)"] by (auto simp: sender_own_def outputs_own_def)
  ultimately show ?thesis using parsed_payload_back [OF assms(3)] by (fastforce simp: scanned_def)
qed

theorem journal_read_back_witness:
  "\<exists>s c. sender_run prost_ref (\<lambda>_. 0) (\<lambda>_. 1) example_fork (rsender_new 4 1000 True True (Some example_storage) 2 2 1 :: (unit, nat, nat) sender) = Some s \<and>
    run_collector 100 (\<lambda>_. 1) example_ident (example_events (command_log s) @ [CE_Closed]) collector_new = Inr c \<and>
    (\<exists>r. read_at prost_ref example_codec example_zstd (\<lambda>_. 0) (example_files (stored_chunks (cl_sent c))) (example_metas (stored_chunks (cl_sent c))) 6 =
      Some (Inr r) \<and> sr_commitment r = Confirmed \<and> sr_message r = Some example_message)"
proof -
  obtain s where s: "sender_run prost_ref (\<lambda>_. 0) (\<lambda>_. 1) example_fork (rsender_new 4 1000 True True (Some example_storage) 2 2 1 :: (unit, nat, nat) sender) = Some s"
    using example_journal_commands by (auto split: option.splits)
  note ex = example_journal_commands [unfolded s, simplified]
  have e: "CE_Closed \<notin> set (example_events (command_log s))" "length (example_events (command_log s)) < 2 ^ 32"
    using ex by (auto simp: example_events_def)
  have st: "rst_sent example_storage = []" by (simp add: example_storage_def)
  from collector_runs [OF s st example_events_commands e] obtain c where
    c: "run_collector 100 (\<lambda>_. 1) example_ident (example_events (command_log s) @ [CE_Closed]) collector_new = Inr c" .
  let ?ks = "stored_chunks (cl_sent c)"
  note ch = collected_chunks [OF s st example_events_commands e c]
  have len: "length (journal_records ?ks) = 8" using ch(2) ex by (simp add: records_ok_def)
  have "length (snd k) \<le> 8" if "k \<in> set ?ks" for k
  proof -
    from split_list [OF that] len show ?thesis by (auto simp: journal_records_def)
  qed
  then have "\<forall>k \<in> set ?ks. length (serialize_chunk prost_ref example_codec (snd k)) < 2 ^ 63"
    using example_serialized_length by (fastforce intro: le_less_trans)
  moreover have "length ?ks < 2 ^ 64" using contiguous_length [OF ch(1)] len by simp
  ultimately have disk: "list_all2 (on_disk prost_ref example_codec example_zstd (example_files ?ks) 1 None) ?ks (example_metas ?ks)"
    using example_on_disk by blast
  have no: "WC_RestorePayload t m \<notin> set (command_log s)" for t m using ex by (auto simp: list_all_iff)
  have u: "identities_unique example_ident (command_log s)" using ex by (simp add: identities_unique_def list_all_iff)
  have z: "zstd_ok example_zstd" by (simp add: zstd_ok_def example_zstd_def)
  have p: "6 < length (pushes (command_log s))" "pushes (command_log s) ! 6 = (Confirmed, 7, example_message)" using ex by simp_all
  have "codec_reads_back example_codec (=) example_message"
    by (simp add: codec_reads_back_def example_codec_def example_ident_def example_message_def example_entry_def)
  from journal_read_back [OF reference.prost_codec_axioms z this s st example_events_commands e no u c disk p, of "\<lambda>_. 0"] s c
  show ?thesis by auto
qed

text \<open>\<^bold>\<open>C34.\<close> The reader never panics and never hangs. Whatever bytes the segment files hold, whatever
  chunks of a size below \<open>2 ^ 63\<close> the catalog names (a buffer of that size can be requested), and however both change
  between the calls, every call of a reader and of its chunks returns: a record, an error,
  or the end.\<close>

theorem reader_never_panics:
  assumes "prost_codec P" and "\<forall>x \<in> set xs. catalog_allocates (step_catalog x)"
  shows "reader_steps P E Z cap xs (segment_reader_new start, None) \<noteq> None"
  by (rule reader_steps_total [OF assms(1) _ _ assms(2)]) (simp_all add: segment_reader_new_def chunk_loader_new_def loader_wf_def)

theorem reader_never_panics_witness:
  "reader_steps prost_ref example_codec example_zstd (\<lambda>_. 0)
     [NextChunk \<lparr>sf_linked = {0}, sf_contents = (\<lambda>_. [255, 255, 255, 255])\<rparr>
        [\<lparr>cm_segment_id = 0, cm_offset = 0, cm_size = 4, cm_compression = 0, cm_first_index = 0, cm_last_index = 1\<rparr>]]
     (segment_reader_new 0, None) \<noteq> None"
  by (rule reader_never_panics [OF reference.prost_codec_axioms]) (simp add: catalog_allocates_def)

end
