(* ===== verification/Filter_Config.thy ===== *)
theory Filter_Config
  imports Ordered_Map
begin

text \<open>
  Configuration of the filters (\<open>filter/src/config.rs\<close>): the subscription request of the
  protocol, its conversion to a \<open>ConfigFilter\<close> and back, and the limits that an operator sets on
  what a subscriber may ask for. A hash map is the list of its entries in the order in which it
  is iterated, a hash set of keys is a set. The text encodings (base58 of keys and signatures,
  base64) are the record \<open>text_codec\<close>. Of the fields that are not supported only the presence
  matters. Additions of \<open>u64\<close> wrap.
\<close>

type_synonym pubkey = bytes

record ('pe, 'se) text_codec =
  tx_pubkey_decode :: "string \<Rightarrow> 'pe + pubkey"
  tx_pubkey_encode :: "pubkey \<Rightarrow> string"
  tx_signature_decode :: "string \<Rightarrow> 'se + bytes"
  tx_signature_encode :: "bytes \<Rightarrow> string"
  tx_bs58_decode :: "string \<Rightarrow> bytes option"
  tx_base64_decode :: "string \<Rightarrow> bytes option"

definition MAX_FILTERS :: nat where
  "MAX_FILTERS = 4"

definition MAX_DATA_SIZE :: nat where
  "MAX_DATA_SIZE = 128"

definition MAX_DATA_BASE58_SIZE :: nat where
  "MAX_DATA_BASE58_SIZE = 175"

definition MAX_DATA_BASE64_SIZE :: nat where
  "MAX_DATA_BASE64_SIZE = 172"

subsection \<open>Errors\<close>

datatype limits_error =
  LE_FilterNameOverflow usize | LE_FiltersOverflow usize | LE_EmptyNotAllowed | LE_PubkeysOverflow usize
| LE_PubkeyNotAllowed pubkey | LE_TooMuchFilters nat | LE_FilterDataOverflow | LE_DatasizeDuplicated
| LE_DataSliceOutOfOrder | LE_DataSliceOverlap | LE_BlocksNotAllowed string

datatype ('pe, 'se) filter_error =
  FE_Limits limits_error | FE_FieldNotDefined string | FE_FieldNotSupported string | FE_TokenAccountStateInvalid
| FE_InvalidBase58 | FE_InvalidBase64 | FE_Pubkey string 'pe | FE_Signature string 'se | FE_UnknownCommitment i32

subsection \<open>\<open>ConfigFilter\<close>\<close>

record config_slots =
  cs_filter_by_commitment :: "bool option"
  cs_interslot_updates :: "bool option"

datatype lamports_filter = LF_Eq u64 | LF_Ne u64 | LF_Lt u64 | LF_Gt u64

datatype accounts_filter = AF_Memcmp u64 bytes | AF_DataSize u64 | AF_TokenAccountState | AF_Lamports lamports_filter

record config_accounts =
  ca_account :: "pubkey list"
  ca_owner :: "pubkey list"
  ca_filters :: "accounts_filter list"
  ca_nonempty_txn_signature :: "bool option"

record data_slice =
  ds_offset :: u64
  ds_length :: u64

record config_transactions =
  ct_vote :: "bool option"
  ct_failed :: "bool option"
  ct_signature :: "bytes option"
  ct_account_include :: "pubkey list"
  ct_account_exclude :: "pubkey list"
  ct_account_required :: "pubkey list"

record config_blocks =
  cb_account_include :: "pubkey list"
  cb_include_transactions :: "bool option"
  cb_include_accounts :: "bool option"
  cb_include_entries :: "bool option"

record config_block_footer =
  cf_include_certificates :: "bool option"

datatype filter_commitment = FC_Processed | FC_Confirmed | FC_Finalized

record config_filter =
  cg_slots :: "(string \<times> config_slots) list"
  cg_accounts :: "(string \<times> config_accounts) list"
  cg_accounts_data_slice :: "data_slice list"
  cg_transactions :: "(string \<times> config_transactions) list"
  cg_transactions_status :: "(string \<times> config_transactions) list"
  cg_entries :: "string list"
  cg_entries_update_parent :: "string set"
  cg_blocks_meta :: "string list"
  cg_blocks :: "(string \<times> config_blocks) list"
  cg_block_footer :: "(string \<times> config_block_footer) list"
  cg_commitment :: "filter_commitment option"

subsection \<open>The request of the protocol\<close>

datatype pb_lamports = PL_Eq u64 | PL_Ne u64 | PL_Lt u64 | PL_Gt u64

datatype pb_memcmp_data = MD_Bytes bytes | MD_Base58 string | MD_Base64 string

datatype pb_accounts_filter =
  PF_Memcmp u64 "pb_memcmp_data option" | PF_Datasize u64 | PF_TokenAccountState bool | PF_Lamports "pb_lamports option"

record request_slots =
  qs_filter_by_commitment :: "bool option"
  qs_interslot_updates :: "bool option"

record request_accounts =
  qa_account :: "string list"
  qa_owner :: "string list"
  qa_filters :: "pb_accounts_filter option list"
  qa_nonempty_txn_signature :: "bool option"
  qa_cuckoo_accounts_filter :: "unit option"

record request_data_slice =
  qd_offset :: u64
  qd_length :: u64

record request_transactions =
  qt_vote :: "bool option"
  qt_failed :: "bool option"
  qt_signature :: "string option"
  qt_account_include :: "string list"
  qt_account_exclude :: "string list"
  qt_account_required :: "string list"
  qt_cuckoo_account_include :: "unit option"
  qt_token_accounts :: "unit option"

record request_blocks =
  qb_account_include :: "string list"
  qb_include_transactions :: "bool option"
  qb_include_accounts :: "bool option"
  qb_include_entries :: "bool option"
  qb_cuckoo_account_include :: "unit option"

record subscribe_request =
  sq_slots :: "(string \<times> request_slots) list"
  sq_accounts :: "(string \<times> request_accounts) list"
  sq_transactions :: "(string \<times> request_transactions) list"
  sq_transactions_status :: "(string \<times> request_transactions) list"
  sq_blocks :: "(string \<times> request_blocks) list"
  sq_blocks_meta :: "(string \<times> unit) list"
  sq_entry :: "(string \<times> bool option) list"
  sq_block_footer :: "(string \<times> bool option) list"
  sq_commitment :: "i32 option"
  sq_accounts_data_slice :: "request_data_slice list"
  sq_ping :: "i32 option"
  sq_from_slot :: "u64 option"

subsection \<open>From the request\<close>

fun lamports_from :: "pb_lamports \<Rightarrow> lamports_filter" where
  "lamports_from (PL_Eq v) = LF_Eq v"
| "lamports_from (PL_Ne v) = LF_Ne v"
| "lamports_from (PL_Lt v) = LF_Lt v"
| "lamports_from (PL_Gt v) = LF_Gt v"

definition lamports_try_from :: "pb_lamports option \<Rightarrow> ('pe, 'se) filter_error + lamports_filter" where
  "lamports_try_from cmp = map_ok lamports_from (ok_or (FE_FieldNotDefined ''cmp'') cmp)"

definition memcmp_data :: "('pe, 'se) text_codec \<Rightarrow> pb_memcmp_data \<Rightarrow> ('pe, 'se) filter_error + bytes" where
  "memcmp_data T v = (case v of
     MD_Bytes data \<Rightarrow> Inr data
   | MD_Base58 data \<Rightarrow> if length data > MAX_DATA_BASE58_SIZE then Inl (FE_Limits LE_FilterDataOverflow)
       else ok_or FE_InvalidBase58 (tx_bs58_decode T data)
   | MD_Base64 data \<Rightarrow> if length data > MAX_DATA_BASE64_SIZE then Inl (FE_Limits LE_FilterDataOverflow)
       else ok_or FE_InvalidBase64 (tx_base64_decode T data))"

definition accounts_filter_try_from ::
    "('pe, 'se) text_codec \<Rightarrow> pb_accounts_filter option \<Rightarrow> ('pe, 'se) filter_error + accounts_filter" where
  "accounts_filter_try_from T f = and_then (ok_or (FE_FieldNotDefined ''filter'') f) (\<lambda>v. case v of
     PF_Memcmp offset data \<Rightarrow> and_then (ok_or (FE_FieldNotDefined ''data'') data) (\<lambda>d.
       and_then (memcmp_data T d) (\<lambda>b.
         if length b > MAX_DATA_SIZE then Inl (FE_Limits LE_FilterDataOverflow) else Inr (AF_Memcmp offset b)))
   | PF_Datasize n \<Rightarrow> Inr (AF_DataSize n)
   | PF_TokenAccountState b \<Rightarrow> if \<not> b then Inl FE_TokenAccountStateInvalid else Inr AF_TokenAccountState
   | PF_Lamports cmp \<Rightarrow> map_ok AF_Lamports (lamports_try_from cmp))"

definition parse_pubkeys :: "('pe, 'se) text_codec \<Rightarrow> string list \<Rightarrow> ('pe, 'se) filter_error + pubkey list" where
  "parse_pubkeys T keys = collect_ok (\<lambda>k. map_err (FE_Pubkey k) (tx_pubkey_decode T k)) keys"

definition slots_try_from :: "request_slots \<Rightarrow> ('pe, 'se) filter_error + config_slots" where
  "slots_try_from v = Inr \<lparr>cs_filter_by_commitment = qs_filter_by_commitment v, cs_interslot_updates = qs_interslot_updates v\<rparr>"

definition accounts_try_from :: "('pe, 'se) text_codec \<Rightarrow> request_accounts \<Rightarrow> ('pe, 'se) filter_error + config_accounts" where
  "accounts_try_from T v =
     (if qa_cuckoo_accounts_filter v \<noteq> None then Inl (FE_FieldNotSupported ''cuckoo_accounts_filter'')
      else and_then (parse_pubkeys T (qa_account v)) (\<lambda>account.
        and_then (parse_pubkeys T (qa_owner v)) (\<lambda>owner.
        if length (qa_filters v) > MAX_FILTERS then Inl (FE_Limits (LE_TooMuchFilters MAX_FILTERS))
        else map_ok (\<lambda>filters. \<lparr>ca_account = account, ca_owner = owner, ca_filters = filters,
            ca_nonempty_txn_signature = qa_nonempty_txn_signature v\<rparr>)
          (collect_ok (accounts_filter_try_from T) (qa_filters v)))))"

definition data_slice_try_from :: "request_data_slice \<Rightarrow> ('pe, 'se) filter_error + data_slice" where
  "data_slice_try_from v = Inr \<lparr>ds_offset = qd_offset v, ds_length = qd_length v\<rparr>"

definition signature_try_from :: "('pe, 'se) text_codec \<Rightarrow> string option \<Rightarrow> ('pe, 'se) filter_error + bytes option" where
  "signature_try_from T s = (case s of None \<Rightarrow> Inr None
     | Some sig \<Rightarrow> map_ok Some (map_err (FE_Signature sig) (tx_signature_decode T sig)))"

definition transactions_try_from ::
    "('pe, 'se) text_codec \<Rightarrow> request_transactions \<Rightarrow> ('pe, 'se) filter_error + config_transactions" where
  "transactions_try_from T v =
     (if qt_cuckoo_account_include v \<noteq> None then Inl (FE_FieldNotSupported ''cuckoo_account_include'')
      else if qt_token_accounts v \<noteq> None then Inl (FE_FieldNotSupported ''token_accounts'')
      else and_then (signature_try_from T (qt_signature v)) (\<lambda>sig.
        and_then (parse_pubkeys T (qt_account_include v)) (\<lambda>incl.
        and_then (parse_pubkeys T (qt_account_exclude v)) (\<lambda>excl.
        map_ok (\<lambda>required. \<lparr>ct_vote = qt_vote v, ct_failed = qt_failed v, ct_signature = sig, ct_account_include = incl,
            ct_account_exclude = excl, ct_account_required = required\<rparr>)
          (parse_pubkeys T (qt_account_required v))))))"

definition blocks_try_from :: "('pe, 'se) text_codec \<Rightarrow> request_blocks \<Rightarrow> ('pe, 'se) filter_error + config_blocks" where
  "blocks_try_from T v =
     (if qb_cuckoo_account_include v \<noteq> None then Inl (FE_FieldNotSupported ''cuckoo_account_include'')
      else map_ok (\<lambda>incl. \<lparr>cb_account_include = incl, cb_include_transactions = qb_include_transactions v,
          cb_include_accounts = qb_include_accounts v, cb_include_entries = qb_include_entries v\<rparr>)
        (parse_pubkeys T (qb_account_include v)))"

definition block_footer_try_from :: "bool option \<Rightarrow> ('pe, 'se) filter_error + config_block_footer" where
  "block_footer_try_from v = Inr \<lparr>cf_include_certificates = v\<rparr>"

definition commitment_try_from :: "i32 \<Rightarrow> ('pe, 'se) filter_error + filter_commitment" where
  "commitment_try_from v = (if v = 0 then Inr FC_Processed else if v = 1 then Inr FC_Confirmed
     else if v = 2 then Inr FC_Finalized else Inl (FE_UnknownCommitment v))"

definition try_conv_map :: "('t \<Rightarrow> 'e + 'c) \<Rightarrow> (string \<times> 't) list \<Rightarrow> 'e + (string \<times> 'c) list" where
  "try_conv_map f m = collect_ok (\<lambda>(k, v). map_ok (Pair k) (f v)) m"

definition config_try_from :: "('pe, 'se) text_codec \<Rightarrow> subscribe_request \<Rightarrow> ('pe, 'se) filter_error + config_filter" where
  "config_try_from T q =
     and_then (try_conv_map slots_try_from (sq_slots q)) (\<lambda>slots.
     and_then (try_conv_map (accounts_try_from T) (sq_accounts q)) (\<lambda>accounts.
     and_then (collect_ok data_slice_try_from (sq_accounts_data_slice q)) (\<lambda>slices.
     and_then (try_conv_map (transactions_try_from T) (sq_transactions q)) (\<lambda>transactions.
     and_then (try_conv_map (transactions_try_from T) (sq_transactions_status q)) (\<lambda>status.
     and_then (try_conv_map (blocks_try_from T) (sq_blocks q)) (\<lambda>blocks.
     and_then (try_conv_map block_footer_try_from (sq_block_footer q)) (\<lambda>footer.
     map_ok (\<lambda>commitment. \<lparr>cg_slots = slots, cg_accounts = accounts, cg_accounts_data_slice = slices,
         cg_transactions = transactions, cg_transactions_status = status, cg_entries = map fst (sq_entry q),
         cg_entries_update_parent = set (map fst (filter (\<lambda>(name, f). f = Some True) (sq_entry q))),
         cg_blocks_meta = map fst (sq_blocks_meta q), cg_blocks = blocks, cg_block_footer = footer,
         cg_commitment = commitment\<rparr>)
       (case sq_commitment q of None \<Rightarrow> Inr None | Some v \<Rightarrow> map_ok Some (commitment_try_from v)))))))))"

subsection \<open>To the request\<close>

fun lamports_into :: "lamports_filter \<Rightarrow> pb_lamports" where
  "lamports_into (LF_Eq v) = PL_Eq v"
| "lamports_into (LF_Ne v) = PL_Ne v"
| "lamports_into (LF_Lt v) = PL_Lt v"
| "lamports_into (LF_Gt v) = PL_Gt v"

fun accounts_filter_into :: "accounts_filter \<Rightarrow> pb_accounts_filter option" where
  "accounts_filter_into (AF_Memcmp offset data) = Some (PF_Memcmp offset (Some (MD_Bytes data)))"
| "accounts_filter_into (AF_DataSize n) = Some (PF_Datasize n)"
| "accounts_filter_into AF_TokenAccountState = Some (PF_TokenAccountState True)"
| "accounts_filter_into (AF_Lamports v) = Some (PF_Lamports (Some (lamports_into v)))"

definition conv_pubkeys :: "('pe, 'se) text_codec \<Rightarrow> pubkey list \<Rightarrow> string list" where
  "conv_pubkeys T keys = map (tx_pubkey_encode T) keys"

definition slots_into :: "config_slots \<Rightarrow> request_slots" where
  "slots_into v = \<lparr>qs_filter_by_commitment = cs_filter_by_commitment v, qs_interslot_updates = cs_interslot_updates v\<rparr>"

definition accounts_into :: "('pe, 'se) text_codec \<Rightarrow> config_accounts \<Rightarrow> request_accounts" where
  "accounts_into T v = \<lparr>qa_account = conv_pubkeys T (ca_account v), qa_owner = conv_pubkeys T (ca_owner v),
     qa_filters = map accounts_filter_into (ca_filters v), qa_nonempty_txn_signature = ca_nonempty_txn_signature v,
     qa_cuckoo_accounts_filter = None\<rparr>"

definition data_slice_into :: "data_slice \<Rightarrow> request_data_slice" where
  "data_slice_into v = \<lparr>qd_offset = ds_offset v, qd_length = ds_length v\<rparr>"

definition transactions_into :: "('pe, 'se) text_codec \<Rightarrow> config_transactions \<Rightarrow> request_transactions" where
  "transactions_into T v = \<lparr>qt_vote = ct_vote v, qt_failed = ct_failed v,
     qt_signature = map_option (tx_signature_encode T) (ct_signature v),
     qt_account_include = conv_pubkeys T (ct_account_include v), qt_account_exclude = conv_pubkeys T (ct_account_exclude v),
     qt_account_required = conv_pubkeys T (ct_account_required v), qt_cuckoo_account_include = None, qt_token_accounts = None\<rparr>"

definition blocks_into :: "('pe, 'se) text_codec \<Rightarrow> config_blocks \<Rightarrow> request_blocks" where
  "blocks_into T v = \<lparr>qb_account_include = conv_pubkeys T (cb_account_include v), qb_include_transactions = cb_include_transactions v,
     qb_include_accounts = cb_include_accounts v, qb_include_entries = cb_include_entries v, qb_cuckoo_account_include = None\<rparr>"

fun commitment_into :: "filter_commitment \<Rightarrow> i32" where
  "commitment_into FC_Processed = 0"
| "commitment_into FC_Confirmed = 1"
| "commitment_into FC_Finalized = 2"

definition conv_map :: "('c \<Rightarrow> 't) \<Rightarrow> (string \<times> 'c) list \<Rightarrow> (string \<times> 't) list" where
  "conv_map f m = map (\<lambda>(k, v). (k, f v)) m"

definition config_into :: "('pe, 'se) text_codec \<Rightarrow> config_filter \<Rightarrow> subscribe_request" where
  "config_into T c = \<lparr>sq_slots = conv_map slots_into (cg_slots c), sq_accounts = conv_map (accounts_into T) (cg_accounts c),
     sq_transactions = conv_map (transactions_into T) (cg_transactions c),
     sq_transactions_status = conv_map (transactions_into T) (cg_transactions_status c),
     sq_blocks = conv_map (blocks_into T) (cg_blocks c), sq_blocks_meta = map (\<lambda>k. (k, ())) (cg_blocks_meta c),
     sq_entry = map (\<lambda>name. (name, if name \<in> cg_entries_update_parent c then Some True else None)) (cg_entries c),
     sq_block_footer = conv_map cf_include_certificates (cg_block_footer c),
     sq_commitment = map_option commitment_into (cg_commitment c),
     sq_accounts_data_slice = map data_slice_into (cg_accounts_data_slice c), sq_ping = None, sq_from_slot = None\<rparr>"

subsection \<open>Limits\<close>

record limits_accounts =
  la_max :: usize
  la_any :: bool
  la_account_max :: usize
  la_account_reject :: "pubkey set"
  la_owner_max :: usize
  la_owner_reject :: "pubkey set"
  la_data_slice_max :: usize

record limits_transactions =
  lt_max :: usize
  lt_any :: bool
  lt_account_include_max :: usize
  lt_account_include_reject :: "pubkey set"
  lt_account_exclude_max :: usize
  lt_account_required_max :: usize

record limits_blocks =
  lb_max :: usize
  lb_account_include_max :: usize
  lb_account_include_any :: bool
  lb_account_include_reject :: "pubkey set"
  lb_include_transactions :: bool
  lb_include_accounts :: bool
  lb_include_entries :: bool

text \<open>The limits of slots, entries, block metas and block footers only have the field \<open>max\<close>.\<close>

record config_limits =
  lm_name_max :: usize
  lm_slots :: usize
  lm_accounts :: limits_accounts
  lm_transactions :: limits_transactions
  lm_transactions_status :: limits_transactions
  lm_entries :: usize
  lm_blocks_meta :: usize
  lm_blocks :: limits_blocks
  lm_block_footer :: usize

definition usize_max :: usize where
  "usize_max = - 1"

lemma unat_usize_max: "unat usize_max = 2 ^ 64 - 1"
  by (simp add: usize_max_def unsigned_minus_1_eq_mask mask_eq_exp_minus_1)

definition limits_accounts_default :: limits_accounts where
  "limits_accounts_default = \<lparr>la_max = usize_max, la_any = True, la_account_max = usize_max, la_account_reject = {},
     la_owner_max = usize_max, la_owner_reject = {}, la_data_slice_max = usize_max\<rparr>"

definition limits_transactions_default :: limits_transactions where
  "limits_transactions_default = \<lparr>lt_max = usize_max, lt_any = True, lt_account_include_max = usize_max,
     lt_account_include_reject = {}, lt_account_exclude_max = usize_max, lt_account_required_max = usize_max\<rparr>"

definition limits_blocks_default :: limits_blocks where
  "limits_blocks_default = \<lparr>lb_max = usize_max, lb_account_include_max = usize_max, lb_account_include_any = True,
     lb_account_include_reject = {}, lb_include_transactions = True, lb_include_accounts = True, lb_include_entries = True\<rparr>"

definition limits_default :: config_limits where
  "limits_default = \<lparr>lm_name_max = 128, lm_slots = usize_max, lm_accounts = limits_accounts_default,
     lm_transactions = limits_transactions_default, lm_transactions_status = limits_transactions_default, lm_entries = usize_max,
     lm_blocks_meta = usize_max, lm_blocks = limits_blocks_default, lm_block_footer = usize_max\<rparr>"

definition check_name_max :: "nat \<Rightarrow> usize \<Rightarrow> limits_error + unit" where
  "check_name_max len mx = ensure (len \<le> unat mx) (LE_FilterNameOverflow mx)"

definition check_names_max :: "string list \<Rightarrow> usize \<Rightarrow> limits_error + unit" where
  "check_names_max names mx = for_each_ok (\<lambda>key. check_name_max (length key) mx) names"

definition check_max :: "nat \<Rightarrow> usize \<Rightarrow> limits_error + unit" where
  "check_max len mx = ensure (len \<le> unat mx) (LE_FiltersOverflow mx)"

definition check_any :: "bool \<Rightarrow> bool \<Rightarrow> limits_error + unit" where
  "check_any is_empty any = ensure (\<not> is_empty \<or> any) LE_EmptyNotAllowed"

definition check_pubkey_max :: "nat \<Rightarrow> usize \<Rightarrow> limits_error + unit" where
  "check_pubkey_max len mx = ensure (len \<le> unat mx) (LE_PubkeysOverflow mx)"

definition check_pubkey_reject :: "pubkey set \<Rightarrow> pubkey \<Rightarrow> limits_error + unit" where
  "check_pubkey_reject reject pubkey = ensure (pubkey \<notin> reject) (LE_PubkeyNotAllowed pubkey)"

definition check_names_and_max :: "usize \<Rightarrow> usize \<Rightarrow> string list \<Rightarrow> limits_error + unit" where
  "check_names_and_max name_max mx names = and_then (check_names_max names name_max) (\<lambda>_. check_max (length names) mx)"

fun check_account_filters :: "bool \<Rightarrow> accounts_filter list \<Rightarrow> limits_error + unit" where
  "check_account_filters datasize_defined [] = Inr ()"
| "check_account_filters datasize_defined (AF_Memcmp offset data # fs) =
     and_then (ensure (length data \<le> MAX_DATA_SIZE) LE_FilterDataOverflow) (\<lambda>_. check_account_filters datasize_defined fs)"
| "check_account_filters datasize_defined (AF_DataSize n # fs) =
     and_then (ensure (\<not> datasize_defined) LE_DatasizeDuplicated) (\<lambda>_. check_account_filters True fs)"
| "check_account_filters datasize_defined (AF_TokenAccountState # fs) = check_account_filters datasize_defined fs"
| "check_account_filters datasize_defined (AF_Lamports v # fs) = check_account_filters datasize_defined fs"

definition check_accounts_entry :: "limits_accounts \<Rightarrow> config_accounts \<Rightarrow> limits_error + unit" where
  "check_accounts_entry l f =
     and_then (check_any (ca_account f = [] \<and> ca_owner f = []) (la_any l)) (\<lambda>_.
     and_then (check_pubkey_max (length (ca_account f)) (la_account_max l)) (\<lambda>_.
     and_then (check_pubkey_max (length (ca_owner f)) (la_owner_max l)) (\<lambda>_.
     and_then (for_each_ok (check_pubkey_reject (la_account_reject l)) (ca_account f)) (\<lambda>_.
     and_then (for_each_ok (check_pubkey_reject (la_owner_reject l)) (ca_owner f)) (\<lambda>_.
     and_then (ensure (length (ca_filters f) \<le> MAX_FILTERS) (LE_TooMuchFilters MAX_FILTERS)) (\<lambda>_.
       check_account_filters False (ca_filters f)))))))"

text \<open>The slices before and after the one at position \<open>i\<close>; the sums wrap.\<close>

definition check_slice_at :: "data_slice list \<Rightarrow> nat \<Rightarrow> limits_error + unit" where
  "check_slice_at ds i =
     and_then (for_each_ok (\<lambda>b. ensure (ds_offset (ds ! i) \<le> ds_offset b) LE_DataSliceOutOfOrder) (drop (i + 1) ds)) (\<lambda>_.
       for_each_ok (\<lambda>b. ensure (\<not> ds_offset (ds ! i) < ds_offset b + ds_length b) LE_DataSliceOverlap) (take i ds))"

definition check_slices :: "usize \<Rightarrow> data_slice list \<Rightarrow> limits_error + unit" where
  "check_slices mx ds = and_then (check_max (length ds) mx) (\<lambda>_. for_each_ok (check_slice_at ds) [0..<length ds])"

definition check_accounts :: "limits_accounts \<Rightarrow> usize \<Rightarrow> (string \<times> config_accounts) list \<Rightarrow> data_slice list \<Rightarrow> limits_error + unit" where
  "check_accounts l name_max filters ds =
     and_then (check_names_and_max name_max (la_max l) (map fst filters)) (\<lambda>_.
     and_then (for_each_ok (check_accounts_entry l) (map snd filters)) (\<lambda>_. check_slices (la_data_slice_max l) ds))"

definition check_transactions_entry :: "limits_transactions \<Rightarrow> config_transactions \<Rightarrow> limits_error + unit" where
  "check_transactions_entry l f =
     and_then (check_any (ct_vote f = None \<and> ct_failed f = None \<and> ct_account_include f = [] \<and> ct_account_exclude f = [] \<and>
       ct_account_required f = []) (lt_any l)) (\<lambda>_.
     and_then (check_pubkey_max (length (ct_account_include f)) (lt_account_include_max l)) (\<lambda>_.
     and_then (check_pubkey_max (length (ct_account_exclude f)) (lt_account_exclude_max l)) (\<lambda>_.
     and_then (check_pubkey_max (length (ct_account_required f)) (lt_account_required_max l)) (\<lambda>_.
       for_each_ok (check_pubkey_reject (lt_account_include_reject l)) (ct_account_include f)))))"

definition check_transactions :: "limits_transactions \<Rightarrow> usize \<Rightarrow> (string \<times> config_transactions) list \<Rightarrow> limits_error + unit" where
  "check_transactions l name_max filters =
     and_then (check_names_and_max name_max (lt_max l) (map fst filters)) (\<lambda>_. for_each_ok (check_transactions_entry l) (map snd filters))"

definition check_blocks_entry :: "limits_blocks \<Rightarrow> config_blocks \<Rightarrow> limits_error + unit" where
  "check_blocks_entry l f =
     and_then (check_any (cb_account_include f = []) (lb_account_include_any l)) (\<lambda>_.
     and_then (check_pubkey_max (length (cb_account_include f)) (lb_account_include_max l)) (\<lambda>_.
     and_then (ensure (cb_include_transactions f = Some False \<or> lb_include_transactions l) (LE_BlocksNotAllowed ''transactions'')) (\<lambda>_.
     and_then (ensure (cb_include_accounts f \<noteq> Some True \<or> lb_include_accounts l) (LE_BlocksNotAllowed ''accounts'')) (\<lambda>_.
     and_then (ensure (cb_include_entries f \<noteq> Some True \<or> lb_include_accounts l) (LE_BlocksNotAllowed ''entries'')) (\<lambda>_.
       for_each_ok (check_pubkey_reject (lb_account_include_reject l)) (cb_account_include f))))))"

definition check_blocks :: "limits_blocks \<Rightarrow> usize \<Rightarrow> (string \<times> config_blocks) list \<Rightarrow> limits_error + unit" where
  "check_blocks l name_max filters =
     and_then (check_names_and_max name_max (lb_max l) (map fst filters)) (\<lambda>_. for_each_ok (check_blocks_entry l) (map snd filters))"

definition check_filter :: "config_limits \<Rightarrow> config_filter \<Rightarrow> limits_error + unit" where
  "check_filter l c =
     (let n = lm_name_max l in
      and_then (check_names_and_max n (lm_slots l) (map fst (cg_slots c))) (\<lambda>_.
      and_then (check_accounts (lm_accounts l) n (cg_accounts c) (cg_accounts_data_slice c)) (\<lambda>_.
      and_then (check_transactions (lm_transactions l) n (cg_transactions c)) (\<lambda>_.
      and_then (check_transactions (lm_transactions_status l) n (cg_transactions_status c)) (\<lambda>_.
      and_then (check_names_and_max n (lm_entries l) (cg_entries c)) (\<lambda>_.
      and_then (check_names_and_max n (lm_blocks_meta l) (cg_blocks_meta c)) (\<lambda>_.
      and_then (check_blocks (lm_blocks l) n (cg_blocks c)) (\<lambda>_.
        check_names_and_max n (lm_block_footer l) (map fst (cg_block_footer c))))))))))"

subsection \<open>The conversions are inverse\<close>

text \<open>What is assumed of the text encodings: decoding gives back an encoded key or signature.\<close>

definition keys_ok :: "pubkey list \<Rightarrow> bool" where
  "keys_ok ks \<longleftrightarrow> (\<forall>k \<in> set ks. length k = 32)"

fun accounts_filter_ok :: "accounts_filter \<Rightarrow> bool" where
  "accounts_filter_ok (AF_Memcmp offset data) \<longleftrightarrow> length data \<le> MAX_DATA_SIZE"
| "accounts_filter_ok _ \<longleftrightarrow> True"

definition accounts_ok :: "config_accounts \<Rightarrow> bool" where
  "accounts_ok c \<longleftrightarrow> keys_ok (ca_account c) \<and> keys_ok (ca_owner c) \<and> length (ca_filters c) \<le> MAX_FILTERS \<and>
     (\<forall>f \<in> set (ca_filters c). accounts_filter_ok f)"

definition transactions_ok :: "config_transactions \<Rightarrow> bool" where
  "transactions_ok c \<longleftrightarrow> keys_ok (ct_account_include c) \<and> keys_ok (ct_account_exclude c) \<and> keys_ok (ct_account_required c) \<and>
     (\<forall>s. ct_signature c = Some s \<longrightarrow> length s = 64)"

definition config_ok :: "config_filter \<Rightarrow> bool" where
  "config_ok c \<longleftrightarrow> (\<forall>a \<in> set (cg_accounts c). accounts_ok (snd a)) \<and> (\<forall>t \<in> set (cg_transactions c). transactions_ok (snd t)) \<and>
     (\<forall>t \<in> set (cg_transactions_status c). transactions_ok (snd t)) \<and> (\<forall>b \<in> set (cg_blocks c). keys_ok (cb_account_include (snd b))) \<and>
     cg_entries_update_parent c \<subseteq> set (cg_entries c)"

locale text_encoding =
  fixes T :: "('pe, 'se) text_codec"
  assumes pubkey_back: "length k = 32 \<Longrightarrow> tx_pubkey_decode T (tx_pubkey_encode T k) = Inr k"
    and signature_back: "length s = 64 \<Longrightarrow> tx_signature_decode T (tx_signature_encode T s) = Inr s"
begin

lemma pubkeys_back: "keys_ok ks \<Longrightarrow> parse_pubkeys T (conv_pubkeys T ks) = Inr ks"
  unfolding parse_pubkeys_def conv_pubkeys_def keys_ok_def
  by (subst collect_ok_map [where h = "\<lambda>x. x"]) (auto simp: pubkey_back)

lemma accounts_filter_back:
  assumes "accounts_filter_ok f"
  shows "accounts_filter_try_from T (accounts_filter_into f) = Inr f"
proof (cases f)
  case (AF_Lamports v)
  then show ?thesis by (cases v) (simp_all add: accounts_filter_try_from_def lamports_try_from_def)
qed (use assms in \<open>simp_all add: accounts_filter_try_from_def memcmp_data_def\<close>)

lemma accounts_back:
  assumes "accounts_ok c"
  shows "accounts_try_from T (accounts_into T c) = Inr c"
proof -
  have "collect_ok (accounts_filter_try_from T) (map accounts_filter_into (ca_filters c)) = Inr (map (\<lambda>f. f) (ca_filters c))"
    by (rule collect_ok_map) (use assms in \<open>simp add: accounts_ok_def accounts_filter_back\<close>)
  with assms show ?thesis by (simp add: accounts_try_from_def accounts_into_def accounts_ok_def pubkeys_back)
qed

lemma transactions_back: "transactions_ok c \<Longrightarrow> transactions_try_from T (transactions_into T c) = Inr c"
  by (cases "ct_signature c")
    (simp_all add: transactions_try_from_def transactions_into_def transactions_ok_def pubkeys_back signature_try_from_def signature_back)

lemma blocks_back: "keys_ok (cb_account_include c) \<Longrightarrow> blocks_try_from T (blocks_into T c) = Inr c"
  by (simp add: blocks_try_from_def blocks_into_def pubkeys_back)

end

lemma conv_map_back:
  assumes "\<And>x. x \<in> set m \<Longrightarrow> f (g (snd x)) = Inr (snd x)"
  shows "try_conv_map f (conv_map g m) = Inr m"
proof -
  have "try_conv_map f (conv_map g m) = Inr (map (\<lambda>x. x) m)"
    unfolding try_conv_map_def conv_map_def by (rule collect_ok_map) (use assms in \<open>simp add: case_prod_unfold\<close>)
  then show ?thesis by simp
qed

lemma plain_back:
  "slots_try_from (slots_into s) = Inr s" "data_slice_try_from (data_slice_into d) = Inr d"
  "block_footer_try_from (cf_include_certificates b) = Inr b" "commitment_try_from (commitment_into c) = Inr c"
  by (simp_all add: slots_try_from_def slots_into_def data_slice_try_from_def data_slice_into_def block_footer_try_from_def)
    (cases c; simp add: commitment_try_from_def)

text \<open>An encoding that satisfies the contract: one character per byte.\<close>

definition plain_char :: "8 word \<Rightarrow> char" where
  "plain_char b = char_of (unat b)"

definition plain_byte :: "char \<Rightarrow> 8 word" where
  "plain_byte c = of_nat (of_char c)"

lemma plain_byte_char: "plain_byte (plain_char b) = b"
proof -
  have "unat b < 256" using unsigned_less [of b] by simp
  then show ?thesis by (simp add: plain_byte_def plain_char_def of_char_of)
qed

definition plain_text :: "(unit, unit) text_codec" where
  "plain_text = \<lparr>tx_pubkey_decode = (\<lambda>s. if length s = 32 then Inr (map plain_byte s) else Inl ()), tx_pubkey_encode = map plain_char,
     tx_signature_decode = (\<lambda>s. if length s = 64 then Inr (map plain_byte s) else Inl ()), tx_signature_encode = map plain_char,
     tx_bs58_decode = (\<lambda>_. None), tx_base64_decode = (\<lambda>_. None)\<rparr>"

interpretation plain: text_encoding plain_text
  by unfold_locales (simp_all add: plain_text_def plain_byte_char comp_def)

subsection \<open>What accepted slices satisfy\<close>

lemma check_slicesD:
  assumes "check_slices mx ds = Inr u" "i < j" "j < length ds"
  shows "ds_offset (ds ! i) \<le> ds_offset (ds ! j)" "ds_offset (ds ! i) + ds_length (ds ! i) \<le> ds_offset (ds ! j)"
proof -
  have *: "check_slice_at ds n = Inr ()" if "n < length ds" for n
    using assms(1) that by (auto simp: check_slices_def and_then_Inr_iff for_each_ok_iff)
  have "ds ! j \<in> set (drop (i + 1) ds)" using assms(2,3) by (auto simp: in_set_conv_nth intro!: exI [of _ "j - (i + 1)"])
  with * [of i] assms(2,3) show "ds_offset (ds ! i) \<le> ds_offset (ds ! j)"
    by (auto simp: check_slice_at_def and_then_Inr_iff for_each_ok_iff)
  have "ds ! i \<in> set (take j ds)" using assms(2,3) by (auto simp: in_set_conv_nth)
  with * [of j] assms(3) show "ds_offset (ds ! i) + ds_length (ds ! i) \<le> ds_offset (ds ! j)"
    by (auto simp: check_slice_at_def and_then_Inr_iff for_each_ok_iff not_less)
qed

lemma check_account_filtersD:
  "check_account_filters b fs = Inr u \<Longrightarrow> (\<forall>f \<in> set fs. accounts_filter_ok f) \<and>
     length (filter (\<lambda>f. \<exists>n. f = AF_DataSize n) fs) + (if b then 1 else 0) \<le> 1"
  by (induction b fs rule: check_account_filters.induct) (auto simp: and_then_Inr_iff split: if_splits)

lemma check_filterD:
  assumes "check_filter l c = Inr u"
  shows "check_slices (la_data_slice_max (lm_accounts l)) (cg_accounts_data_slice c) = Inr ()"
    "\<And>x. x \<in> set (cg_accounts c) \<Longrightarrow> length (ca_filters (snd x)) \<le> MAX_FILTERS \<and> check_account_filters False (ca_filters (snd x)) = Inr ()"
  using assms by (auto simp: check_filter_def check_accounts_def check_accounts_entry_def and_then_Inr_iff for_each_ok_iff Let_def)

text \<open>The limit \<open>include_entries\<close> is not applied: a filter may ask for the entries of blocks where accounts
  are allowed and entries are not.\<close>

lemma entries_limit_not_applied:
  "check_filter (limits_default\<lparr>lm_blocks := limits_blocks_default\<lparr>lb_include_entries := False\<rparr>\<rparr>)
     \<lparr>cg_slots = [], cg_accounts = [], cg_accounts_data_slice = [], cg_transactions = [], cg_transactions_status = [], cg_entries = [],
      cg_entries_update_parent = {}, cg_blocks_meta = [], cg_blocks = [(''b'', \<lparr>cb_account_include = [], cb_include_transactions = None,
        cb_include_accounts = None, cb_include_entries = Some True\<rparr>)], cg_block_footer = [], cg_commitment = None\<rparr> = Inr ()"
  by (simp add: check_filter_def check_names_and_max_def check_names_max_def check_name_max_def check_max_def check_accounts_def
      check_slices_def check_transactions_def check_blocks_def check_blocks_entry_def check_any_def check_pubkey_max_def
      limits_default_def limits_blocks_default_def limits_accounts_default_def limits_transactions_default_def unat_usize_max Let_def)

subsection \<open>Properties\<close>

text \<open>\<^bold>\<open>C35.\<close> A filter configuration survives the protocol: turning it into a subscription request and
  parsing that request gives the same configuration, for any encoding of keys and signatures that can be
  decoded. The configuration has to be one that the protocol can carry (\<open>config_ok\<close>): at most four
  filters per account filter, memory comparisons of at most 128 bytes, keys of 32 and signatures of 64
  bytes, and the filters for updates of the parent among the filters for entries.\<close>

theorem config_round_trip:
  assumes "text_encoding T" and "config_ok c"
  shows "config_try_from T (config_into T c) = Inr c"
proof -
  note inverse = text_encoding.accounts_back [OF assms(1)] text_encoding.transactions_back [OF assms(1)]
    text_encoding.blocks_back [OF assms(1)]
  note c = assms(2) [unfolded config_ok_def]
  have m: "try_conv_map slots_try_from (conv_map slots_into (cg_slots c)) = Inr (cg_slots c)"
    "try_conv_map (accounts_try_from T) (conv_map (accounts_into T) (cg_accounts c)) = Inr (cg_accounts c)"
    "try_conv_map (transactions_try_from T) (conv_map (transactions_into T) (cg_transactions c)) = Inr (cg_transactions c)"
    "try_conv_map (transactions_try_from T) (conv_map (transactions_into T) (cg_transactions_status c)) = Inr (cg_transactions_status c)"
    "try_conv_map (blocks_try_from T) (conv_map (blocks_into T) (cg_blocks c)) = Inr (cg_blocks c)"
    "try_conv_map block_footer_try_from (conv_map cf_include_certificates (cg_block_footer c)) = Inr (cg_block_footer c)"
    by (rule conv_map_back; use c in \<open>simp add: inverse plain_back\<close>)+
  have d: "collect_ok data_slice_try_from (map data_slice_into (cg_accounts_data_slice c)) = Inr (cg_accounts_data_slice c)"
    using collect_ok_map [of "cg_accounts_data_slice c" data_slice_try_from data_slice_into "\<lambda>d. d"] by (simp add: plain_back)
  have n: "map fst (map (\<lambda>k. (k, ())) (cg_blocks_meta c)) = cg_blocks_meta c"
    "map fst (map (\<lambda>name. (name, if name \<in> cg_entries_update_parent c then Some True else None)) (cg_entries c)) = cg_entries c"
    by (simp_all add: comp_def)
  have "set (map fst (filter (\<lambda>(name, f). f = Some True) (map (\<lambda>name. (name, if name \<in> cg_entries_update_parent c then Some True else None)) xs))) =
      {n \<in> set xs. n \<in> cg_entries_update_parent c}" for xs
    by (induction xs) auto
  then have e: "set (map fst (filter (\<lambda>(name, f). f = Some True) (map (\<lambda>name. (name, if name \<in> cg_entries_update_parent c then Some True else None))
      (cg_entries c)))) = cg_entries_update_parent c"
    using c by auto
  have "(case map_option commitment_into (cg_commitment c) of None \<Rightarrow> Inr None | Some v \<Rightarrow> map_ok Some (commitment_try_from v)) =
      (Inr (cg_commitment c) :: ('a, 'b) filter_error + filter_commitment option)"
    by (cases "cg_commitment c") (simp_all add: plain_back)
  then show ?thesis by (simp add: config_try_from_def config_into_def m d n e del: map_map set_map)
qed

definition example_config :: config_filter where
  "example_config = \<lparr>cg_slots = [(''s'', \<lparr>cs_filter_by_commitment = Some True, cs_interslot_updates = None\<rparr>)],
     cg_accounts = [(''a'', \<lparr>ca_account = [replicate 32 7], ca_owner = [],
       ca_filters = [AF_Memcmp 1 [2, 3], AF_Lamports (LF_Gt 5)], ca_nonempty_txn_signature = None\<rparr>)],
     cg_accounts_data_slice = [\<lparr>ds_offset = 0, ds_length = 2\<rparr>, \<lparr>ds_offset = 3, ds_length = 1\<rparr>],
     cg_transactions = [(''t'', \<lparr>ct_vote = Some False, ct_failed = None, ct_signature = None, ct_account_include = [replicate 32 9],
       ct_account_exclude = [], ct_account_required = []\<rparr>)], cg_transactions_status = [], cg_entries = [''e''],
     cg_entries_update_parent = {''e''}, cg_blocks_meta = [''m''], cg_blocks = [], cg_block_footer = [], cg_commitment = Some FC_Confirmed\<rparr>"

theorem config_round_trip_witness:
  "config_try_from plain_text (config_into plain_text example_config) = Inr example_config"
  by (rule config_round_trip [OF plain.text_encoding_axioms])
    (simp add: config_ok_def example_config_def accounts_ok_def transactions_ok_def keys_ok_def MAX_FILTERS_def MAX_DATA_SIZE_def)

end
