(* ===== verification/Filter_Match.thy ===== *)
theory Filter_Match
  imports Richat_Channel Richat_Message Filter_Config
begin

text \<open>
  Matching of messages against the filters of a subscriber (\<open>filter/src/filter.rs\<close>): \<open>Filter\<close>
  with the filters of every kind of message, and \<open>get_updates\<close>, which selects the names of the
  filters that a message matches. The check of a token account, which the SPL token crate makes,
  is the argument \<open>vt\<close>. An outer \<open>None\<close> is a panic: a slice out of range, an \<open>ArrayVec\<close> beyond its
  capacity, or an allocation of more than \<open>isize::MAX\<close> bytes. The interning of the names
  (\<open>FilterNames\<close>) shares strings and is left out: a name is its string.
\<close>

subsection \<open>Slices of the data of accounts\<close>

type_synonym data_slices = "(u64 \<times> u64) list"

definition data_slices_new :: "data_slice list \<Rightarrow> data_slices" where
  "data_slices_new ds = map (\<lambda>d. (ds_offset d, ds_offset d + ds_length d)) ds"

fun extend_slices :: "bytes \<Rightarrow> data_slices \<Rightarrow> bytes option" where
  "extend_slices source [] = Some []"
| "extend_slices source ((start, end1) # rs) =
     (if length source \<ge> unat end1
      then Option.bind (slice (unat start) (unat end1) source) (\<lambda>d. map_option (\<lambda>ds. d @ ds) (extend_slices source rs))
      else extend_slices source rs)"

definition slices_capacity :: "data_slices \<Rightarrow> u64" where
  "slices_capacity rs = sum_list (map (\<lambda>(start, end1). end1 - start) rs)"

definition get_slice :: "data_slices \<Rightarrow> bytes \<Rightarrow> bytes option" where
  "get_slice rs source = (case rs of
     [] \<Rightarrow> Some source
   | [(start, end1)] \<Rightarrow> if length source \<ge> unat end1 then slice (unat start) (unat end1) source else Some []
   | _ \<Rightarrow> if 2 ^ 63 \<le> unat (slices_capacity rs) then None else extend_slices source rs)"

subsection \<open>Updates\<close>

datatype 'x filtered_update_type =
  FU_Slot message_slot
| FU_Account message_account data_slices
| FU_Transaction "'x message_transaction"
| FU_TransactionStatus "'x message_transaction"
| FU_Entry message_entry
| FU_BlockMeta message_block_meta
| FU_Block "'x message_block" "nat list" "nat list" bool data_slices
| FU_BlockFooter block_footer_msg_view timestamp nat bool
| FU_EntryUpdateParent entry_update_parent_view timestamp nat

record 'x filtered_update =
  fu_filters :: "string list"
  fu_update :: "'x filtered_update_type"

text \<open>\<open>filters.is_empty().not().then(...)\<close>\<close>

definition some_update :: "string list \<Rightarrow> 'x filtered_update_type \<Rightarrow> 'x filtered_update list" where
  "some_update names u = (if names = [] then [] else [\<lparr>fu_filters = names, fu_update = u\<rparr>])"

text \<open>The \<open>filter_map\<close> over the entries of a map, with a predicate that can panic.\<close>

fun select_names :: "('f \<Rightarrow> bool option) \<Rightarrow> (string \<times> 'f) list \<Rightarrow> string list option" where
  "select_names p [] = Some []"
| "select_names p ((name, f) # fs) = Option.bind (p f) (\<lambda>b. map_option (\<lambda>ns. if b then name # ns else ns) (select_names p fs))"

subsection \<open>Slots\<close>

record filter_slots_inner =
  fs_filter_by_commitment :: bool
  fs_interslot_updates :: bool

definition slots_inner_new :: "config_slots \<Rightarrow> filter_slots_inner" where
  "slots_inner_new c = \<lparr>fs_filter_by_commitment = (cs_filter_by_commitment c = Some True),
     fs_interslot_updates = (cs_interslot_updates c = Some True)\<rparr>"

definition slot_selected :: "geyser_status \<Rightarrow> commitment_level \<Rightarrow> filter_slots_inner \<Rightarrow> bool" where
  "slot_selected status c f \<longleftrightarrow>
     (\<not> fs_filter_by_commitment f \<or> status = SlotProcessed \<and> c = Processed \<or> status = SlotConfirmed \<and> c = Confirmed \<or>
       status = SlotFinalized \<and> c = Finalized) \<and>
     (fs_interslot_updates f \<or> status \<in> {SlotProcessed, SlotConfirmed, SlotFinalized})"

definition slots_get_update :: "(string \<times> filter_slots_inner) list \<Rightarrow> message_slot \<Rightarrow> commitment_level \<Rightarrow> 'x filtered_update list option" where
  "slots_get_update fs m c = map_option (\<lambda>names. some_update names (FU_Slot m)) (select_names (\<lambda>f. Some (slot_selected (ms_status m) c f)) fs)"

subsection \<open>Accounts\<close>

datatype filter_lamports = FL_Eq u64 | FL_Ne u64 | FL_Lt u64 | FL_Gt u64

fun filter_lamports_from :: "lamports_filter \<Rightarrow> filter_lamports" where
  "filter_lamports_from (LF_Eq v) = FL_Eq v"
| "filter_lamports_from (LF_Ne v) = FL_Ne v"
| "filter_lamports_from (LF_Lt v) = FL_Lt v"
| "filter_lamports_from (LF_Gt v) = FL_Gt v"

fun lamports_is_match :: "u64 \<Rightarrow> filter_lamports \<Rightarrow> bool" where
  "lamports_is_match lamports (FL_Eq v) \<longleftrightarrow> v = lamports"
| "lamports_is_match lamports (FL_Ne v) \<longleftrightarrow> v \<noteq> lamports"
| "lamports_is_match lamports (FL_Lt v) \<longleftrightarrow> v > lamports"
| "lamports_is_match lamports (FL_Gt v) \<longleftrightarrow> v < lamports"

record accounts_state =
  as_memcmp :: "(u64 \<times> bytes) list"
  as_datasize :: "u64 option"
  as_token_account_state :: bool
  as_lamports :: "filter_lamports list"

definition accounts_state_default :: accounts_state where
  "accounts_state_default = \<lparr>as_memcmp = [], as_datasize = None, as_token_account_state = False, as_lamports = []\<rparr>"

fun accounts_state_add :: "accounts_filter \<Rightarrow> accounts_state \<Rightarrow> accounts_state option" where
  "accounts_state_add (AF_Memcmp offset data) st =
     (if length data \<le> MAX_DATA_SIZE \<and> length (as_memcmp st) < MAX_FILTERS
      then Some (st\<lparr>as_memcmp := as_memcmp st @ [(offset, data)]\<rparr>) else None)"
| "accounts_state_add (AF_DataSize n) st = Some (st\<lparr>as_datasize := Some n\<rparr>)"
| "accounts_state_add AF_TokenAccountState st = Some (st\<lparr>as_token_account_state := True\<rparr>)"
| "accounts_state_add (AF_Lamports v) st =
     (if length (as_lamports st) < MAX_FILTERS then Some (st\<lparr>as_lamports := as_lamports st @ [filter_lamports_from v]\<rparr>) else None)"

fun accounts_state_extend :: "accounts_filter list \<Rightarrow> accounts_state \<Rightarrow> accounts_state option" where
  "accounts_state_extend [] st = Some st"
| "accounts_state_extend (f # fs) st = Option.bind (accounts_state_add f st) (accounts_state_extend fs)"

definition accounts_state_new :: "accounts_filter list \<Rightarrow> accounts_state option" where
  "accounts_state_new fs = accounts_state_extend fs accounts_state_default"

fun memcmp_is_match :: "bytes \<Rightarrow> (u64 \<times> bytes) list \<Rightarrow> bool option" where
  "memcmp_is_match data [] = Some True"
| "memcmp_is_match data ((offset, b) # ms) =
     (let end1 = offset + of_nat (length b) in
      if length data < unat end1 then Some False
      else Option.bind (slice (unat offset) (unat end1) data) (\<lambda>d. if d \<noteq> b then Some False else memcmp_is_match data ms))"

definition accounts_state_is_match :: "(bytes \<Rightarrow> bool) \<Rightarrow> u64 \<Rightarrow> bytes \<Rightarrow> accounts_state \<Rightarrow> bool option" where
  "accounts_state_is_match vt lamports data st =
     (if (case as_datasize st of Some n \<Rightarrow> length data \<noteq> unat n | None \<Rightarrow> False) then Some False
      else if as_token_account_state st \<and> \<not> vt data then Some False
      else if list_ex (\<lambda>f. \<not> lamports_is_match lamports f) (as_lamports st) then Some False
      else memcmp_is_match data (as_memcmp st))"

record filter_accounts_inner =
  fa_account :: "pubkey set"
  fa_owner :: "pubkey set"
  fa_filters :: "accounts_state option"
  fa_nonempty_txn_signature :: "bool option"

definition accounts_inner_new :: "config_accounts \<Rightarrow> filter_accounts_inner option" where
  "accounts_inner_new c = map_option (\<lambda>st. \<lparr>fa_account = set (ca_account c), fa_owner = set (ca_owner c), fa_filters = st,
       fa_nonempty_txn_signature = ca_nonempty_txn_signature c\<rparr>)
     (if ca_filters c = [] then Some None else map_option Some (accounts_state_new (ca_filters c)))"

definition account_selected :: "(bytes \<Rightarrow> bool) \<Rightarrow> message_account \<Rightarrow> bytes \<Rightarrow> filter_accounts_inner \<Rightarrow> bool option" where
  "account_selected vt m data f =
     (if fa_account f \<noteq> {} \<and> ma_pubkey m \<notin> fa_account f then Some False
      else if fa_owner f \<noteq> {} \<and> ma_owner m \<notin> fa_owner f then Some False
      else Option.bind (case fa_filters f of None \<Rightarrow> Some True | Some st \<Rightarrow> accounts_state_is_match vt (ma_lamports m) data st)
        (\<lambda>b. Some (b \<and> (case fa_nonempty_txn_signature f of None \<Rightarrow> True | Some s \<Rightarrow> s = (ma_txn_signature_offset m \<noteq> None)))))"

definition accounts_get_update :: "(bytes \<Rightarrow> bool) \<Rightarrow> (string \<times> filter_accounts_inner) list \<Rightarrow> data_slices \<Rightarrow> message_account \<Rightarrow>
    'x filtered_update list option" where
  "accounts_get_update vt fs slices m = Option.bind (message_account_data m) (\<lambda>data.
     map_option (\<lambda>names. some_update names (FU_Account m slices)) (select_names (account_selected vt m data) fs))"

subsection \<open>Transactions\<close>

datatype filter_transactions_type = FT_Transaction | FT_TransactionStatus

record filter_transactions_inner =
  ft_vote :: "bool option"
  ft_failed :: "bool option"
  ft_signature :: "bytes option"
  ft_account_include :: "pubkey set"
  ft_account_exclude :: "pubkey set"
  ft_account_required :: "pubkey set"

definition transactions_inner_new :: "config_transactions \<Rightarrow> filter_transactions_inner" where
  "transactions_inner_new c = \<lparr>ft_vote = ct_vote c, ft_failed = ct_failed c, ft_signature = ct_signature c,
     ft_account_include = set (ct_account_include c), ft_account_exclude = set (ct_account_exclude c),
     ft_account_required = set (ct_account_required c)\<rparr>"

definition transaction_selected :: "'x message_transaction \<Rightarrow> bytes \<Rightarrow> filter_transactions_inner \<Rightarrow> bool" where
  "transaction_selected m sig f \<longleftrightarrow>
     (case ft_vote f of None \<Rightarrow> True | Some v \<Rightarrow> v = mt_is_vote m) \<and>
     (case ft_failed f of None \<Rightarrow> True | Some v \<Rightarrow> v = (mt_error m \<noteq> None)) \<and>
     (case ft_signature f of None \<Rightarrow> True | Some s \<Rightarrow> s = sig) \<and>
     \<not> (ft_account_include f \<noteq> {} \<and> ft_account_include f \<inter> mt_account_keys m = {}) \<and>
     \<not> (ft_account_exclude f \<noteq> {} \<and> ft_account_exclude f \<inter> mt_account_keys m \<noteq> {}) \<and>
     \<not> (ft_account_required f \<noteq> {} \<and> \<not> ft_account_required f \<subseteq> mt_account_keys m)"

record filter_transactions =
  ft_type :: filter_transactions_type
  ft_filters :: "(string \<times> filter_transactions_inner) list"

definition transactions_new :: "(string \<times> config_transactions) list \<Rightarrow> filter_transactions_type \<Rightarrow> filter_transactions" where
  "transactions_new cs ty = \<lparr>ft_type = ty, ft_filters = map (\<lambda>(name, c). (name, transactions_inner_new c)) cs\<rparr>"

definition transactions_get_update :: "filter_transactions \<Rightarrow> 'x message_transaction \<Rightarrow> 'x filtered_update list option" where
  "transactions_get_update fs m = Option.bind (message_transaction_signature m) (\<lambda>sig.
     map_option (\<lambda>names. some_update names (case ft_type fs of FT_Transaction \<Rightarrow> FU_Transaction m | FT_TransactionStatus \<Rightarrow> FU_TransactionStatus m))
       (select_names (\<lambda>f. Some (transaction_selected m sig f)) (ft_filters fs)))"

subsection \<open>Entries, blocks, block metas and block footers\<close>

record filter_entries =
  fe_filters :: "string list"
  fe_filters_update_parent :: "string list"

definition entries_new :: "string list \<Rightarrow> string set \<Rightarrow> filter_entries" where
  "entries_new names parents = \<lparr>fe_filters = names, fe_filters_update_parent = filter (\<lambda>name. name \<in> parents) names\<rparr>"

definition entries_get_update_parent :: "filter_entries \<Rightarrow> entry_update_parent_view \<Rightarrow> timestamp \<Rightarrow> nat \<Rightarrow> 'x filtered_update list" where
  "entries_get_update_parent fs u ts n = some_update (fe_filters_update_parent fs) (FU_EntryUpdateParent u ts n)"

definition entries_get_update :: "filter_entries \<Rightarrow> message_entry \<Rightarrow> 'x filtered_update list" where
  "entries_get_update fs m = some_update (fe_filters fs) (FU_Entry m)"

definition blocks_meta_get_update :: "string list \<Rightarrow> message_block_meta \<Rightarrow> 'x filtered_update list" where
  "blocks_meta_get_update fs m = some_update fs (FU_BlockMeta m)"

record filter_blocks_inner =
  fb_account_include :: "pubkey set"
  fb_include_transactions :: "bool option"
  fb_include_accounts :: "bool option"
  fb_include_entries :: "bool option"

definition blocks_inner_new :: "config_blocks \<Rightarrow> filter_blocks_inner" where
  "blocks_inner_new c = \<lparr>fb_account_include = set (cb_account_include c), fb_include_transactions = cb_include_transactions c,
     fb_include_accounts = cb_include_accounts c, fb_include_entries = cb_include_entries c\<rparr>"

text \<open>\<open>enumerate().filter_map(...)\<close>\<close>

definition positions :: "('a \<Rightarrow> bool) \<Rightarrow> 'a list \<Rightarrow> nat list" where
  "positions p xs = filter (\<lambda>i. p (xs ! i)) [0..<length xs]"

definition block_accounts :: "filter_blocks_inner \<Rightarrow> 'x message_block \<Rightarrow> nat list" where
  "block_accounts f m = (if fb_include_accounts f = Some True
     then positions (\<lambda>a. \<not> (fb_account_include f \<noteq> {} \<and> ma_pubkey a \<notin> fb_account_include f)) (blk_accounts m) else [])"

definition block_transactions :: "filter_blocks_inner \<Rightarrow> 'x message_block \<Rightarrow> nat list" where
  "block_transactions f m = (if fb_include_transactions f \<noteq> Some False
     then positions (\<lambda>t. \<not> (fb_account_include f \<noteq> {} \<and> fb_account_include f \<inter> mt_account_keys t = {})) (blk_transactions m) else [])"

definition blocks_get_updates :: "(string \<times> filter_blocks_inner) list \<Rightarrow> data_slices \<Rightarrow> 'x message_block \<Rightarrow> 'x filtered_update list" where
  "blocks_get_updates fs slices m = map (\<lambda>(name, f). \<lparr>fu_filters = [name],
     fu_update = FU_Block m (block_accounts f m) (block_transactions f m) (fb_include_entries f = Some True) slices\<rparr>) fs"

definition block_footer_new :: "(string \<times> config_block_footer) list \<Rightarrow> (string \<times> bool) list" where
  "block_footer_new cs = map (\<lambda>(name, c). (name, cf_include_certificates c = Some True)) cs"

definition block_footer_get_updates :: "(string \<times> bool) list \<Rightarrow> block_footer_msg_view \<Rightarrow> timestamp \<Rightarrow> nat \<Rightarrow> 'x filtered_update list" where
  "block_footer_get_updates fs m ts n = concat (map (\<lambda>certificates.
     some_update (map fst (filter (\<lambda>(name, v). v = certificates) fs)) (FU_BlockFooter m ts n certificates)) [False, True])"

subsection \<open>\<open>Filter\<close>\<close>

record update_filter =
  uf_slots :: "(string \<times> filter_slots_inner) list"
  uf_accounts :: "(string \<times> filter_accounts_inner) list"
  uf_data_slices :: data_slices
  uf_transactions :: filter_transactions
  uf_transactions_status :: filter_transactions
  uf_entries :: filter_entries
  uf_blocks_meta :: "string list"
  uf_blocks :: "(string \<times> filter_blocks_inner) list"
  uf_block_footer :: "(string \<times> bool) list"
  uf_commitment :: filter_commitment

fun accounts_new :: "(string \<times> config_accounts) list \<Rightarrow> (string \<times> filter_accounts_inner) list option" where
  "accounts_new [] = Some []"
| "accounts_new ((name, c) # cs) = Option.bind (accounts_inner_new c) (\<lambda>f. map_option (Cons (name, f)) (accounts_new cs))"

definition filter_new :: "config_filter \<Rightarrow> update_filter option" where
  "filter_new c = map_option (\<lambda>accounts.
     \<lparr>uf_slots = map (\<lambda>(name, s). (name, slots_inner_new s)) (cg_slots c), uf_accounts = accounts,
      uf_data_slices = data_slices_new (cg_accounts_data_slice c),
      uf_transactions = transactions_new (cg_transactions c) FT_Transaction,
      uf_transactions_status = transactions_new (cg_transactions_status c) FT_TransactionStatus,
      uf_entries = entries_new (cg_entries c) (cg_entries_update_parent c), uf_blocks_meta = cg_blocks_meta c,
      uf_blocks = map (\<lambda>(name, b). (name, blocks_inner_new b)) (cg_blocks c), uf_block_footer = block_footer_new (cg_block_footer c),
      uf_commitment = (case cg_commitment c of None \<Rightarrow> FC_Processed | Some x \<Rightarrow> x)\<rparr>) (accounts_new (cg_accounts c))"

definition filter_default :: update_filter where
  "filter_default = \<lparr>uf_slots = [], uf_accounts = [], uf_data_slices = [], uf_transactions = \<lparr>ft_type = FT_Transaction, ft_filters = []\<rparr>,
     uf_transactions_status = \<lparr>ft_type = FT_TransactionStatus, ft_filters = []\<rparr>,
     uf_entries = \<lparr>fe_filters = [], fe_filters_update_parent = []\<rparr>, uf_blocks_meta = [], uf_blocks = [], uf_block_footer = [],
     uf_commitment = FC_Processed\<rparr>"

definition contains_blocks :: "update_filter \<Rightarrow> bool" where
  "contains_blocks f \<longleftrightarrow> uf_blocks f \<noteq> []"

fun get_updates_ref :: "(bytes \<Rightarrow> bool) \<Rightarrow> update_filter \<Rightarrow> 'x parsed_message \<Rightarrow> commitment_level \<Rightarrow> 'x filtered_update list option" where
  "get_updates_ref vt f (RP_Slot m) c = slots_get_update (uf_slots f) m c"
| "get_updates_ref vt f (RP_Account m) c = accounts_get_update vt (uf_accounts f) (uf_data_slices f) m"
| "get_updates_ref vt f (RP_Transaction m) c = Option.bind (transactions_get_update (uf_transactions f) m)
     (\<lambda>us. map_option (\<lambda>us'. us @ us') (transactions_get_update (uf_transactions_status f) m))"
| "get_updates_ref vt f (RP_Entry m) c = Some (entries_get_update (uf_entries f) m)"
| "get_updates_ref vt f (RP_BlockMeta m) c = Some (blocks_meta_get_update (uf_blocks_meta f) m)"
| "get_updates_ref vt f (RP_Block m) c = Some (blocks_get_updates (uf_blocks f) (uf_data_slices f) m)"
| "get_updates_ref vt f (RP_BlockFooter m ts n) c = Some (block_footer_get_updates (uf_block_footer f) m ts n)"
| "get_updates_ref vt f (RP_EntryUpdateParent m ts n) c = Some (entries_get_update_parent (uf_entries f) m ts n)"

text \<open>\<open>FilteredUpdateType::from\<close>: the update that carries the whole message.\<close>

fun whole_update :: "'x parsed_message \<Rightarrow> 'x filtered_update_type" where
  "whole_update (RP_Slot m) = FU_Slot m"
| "whole_update (RP_Account m) = FU_Account m []"
| "whole_update (RP_Transaction m) = FU_Transaction m"
| "whole_update (RP_Entry m) = FU_Entry m"
| "whole_update (RP_BlockMeta m) = FU_BlockMeta m"
| "whole_update (RP_Block m) = FU_Block m [0..<length (blk_accounts m)] [0..<length (blk_transactions m)] True []"
| "whole_update (RP_BlockFooter m ts n) = FU_BlockFooter m ts n True"
| "whole_update (RP_EntryUpdateParent m ts n) = FU_EntryUpdateParent m ts n"

subsection \<open>What a subscriber asks for\<close>

text \<open>The meaning of a configuration, without the data structures and the order of the checks: a filter
  wants a message when every condition that it states holds.\<close>

fun lamports_wanted :: "lamports_filter \<Rightarrow> u64 \<Rightarrow> bool" where
  "lamports_wanted (LF_Eq v) l \<longleftrightarrow> l = v"
| "lamports_wanted (LF_Ne v) l \<longleftrightarrow> l \<noteq> v"
| "lamports_wanted (LF_Lt v) l \<longleftrightarrow> l < v"
| "lamports_wanted (LF_Gt v) l \<longleftrightarrow> l > v"

fun account_filter_wanted :: "(bytes \<Rightarrow> bool) \<Rightarrow> u64 \<Rightarrow> bytes \<Rightarrow> accounts_filter \<Rightarrow> bool" where
  "account_filter_wanted vt lamports data (AF_Memcmp offset b) \<longleftrightarrow>
     (\<exists>pre post. data = pre @ b @ post \<and> length pre = unat offset)"
| "account_filter_wanted vt lamports data (AF_DataSize n) \<longleftrightarrow> length data = unat n"
| "account_filter_wanted vt lamports data AF_TokenAccountState \<longleftrightarrow> vt data"
| "account_filter_wanted vt lamports data (AF_Lamports v) \<longleftrightarrow> lamports_wanted v lamports"

definition slot_wanted :: "geyser_status \<Rightarrow> commitment_level \<Rightarrow> config_slots \<Rightarrow> bool" where
  "slot_wanted status c f \<longleftrightarrow>
     (cs_filter_by_commitment f = Some True \<longrightarrow> (status, c) \<in> {(SlotProcessed, Processed), (SlotConfirmed, Confirmed), (SlotFinalized, Finalized)}) \<and>
     (cs_interslot_updates f \<noteq> Some True \<longrightarrow> status \<in> {SlotProcessed, SlotConfirmed, SlotFinalized})"

definition account_wanted :: "(bytes \<Rightarrow> bool) \<Rightarrow> message_account \<Rightarrow> bytes \<Rightarrow> config_accounts \<Rightarrow> bool" where
  "account_wanted vt m data c \<longleftrightarrow>
     (ca_account c \<noteq> [] \<longrightarrow> ma_pubkey m \<in> set (ca_account c)) \<and> (ca_owner c \<noteq> [] \<longrightarrow> ma_owner m \<in> set (ca_owner c)) \<and>
     (\<forall>f \<in> set (ca_filters c). account_filter_wanted vt (ma_lamports m) data f) \<and>
     (\<forall>s. ca_nonempty_txn_signature c = Some s \<longrightarrow> s = (ma_txn_signature_offset m \<noteq> None))"

definition transaction_wanted :: "'x message_transaction \<Rightarrow> bytes \<Rightarrow> config_transactions \<Rightarrow> bool" where
  "transaction_wanted m sig c \<longleftrightarrow>
     (\<forall>v. ct_vote c = Some v \<longrightarrow> v = mt_is_vote m) \<and> (\<forall>v. ct_failed c = Some v \<longrightarrow> v = (mt_error m \<noteq> None)) \<and>
     (\<forall>s. ct_signature c = Some s \<longrightarrow> s = sig) \<and>
     (ct_account_include c \<noteq> [] \<longrightarrow> (\<exists>k \<in> set (ct_account_include c). k \<in> mt_account_keys m)) \<and>
     (\<forall>k \<in> set (ct_account_exclude c). k \<notin> mt_account_keys m) \<and> (\<forall>k \<in> set (ct_account_required c). k \<in> mt_account_keys m)"

definition key_wanted :: "config_blocks \<Rightarrow> pubkey set \<Rightarrow> bool" where
  "key_wanted c ks \<longleftrightarrow> (cb_account_include c \<noteq> [] \<longrightarrow> (\<exists>k \<in> set (cb_account_include c). k \<in> ks))"

text \<open>\<open>wanted vt c com m name u\<close>: under the configuration \<open>c\<close> the filter \<open>name\<close> is to receive the update \<open>u\<close> for the
  message \<open>m\<close>.\<close>

fun wanted :: "(bytes \<Rightarrow> bool) \<Rightarrow> config_filter \<Rightarrow> commitment_level \<Rightarrow> 'x parsed_message \<Rightarrow> string \<Rightarrow> 'x filtered_update_type \<Rightarrow> bool" where
  "wanted vt c com (RP_Slot m) name u \<longleftrightarrow> u = FU_Slot m \<and> (\<exists>f. (name, f) \<in> set (cg_slots c) \<and> slot_wanted (ms_status m) com f)"
| "wanted vt c com (RP_Account m) name u \<longleftrightarrow> u = FU_Account m (data_slices_new (cg_accounts_data_slice c)) \<and>
     (\<exists>f data. (name, f) \<in> set (cg_accounts c) \<and> message_account_data m = Some data \<and> account_wanted vt m data f)"
| "wanted vt c com (RP_Transaction m) name u \<longleftrightarrow> (\<exists>f sig. message_transaction_signature m = Some sig \<and> transaction_wanted m sig f \<and>
     (u = FU_Transaction m \<and> (name, f) \<in> set (cg_transactions c) \<or> u = FU_TransactionStatus m \<and> (name, f) \<in> set (cg_transactions_status c)))"
| "wanted vt c com (RP_Entry m) name u \<longleftrightarrow> u = FU_Entry m \<and> name \<in> set (cg_entries c)"
| "wanted vt c com (RP_BlockMeta m) name u \<longleftrightarrow> u = FU_BlockMeta m \<and> name \<in> set (cg_blocks_meta c)"
| "wanted vt c com (RP_Block m) name u \<longleftrightarrow> (\<exists>f. (name, f) \<in> set (cg_blocks c) \<and> (\<exists>accounts transactions.
     u = FU_Block m accounts transactions (cb_include_entries f = Some True) (data_slices_new (cg_accounts_data_slice c)) \<and>
     sorted accounts \<and> distinct accounts \<and> sorted transactions \<and> distinct transactions \<and>
     set accounts = {i. i < length (blk_accounts m) \<and> cb_include_accounts f = Some True \<and> key_wanted f {ma_pubkey (blk_accounts m ! i)}} \<and>
     set transactions = {i. i < length (blk_transactions m) \<and> cb_include_transactions f \<noteq> Some False \<and>
       key_wanted f (mt_account_keys (blk_transactions m ! i))}))"
| "wanted vt c com (RP_BlockFooter m ts n) name u \<longleftrightarrow>
     (\<exists>f. (name, f) \<in> set (cg_block_footer c) \<and> u = FU_BlockFooter m ts n (cf_include_certificates f = Some True))"
| "wanted vt c com (RP_EntryUpdateParent m ts n) name u \<longleftrightarrow> u = FU_EntryUpdateParent m ts n \<and>
     name \<in> set (cg_entries c) \<and> name \<in> cg_entries_update_parent c"

text \<open>A memory comparison whose end does not wrap, and a message that the parser can have produced.\<close>

fun memcmp_in_range :: "accounts_filter \<Rightarrow> bool" where
  "memcmp_in_range (AF_Memcmp offset b) \<longleftrightarrow> unat offset + length b < 2 ^ 64"
| "memcmp_in_range _ \<longleftrightarrow> True"

fun message_readable :: "'x parsed_message \<Rightarrow> bool" where
  "message_readable (RP_Account m) \<longleftrightarrow> message_account_data m \<noteq> None"
| "message_readable (RP_Transaction m) \<longleftrightarrow> message_transaction_signature m \<noteq> None"
| "message_readable _ \<longleftrightarrow> True"

subsection \<open>The filters select what is wanted\<close>

lemma select_names_spec:
  assumes "\<And>name f. (name, f) \<in> set fs \<Longrightarrow> p f = Some (q f)"
  shows "select_names p fs = Some (map fst (filter (\<lambda>(name, f). q f) fs))"
  using assms by (induction fs) force+

lemma memcmp_wanted:
  fixes offset :: u64
  assumes "length b < 2 ^ 64" "unat offset + length b < 2 ^ 64"
  shows "(if length data < unat (offset + of_nat (length b)) then Some False
      else Option.bind (slice (unat offset) (unat (offset + of_nat (length b))) data) (\<lambda>d. if d \<noteq> b then Some False else k)) =
    (if \<exists>pre post. data = pre @ b @ post \<and> length pre = unat offset then k else Some False)"
proof -
  have e: "unat (offset + of_nat (length b)) = unat offset + length b"
    using assms by (simp add: unat_word_ariths unat_of_nat_u64)
  show ?thesis
  proof (cases "length data < unat offset + length b")
    case True
    then show ?thesis by (auto simp: e)
  next
    case False
    then have s: "slice (unat offset) (unat offset + length b) data = Some (take (length b) (drop (unat offset) data))"
      by (simp add: slice_def)
    have "(\<exists>pre post. data = pre @ b @ post \<and> length pre = unat offset) \<longleftrightarrow> take (length b) (drop (unat offset) data) = b"
    proof
      assume t: "take (length b) (drop (unat offset) data) = b"
      have "data = take (unat offset) data @ b @ drop (length b) (drop (unat offset) data)"
        by (metis append_take_drop_id t)
      moreover have "length (take (unat offset) data) = unat offset" using False by simp
      ultimately show "\<exists>pre post. data = pre @ b @ post \<and> length pre = unat offset" by blast
    qed auto
    then show ?thesis using False by (simp add: e s)
  qed
qed

lemma memcmp_is_match_spec:
  assumes "\<And>offset b. (offset, b) \<in> set ms \<Longrightarrow> length b < 2 ^ 64 \<and> unat offset + length b < 2 ^ 64"
  shows "memcmp_is_match data ms = Some (\<forall>(offset, b) \<in> set ms. \<exists>pre post. data = pre @ b @ post \<and> length pre = unat offset)"
  using assms
proof (induction ms)
  case (Cons m ms)
  obtain offset b where m: "m = (offset, b)" by fastforce
  have "length b < 2 ^ 64" "unat offset + length b < 2 ^ 64" using Cons.prems m by auto
  note mw = memcmp_wanted [OF this, of data "memcmp_is_match data ms"]
  have ih: "memcmp_is_match data ms = Some (\<forall>(offset, b) \<in> set ms. \<exists>pre post. data = pre @ b @ post \<and> length pre = unat offset)"
    by (rule Cons.IH) (use Cons.prems in auto)
  show ?case using mw ih by (simp add: m Let_def del: not_less)
qed simp

text \<open>What a state holds of the filters that it was made from.\<close>

definition state_of :: "accounts_filter list \<Rightarrow> accounts_state \<Rightarrow> bool" where
  "state_of fs st \<longleftrightarrow> set (as_memcmp st) = {(offset, b). AF_Memcmp offset b \<in> set fs} \<and>
     (\<forall>n. as_datasize st = Some n \<longleftrightarrow> AF_DataSize n \<in> set fs) \<and>
     (as_token_account_state st \<longleftrightarrow> AF_TokenAccountState \<in> set fs) \<and>
     set (as_lamports st) = {filter_lamports_from v |v. AF_Lamports v \<in> set fs} \<and>
     length (as_memcmp st) \<le> length fs \<and> length (as_lamports st) \<le> length fs"

lemma accounts_state_extend_of:
  assumes "state_of done st" "check_account_filters (as_datasize st \<noteq> None) fs = Inr u" "length (done @ fs) \<le> MAX_FILTERS"
  shows "\<exists>st'. accounts_state_extend fs st = Some st' \<and> state_of (done @ fs) st'"
  using assms
proof (induction fs arbitrary: "done" st)
  case (Cons f fs)
  have "\<exists>st1. accounts_state_add f st = Some st1 \<and> state_of (done @ [f]) st1 \<and> check_account_filters (as_datasize st1 \<noteq> None) fs = Inr u"
  proof (cases f)
    case (AF_DataSize n)
    then have "as_datasize st = None" using Cons.prems(2) by (auto simp: and_then_Inr_iff)
    then have "AF_DataSize k \<notin> set done" for k using Cons.prems(1) unfolding state_of_def by (metis option.distinct(1))
    with AF_DataSize Cons.prems show ?thesis by (auto simp: state_of_def and_then_Inr_iff)
  qed (use Cons.prems in \<open>auto simp: state_of_def and_then_Inr_iff\<close>)
  then obtain st1 where 1: "accounts_state_add f st = Some st1" "state_of (done @ [f]) st1"
    "check_account_filters (as_datasize st1 \<noteq> None) fs = Inr u" by blast
  from Cons.IH [OF 1(2,3)] Cons.prems(3) 1(1) show ?case by simp
qed simp

lemma state_of_default: "state_of [] accounts_state_default"
  by (simp add: state_of_def accounts_state_default_def)

lemma filter_lamports_wanted: "lamports_is_match l (filter_lamports_from v) \<longleftrightarrow> lamports_wanted v l"
  by (cases v) auto

lemma accounts_state_wanted:
  assumes st: "state_of fs st" and ok: "\<And>f. f \<in> set fs \<Longrightarrow> accounts_filter_ok f \<and> memcmp_in_range f"
  shows "accounts_state_is_match vt l data st = Some (\<forall>f \<in> set fs. account_filter_wanted vt l data f)"
proof -
  have m: "memcmp_is_match data (as_memcmp st) =
      Some (\<forall>(offset, b) \<in> set (as_memcmp st). \<exists>pre post. data = pre @ b @ post \<and> length pre = unat offset)"
  proof (rule memcmp_is_match_spec)
    fix offset b
    assume "(offset, b) \<in> set (as_memcmp st)"
    then have "AF_Memcmp offset b \<in> set fs" using st by (simp add: state_of_def)
    from ok [OF this] show "length b < 2 ^ 64 \<and> unat offset + length b < 2 ^ 64" by simp
  qed
  have all: "(\<forall>f \<in> set fs. account_filter_wanted vt l data f) \<longleftrightarrow>
      (\<forall>n. as_datasize st = Some n \<longrightarrow> length data = unat n) \<and> (as_token_account_state st \<longrightarrow> vt data) \<and>
      (\<forall>f \<in> set (as_lamports st). lamports_is_match l f) \<and>
      (\<forall>(offset, b) \<in> set (as_memcmp st). \<exists>pre post. data = pre @ b @ post \<and> length pre = unat offset)" (is "?L = ?R")
  proof
    assume ?L
    then show ?R using st unfolding state_of_def by (auto simp: filter_lamports_wanted dest: bspec)
  next
    assume r: ?R
    show ?L
    proof
      fix f
      assume f: "f \<in> set fs"
      show "account_filter_wanted vt l data f"
      proof (cases f)
        case (AF_Memcmp offset b)
        with f st have "(offset, b) \<in> set (as_memcmp st)" by (simp add: state_of_def)
        with r AF_Memcmp show ?thesis by auto
      next
        case (AF_Lamports v)
        with f st have "filter_lamports_from v \<in> set (as_lamports st)" by (auto simp: state_of_def)
        with r AF_Lamports show ?thesis by (auto simp: filter_lamports_wanted)
      qed (use f st r in \<open>auto simp: state_of_def\<close>)
    qed
  qed
  show ?thesis
    unfolding all by (auto simp: accounts_state_is_match_def m list_ex_iff split: option.split)
qed

lemma accounts_inner_new_some:
  assumes "check_account_filters False (ca_filters c) = Inr u" "length (ca_filters c) \<le> MAX_FILTERS"
  shows "\<exists>st. accounts_inner_new c = Some \<lparr>fa_account = set (ca_account c), fa_owner = set (ca_owner c), fa_filters = st,
      fa_nonempty_txn_signature = ca_nonempty_txn_signature c\<rparr> \<and>
    (case st of None \<Rightarrow> ca_filters c = [] | Some st \<Rightarrow> state_of (ca_filters c) st)"
proof (cases "ca_filters c = []")
  case False
  have "as_datasize accounts_state_default = None" by (simp add: accounts_state_default_def)
  with accounts_state_extend_of [OF state_of_default, of "ca_filters c"] assms
  obtain st where "accounts_state_new (ca_filters c) = Some st" "state_of (ca_filters c) st" by (auto simp: accounts_state_new_def)
  with False show ?thesis by (auto simp: accounts_inner_new_def)
qed (simp add: accounts_inner_new_def)

lemma account_selected_wanted:
  assumes f: "accounts_inner_new c = Some f" and ck: "check_account_filters False (ca_filters c) = Inr u" "length (ca_filters c) \<le> MAX_FILTERS"
    and r: "\<And>x. x \<in> set (ca_filters c) \<Longrightarrow> memcmp_in_range x"
  shows "account_selected vt m data f = Some (account_wanted vt m data c)"
proof -
  from accounts_inner_new_some [OF ck] f obtain st where st: "f = \<lparr>fa_account = set (ca_account c), fa_owner = set (ca_owner c),
      fa_filters = st, fa_nonempty_txn_signature = ca_nonempty_txn_signature c\<rparr>"
    "case st of None \<Rightarrow> ca_filters c = [] | Some st \<Rightarrow> state_of (ca_filters c) st" by auto
  have "(case st of None \<Rightarrow> Some True | Some st \<Rightarrow> accounts_state_is_match vt (ma_lamports m) data st) =
      Some (\<forall>f \<in> set (ca_filters c). account_filter_wanted vt (ma_lamports m) data f)"
    using st(2) accounts_state_wanted [of "ca_filters c"] conjunct1 [OF check_account_filtersD [OF ck(1)]] r
    by (cases st) auto
  then show ?thesis by (auto simp: st(1) account_selected_def account_wanted_def split: option.split)
qed

text \<open>The names that are selected are the ones whose configuration wants the message.\<close>

lemma selected_names:
  assumes "\<And>name c. (name, c) \<in> set cs \<Longrightarrow> p (g c) = Some (q c)"
  shows "select_names p (map (\<lambda>(name, c). (name, g c)) cs) = Some (map fst (filter (\<lambda>(name, c). q c) cs))"
  using assms by (induction cs) force+

lemma accounts_new_some:
  assumes "\<And>name c. (name, c) \<in> set cs \<Longrightarrow> \<exists>f. accounts_inner_new c = Some f"
  shows "accounts_new cs = Some (map (\<lambda>(name, c). (name, the (accounts_inner_new c))) cs)"
  using assms
proof (induction cs)
  case (Cons x cs)
  obtain name c where x: "x = (name, c)" by fastforce
  from Cons.prems [of name c] x obtain f where f: "accounts_inner_new c = Some f" by auto
  have "accounts_new cs = Some (map (\<lambda>(name, c). (name, the (accounts_inner_new c))) cs)"
    by (rule Cons.IH) (use Cons.prems in auto)
  then show ?case by (simp add: x f)
qed simp

lemma some_update_wanted: "(\<exists>w \<in> set (some_update names u'). name \<in> set (fu_filters w) \<and> fu_update w = u) \<longleftrightarrow> name \<in> set names \<and> u = u'"
  by (auto simp: some_update_def)

lemma some_update_named: "w \<in> set (some_update names u) \<Longrightarrow> fu_filters w \<noteq> []"
  by (auto simp: some_update_def split: if_splits)

lemma filter_names: "name \<in> set (map fst (filter (\<lambda>(name, c). q c) cs)) \<longleftrightarrow> (\<exists>c. (name, c) \<in> set cs \<and> q c)"
  by force

lemma positions_set: "set (positions p xs) = {i. i < length xs \<and> p (xs ! i)}" "sorted (positions p xs)" "distinct (positions p xs)"
  by (auto simp: positions_def intro: sorted_wrt_filter)

definition delivered :: "'x filtered_update list \<Rightarrow> string \<Rightarrow> 'x filtered_update_type \<Rightarrow> bool" where
  "delivered us name u \<longleftrightarrow> (\<exists>w \<in> set us. name \<in> set (fu_filters w) \<and> fu_update w = u)"

lemma delivered_simps [simp]:
  "delivered [] name u \<longleftrightarrow> False"
  "delivered (us @ us') name u \<longleftrightarrow> delivered us name u \<or> delivered us' name u"
  "delivered (some_update names u') name u \<longleftrightarrow> name \<in> set names \<and> u = u'"
  by (auto simp: delivered_def some_update_def)

lemma slots_wanted:
  "slots_get_update (map (\<lambda>(name, s). (name, slots_inner_new s)) cs) m com =
     Some (some_update (map fst (filter (\<lambda>(name, s). slot_wanted (ms_status m) com s) cs)) (FU_Slot m))"
proof -
  have "slot_selected st com (slots_inner_new s) = slot_wanted st com s" for st s
    by (cases st; cases com) (auto simp: slot_selected_def slot_wanted_def slots_inner_new_def)
  then show ?thesis by (simp add: slots_get_update_def selected_names)
qed

lemma transactions_wanted:
  assumes "message_transaction_signature m = Some sig"
  shows "transactions_get_update (transactions_new cs ty) m =
    Some (some_update (map fst (filter (\<lambda>(name, c). transaction_wanted m sig c) cs))
      (case ty of FT_Transaction \<Rightarrow> FU_Transaction m | FT_TransactionStatus \<Rightarrow> FU_TransactionStatus m))"
proof -
  have "transaction_selected m sig (transactions_inner_new c) = transaction_wanted m sig c" for c
    by (auto simp: transaction_selected_def transaction_wanted_def transactions_inner_new_def split: option.split)
  then show ?thesis by (simp add: transactions_get_update_def transactions_new_def assms selected_names)
qed

lemma accounts_wanted:
  assumes c: "\<And>x. x \<in> set cs \<Longrightarrow> length (ca_filters (snd x)) \<le> MAX_FILTERS \<and> check_account_filters False (ca_filters (snd x)) = Inr ()"
    and r: "\<And>x f. x \<in> set cs \<Longrightarrow> f \<in> set (ca_filters (snd x)) \<Longrightarrow> memcmp_in_range f"
  shows "\<exists>fs. accounts_new cs = Some fs \<and> (\<forall>m data. message_account_data m = Some data \<longrightarrow> accounts_get_update vt fs slices m =
    Some (some_update (map fst (filter (\<lambda>(name, c). account_wanted vt m data c) cs)) (FU_Account m slices)))"
proof -
  let ?g = "\<lambda>c. the (accounts_inner_new c)"
  have some: "accounts_inner_new c = Some (?g c)" if "(name, c) \<in> set cs" for name c
    using accounts_inner_new_some [of c "()"] assms(1) [OF that] by auto
  have sel: "account_selected vt m data (?g c) = Some (account_wanted vt m data c)" if "(name, c) \<in> set cs" for name c m data
    using account_selected_wanted [OF some [OF that], of "()"] c [OF that] r [OF that] by auto
  have "accounts_new cs = Some (map (\<lambda>(name, c). (name, ?g c)) cs)" by (rule accounts_new_some) (use some in blast)
  moreover have "accounts_get_update vt (map (\<lambda>(name, c). (name, ?g c)) cs) slices m =
      Some (some_update (map fst (filter (\<lambda>(name, c). account_wanted vt m data c) cs)) (FU_Account m slices))"
    if "message_account_data m = Some data" for m data
    using that selected_names [of cs "account_selected vt m data" ?g "account_wanted vt m data"] sel by (simp add: accounts_get_update_def)
  ultimately show ?thesis by blast
qed

lemma block_keys_wanted:
  "\<not> (fb_account_include (blocks_inner_new c) \<noteq> {} \<and> fb_account_include (blocks_inner_new c) \<inter> ks = {}) \<longleftrightarrow> key_wanted c ks"
  "\<not> (fb_account_include (blocks_inner_new c) \<noteq> {} \<and> k \<notin> fb_account_include (blocks_inner_new c)) \<longleftrightarrow> key_wanted c {k}"
  by (auto simp: blocks_inner_new_def key_wanted_def)

lemma block_positions:
  "set (block_accounts (blocks_inner_new c) m) = {i. i < length (blk_accounts m) \<and> cb_include_accounts c = Some True \<and>
     key_wanted c {ma_pubkey (blk_accounts m ! i)}}"
  "sorted (block_accounts f m)" "distinct (block_accounts f m)"
  "set (block_transactions (blocks_inner_new c) m) = {i. i < length (blk_transactions m) \<and> cb_include_transactions c \<noteq> Some False \<and>
     key_wanted c (mt_account_keys (blk_transactions m ! i))}"
  "sorted (block_transactions f m)" "distinct (block_transactions f m)"
  by (simp_all add: block_accounts_def block_transactions_def positions_set block_keys_wanted)
    (auto simp: blocks_inner_new_def key_wanted_def)

lemma blocks_wanted:
  "delivered (blocks_get_updates (map (\<lambda>(name, b). (name, blocks_inner_new b)) (cg_blocks c)) (data_slices_new (cg_accounts_data_slice c)) m) name u
    \<longleftrightarrow> wanted vt c com (RP_Block m) name u" (is "?L \<longleftrightarrow> ?R")
proof
  assume ?L
  then obtain b where b: "(name, b) \<in> set (cg_blocks c)" "u = FU_Block m (block_accounts (blocks_inner_new b) m)
      (block_transactions (blocks_inner_new b) m) (fb_include_entries (blocks_inner_new b) = Some True) (data_slices_new (cg_accounts_data_slice c))"
    by (auto simp: delivered_def blocks_get_updates_def)
  then show ?R using block_positions(1,4) [of b m] block_positions(2,3,5,6) [of "blocks_inner_new b" m] by (auto simp: blocks_inner_new_def [of b] intro!: exI [of _ b])
next
  assume ?R
  then obtain b as ts where b: "(name, b) \<in> set (cg_blocks c)"
    "u = FU_Block m as ts (cb_include_entries b = Some True) (data_slices_new (cg_accounts_data_slice c))"
    "sorted as" "distinct as" "sorted ts" "distinct ts"
    "set as = set (block_accounts (blocks_inner_new b) m)" "set ts = set (block_transactions (blocks_inner_new b) m)"
    unfolding wanted.simps block_positions by blast
  have "as = block_accounts (blocks_inner_new b) m" by (rule sorted_distinct_set_unique [OF b(3,4) block_positions(2,3) b(7)])
  moreover have "ts = block_transactions (blocks_inner_new b) m" by (rule sorted_distinct_set_unique [OF b(5,6) block_positions(5,6) b(8)])
  ultimately have "u = FU_Block m (block_accounts (blocks_inner_new b) m) (block_transactions (blocks_inner_new b) m)
      (cb_include_entries b = Some True) (data_slices_new (cg_accounts_data_slice c))" using b(2) by simp
  with b(1) show ?L by (force simp: delivered_def blocks_get_updates_def blocks_inner_new_def)
qed

lemma block_footer_wanted:
  "delivered (block_footer_get_updates (block_footer_new (cg_block_footer c)) m ts n) name u \<longleftrightarrow> wanted vt c com (RP_BlockFooter m ts n) name u"
  by (force simp: block_footer_get_updates_def block_footer_new_def)

definition accepted :: "config_limits \<Rightarrow> config_filter \<Rightarrow> bool" where
  "accepted l c \<longleftrightarrow> check_filter l c = Inr () \<and> (\<forall>a \<in> set (cg_accounts c). \<forall>f \<in> set (ca_filters (snd a)). memcmp_in_range f)"

lemma get_updates_wanted:
  assumes "accepted l c" "message_readable m"
  shows "\<exists>F us. filter_new c = Some F \<and> get_updates_ref vt F m com = Some us \<and> (\<forall>w \<in> set us. fu_filters w \<noteq> []) \<and>
    (\<forall>name u. delivered us name u \<longleftrightarrow> wanted vt c com m name u)"
proof -
  from assms(1) have ck: "check_filter l c = Inr ()"
    and rg: "\<And>x f. x \<in> set (cg_accounts c) \<Longrightarrow> f \<in> set (ca_filters (snd x)) \<Longrightarrow> memcmp_in_range f" by (auto simp: accepted_def)
  have "\<exists>fs. accounts_new (cg_accounts c) = Some fs \<and> (\<forall>m data. message_account_data m = Some data \<longrightarrow>
      (accounts_get_update vt fs (data_slices_new (cg_accounts_data_slice c)) m :: 'a filtered_update list option) =
      Some (some_update (map fst (filter (\<lambda>(name, c). account_wanted vt m data c) (cg_accounts c))) (FU_Account m (data_slices_new (cg_accounts_data_slice c)))))"
    by (rule accounts_wanted) (use check_filterD(2) [OF ck] rg in blast)+
  then obtain fs where fs: "accounts_new (cg_accounts c) = Some fs" "\<And>m data. message_account_data m = Some data \<Longrightarrow>
      (accounts_get_update vt fs (data_slices_new (cg_accounts_data_slice c)) m :: 'a filtered_update list option) =
      Some (some_update (map fst (filter (\<lambda>(name, c). account_wanted vt m data c) (cg_accounts c))) (FU_Account m (data_slices_new (cg_accounts_data_slice c))))"
    by blast
  have one: ?thesis if "\<And>F. filter_new c = Some F \<Longrightarrow> uf_accounts F = fs \<Longrightarrow> \<exists>us. get_updates_ref vt F m com = Some us \<and>
      (\<forall>w \<in> set us. fu_filters w \<noteq> []) \<and> (\<forall>name u. delivered us name u \<longleftrightarrow> wanted vt c com m name u)"
    using that by (simp add: filter_new_def fs(1))
  show ?thesis
  proof (rule one, goal_cases)
    case (1 F)
    then have F: "uf_slots F = map (\<lambda>(name, s). (name, slots_inner_new s)) (cg_slots c)" "uf_data_slices F = data_slices_new (cg_accounts_data_slice c)"
      "uf_transactions F = transactions_new (cg_transactions c) FT_Transaction"
      "uf_transactions_status F = transactions_new (cg_transactions_status c) FT_TransactionStatus"
      "uf_entries F = entries_new (cg_entries c) (cg_entries_update_parent c)" "uf_blocks_meta F = cg_blocks_meta c"
      "uf_blocks F = map (\<lambda>(name, b). (name, blocks_inner_new b)) (cg_blocks c)" "uf_block_footer F = block_footer_new (cg_block_footer c)"
      "uf_accounts F = fs" by (auto simp: filter_new_def)
    show ?case
    proof (cases m)
      case (RP_Slot x)
      then show ?thesis by (simp add: F slots_wanted filter_names del: set_map set_filter) (auto dest: some_update_named)
    next
      case (RP_Account x)
      with assms(2) obtain data where d: "message_account_data x = Some data" by auto
      with RP_Account show ?thesis by (simp add: F fs(2) [OF d] filter_names del: set_map set_filter) (auto dest: some_update_named)
    next
      case (RP_Transaction x)
      with assms(2) obtain sig where d: "message_transaction_signature x = Some sig" by auto
      with RP_Transaction show ?thesis
        by (simp add: F transactions_wanted [OF d] filter_names del: set_map set_filter) (auto dest: some_update_named)
    next
      case (RP_Block x)
      have "\<forall>w \<in> set (blocks_get_updates (uf_blocks F) (uf_data_slices F) x). fu_filters w \<noteq> []"
        by (auto simp: blocks_get_updates_def)
      with RP_Block blocks_wanted [of c x] show ?thesis by (simp add: F)
    next
      case (RP_BlockFooter x ts n)
      have "\<forall>w \<in> set (block_footer_get_updates (uf_block_footer F) x ts n :: 'a filtered_update list). fu_filters w \<noteq> []"
        by (auto simp: block_footer_get_updates_def dest: some_update_named)
      with RP_BlockFooter show ?thesis by (simp add: F block_footer_wanted [where vt = vt and com = com])
    qed (auto simp: F entries_get_update_def entries_get_update_parent_def blocks_meta_get_update_def entries_new_def dest: some_update_named)
  qed
qed

subsection \<open>Properties\<close>


definition sample_account :: message_account where
  "sample_account = \<lparr>ma_pubkey = replicate 32 7, ma_owner = replicate 32 8, ma_lamports = 6, ma_executable = False, ma_rent_epoch = 0,
     ma_data = (0, 4), ma_txn_signature_offset = None, ma_write_version = 4, ma_slot = 7, ma_is_startup = False, ma_bank_id = None,
     ma_created_at = timestamp_default, ma_buffer = [1, 2, 3, 4, 5], ma_account_offset = 0, ma_range = (0, 5)\<rparr>"

lemma example_config_accepted: "accepted limits_default example_config"
  by (simp add: accepted_def example_config_def check_filter_def check_names_and_max_def check_names_max_def check_name_max_def
      check_max_def check_accounts_def check_accounts_entry_def check_slices_def check_slice_at_def upt_rec check_transactions_def
      check_transactions_entry_def check_blocks_def check_any_def check_pubkey_max_def check_pubkey_reject_def limits_default_def
      limits_blocks_default_def limits_accounts_default_def limits_transactions_default_def unat_usize_max MAX_FILTERS_def
      MAX_DATA_SIZE_def Let_def)


definition wrapping_config :: "string \<Rightarrow> u64 \<Rightarrow> bytes \<Rightarrow> u64 \<Rightarrow> config_filter" where
  "wrapping_config name offset b k = \<lparr>cg_slots = [],
     cg_accounts = [(name, \<lparr>ca_account = [], ca_owner = [], ca_filters = [AF_Memcmp offset b], ca_nonempty_txn_signature = None\<rparr>)],
     cg_accounts_data_slice = [\<lparr>ds_offset = 0, ds_length = 1\<rparr>, \<lparr>ds_offset = 1, ds_length = k\<rparr>],
     cg_transactions = [], cg_transactions_status = [], cg_entries = [], cg_entries_update_parent = {}, cg_blocks_meta = [],
     cg_blocks = [], cg_block_footer = [], cg_commitment = None\<rparr>"

lemma wrapping_config_accepted:
  assumes "length b \<le> MAX_DATA_SIZE" and "length name \<le> 128"
  shows "check_filter limits_default (wrapping_config name offset b k) = Inr ()"
  using assms
  by (simp add: wrapping_config_def check_filter_def check_names_and_max_def check_names_max_def check_name_max_def
      check_max_def check_accounts_def check_accounts_entry_def check_slices_def check_slice_at_def upt_rec check_transactions_def
      check_blocks_def check_any_def check_pubkey_max_def limits_default_def limits_blocks_default_def limits_accounts_default_def
      limits_transactions_default_def unat_usize_max MAX_FILTERS_def Let_def)

lemma memcmp_wraps:
  fixes offset :: u64
  assumes "2 ^ 64 \<le> unat offset + length b" and "length b \<le> MAX_DATA_SIZE" and "unat offset + length b \<le> 2 ^ 64 + length data"
  shows "memcmp_is_match data [(offset, b)] = None"
proof -
  have b: "length b < 2 ^ 64" using assms(2) by (simp add: MAX_DATA_SIZE_def)
  have o: "unat offset < 2 ^ 64" using unsigned_less [of offset] by simp
  have "unat (offset + of_nat (length b)) = (unat offset + length b) mod 2 ^ 64" using b by (simp add: unat_word_ariths unat_of_nat_u64)
  also have "\<dots> = unat offset + length b - 2 ^ 64"
    using assms(1) b o by (subst mod_if) simp
  finally have e: "unat (offset + of_nat (length b)) = unat offset + length b - 2 ^ 64" .
  have "unat offset + length b - 2 ^ 64 \<le> length data" "unat offset + length b - 2 ^ 64 < unat offset" using assms b o by linarith+
  then show ?thesis by (simp add: e slice_def)
qed

text \<open>\<^bold>\<open>C37.\<close> A subscriber can make the server panic. The end of a memory comparison, the offset plus
  the length, wraps around when the offset is large. The limits accept such a filter; the
  comparison is then made with a range that starts after its end, on the first account that is at
  least as long as the wrapped end. The limits also accept two data slices, neither of which wraps,
  whose lengths add up to \<open>2 ^ 63\<close> or more, which is more than an allocation can have, and slicing
  the data of any account with them panics.\<close>

theorem accepted_filters_panic:
  fixes offset k :: u64
  assumes "2 ^ 64 \<le> unat offset + length b" and "length b \<le> MAX_DATA_SIZE" and "length name \<le> 128"
    and "message_account_data m = Some data" and "unat offset + length b \<le> 2 ^ 64 + length data"
    and "2 ^ 63 \<le> unat k + 1" and "unat k + 1 < 2 ^ 64"
  shows "check_filter limits_default (wrapping_config name offset b k) = Inr () \<and>
    (\<exists>F. filter_new (wrapping_config name offset b k) = Some F \<and> get_updates_ref vt F (RP_Account m) com = None \<and>
      get_slice (uf_data_slices F) source = None)"
proof -
  let ?F = "the (filter_new (wrapping_config name offset b k))"
  have st: "accounts_state_new [AF_Memcmp offset b] = Some \<lparr>as_memcmp = [(offset, b)], as_datasize = None,
      as_token_account_state = False, as_lamports = []\<rparr>"
    using assms(2) by (simp add: accounts_state_new_def accounts_state_default_def MAX_FILTERS_def)
  then have F: "filter_new (wrapping_config name offset b k) = Some ?F" "uf_data_slices ?F = [(0, 1), (1, 1 + k)]"
    "uf_accounts ?F = [(name, \<lparr>fa_account = {}, fa_owner = {}, fa_filters = Some \<lparr>as_memcmp = [(offset, b)], as_datasize = None,
      as_token_account_state = False, as_lamports = []\<rparr>, fa_nonempty_txn_signature = None\<rparr>)]"
    by (simp_all add: filter_new_def wrapping_config_def accounts_inner_new_def data_slices_new_def)
  have "unat (1 + k) = unat k + 1" using assms(7) by (simp add: unat_word_ariths)
  then have "get_slice (uf_data_slices ?F) source = None"
    using assms(6) by (simp add: F(2) get_slice_def slices_capacity_def)
  moreover have "get_updates_ref vt ?F (RP_Account m) com = None"
    using assms(4) memcmp_wraps [OF assms(1,2,5)]
    by (simp add: F(3) accounts_get_update_def account_selected_def accounts_state_is_match_def del: memcmp_is_match.simps)
  ultimately show ?thesis using F(1) wrapping_config_accepted [OF assms(2,3)] by blast
qed

theorem accepted_filters_panic_witness:
  "\<exists>F. filter_new (wrapping_config ''a'' (- 1) [9, 9] (2 ^ 63)) = Some F \<and>
    get_updates_ref (\<lambda>_. False) F (RP_Account sample_account :: unit parsed_message) Processed = None \<and>
    get_slice (uf_data_slices F) [1, 2] = None"
proof -
  have u: "unat (- 1 :: u64) = 2 ^ 64 - 1" "unat (2 ^ 63 :: u64) = 2 ^ 63" by (simp_all add: unsigned_minus_1_eq_mask mask_eq_exp_minus_1)
  have d: "message_account_data sample_account = Some [1, 2, 3, 4]"
    by (simp add: message_account_data_def sample_account_def slice_def)
  show ?thesis
    by (rule conjunct2 [OF accepted_filters_panic [OF _ _ _ d]]) (simp_all only: u, simp_all add: MAX_DATA_SIZE_def)
qed

end
