(* ===== verification/Filter_Encode.thy ===== *)
theory Filter_Encode
  imports Filter_Match Pipeline
begin

text \<open>
  The encoder of the updates that subscribers receive: the wrappers of
  \<open>filter/src/protobuf/encode.rs\<close>, which write the parts of a received buffer without decoding
  them, and \<open>FilteredUpdate::encode\<close> (\<open>filter/src/filter.rs\<close>) for messages in the \<open>Limited\<close> form. A
  message of a generated type is its length and its bytes (\<open>message_obj\<close>); the record
  \<open>update_codec\<close> has the generated messages that the encoder reads. \<open>None\<close> is a panic: a slice or
  an index out of range, or the \<open>expect\<close> on the write version.
\<close>

subsection \<open>Generated messages\<close>

text \<open>The fields of \<open>SubscribeUpdateBlockMeta\<close> that only the encoder of blocks reads.\<close>

record block_meta_rest =
  br_blockhash :: bytes
  br_rewards :: "message_obj option"
  br_block_time :: "message_obj option"
  br_block_height :: "message_obj option"
  br_parent_slot :: u64
  br_parent_blockhash :: bytes

record 'x update_codec =
  uc_tx_error :: "'x \<Rightarrow> message_obj"
  uc_block_meta :: "message_block_meta \<Rightarrow> block_meta_rest"
  uc_block_footer :: "block_footer_msg_view \<Rightarrow> bool \<Rightarrow> message_obj"
  uc_entry_update_parent :: "entry_update_parent_view \<Rightarrow> message_obj"

definition opt_message_ok :: "message_obj option \<Rightarrow> bool" where
  "opt_message_ok m \<longleftrightarrow> (case m of None \<Rightarrow> True | Some x \<Rightarrow> message_ok x)"

lemma opt_message_ok_simps [simp]: "opt_message_ok None" "opt_message_ok (Some x) \<longleftrightarrow> message_ok x"
  by (simp_all add: opt_message_ok_def)

text \<open>\<open>prost\<close> generates an \<open>encoded_len\<close> that is the number of the bytes written.\<close>

definition update_codec_ok :: "'x update_codec \<Rightarrow> bool" where
  "update_codec_ok U \<longleftrightarrow> (\<forall>e. message_ok (uc_tx_error U e)) \<and> (\<forall>f c. message_ok (uc_block_footer U f c)) \<and>
     (\<forall>u. message_ok (uc_entry_update_parent U u)) \<and>
     (\<forall>b. opt_message_ok (br_rewards (uc_block_meta U b)) \<and> opt_message_ok (br_block_time (uc_block_meta U b)) \<and>
       opt_message_ok (br_block_height (uc_block_meta U b)))"

subsection \<open>Accounts\<close>

record limited_account_inner =
  li_pubkey :: bytes
  li_lamports :: u64
  li_owner :: bytes
  li_executable :: bool
  li_rent_epoch :: u64
  li_data :: bytes
  li_write_version :: u64
  li_txn_signature :: "bytes option"

definition account_inner_encode_raw :: "prost \<Rightarrow> limited_account_inner \<Rightarrow> bytes" where
  "account_inner_encode_raw P a =
     bytes_encode P 1 (li_pubkey a) @
     (if li_lamports a \<noteq> 0 then uint64_encode P 2 (li_lamports a) else []) @
     bytes_encode P 3 (li_owner a) @
     (if li_executable a then bool_encode P 4 (li_executable a) else []) @
     (if li_rent_epoch a \<noteq> 0 then uint64_encode P 5 (li_rent_epoch a) else []) @
     (if li_data a \<noteq> [] then bytes_encode P 6 (li_data a) else []) @
     (if li_write_version a \<noteq> 0 then uint64_encode P 7 (li_write_version a) else []) @
     enc_opt (bytes_encode P 8) (li_txn_signature a)"

definition account_inner_encoded_len :: "prost \<Rightarrow> limited_account_inner \<Rightarrow> nat" where
  "account_inner_encoded_len P a =
     bytes_encoded_len P 1 (li_pubkey a) +
     (if li_lamports a \<noteq> 0 then uint64_encoded_len P 2 (li_lamports a) else 0) +
     bytes_encoded_len P 3 (li_owner a) +
     (if li_executable a then bool_encoded_len P 4 (li_executable a) else 0) +
     (if li_rent_epoch a \<noteq> 0 then uint64_encoded_len P 5 (li_rent_epoch a) else 0) +
     (if li_data a \<noteq> [] then bytes_encoded_len P 6 (li_data a) else 0) +
     (if li_write_version a \<noteq> 0 then uint64_encoded_len P 7 (li_write_version a) else 0) +
     len_opt (bytes_encoded_len P 8) (li_txn_signature a)"

definition account_inner_msg :: "prost \<Rightarrow> limited_account_inner \<Rightarrow> message_obj" where
  "account_inner_msg P a = \<lparr>mo_len = account_inner_encoded_len P a, mo_raw = account_inner_encode_raw P a\<rparr>"

datatype limited_account = LA_Slice bytes | LA_Fields limited_account_inner slot bool "bank_id option"

fun limited_account_encode_raw :: "prost \<Rightarrow> limited_account \<Rightarrow> bytes" where
  "limited_account_encode_raw P (LA_Slice s) = s"
| "limited_account_encode_raw P (LA_Fields a sl is_startup bank) =
     encode_key P 1 LengthDelimited @ encode_varint P (of_nat (account_inner_encoded_len P a)) @ account_inner_encode_raw P a @
     (if sl \<noteq> 0 then uint64_encode P 2 sl else []) @
     (if \<not> is_startup then bool_encode P 3 is_startup else []) @
     enc_opt (uint64_encode P 4) bank"

fun limited_account_encoded_len :: "prost \<Rightarrow> limited_account \<Rightarrow> nat" where
  "limited_account_encoded_len P (LA_Slice s) = length s"
| "limited_account_encoded_len P (LA_Fields a sl is_startup bank) =
     (let account_len = account_inner_encoded_len P a in
      key_len P 1 + encoded_len_varint P (of_nat account_len) + account_len +
      (if sl \<noteq> 0 then uint64_encoded_len P 2 sl else 0) +
      (if \<not> is_startup then bool_encoded_len P 3 is_startup else 0) +
      len_opt (uint64_encoded_len P 4) bank)"

subsection \<open>Transaction statuses\<close>

record limited_transaction_status =
  lt_slot :: u64
  lt_signature :: bytes
  lt_is_vote :: bool
  lt_index :: u64
  lt_err :: "message_obj option"
  lt_bank_id :: bank_id

definition transaction_status_encode_raw :: "prost \<Rightarrow> limited_transaction_status \<Rightarrow> bytes" where
  "transaction_status_encode_raw P t =
     (if lt_slot t \<noteq> 0 then uint64_encode P 1 (lt_slot t) else []) @
     (if lt_signature t \<noteq> [] then bytes_encode P 2 (lt_signature t) else []) @
     (if lt_is_vote t then bool_encode P 3 (lt_is_vote t) else []) @
     (if lt_index t \<noteq> 0 then uint64_encode P 4 (lt_index t) else []) @
     enc_opt (message_encode P 5) (lt_err t) @
     (if lt_bank_id t \<noteq> 0 then uint64_encode P 6 (lt_bank_id t) else [])"

definition transaction_status_encoded_len :: "prost \<Rightarrow> limited_transaction_status \<Rightarrow> nat" where
  "transaction_status_encoded_len P t =
     (if lt_slot t \<noteq> 0 then uint64_encoded_len P 1 (lt_slot t) else 0) +
     (if lt_signature t \<noteq> [] then bytes_encoded_len P 2 (lt_signature t) else 0) +
     (if lt_is_vote t then bool_encoded_len P 3 (lt_is_vote t) else 0) +
     (if lt_index t \<noteq> 0 then uint64_encoded_len P 4 (lt_index t) else 0) +
     len_opt (message_encoded_len P 5) (lt_err t) +
     (if lt_bank_id t \<noteq> 0 then uint64_encoded_len P 6 (lt_bank_id t) else 0)"

subsection \<open>Blocks\<close>

record limited_block =
  lb_slot :: u64
  lb_blockhash :: bytes
  lb_rewards :: "message_obj option"
  lb_block_time :: "message_obj option"
  lb_block_height :: "message_obj option"
  lb_parent_slot :: u64
  lb_parent_blockhash :: bytes
  lb_executed_transaction_count :: u64
  lb_transactions :: "bytes list"
  lb_updated_account_count :: u64
  lb_accounts :: "limited_account_inner list"
  lb_entries_count :: u64
  lb_entries :: "bytes list"
  lb_bank_id :: bank_id

text \<open>The loops over the slices of transactions and entries.\<close>

definition slices_encode :: "prost \<Rightarrow> u32 \<Rightarrow> bytes list \<Rightarrow> bytes" where
  "slices_encode P t ds = concat (map (\<lambda>s. encode_key P t LengthDelimited @ encode_varint P (of_nat (length s)) @ s) ds)"

definition slices_encoded_len :: "prost \<Rightarrow> u32 \<Rightarrow> bytes list \<Rightarrow> nat" where
  "slices_encoded_len P t ds = key_len P t * length ds + sum_list (map (\<lambda>n. n + encoded_len_varint P (of_nat n)) (map length ds))"

definition block_encode_raw :: "prost \<Rightarrow> limited_block \<Rightarrow> bytes" where
  "block_encode_raw P b =
     (if lb_slot b \<noteq> 0 then uint64_encode P 1 (lb_slot b) else []) @
     (if lb_blockhash b \<noteq> [] then bytes_encode P 2 (lb_blockhash b) else []) @
     enc_opt (message_encode P 3) (lb_rewards b) @
     enc_opt (message_encode P 4) (lb_block_time b) @
     enc_opt (message_encode P 5) (lb_block_height b) @
     slices_encode P 6 (lb_transactions b) @
     (if lb_parent_slot b \<noteq> 0 then uint64_encode P 7 (lb_parent_slot b) else []) @
     (if lb_parent_blockhash b \<noteq> [] then bytes_encode P 8 (lb_parent_blockhash b) else []) @
     (if lb_executed_transaction_count b \<noteq> 0 then uint64_encode P 9 (lb_executed_transaction_count b) else []) @
     (if lb_updated_account_count b \<noteq> 0 then uint64_encode P 10 (lb_updated_account_count b) else []) @
     concat (map (\<lambda>a. message_encode P 11 (account_inner_msg P a)) (lb_accounts b)) @
     (if lb_entries_count b \<noteq> 0 then uint64_encode P 12 (lb_entries_count b) else []) @
     slices_encode P 13 (lb_entries b) @
     (if lb_bank_id b \<noteq> 0 then uint64_encode P 14 (lb_bank_id b) else [])"

definition block_encoded_len :: "prost \<Rightarrow> limited_block \<Rightarrow> nat" where
  "block_encoded_len P b =
     (if lb_slot b \<noteq> 0 then uint64_encoded_len P 1 (lb_slot b) else 0) +
     (if lb_blockhash b \<noteq> [] then bytes_encoded_len P 2 (lb_blockhash b) else 0) +
     len_opt (message_encoded_len P 3) (lb_rewards b) +
     len_opt (message_encoded_len P 4) (lb_block_time b) +
     len_opt (message_encoded_len P 5) (lb_block_height b) +
     slices_encoded_len P 6 (lb_transactions b) +
     (if lb_parent_slot b \<noteq> 0 then uint64_encoded_len P 7 (lb_parent_slot b) else 0) +
     (if lb_parent_blockhash b \<noteq> [] then bytes_encoded_len P 8 (lb_parent_blockhash b) else 0) +
     (if lb_executed_transaction_count b \<noteq> 0 then uint64_encoded_len P 9 (lb_executed_transaction_count b) else 0) +
     (if lb_updated_account_count b \<noteq> 0 then uint64_encoded_len P 10 (lb_updated_account_count b) else 0) +
     message_encoded_len_repeated P 11 (map (account_inner_msg P) (lb_accounts b)) +
     (if lb_entries_count b \<noteq> 0 then uint64_encoded_len P 12 (lb_entries_count b) else 0) +
     slices_encoded_len P 13 (lb_entries b) +
     (if lb_bank_id b \<noteq> 0 then uint64_encoded_len P 14 (lb_bank_id b) else 0)"

subsection \<open>The update\<close>

datatype limited_update =
  LU_Account limited_account
| LU_Slot bytes
| LU_Transaction bytes
| LU_TransactionStatus limited_transaction_status
| LU_Block limited_block
| LU_BlockMeta bytes
| LU_Entry bytes

fun limited_update_tag :: "limited_update \<Rightarrow> u32" where
  "limited_update_tag (LU_Account _) = 2"
| "limited_update_tag (LU_Slot _) = 3"
| "limited_update_tag (LU_Transaction _) = 4"
| "limited_update_tag (LU_TransactionStatus _) = 10"
| "limited_update_tag (LU_Block _) = 5"
| "limited_update_tag (LU_BlockMeta _) = 7"
| "limited_update_tag (LU_Entry _) = 8"

fun limited_update_len :: "prost \<Rightarrow> limited_update \<Rightarrow> nat" where
  "limited_update_len P (LU_Account a) = limited_account_encoded_len P a"
| "limited_update_len P (LU_Slot s) = length s"
| "limited_update_len P (LU_Transaction s) = length s"
| "limited_update_len P (LU_TransactionStatus t) = transaction_status_encoded_len P t"
| "limited_update_len P (LU_Block b) = block_encoded_len P b"
| "limited_update_len P (LU_BlockMeta s) = length s"
| "limited_update_len P (LU_Entry s) = length s"

text \<open>The last \<open>match\<close> of \<open>UpdateOneofLimitedEncode::encode\<close>.\<close>

fun limited_update_body :: "prost \<Rightarrow> limited_update \<Rightarrow> bytes" where
  "limited_update_body P (LU_Account a) = limited_account_encode_raw P a"
| "limited_update_body P (LU_Slot s) = s"
| "limited_update_body P (LU_Transaction s) = s"
| "limited_update_body P (LU_TransactionStatus t) = transaction_status_encode_raw P t"
| "limited_update_body P (LU_Block b) = block_encode_raw P b"
| "limited_update_body P (LU_BlockMeta s) = s"
| "limited_update_body P (LU_Entry s) = s"

definition limited_update_encode :: "prost \<Rightarrow> limited_update \<Rightarrow> bytes" where
  "limited_update_encode P u =
     encode_key P (limited_update_tag u) LengthDelimited @ encode_varint P (of_nat (limited_update_len P u)) @ limited_update_body P u"

definition limited_update_encoded_len :: "prost \<Rightarrow> limited_update \<Rightarrow> nat" where
  "limited_update_encoded_len P u =
     (let len = limited_update_len P u in key_len P (limited_update_tag u) + encoded_len_varint P (of_nat len) + len)"

text \<open>\<open>SubscribeUpdateMessageLimited\<close> and \<open>SubscribeUpdateMessageProst\<close>; the generated \<open>UpdateOneof\<close> of the
  latter is its tag and its message.\<close>

datatype update_message =
  UM_Limited "bytes list" limited_update timestamp
| UM_Prost "bytes list" u32 message_obj timestamp

fun update_message_encode_raw :: "prost \<Rightarrow> update_message \<Rightarrow> bytes" where
  "update_message_encode_raw P (UM_Limited filters update created_at) =
     concat (map (bytes_encode P 1) filters) @ limited_update_encode P update @ message_encode P 11 (timestamp_msg P created_at)"
| "update_message_encode_raw P (UM_Prost filters tag m created_at) =
     concat (map (bytes_encode P 1) filters) @ message_encode P tag m @ message_encode P 11 (timestamp_msg P created_at)"

fun update_message_encoded_len :: "prost \<Rightarrow> update_message \<Rightarrow> nat" where
  "update_message_encoded_len P (UM_Limited filters update created_at) =
     sum_list (map (bytes_encoded_len P 1) filters) + limited_update_encoded_len P update + message_encoded_len P 11 (timestamp_msg P created_at)"
| "update_message_encoded_len P (UM_Prost filters tag m created_at) =
     sum_list (map (bytes_encoded_len P 1) filters) + message_encoded_len P tag m + message_encoded_len P 11 (timestamp_msg P created_at)"

subsection \<open>\<open>FilteredUpdate::encode\<close>\<close>

definition range_slice :: "range \<Rightarrow> bytes \<Rightarrow> bytes option" where
  "range_slice r buffer = slice (fst r) (snd r) buffer"

definition account_inner_of :: "prost \<Rightarrow> data_slices \<Rightarrow> message_account \<Rightarrow> limited_account_inner option" where
  "account_inner_of P slices m =
     Option.bind (range_slice (ma_data m) (ma_buffer m)) (\<lambda>source.
     Option.bind (get_slice slices source) (\<lambda>data.
     Option.bind (message_account_write_version P m) (\<lambda>write_version.
     map_option (\<lambda>signature. \<lparr>li_pubkey = ma_pubkey m, li_lamports = ma_lamports m, li_owner = ma_owner m,
         li_executable = ma_executable m, li_rent_epoch = ma_rent_epoch m, li_data = data,
         li_write_version = write_version, li_txn_signature = signature\<rparr>)
       (case ma_txn_signature_offset m of None \<Rightarrow> Some None
        | Some offset \<Rightarrow> map_option Some (slice offset (offset + 64) (ma_buffer m))))))"

text \<open>\<open>accounts.iter().map(|idx| ...).collect()\<close>\<close>

definition indexed :: "('a \<Rightarrow> 'b option) \<Rightarrow> 'a list \<Rightarrow> nat list \<Rightarrow> 'b list option" where
  "indexed f xs is = those (map (\<lambda>i. if i < length xs then f (xs ! i) else None) is)"

definition limited_block_of :: "prost \<Rightarrow> 'x update_codec \<Rightarrow> 'x message_block \<Rightarrow> nat list \<Rightarrow> nat list \<Rightarrow> bool \<Rightarrow> data_slices \<Rightarrow>
    limited_block option" where
  "limited_block_of P U m accounts transactions entries slices =
     (let meta = mb_block_meta (blk_block_meta m); rest = uc_block_meta U (blk_block_meta m) in
      Option.bind (indexed (\<lambda>t. range_slice (mt_transaction_range t) (mt_buffer t)) (blk_transactions m) transactions) (\<lambda>ts.
      Option.bind (indexed (account_inner_of P slices) (blk_accounts m) accounts) (\<lambda>as.
      map_option (\<lambda>es. \<lparr>lb_slot = bm_slot meta, lb_blockhash = br_blockhash rest, lb_rewards = br_rewards rest,
          lb_block_time = br_block_time rest, lb_block_height = br_block_height rest, lb_parent_slot = br_parent_slot rest,
          lb_parent_blockhash = br_parent_blockhash rest,
          lb_executed_transaction_count = bm_executed_transaction_count meta, lb_transactions = ts,
          lb_updated_account_count = of_nat (length (blk_accounts m)), lb_accounts = as,
          lb_entries_count = bm_entries_count meta, lb_entries = es, lb_bank_id = bm_bank_id meta\<rparr>)
        (if entries then those (map (\<lambda>e. range_slice (me_range e) (me_buffer e)) (blk_entries m)) else Some []))))"

fun update_message_of :: "prost \<Rightarrow> 'x update_codec \<Rightarrow> bytes list \<Rightarrow> 'x filtered_update_type \<Rightarrow> update_message option" where
  "update_message_of P U names (FU_Slot m) =
     map_option (\<lambda>s. UM_Limited names (LU_Slot s) (ms_created_at m)) (range_slice (ms_range m) (ms_buffer m))"
| "update_message_of P U names (FU_Account m slices) =
     map_option (\<lambda>a. UM_Limited names (LU_Account a) (ma_created_at m))
       (if slices = [] then map_option LA_Slice (range_slice (ma_range m) (ma_buffer m))
        else map_option (\<lambda>a. LA_Fields a (ma_slot m) (ma_is_startup m) (ma_bank_id m)) (account_inner_of P slices m))"
| "update_message_of P U names (FU_Transaction m) =
     map_option (\<lambda>s. UM_Limited names (LU_Transaction s) (mt_created_at m)) (range_slice (mt_range m) (mt_buffer m))"
| "update_message_of P U names (FU_TransactionStatus m) =
     map_option (\<lambda>s. UM_Limited names (LU_TransactionStatus \<lparr>lt_slot = mt_slot m, lt_signature = s, lt_is_vote = mt_is_vote m,
         lt_index = mt_index m, lt_err = map_option (uc_tx_error U) (mt_error m), lt_bank_id = mt_bank_id m\<rparr>) (mt_created_at m))
       (message_transaction_signature m)"
| "update_message_of P U names (FU_Entry m) =
     map_option (\<lambda>s. UM_Limited names (LU_Entry s) (me_created_at m)) (range_slice (me_range m) (me_buffer m))"
| "update_message_of P U names (FU_BlockMeta m) =
     map_option (\<lambda>s. UM_Limited names (LU_BlockMeta s) (mb_created_at m)) (range_slice (mb_range m) (mb_buffer m))"
| "update_message_of P U names (FU_Block m accounts transactions entries slices) =
     map_option (\<lambda>b. UM_Limited names (LU_Block b) (blk_created_at m)) (limited_block_of P U m accounts transactions entries slices)"
| "update_message_of P U names (FU_BlockFooter m created_at n certificates) =
     Some (UM_Prost names 12 (uc_block_footer U m certificates) created_at)"
| "update_message_of P U names (FU_EntryUpdateParent m created_at n) =
     Some (UM_Prost names 13 (uc_entry_update_parent U m) created_at)"

text \<open>\<open>filter.as_bytes()\<close>\<close>

definition name_bytes :: "string \<Rightarrow> bytes" where
  "name_bytes name = map plain_byte name"

text \<open>\<open>encode_reserved\<close>: the length that the buffer is reserved for, and the buffer.\<close>

definition encode_reserved :: "prost \<Rightarrow> update_message \<Rightarrow> bytes \<Rightarrow> nat \<times> bytes" where
  "encode_reserved P u buf = (length buf + update_message_encoded_len P u, buf @ update_message_encode_raw P u)"

definition filtered_update_encode :: "prost \<Rightarrow> 'x update_codec \<Rightarrow> 'x filtered_update \<Rightarrow> bytes \<Rightarrow> (nat \<times> bytes) option" where
  "filtered_update_encode P U w buf =
     map_option (\<lambda>u. encode_reserved P u buf) (update_message_of P U (map name_bytes (fu_filters w)) (fu_update w))"

definition encode_to_vec :: "prost \<Rightarrow> 'x update_codec \<Rightarrow> 'x filtered_update \<Rightarrow> bytes option" where
  "encode_to_vec P U w = map_option snd (filtered_update_encode P U w [])"

subsection \<open>The announced length is the written length\<close>

definition update_message_ok :: "update_message \<Rightarrow> bool" where
  "update_message_ok u \<longleftrightarrow> (case u of
     UM_Limited _ (LU_TransactionStatus t) _ \<Rightarrow> opt_message_ok (lt_err t)
   | UM_Limited _ (LU_Block b) _ \<Rightarrow> opt_message_ok (lb_rewards b) \<and> opt_message_ok (lb_block_time b) \<and> opt_message_ok (lb_block_height b)
   | UM_Limited _ _ _ \<Rightarrow> True
   | UM_Prost _ _ m _ \<Rightarrow> message_ok m)"

lemma update_message_of_ok:
  assumes "update_codec_ok U" "update_message_of P U names u = Some um"
  shows "update_message_ok um"
  using assms
proof (cases u)
  case (FU_TransactionStatus m)
  with assms show ?thesis by (cases "mt_error m") (auto simp: update_message_ok_def update_codec_ok_def)
qed (auto simp: update_message_ok_def update_codec_ok_def limited_block_of_def Let_def bind_eq_Some_conv)

context prost_codec
begin

lemma opt_message_wire [wire_len]: "opt_message_ok m \<Longrightarrow> length (enc_opt (message_encode P t) m) = len_opt (message_encoded_len P t) m"
  by (cases m) (auto simp: message_wire)

lemma slices_wire [wire_len]: "length (slices_encode P t ds) = slices_encoded_len P t ds"
  by (induction ds) (simp_all add: slices_encode_def slices_encoded_len_def varint_len key_length [of t LengthDelimited])

lemma account_inner_wire [wire_len]: "length (account_inner_encode_raw P a) = account_inner_encoded_len P a"
  by (simp add: account_inner_encode_raw_def account_inner_encoded_len_def wire_len cong: if_cong split del: if_split)

lemma account_inner_ok [simp]: "message_ok (account_inner_msg P a)"
  by (simp add: account_inner_msg_def account_inner_wire)

lemma accounts_wire [wire_len]: "length (concat (map (\<lambda>a. message_encode P t (account_inner_msg P a)) as)) =
    message_encoded_len_repeated P t (map (account_inner_msg P) as)"
  using repeated_wire [of "map (account_inner_msg P) as" t] by (simp add: repeated_field comp_def)

lemma limited_account_wire [wire_len]: "length (limited_account_encode_raw P a) = limited_account_encoded_len P a"
  by (cases a) (simp_all add: Let_def wire_len varint_len key_length [of 1 LengthDelimited] cong: if_cong split del: if_split)

lemma transaction_status_wire [wire_len]:
  "opt_message_ok (lt_err t) \<Longrightarrow> length (transaction_status_encode_raw P t) = transaction_status_encoded_len P t"
  by (simp add: transaction_status_encode_raw_def transaction_status_encoded_len_def wire_len del: length_enc_opt cong: if_cong split del: if_split)

lemma block_wire [wire_len]:
  assumes "opt_message_ok (lb_rewards b)" "opt_message_ok (lb_block_time b)" "opt_message_ok (lb_block_height b)"
  shows "length (block_encode_raw P b) = block_encoded_len P b"
  using assms
  by (simp add: block_encode_raw_def block_encoded_len_def wire_len del: length_enc_opt cong: if_cong split del: if_split)

lemma names_wire [wire_len]: "length (concat (map (bytes_encode P 1) names)) = sum_list (map (bytes_encoded_len P 1) names)"
  by (induction names) (simp_all add: wire_len)

lemma update_message_wire: "update_message_ok u \<Longrightarrow> length (update_message_encode_raw P u) = update_message_encoded_len P u"
proof (cases u)
  case (UM_Limited names v ts)
  assume "update_message_ok u"
  with UM_Limited have "length (limited_update_body P v) = limited_update_len P v"
    by (cases v) (simp_all add: update_message_ok_def wire_len)
  then have "length (limited_update_encode P v) = limited_update_encoded_len P v"
    by (simp add: limited_update_encode_def limited_update_encoded_len_def varint_len key_length [of _ LengthDelimited] Let_def)
  with UM_Limited show ?thesis by (simp add: names_wire message_wire timestamp_ok)
qed (simp add: update_message_ok_def names_wire message_wire timestamp_ok)

end

subsection \<open>Well-formed updates\<close>

text \<open>What the parser establishes for a message and the filter for an update: every range and index that
  the encoder uses is inside its buffer or list, and the data slices can be cut out.\<close>

definition account_typed :: "prost \<Rightarrow> message_account \<Rightarrow> bool" where
  "account_typed P m \<longleftrightarrow> range_ok (length (ma_buffer m)) (ma_range m) \<and> range_ok (length (ma_buffer m)) (ma_data m) \<and>
     message_account_write_version P m \<noteq> None \<and>
     (\<forall>i. ma_txn_signature_offset m = Some i \<longrightarrow> i + 64 \<le> length (ma_buffer m))"

definition transaction_typed :: "'x message_transaction \<Rightarrow> bool" where
  "transaction_typed m \<longleftrightarrow> range_ok (length (mt_buffer m)) (mt_range m) \<and> range_ok (length (mt_buffer m)) (mt_transaction_range m) \<and>
     message_transaction_signature m \<noteq> None"

definition entry_typed :: "message_entry \<Rightarrow> bool" where
  "entry_typed m \<longleftrightarrow> range_ok (length (me_buffer m)) (me_range m)"

fun message_typed :: "prost \<Rightarrow> 'x parsed_message \<Rightarrow> bool" where
  "message_typed P (RP_Slot m) \<longleftrightarrow> range_ok (length (ms_buffer m)) (ms_range m)"
| "message_typed P (RP_Account m) \<longleftrightarrow> account_typed P m"
| "message_typed P (RP_Transaction m) \<longleftrightarrow> transaction_typed m"
| "message_typed P (RP_Entry m) \<longleftrightarrow> entry_typed m"
| "message_typed P (RP_BlockMeta m) \<longleftrightarrow> range_ok (length (mb_buffer m)) (mb_range m)"
| "message_typed P (RP_Block m) \<longleftrightarrow> (\<forall>a \<in> set (blk_accounts m). account_typed P a) \<and>
     (\<forall>t \<in> set (blk_transactions m). transaction_typed t) \<and> (\<forall>e \<in> set (blk_entries m). entry_typed e)"
| "message_typed P _ \<longleftrightarrow> True"

definition slices_typed :: "data_slices \<Rightarrow> bool" where
  "slices_typed ds \<longleftrightarrow> (\<forall>(a, b) \<in> set ds. a \<le> b) \<and> sum_list (map (\<lambda>(a, b). unat b - unat a) ds) < 2 ^ 63"

fun update_typed :: "prost \<Rightarrow> 'x filtered_update_type \<Rightarrow> bool" where
  "update_typed P (FU_Slot m) \<longleftrightarrow> range_ok (length (ms_buffer m)) (ms_range m)"
| "update_typed P (FU_Account m ds) \<longleftrightarrow> account_typed P m \<and> slices_typed ds"
| "update_typed P (FU_Transaction m) \<longleftrightarrow> transaction_typed m"
| "update_typed P (FU_TransactionStatus m) \<longleftrightarrow> transaction_typed m"
| "update_typed P (FU_Entry m) \<longleftrightarrow> entry_typed m"
| "update_typed P (FU_BlockMeta m) \<longleftrightarrow> range_ok (length (mb_buffer m)) (mb_range m)"
| "update_typed P (FU_Block m as ts es ds) \<longleftrightarrow> message_typed P (RP_Block m) \<and> (\<forall>i \<in> set as. i < length (blk_accounts m)) \<and>
     (\<forall>i \<in> set ts. i < length (blk_transactions m)) \<and> slices_typed ds"
| "update_typed P _ \<longleftrightarrow> True"

definition slices_in_range :: "config_filter \<Rightarrow> bool" where
  "slices_in_range c \<longleftrightarrow> (\<forall>d \<in> set (cg_accounts_data_slice c). unat (ds_offset d) + unat (ds_length d) < 2 ^ 64) \<and>
     sum_list (map (\<lambda>d. unat (ds_length d)) (cg_accounts_data_slice c)) < 2 ^ 63"

lemma slice_range_ok: "range_ok (length buf) r \<Longrightarrow> \<exists>s. slice (fst r) (snd r) buf = Some s"
  by (simp add: range_ok_def slice_def)

lemma range_slice_ok: "range_ok (length buf) r \<Longrightarrow> \<exists>s. range_slice r buf = Some s"
  by (simp add: range_slice_def slice_range_ok)

lemma those_Some: "(\<And>x. x \<in> set xs \<Longrightarrow> \<exists>y. f x = Some y) \<Longrightarrow> \<exists>ys. those (map f xs) = Some ys"
  by (induction xs) force+

lemma indexed_Some:
  assumes "\<And>x. x \<in> set xs \<Longrightarrow> \<exists>y. f x = Some y" and "\<And>i. i \<in> set is \<Longrightarrow> i < length xs"
  shows "\<exists>ys. indexed f xs is = Some ys"
  unfolding indexed_def using assms by (intro those_Some) auto

lemma slices_capacity_sum:
  fixes ds :: data_slices
  assumes "\<forall>(a, b) \<in> set ds. a \<le> b" and "sum_list (map (\<lambda>(a, b). unat b - unat a) ds) < 2 ^ 64"
  shows "unat (slices_capacity ds) = sum_list (map (\<lambda>(a, b). unat b - unat a) ds)"
  using assms
proof (induction ds)
  case (Cons d ds)
  obtain a b where d: "d = (a, b)" by fastforce
  from Cons.prems d have "a \<le> b" by simp
  then have "unat (b - a) = unat b - unat a" by (simp add: unat_sub)
  with Cons d show ?case by (simp add: slices_capacity_def unat_word_ariths)
qed (simp add: slices_capacity_def)

lemma get_slice_typed:
  assumes "slices_typed ds"
  shows "\<exists>s. get_slice ds source = Some s"
proof -
  have le: "\<forall>(a, b) \<in> set ds. a \<le> b" and sm: "sum_list (map (\<lambda>(a, b). unat b - unat a) ds) < 2 ^ 63"
    using assms by (auto simp: slices_typed_def)
  have "\<forall>(a, b) \<in> set rs. a \<le> b \<Longrightarrow> \<exists>s. extend_slices source rs = Some s" for rs :: data_slices
    by (induction rs) (auto simp: slice_def word_le_nat_alt)
  then obtain s where s: "extend_slices source ds = Some s" using le by blast
  have "unat (slices_capacity ds) < 2 ^ 63" using slices_capacity_sum [OF le] sm by simp
  with s le show ?thesis
    by (auto simp: get_slice_def slice_def word_le_nat_alt simp del: extend_slices.simps split: list.split)
qed

lemma account_inner_typed:
  assumes "account_typed P m" and "slices_typed ds"
  shows "\<exists>a. account_inner_of P ds m = Some a"
proof -
  from assms(1) obtain source v where "range_slice (ma_data m) (ma_buffer m) = Some source" "message_account_write_version P m = Some v"
    using range_slice_ok [of "ma_buffer m" "ma_data m"] by (auto simp: account_typed_def)
  moreover from get_slice_typed [OF assms(2)] obtain s where "get_slice ds source = Some s" by blast
  ultimately show ?thesis using assms(1)
    by (cases "ma_txn_signature_offset m") (auto simp: account_inner_of_def account_typed_def slice_def)
qed

lemma update_message_typed:
  assumes "update_typed P u"
  shows "\<exists>um. update_message_of P U names u = Some um"
proof (cases u)
  case (FU_Account m ds)
  then show ?thesis using assms account_inner_typed [of P m ds] range_slice_ok [of "ma_buffer m" "ma_range m"]
    by (auto simp: account_typed_def)
next
  case (FU_Block m as ts es ds)
  with assms have t: "\<forall>a \<in> set (blk_accounts m). account_typed P a" "\<forall>t \<in> set (blk_transactions m). transaction_typed t"
    "\<forall>e \<in> set (blk_entries m). entry_typed e" "\<forall>i \<in> set as. i < length (blk_accounts m)"
    "\<forall>i \<in> set ts. i < length (blk_transactions m)" "slices_typed ds" by simp_all
  have "\<exists>xs. indexed (\<lambda>t. range_slice (mt_transaction_range t) (mt_buffer t)) (blk_transactions m) ts = Some xs"
    by (rule indexed_Some) (use t(2,5) range_slice_ok in \<open>auto simp: transaction_typed_def\<close>)
  moreover have "\<exists>xs. indexed (account_inner_of P ds) (blk_accounts m) as = Some xs"
    by (rule indexed_Some) (use t(1,4,6) account_inner_typed in blast)+
  moreover have "\<exists>xs. those (map (\<lambda>e. range_slice (me_range e) (me_buffer e)) (blk_entries m)) = Some xs"
    by (rule those_Some) (use t(3) range_slice_ok in \<open>auto simp: entry_typed_def\<close>)
  ultimately show ?thesis using FU_Block by (auto simp: limited_block_of_def Let_def)
qed (use assms range_slice_ok in \<open>auto simp: transaction_typed_def entry_typed_def\<close>)

lemma data_slices_typed:
  assumes "slices_in_range c"
  shows "slices_typed (data_slices_new (cg_accounts_data_slice c))"
proof -
  have e: "unat (ds_offset d + ds_length d) = unat (ds_offset d) + unat (ds_length d)" if "d \<in> set (cg_accounts_data_slice c)" for d
    using assms that by (simp add: slices_in_range_def unat_word_ariths)
  then have "map (\<lambda>(a, b). unat b - unat a) (data_slices_new (cg_accounts_data_slice c)) =
      map (\<lambda>d. unat (ds_length d)) (cg_accounts_data_slice c)" by (simp add: data_slices_new_def)
  moreover have "\<forall>(a, b) \<in> set (data_slices_new (cg_accounts_data_slice c)). a \<le> b"
    using e by (auto simp: data_slices_new_def word_le_nat_alt)
  ultimately show ?thesis using assms by (simp add: slices_typed_def slices_in_range_def)
qed

lemma wanted_typed:
  assumes "wanted vt c com m name u" and "slices_in_range c" and "message_typed P m"
  shows "update_typed P u"
  using assms(1,3) data_slices_typed [OF assms(2)] by (cases m) auto

lemma message_typed_readable: "message_typed P m \<Longrightarrow> message_readable m"
  by (cases m) (auto simp: account_typed_def transaction_typed_def message_account_data_def range_ok_def slice_def)

lemma typed_encode:
  assumes "prost_codec P" and "update_codec_ok U" and "update_typed P (fu_update w)"
  shows "\<exists>d. \<forall>buf. filtered_update_encode P U w buf = Some (length (buf @ d), buf @ d)"
proof -
  obtain um where um: "update_message_of P U (map name_bytes (fu_filters w)) (fu_update w) = Some um"
    using update_message_typed [OF assms(3)] by blast
  have "length (update_message_encode_raw P um) = update_message_encoded_len P um"
    by (rule prost_codec.update_message_wire [OF assms(1) update_message_of_ok [OF assms(2) um]])
  with um show ?thesis by (auto simp: filtered_update_encode_def encode_reserved_def)
qed

subsection \<open>Reading an update back\<close>

text \<open>Two messages with the same content: the same fields, the same bytes in their ranges, and the same
  values behind the accessors; only the buffer and the positions in it may differ. The error of a dead slot
  is relative to the range of the slot.\<close>

fun same_content :: "'x message \<Rightarrow> 'x message \<Rightarrow> bool" where
  "same_content (M_Slot m) (M_Slot m') \<longleftrightarrow> m' = m\<lparr>ms_buffer := ms_buffer m', ms_range := ms_range m'\<rparr> \<and>
     range_slice (ms_range m') (ms_buffer m') = range_slice (ms_range m) (ms_buffer m)"
| "same_content (M_Account m) (M_Account m') \<longleftrightarrow>
     m' = m\<lparr>ma_buffer := ma_buffer m', ma_range := ma_range m', ma_data := ma_data m', ma_account_offset := ma_account_offset m',
       ma_txn_signature_offset := ma_txn_signature_offset m', ma_write_version := ma_write_version m'\<rparr> \<and>
     range_slice (ma_range m') (ma_buffer m') = range_slice (ma_range m) (ma_buffer m) \<and>
     message_account_data m' = message_account_data m \<and>
     message_account_txn_signature m' = message_account_txn_signature m \<and>
     ma_write_version m' + fst (ma_range m) = ma_write_version m + fst (ma_range m') \<and>
     ma_account_offset m' + fst (ma_range m) = ma_account_offset m + fst (ma_range m')"
| "same_content (M_Transaction m) (M_Transaction m') \<longleftrightarrow>
     m' = m\<lparr>mt_buffer := mt_buffer m', mt_range := mt_range m', mt_transaction_range := mt_transaction_range m',
       mt_signature_offset := mt_signature_offset m'\<rparr> \<and>
     range_slice (mt_range m') (mt_buffer m') = range_slice (mt_range m) (mt_buffer m) \<and>
     range_slice (mt_transaction_range m') (mt_buffer m') = range_slice (mt_transaction_range m) (mt_buffer m) \<and>
     message_transaction_signature m' = message_transaction_signature m"
| "same_content (M_Entry m) (M_Entry m') \<longleftrightarrow> m' = m\<lparr>me_buffer := me_buffer m', me_range := me_range m'\<rparr> \<and>
     range_slice (me_range m') (me_buffer m') = range_slice (me_range m) (me_buffer m)"
| "same_content (M_BlockMeta m) (M_BlockMeta m') \<longleftrightarrow> m' = m\<lparr>mb_buffer := mb_buffer m', mb_range := mb_range m'\<rparr> \<and>
     range_slice (mb_range m') (mb_buffer m') = range_slice (mb_range m) (mb_buffer m)"
| "same_content (M_BlockFooter f ts n) (M_BlockFooter f' ts' n') \<longleftrightarrow> f' = f \<and> ts' = ts"
| "same_content (M_EntryUpdateParent u ts n) (M_EntryUpdateParent u' ts' n') \<longleftrightarrow> u' = u \<and> ts' = ts"
| "same_content _ _ \<longleftrightarrow> False"

text \<open>The generated encoders and decoders of the messages that are not kept as bytes agree.\<close>

definition generated_inverse :: "'x update_codec \<Rightarrow> 'x gen_codec \<Rightarrow> bool" where
  "generated_inverse U G \<longleftrightarrow> (\<forall>f. decode_block_footer G (mo_raw (uc_block_footer U f True)) = Inr f) \<and>
     (\<forall>u. decode_entry_update_parent G (mo_raw (uc_entry_update_parent U u)) = Inr u)"

text \<open>The update that carries a whole message reads back with the same content.\<close>

definition reads_back :: "prost \<Rightarrow> 'x update_codec \<Rightarrow> 'x gen_codec \<Rightarrow> string list \<Rightarrow> 'x message \<Rightarrow> bool" where
  "reads_back P U G names m \<longleftrightarrow> (\<exists>d. encode_to_vec P U \<lparr>fu_filters = names, fu_update = whole_update (parsed_from m)\<rparr> = Some d \<and>
     (length d < 2 ^ 64 \<longrightarrow> (\<exists>m'. limited_parse P G d = Some (Inr m') \<and> same_content m m')))"

text \<open>The nested account of a \<open>LA_Fields\<close> as the plugin's encoder sees it, and the fields that follow it.\<close>

definition replica_of_inner :: "limited_account_inner \<Rightarrow> replica_account" where
  "replica_of_inner a = \<lparr>ra_pubkey = li_pubkey a, ra_lamports = li_lamports a, ra_owner = li_owner a, ra_executable = li_executable a,
     ra_rent_epoch = li_rent_epoch a, ra_data = li_data a, ra_write_version = li_write_version a, ra_txn = li_txn_signature a\<rparr>"

definition fields_rest :: "prost \<Rightarrow> slot \<Rightarrow> bool \<Rightarrow> bank_id option \<Rightarrow> bytes" where
  "fields_rest P sl is_startup bank = (if sl \<noteq> 0 then uint64_encode P 2 sl else []) @
     (if \<not> is_startup then bool_encode P 3 is_startup else []) @ enc_opt (uint64_encode P 4) bank"

lemma slice_nested:
  assumes "slice i j buf = Some inner" and "b \<le> length inner"
  shows "slice (a + i) (b + i) buf = slice a b inner"
  using assms by (auto simp: slice_def drop_take add.commute min_def split: if_splits)

lemma slice_nested_offset:
  assumes "slice i j buf = Some inner" and "a + n \<le> length inner"
  shows "slice (a + i) (a + i + n) buf = slice a (a + n) inner"
  using slice_nested [OF assms, of a] by (simp add: ac_simps)

context prost_codec
begin

lemma limited_update_message: "limited_update_encode P u =
    message_encode P (limited_update_tag u) \<lparr>mo_len = limited_update_len P u, mo_raw = limited_update_body P u\<rparr>"
  by (simp add: limited_update_encode_def message_field)

lemma named_update_decode:
  fixes names t x ts
  defines "d \<equiv> concat (map (bytes_encode P 1) names) @ message_encode P t x @ message_encode P 11 (timestamp_msg P ts)"
  assumes t: "t \<in> {2, 3, 4, 5, 7, 8, 10, 12, 13}" and ok: "message_ok x" and len: "length d < 2 ^ 64"
  obtains v where "decode_update P d = Some (Inr \<lparr>ud_update_oneof = Some v, ud_created_at = Some ts, ud_richat_update = False\<rparr>)"
    and "oneof_tag v = t" and "slice (fst (oneof_range v)) (snd (oneof_range v)) d = Some (mo_raw x)"
proof -
  define N where "N = length d"
  define M where "M = (\<lambda>m t w b. update_merge_field P m t w b N)"
  let ?ts = "message_encode P 11 (timestamp_msg P ts)"
  have lx: "length (message_encode P t x) < 2 ^ 64" using len by (simp add: d_def)
  have ln: "length name < 2 ^ 64" if "name \<in> set names" for name
  proof -
    have "length name \<le> length (bytes_encode P 1 name)" by (simp add: bytes_encode_def)
    also have "\<dots> \<le> length (concat (map (bytes_encode P 1) names))" using that by (rule length_concat_member)
    finally show ?thesis using len by (simp add: d_def)
  qed
  have names: "field_loop P M 0 m (concat (map (bytes_encode P 1) names) @ r) = field_loop P M 0 (fold (\<lambda>_ m. m) names m) r" for m r
  proof (rule loop_concat)
    fix x m r
    assume "x \<in> set names"
    from ln [OF this] show "field_loop P M 0 m (bytes_encode P 1 x @ r) = field_loop P M 0 m r"
      by (intro loop_bytes) (simp_all add: valid_tag_def M_def update_merge_field_def wire_type_same decode_len_back)
  qed simp
  have id: "fold (\<lambda>_ m. m) names m = m" for m :: update_decode by (induction names) auto
  from update_oneof_field [OF t ok lx, of update_decode_default N ?ts] obtain v where
    v: "oneof_tag v = t" "oneof_range v = (N - length (mo_raw x @ ?ts), N - length ?ts)"
    and l: "field_loop P M 0 update_decode_default (message_encode P t x @ ?ts) =
      field_loop P M 0 (update_decode_default\<lparr>ud_update_oneof := Some v\<rparr>) ?ts"
    by (auto simp: M_def update_decode_default_def)
  have "field_loop P M 0 (update_decode_default\<lparr>ud_update_oneof := Some v\<rparr>) (?ts @ []) =
      field_loop P M 0 (update_decode_default\<lparr>ud_update_oneof := Some v, ud_created_at := Some ts\<rparr>) []"
    unfolding M_def by (subst created_at_field) (simp_all add: update_decode_default_def)
  then have "field_loop P M 0 update_decode_default d =
      Some (Inr (\<lparr>ud_update_oneof = Some v, ud_created_at = Some ts, ud_richat_update = False\<rparr>, []))"
    using l by (simp add: d_def names id loop_done update_decode_default_def)
  then have "decode_update P d = Some (Inr \<lparr>ud_update_oneof = Some v, ud_created_at = Some ts, ud_richat_update = False\<rparr>)"
    by (simp add: decode_update_def limited_decode_def M_def N_def)
  moreover have "slice (fst (oneof_range v)) (snd (oneof_range v)) d = Some (mo_raw x)"
    by (simp add: v N_def d_def message_field slice_def)
  ultimately show ?thesis using that v(1) by blast
qed

lemma moved_slot:
  assumes "parse_slot P data ts r = Some (Inr m)" and "slice (fst r) (snd r) data = Some inner"
    and "slice (fst r') (snd r') d = Some inner"
  shows "parse_slot P d ts r' = Some (Inr (m\<lparr>ms_buffer := d, ms_range := r'\<rparr>))" and "ms_buffer m = data" and "ms_range m = r"
    and "ms_created_at m = ts"
proof -
  from assms(1,2) obtain a st where a: "decode_slot P inner = Some (Inr a)" "slot_status_try_from (sd_status a) = Some st"
    "m = \<lparr>ms_slot = sd_slot a, ms_parent = sd_parent a, ms_status = st, ms_dead_error = sd_dead_error a, ms_bank_id = sd_bank_id a,
      ms_created_at = ts, ms_buffer = data, ms_range = r\<rparr>"
    unfolding parse_slot_def by (elim with_decodedE) (auto split: option.splits)
  with assms(3) show "parse_slot P d ts r' = Some (Inr (m\<lparr>ms_buffer := d, ms_range := r'\<rparr>))"
    by (simp add: parse_slot_def with_decoded_def)
  show "ms_buffer m = data" "ms_range m = r" "ms_created_at m = ts" by (simp_all add: a)
qed

lemma moved_entry:
  assumes "parse_entry P data ts r = Some (Inr m)" and "slice (fst r) (snd r) data = Some inner"
    and "slice (fst r') (snd r') d = Some inner"
  shows "parse_entry P d ts r' = Some (Inr (m\<lparr>me_buffer := d, me_range := r'\<rparr>))" and "me_buffer m = data" and "me_range m = r"
    and "me_created_at m = ts"
proof -
  from assms(1,2) obtain a where a: "decode_entry P inner = Some (Inr a)"
    "m = \<lparr>me_slot = ed_slot a, me_index = ed_index a, me_executed_transaction_count = ed_executed_transaction_count a,
      me_bank_id = ed_bank_id a, me_created_at = ts, me_buffer = data, me_range = r\<rparr>"
    unfolding parse_entry_def by (elim with_decodedE) auto
  with assms(3) show "parse_entry P d ts r' = Some (Inr (m\<lparr>me_buffer := d, me_range := r'\<rparr>))"
    by (simp add: parse_entry_def with_decoded_def)
  show "me_buffer m = data" "me_range m = r" "me_created_at m = ts" by (simp_all add: a)
qed

lemma moved_block_meta:
  assumes "parse_block_meta G data ts r = Some (Inr m)" and "slice (fst r) (snd r) data = Some inner"
    and "slice (fst r') (snd r') d = Some inner"
  shows "parse_block_meta G d ts r' = Some (Inr (m\<lparr>mb_buffer := d, mb_range := r'\<rparr>))" and "mb_buffer m = data" and "mb_range m = r"
    and "mb_created_at m = ts"
proof -
  from assms(1,2) obtain a h where a: "decode_block_meta G inner = Inr a" "ok_or (PE_FieldNotDefined ''block_height'') (bm_block_height a) = Inr h"
    "m = \<lparr>mb_block_meta = a, mb_block_height = h, mb_created_at = ts, mb_buffer = data, mb_range = r\<rparr>"
    unfolding parse_block_meta_def by (elim with_decodedE) (auto simp: map_ok_Inr_iff)
  with assms(3) show "parse_block_meta G d ts r' = Some (Inr (m\<lparr>mb_buffer := d, mb_range := r'\<rparr>))"
    by (simp add: parse_block_meta_def with_decoded_def)
  show "mb_buffer m = data" "mb_range m = r" "mb_created_at m = ts" by (simp_all add: a)
qed

lemma moved_account:
  assumes p: "parse_account P data ts r = Some (Inr m)" and s: "slice (fst r) (snd r) data = Some inner"
    and s': "slice (fst r') (snd r') d = Some inner"
  shows "\<exists>m'. parse_account P d ts r' = Some (Inr m') \<and> same_content (M_Account m) (M_Account m')"
    and "ma_buffer m = data" and "ma_range m = r" and "ma_created_at m = ts"
proof -
  from p s obtain a where a: "decode_account P inner = Some (Inr a)" "ad_account a \<noteq> usize_MAX" "m = account_of_decoded data ts r a"
    unfolding parse_account_def by (elim with_decodedE) (auto split: if_splits)
  show "ma_buffer m = data" "ma_range m = r" "ma_created_at m = ts" by (simp_all add: a account_of_decoded_def)
  have ok: "account_ranges_ok (length inner) a" using decode_account_safe [of inner] a(1) by auto
  then have b: "snd (ad_data a) \<le> length inner" "\<And>i. ad_txn_signature_offset a = Some i \<Longrightarrow> i + 64 \<le> length inner"
    by (auto simp: account_ranges_ok_def range_ok_def SIGNATURE_BYTES_def)
  let ?m' = "account_of_decoded d ts r' a"
  have "message_account_data ?m' = message_account_data m"
    by (simp add: message_account_data_def a(3) account_of_decoded_def slice_nested [OF s b(1)] slice_nested [OF s' b(1)])
  moreover have "message_account_txn_signature ?m' = message_account_txn_signature m"
    using slice_nested_offset [OF s b(2)] slice_nested_offset [OF s' b(2)]
    by (cases "ad_txn_signature_offset a") (simp_all add: message_account_txn_signature_def a(3) account_of_decoded_def)
  moreover have "parse_account P d ts r' = Some (Inr ?m')"
    using a(1,2) s' by (simp add: parse_account_def with_decoded_def)
  ultimately show "\<exists>m'. parse_account P d ts r' = Some (Inr m') \<and> same_content (M_Account m) (M_Account m')"
    using s s' by (intro exI [of _ ?m']) (simp add: a(3) account_of_decoded_def range_slice_def)
qed

lemma moved_transaction:
  assumes p: "parse_transaction P G data ts r = Some (Inr m)" and s: "slice (fst r) (snd r) data = Some inner"
    and s': "slice (fst r') (snd r') d = Some inner"
  shows "\<exists>m'. parse_transaction P G d ts r' = Some (Inr m') \<and> same_content (M_Transaction m) (M_Transaction m')"
    and "mt_buffer m = data" and "mt_range m = r" and "mt_created_at m = ts"
proof -
  let ?k = "\<lambda>t tr info. map_option (map_ok (\<lambda>err. \<lparr>mt_signature_offset = map_option (\<lambda>offset. fst tr + offset) (ti_signature_offset info),
      mt_error = err, mt_account_keys = ti_account_keys info, mt_is_vote = ti_is_vote info, mt_index = ti_index info,
      mt_transaction_range = tr, mt_slot = td_slot t, mt_bank_id = td_bank_id t, mt_created_at = ts, mt_buffer = data, mt_range = r\<rparr>))
      (parse_transaction_error G data tr (ti_err info))"
  from p s obtain t tr where t: "decode_transaction P inner = Some (Inr t)" "td_transaction t = Some tr"
    and w: "with_decoded data (fst tr + fst r, snd tr + fst r) (decode_transaction_info P) (?k t (fst tr + fst r, snd tr + fst r)) = Some (Inr m)"
    unfolding parse_transaction_def by (elim with_decodedE) (auto simp: Let_def split: option.splits)
  let ?tr = "(fst tr + fst r, snd tr + fst r)" and ?tr' = "(fst tr + fst r', snd tr + fst r')"
  from w obtain x info where x: "slice (fst ?tr) (snd ?tr) data = Some x" and i: "decode_transaction_info P x = Some (Inr info)"
    and k: "?k t ?tr info = Some (Inr m)" by (rule with_decodedE)
  from k obtain err where e: "parse_transaction_error G data ?tr (ti_err info) = Some (Inr err)"
    and m: "m = \<lparr>mt_signature_offset = map_option (\<lambda>offset. fst ?tr + offset) (ti_signature_offset info),
      mt_error = err, mt_account_keys = ti_account_keys info, mt_is_vote = ti_is_vote info, mt_index = ti_index info,
      mt_transaction_range = ?tr, mt_slot = td_slot t, mt_bank_id = td_bank_id t, mt_created_at = ts, mt_buffer = data, mt_range = r\<rparr>"
    by (auto simp: map_ok_Inr_iff)
  show "mt_buffer m = data" "mt_range m = r" "mt_created_at m = ts" by (simp_all add: m)
  have b: "snd tr \<le> length inner"
    using decode_transaction_safe [of inner] t by (auto simp: transaction_ranges_ok_def range_ok_def)
  have x': "slice (fst ?tr') (snd ?tr') d = Some x"
    using x slice_nested [OF s b, of "fst tr"] slice_nested [OF s' b, of "fst tr"] by simp
  have ib: "\<And>i. ti_signature_offset info = Some i \<Longrightarrow> i + SIGNATURE_BYTES \<le> length x" "\<And>r. ti_err info = Some r \<Longrightarrow> snd r \<le> length x"
    using decode_transaction_info_safe [of x] i by (auto simp: transaction_info_ranges_ok_def range_ok_def)
  have e': "parse_transaction_error G d ?tr' (ti_err info) = Some (Inr err)"
  proof (cases "ti_err info")
    case (Some er)
    from slice_nested [OF x ib(2) [OF Some], of "fst er"] slice_nested [OF x' ib(2) [OF Some], of "fst er"] e Some
    show ?thesis by (simp add: parse_transaction_error_def add.commute)
  qed (use e in \<open>simp add: parse_transaction_error_def\<close>)
  let ?m' = "m\<lparr>mt_signature_offset := map_option (\<lambda>offset. fst ?tr' + offset) (ti_signature_offset info),
    mt_transaction_range := ?tr', mt_buffer := d, mt_range := r'\<rparr>"
  have "message_transaction_signature ?m' = message_transaction_signature m"
    using slice_nested_offset [OF x ib(1)] slice_nested_offset [OF x' ib(1)]
    by (cases "ti_signature_offset info") (simp_all add: message_transaction_signature_def m add.commute)
  moreover have "parse_transaction P G d ts r' = Some (Inr ?m')"
    using t s' x' i e' by (simp add: parse_transaction_def with_decoded_def Let_def m)
  ultimately show "\<exists>m'. parse_transaction P G d ts r' = Some (Inr m') \<and> same_content (M_Transaction m) (M_Transaction m')"
    using s s' x x' by (intro exI [of _ ?m']) (simp add: m range_slice_def)
qed

lemma limited_parse_named:
  assumes "d = update_message_encode_raw P (UM_Limited names u ts)" and "length (limited_update_body P u) = limited_update_len P u"
    and "length d < 2 ^ 64"
  obtains v where "oneof_tag v = limited_update_tag u"
    and "slice (fst (oneof_range v)) (snd (oneof_range v)) d = Some (limited_update_body P u)"
    and "limited_parse P G d = parse_oneof P G d ts v"
proof -
  let ?x = "\<lparr>mo_len = limited_update_len P u, mo_raw = limited_update_body P u\<rparr>"
  have t: "limited_update_tag u \<in> {2, 3, 4, 5, 7, 8, 10, 12, 13}" by (cases u) auto
  have d: "d = concat (map (bytes_encode P 1) names) @ message_encode P (limited_update_tag u) ?x @ message_encode P 11 (timestamp_msg P ts)"
    by (simp add: assms(1) limited_update_message)
  have "message_ok ?x" using assms(2) by simp
  from named_update_decode [OF t this assms(3) [unfolded d]] obtain v where
    "decode_update P d = Some (Inr \<lparr>ud_update_oneof = Some v, ud_created_at = Some ts, ud_richat_update = False\<rparr>)"
    "oneof_tag v = limited_update_tag u" "slice (fst (oneof_range v)) (snd (oneof_range v)) d = Some (mo_raw ?x)"
    unfolding d by blast
  then show ?thesis by (intro that [of v]) (simp_all add: limited_parse_def)
qed

lemma limited_parse_prost:
  assumes "d = update_message_encode_raw P (UM_Prost names t x ts)" and "t \<in> {12, 13}" and "message_ok x"
    and "length d < 2 ^ 64"
  obtains v where "oneof_tag v = t" and "slice (fst (oneof_range v)) (snd (oneof_range v)) d = Some (mo_raw x)"
    and "limited_parse P G d = parse_oneof P G d ts v"
proof -
  have t: "t \<in> {2, 3, 4, 5, 7, 8, 10, 12, 13}" using assms(2) by auto
  have d: "d = concat (map (bytes_encode P 1) names) @ message_encode P t x @ message_encode P 11 (timestamp_msg P ts)"
    by (simp add: assms(1))
  from named_update_decode [OF t assms(3) assms(4) [unfolded d]] obtain v where
    "decode_update P d = Some (Inr \<lparr>ud_update_oneof = Some v, ud_created_at = Some ts, ud_richat_update = False\<rparr>)"
    "oneof_tag v = t" "slice (fst (oneof_range v)) (snd (oneof_range v)) d = Some (mo_raw x)"
    unfolding d by blast
  then show ?thesis by (intro that [of v]) (simp_all add: limited_parse_def)
qed

text \<open>Which reader a parsed message comes from.\<close>

lemma parsed_message_origin:
  assumes "limited_parse P G data = Some (Inr m)"
  shows "case m of M_Slot x \<Rightarrow> \<exists>ts r. parse_slot P data ts r = Some (Inr x)
    | M_Account x \<Rightarrow> \<exists>ts r. parse_account P data ts r = Some (Inr x)
    | M_Transaction x \<Rightarrow> \<exists>ts r. parse_transaction P G data ts r = Some (Inr x)
    | M_Entry x \<Rightarrow> \<exists>ts r. parse_entry P data ts r = Some (Inr x)
    | M_BlockMeta x \<Rightarrow> \<exists>ts r. parse_block_meta G data ts r = Some (Inr x)
    | _ \<Rightarrow> True"
proof -
  have richat: "parse_richat G u n = Inr m \<Longrightarrow> ?thesis" for u n
    by (cases "snd u"; cases "the (snd u)") (auto simp: parse_richat_def and_then_Inr_iff map_ok_Inr_iff)
  from assms obtain y where y: "decode_update P data = Some y" by (auto simp: limited_parse_def bind_eq_Some_conv)
  with assms obtain u where u: "decode_update P data = Some (Inr u)" by (cases y) (auto simp: limited_parse_def)
  from assms u obtain ts where ts: "ud_created_at u = Some ts" by (auto simp: limited_parse_def split: option.splits)
  show ?thesis
  proof (cases "ud_update_oneof u")
    case None
    with assms u ts show ?thesis by (auto simp: limited_parse_def and_then_Inr_iff intro: richat split: if_splits)
  next
    case (Some v)
    with assms u ts have "parse_oneof P G data ts v = Some (Inr m)" by (simp add: limited_parse_def)
    then show ?thesis
      by (cases v; auto simp: parse_oneof_def map_ok_Inr_iff simp del: split_paired_Ex elim!: with_decodedE; blast)
  qed
qed

lemma limited_reads_back:
  assumes "\<And>names. update_message_of P U names (whole_update (parsed_from m)) = Some (UM_Limited names u ts)"
    and l: "length (limited_update_body P u) = limited_update_len P u"
    and rd: "\<And>d v. oneof_tag v = limited_update_tag u \<Longrightarrow>
      slice (fst (oneof_range v)) (snd (oneof_range v)) d = Some (limited_update_body P u) \<Longrightarrow>
      \<exists>m'. parse_oneof P G d ts v = Some (Inr m') \<and> same_content m m'"
  shows "reads_back P U G names m"
proof -
  let ?d = "update_message_encode_raw P (UM_Limited (map name_bytes names) u ts)"
  have "encode_to_vec P U \<lparr>fu_filters = names, fu_update = whole_update (parsed_from m)\<rparr> = Some ?d"
    by (simp add: encode_to_vec_def filtered_update_encode_def encode_reserved_def assms(1))
  moreover have "\<exists>m'. limited_parse P G ?d = Some (Inr m') \<and> same_content m m'" if len: "length ?d < 2 ^ 64"
  proof -
    obtain v where "oneof_tag v = limited_update_tag u"
      "slice (fst (oneof_range v)) (snd (oneof_range v)) ?d = Some (limited_update_body P u)"
      "limited_parse P G ?d = parse_oneof P G ?d ts v" by (rule limited_parse_named [OF HOL.refl l len])
    with rd [of v ?d] show ?thesis by simp
  qed
  ultimately show ?thesis unfolding reads_back_def by blast
qed

lemma prost_reads_back:
  assumes "\<And>names. update_message_of P U names (whole_update (parsed_from m)) = Some (UM_Prost names t x ts)"
    and t: "t \<in> {12, 13}" and ok: "message_ok x"
    and rd: "\<And>d v. oneof_tag v = t \<Longrightarrow> slice (fst (oneof_range v)) (snd (oneof_range v)) d = Some (mo_raw x) \<Longrightarrow>
      \<exists>m'. parse_oneof P G d ts v = Some (Inr m') \<and> same_content m m'"
  shows "reads_back P U G names m"
proof -
  let ?d = "update_message_encode_raw P (UM_Prost (map name_bytes names) t x ts)"
  have "encode_to_vec P U \<lparr>fu_filters = names, fu_update = whole_update (parsed_from m)\<rparr> = Some ?d"
    by (simp add: encode_to_vec_def filtered_update_encode_def encode_reserved_def assms(1))
  moreover have "\<exists>m'. limited_parse P G ?d = Some (Inr m') \<and> same_content m m'" if len: "length ?d < 2 ^ 64"
  proof -
    obtain v where "oneof_tag v = t" "slice (fst (oneof_range v)) (snd (oneof_range v)) ?d = Some (mo_raw x)"
      "limited_parse P G ?d = parse_oneof P G ?d ts v" by (rule limited_parse_prost [OF HOL.refl t ok len])
    with rd [of v ?d] show ?thesis by simp
  qed
  ultimately show ?thesis unfolding reads_back_def by blast
qed

lemma slot_reads_back:
  assumes s: "parse_slot P data ts r = Some (Inr x)"
  shows "reads_back P U G names (M_Slot x)"
proof -
  obtain inner where i: "slice (fst r) (snd r) data = Some inner" using s unfolding parse_slot_def by (rule with_decodedE)
  note mv = moved_slot [OF s i]
  show ?thesis
  proof (rule limited_reads_back [of _ _ "LU_Slot inner" ts])
    fix d v assume v: "oneof_tag v = limited_update_tag (LU_Slot inner)"
      "slice (fst (oneof_range v)) (snd (oneof_range v)) d = Some (limited_update_body P (LU_Slot inner))"
    then obtain r' where "v = UO_Slot r'" by (cases v) auto
    with v mv(1) [of r' d] mv(2-4) [OF i] i show "\<exists>m'. parse_oneof P G d ts v = Some (Inr m') \<and> same_content (M_Slot x) m'"
      by (simp add: parse_oneof_def range_slice_def)
  qed (use i mv(2-4) [OF i] in \<open>simp_all add: range_slice_def\<close>)
qed

lemma account_reads_back:
  assumes s: "parse_account P data ts r = Some (Inr x)"
  shows "reads_back P U G names (M_Account x)"
proof -
  obtain inner where i: "slice (fst r) (snd r) data = Some inner" using s unfolding parse_account_def by (rule with_decodedE)
  note mv = moved_account [OF s i]
  show ?thesis
  proof (rule limited_reads_back [of _ _ "LU_Account (LA_Slice inner)" ts])
    fix d v assume v: "oneof_tag v = limited_update_tag (LU_Account (LA_Slice inner))"
      "slice (fst (oneof_range v)) (snd (oneof_range v)) d = Some (limited_update_body P (LU_Account (LA_Slice inner)))"
    then obtain r' where "v = UO_Account r'" by (cases v) auto
    with v mv(1) [of r' d] show "\<exists>m'. parse_oneof P G d ts v = Some (Inr m') \<and> same_content (M_Account x) m'"
      by (auto simp: parse_oneof_def)
  qed (use i mv(2-4) [OF i] in \<open>simp_all add: range_slice_def\<close>)
qed

lemma transaction_reads_back:
  assumes s: "parse_transaction P G data ts r = Some (Inr x)"
  shows "reads_back P U G names (M_Transaction x)"
proof -
  obtain inner where i: "slice (fst r) (snd r) data = Some inner" using s unfolding parse_transaction_def by (rule with_decodedE)
  note mv = moved_transaction [OF s i]
  show ?thesis
  proof (rule limited_reads_back [of _ _ "LU_Transaction inner" ts])
    fix d v assume v: "oneof_tag v = limited_update_tag (LU_Transaction inner)"
      "slice (fst (oneof_range v)) (snd (oneof_range v)) d = Some (limited_update_body P (LU_Transaction inner))"
    then obtain r' where "v = UO_Transaction r'" by (cases v) auto
    with v mv(1) [of r' d] show "\<exists>m'. parse_oneof P G d ts v = Some (Inr m') \<and> same_content (M_Transaction x) m'"
      by (auto simp: parse_oneof_def)
  qed (use i mv(2-4) [OF i] in \<open>simp_all add: range_slice_def\<close>)
qed

lemma entry_reads_back:
  assumes s: "parse_entry P data ts r = Some (Inr x)"
  shows "reads_back P U G names (M_Entry x)"
proof -
  obtain inner where i: "slice (fst r) (snd r) data = Some inner" using s unfolding parse_entry_def by (rule with_decodedE)
  note mv = moved_entry [OF s i]
  show ?thesis
  proof (rule limited_reads_back [of _ _ "LU_Entry inner" ts])
    fix d v assume v: "oneof_tag v = limited_update_tag (LU_Entry inner)"
      "slice (fst (oneof_range v)) (snd (oneof_range v)) d = Some (limited_update_body P (LU_Entry inner))"
    then obtain r' where "v = UO_Entry r'" by (cases v) auto
    with v mv(1) [of r' d] mv(2-4) [OF i] i show "\<exists>m'. parse_oneof P G d ts v = Some (Inr m') \<and> same_content (M_Entry x) m'"
      by (simp add: parse_oneof_def range_slice_def)
  qed (use i mv(2-4) [OF i] in \<open>simp_all add: range_slice_def\<close>)
qed

lemma block_meta_reads_back:
  assumes s: "parse_block_meta G data ts r = Some (Inr x)"
  shows "reads_back P U G names (M_BlockMeta x)"
proof -
  obtain inner where i: "slice (fst r) (snd r) data = Some inner" using s unfolding parse_block_meta_def by (rule with_decodedE)
  note mv = moved_block_meta [OF s i]
  show ?thesis
  proof (rule limited_reads_back [of _ _ "LU_BlockMeta inner" ts])
    fix d v assume v: "oneof_tag v = limited_update_tag (LU_BlockMeta inner)"
      "slice (fst (oneof_range v)) (snd (oneof_range v)) d = Some (limited_update_body P (LU_BlockMeta inner))"
    then obtain r' where "v = UO_BlockMeta r'" by (cases v) auto
    with v mv(1) [of r' d] mv(2-4) [OF i] i show "\<exists>m'. parse_oneof P G d ts v = Some (Inr m') \<and> same_content (M_BlockMeta x) m'"
      by (simp add: parse_oneof_def range_slice_def)
  qed (use i mv(2-4) [OF i] in \<open>simp_all add: range_slice_def\<close>)
qed

lemma generated_reads_back:
  assumes "update_codec_ok U" "generated_inverse U G"
  shows "reads_back P U G names (M_BlockFooter f ts n)" and "reads_back P U G names (M_EntryUpdateParent u ts n)"
proof -
  show "reads_back P U G names (M_BlockFooter f ts n)"
  proof (rule prost_reads_back [of _ _ 12 "uc_block_footer U f True" ts])
    fix d v assume v: "oneof_tag v = 12" "slice (fst (oneof_range v)) (snd (oneof_range v)) d = Some (mo_raw (uc_block_footer U f True))"
    then obtain r' where "v = UO_BlockFooter r'" by (cases v) auto
    with v assms(2) show "\<exists>m'. parse_oneof P G d ts v = Some (Inr m') \<and> same_content (M_BlockFooter f ts n) m'"
      by (simp add: parse_oneof_def with_decoded_def generated_inverse_def)
  qed (use assms(1) in \<open>simp_all add: update_codec_ok_def\<close>)
  show "reads_back P U G names (M_EntryUpdateParent u ts n)"
  proof (rule prost_reads_back [of _ _ 13 "uc_entry_update_parent U u" ts])
    fix d v assume v: "oneof_tag v = 13" "slice (fst (oneof_range v)) (snd (oneof_range v)) d = Some (mo_raw (uc_entry_update_parent U u))"
    then obtain r' where "v = UO_EntryUpdateParent r'" by (cases v) auto
    with v assms(2) show "\<exists>m'. parse_oneof P G d ts v = Some (Inr m') \<and> same_content (M_EntryUpdateParent u ts n) m'"
      by (simp add: parse_oneof_def with_decoded_def generated_inverse_def)
  qed (use assms(1) in \<open>simp_all add: update_codec_ok_def\<close>)
qed

lemma parsed_reads_back:
  assumes "update_codec_ok U" and "generated_inverse U G" and "limited_parse P G data = Some (Inr m)"
  shows "reads_back P U G names m"
  using parsed_message_origin [OF assms(3)] generated_reads_back [OF assms(1,2)]
  by (cases m) (auto intro: slot_reads_back account_reads_back transaction_reads_back entry_reads_back block_meta_reads_back)

text \<open>An account that is written field by field is the nested account of the plugin's encoder, followed by
  the fields of the update.\<close>

lemma account_inner_replica: "account_inner_encode_raw P a = account_info_encode_raw P (replica_of_inner a)"
  by (simp add: account_inner_encode_raw_def account_info_encode_raw_def replica_of_inner_def)

lemma fields_layout: "limited_account_encode_raw P (LA_Fields a sl is_startup bank) = encode_key P 1 LengthDelimited @
    encode_varint P (of_nat (length (account_info_encode_raw P (replica_of_inner a)))) @ account_info_encode_raw P (replica_of_inner a) @
    fields_rest P sl is_startup bank"
  using account_inner_wire [of a] by (simp add: fields_rest_def account_inner_replica)

lemma account_nested_step:
  assumes "account_sized a" and d: "d = encode_key P 1 LengthDelimited @
      encode_varint P (of_nat (length (account_info_encode_raw P a))) @ account_info_encode_raw P a @ S" and len: "length d < 2 ^ 64"
    and M: "M = (\<lambda>m t w b. account_update_merge_field P m t w b (length d))"
  shows "field_loop P M 0 account_decode_default d = field_loop P M 0 (account_decode_at P (length d) S a) S"
proof -
  let ?I = "account_info_encode_raw P a"
  let ?V = "encode_varint P (of_nat (length ?I))"
  have il: "length ?I < 2 ^ 64" using len by (simp add: d)
  have "length (ra_data a) \<le> length (account_head_fields P a)"
    by (cases "ra_data a") (simp_all add: account_head_fields_def bytes_encode_def)
  then have dl: "length (ra_data a) < 2 ^ 64" using il by (simp add: account_info_layout)
  have off: "length d - length (?V @ ?I @ S) = key_len P 1" by (simp add: d key_length [of 1 LengthDelimited])
  have "M account_decode_default 1 LengthDelimited (?V @ ?I @ S) = Some (Inr (account_decode_at P (length d) S a, S))"
    unfolding M account_update_merge_field_def Let_def
    using account_info_loop [OF assms(1) dl HOL.refl, of "length d" S] off il
    by (simp add: wire_type_same account_merge_def nested_merge_def decode_len_back dec_push_def)
  then show ?thesis
    using loop_step [of 1 0 S M account_decode_default LengthDelimited "?V @ ?I"] by (simp add: d valid_tag_def)
qed

lemma fields_decode:
  fixes a sl is_startup bank
  defines "d \<equiv> limited_account_encode_raw P (LA_Fields a sl is_startup bank)"
  assumes "account_sized (replica_of_inner a)" and len: "length d < 2 ^ 64"
  shows "decode_account P d = Some (Inr ((account_decode_at P (length d) (fields_rest P sl is_startup bank) (replica_of_inner a))
      \<lparr>ad_slot := sl, ad_is_startup := False, ad_bank_id := bank\<rparr>))"
proof -
  define M where "M = (\<lambda>m t w b. account_update_merge_field P m t w b (length d))"
  let ?S = "fields_rest P sl is_startup bank"
  let ?m = "account_decode_at P (length d) ?S (replica_of_inner a)"
  have m: "ad_slot ?m = 0" "\<not> ad_is_startup ?m" "ad_bank_id ?m = None" by (simp_all add: account_decode_at_def Let_def)
  have s1: "field_loop P M 0 account_decode_default d = field_loop P M 0 ?m ?S"
    by (rule account_nested_step [OF assms(2) _ len M_def]) (simp only: d_def fields_layout)
  note mf = M_def valid_tag_def account_update_merge_field_def wire_dec
  have s2: "field_loop P M 0 m ((if sl \<noteq> 0 then uint64_encode P 2 sl else []) @ r) =
      field_loop P M 0 (m\<lparr>ad_slot := sl\<rparr>) r" if "ad_slot m = 0" for m r
    using that by (intro loop_if loop_u64) (auto simp: mf)
  have s3: "field_loop P M 0 m ((if \<not> is_startup then bool_encode P 3 is_startup else []) @ r) =
      field_loop P M 0 (m\<lparr>ad_is_startup := False\<rparr>) r" if "\<not> ad_is_startup m" for m r
    using that merge_bool_back [where c = False]
    by (intro loop_if loop_bool) (auto simp: M_def valid_tag_def account_update_merge_field_def)
  have s4: "field_loop P M 0 m (enc_opt (uint64_encode P 4) bank @ r) =
      field_loop P M 0 (m\<lparr>ad_bank_id := bank\<rparr>) r" if "ad_bank_id m = None" for m r
    using that by (intro loop_opt loop_u64) (auto simp: mf)
  have "field_loop P M 0 ?m (?S @ []) = Some (Inr (?m\<lparr>ad_slot := sl, ad_is_startup := False, ad_bank_id := bank\<rparr>, []))"
    using m unfolding fields_rest_def append_assoc by (simp add: s2 s3 s4 loop_done del: append_Nil2)
  then show ?thesis using s1 by (simp add: decode_account_def limited_decode_def M_def)
qed

end

text \<open>The positions that the decoder returns for such an account.\<close>

lemma account_at_slices:
  assumes P: "prost_codec P" and d: "d = pre @ account_info_encode_raw P a @ S" and "account_sized a"
  defines "m \<equiv> account_decode_at P (length d) S a"
  shows "slice (fst (ad_data m)) (snd (ad_data m)) d = Some (ra_data a)"
    and "case ad_txn_signature_offset m of None \<Rightarrow> ra_txn a = None
      | Some i \<Rightarrow> \<exists>s. ra_txn a = Some s \<and> slice i (i + 64) d = Some s"
    and "ra_write_version a \<noteq> 0 \<Longrightarrow> drop (ad_write_version m) d =
      encode_varint P (ra_write_version a) @ account_txn_field P a @ S"
proof -
  show "slice (fst (ad_data m)) (snd (ad_data m)) d = Some (ra_data a)"
  proof (cases "ra_data a = []")
    case False
    have "d = (pre @ bytes_encode P 1 (ra_pubkey a) @
        (if ra_lamports a \<noteq> 0 then uint64_encode P 2 (ra_lamports a) else []) @ bytes_encode P 3 (ra_owner a) @
        (if ra_executable a then bool_encode P 4 (ra_executable a) else []) @
        (if ra_rent_epoch a \<noteq> 0 then uint64_encode P 5 (ra_rent_epoch a) else []) @
        encode_key P 6 LengthDelimited @ encode_varint P (of_nat (length (ra_data a)))) @ ra_data a @
        (account_version_field P a @ account_txn_field P a @ S)"
      using False unfolding d account_info_layout account_head_fields_def by (simp add: bytes_encode_def split del: if_split)
    from slice_range [OF arg_cong [where f = length, OF this]] this
    show ?thesis using False by (simp add: m_def account_decode_at_def Let_def split del: if_split)
  qed (simp add: m_def account_decode_at_def Let_def slice_def)
  show "case ad_txn_signature_offset m of None \<Rightarrow> ra_txn a = None | Some i \<Rightarrow> \<exists>s. ra_txn a = Some s \<and> slice i (i + 64) d = Some s"
  proof (cases "ra_txn a")
    case (Some s)
    then have "length s = 64" using assms(3) by (simp add: account_sized_def SIGNATURE_BYTES_def)
    with Some show ?thesis
      by (simp add: m_def account_decode_at_def Let_def d account_info_layout account_txn_field_def bytes_encode_def slice_def)
  qed (simp add: m_def account_decode_at_def Let_def)
  show "drop (ad_write_version m) d = encode_varint P (ra_write_version a) @ account_txn_field P a @ S" if "ra_write_version a \<noteq> 0"
    using that by (simp add: m_def account_decode_at_def Let_def d account_info_layout account_version_field_def
        prost_codec.uint64_field [OF P])
qed

lemma sliced_account_back:
  assumes P: "prost_codec P" and keys: "length (ma_pubkey m) = PUBKEY_BYTES" "length (ma_owner m) = PUBKEY_BYTES"
    and data: "message_account_data m = Some source" and part: "get_slice slices source = Some part" and ne: "slices \<noteq> []"
    and version: "message_account_write_version P m = Some v" "v \<noteq> 0" and sig: "message_account_txn_signature m \<noteq> Some None"
  obtains a where "account_inner_of P slices m = Some a" and "account_sized (replica_of_inner a)"
    and "li_pubkey a = ma_pubkey m" "li_owner a = ma_owner m" "li_lamports a = ma_lamports m" "li_executable a = ma_executable m"
    "li_rent_epoch a = ma_rent_epoch m" "li_data a = part" "li_write_version a = v"
    and "message_account_txn_signature m = map_option Some (li_txn_signature a)"
proof -
  from sig obtain txn where t: "message_account_txn_signature m = map_option Some txn"
    "(case ma_txn_signature_offset m of None \<Rightarrow> Some None | Some offset \<Rightarrow> map_option Some (slice offset (offset + 64) (ma_buffer m))) = Some txn"
  proof (cases "ma_txn_signature_offset m")
    case (Some i)
    with sig obtain y where "slice i (i + 64) (ma_buffer m) = Some y" by (auto simp: message_account_txn_signature_def)
    with Some show ?thesis by (intro that [of "Some y"]) (simp_all add: message_account_txn_signature_def)
  qed (auto simp: message_account_txn_signature_def)
  have "length s = SIGNATURE_BYTES" if "txn = Some s" for s
    using t(2) that by (auto simp: SIGNATURE_BYTES_def dest!: slice_length split: option.splits)
  with keys data part version t that show ?thesis
    by (force simp: account_inner_of_def range_slice_def message_account_data_def account_sized_def replica_of_inner_def split: option.split)
qed

context prost_codec
begin

lemma fields_parse:
  assumes sz: "account_sized (replica_of_inner a)"
    and d: "d = update_message_encode_raw P (UM_Limited names (LU_Account (LA_Fields a sl is_startup bank)) ts)" and len: "length d < 2 ^ 64"
  obtains r where "slice (fst r) (snd r) d = Some (limited_account_encode_raw P (LA_Fields a sl is_startup bank))"
    and "limited_parse P G d = Some (Inr (M_Account (account_of_decoded d ts r
      ((account_decode_at P (snd r - fst r) (fields_rest P sl is_startup bank) (replica_of_inner a))
        \<lparr>ad_slot := sl, ad_is_startup := False, ad_bank_id := bank\<rparr>))))"
proof -
  let ?u = "LU_Account (LA_Fields a sl is_startup bank)"
  let ?b = "limited_account_encode_raw P (LA_Fields a sl is_startup bank)"
  have "length (limited_update_body P ?u) = limited_update_len P ?u" by (simp add: limited_account_wire del: limited_account_encode_raw.simps limited_account_encoded_len.simps)
  from limited_parse_named [OF d this len, of G] obtain v where v: "oneof_tag v = 2"
    "slice (fst (oneof_range v)) (snd (oneof_range v)) d = Some ?b" "limited_parse P G d = parse_oneof P G d ts v" by auto
  from v(1) obtain r where r: "v = UO_Account r" by (cases v) auto
  then have s: "slice (fst r) (snd r) d = Some ?b" using v(2) by simp
  have b: "length ?b = snd r - fst r" using length_slice [OF s] by simp
  have l: "length ?b < length d"
    unfolding d update_message_encode_raw.simps limited_update_encode_def limited_update_body.simps
    using key_nonempty [of 2 LengthDelimited] by (simp add: valid_tag_def)
  have dec: "decode_account P ?b = Some (Inr ((account_decode_at P (snd r - fst r) (fields_rest P sl is_startup bank) (replica_of_inner a))
      \<lparr>ad_slot := sl, ad_is_startup := False, ad_bank_id := bank\<rparr>))"
    unfolding b [symmetric] by (rule fields_decode [OF sz]) (use l len in linarith)
  have "key_len P 1 \<le> length ?b" by (simp add: key_length [of 1 LengthDelimited])
  then have "key_len P 1 \<noteq> usize_MAX" using l len by (simp add: usize_MAX_def)
  then have "limited_parse P G d = Some (Inr (M_Account (account_of_decoded d ts r
      ((account_decode_at P (snd r - fst r) (fields_rest P sl is_startup bank) (replica_of_inner a))
        \<lparr>ad_slot := sl, ad_is_startup := False, ad_bank_id := bank\<rparr>))))"
    using s dec by (simp add: v(3) r parse_oneof_def parse_account_def with_decoded_def account_decode_at_def Let_def)
  with that s show ?thesis by blast
qed

lemma fields_accessors:
  fixes a sl is_startup bank and ts :: timestamp and d :: bytes and r :: range
  defines "b \<equiv> limited_account_encode_raw P (LA_Fields a sl is_startup bank)"
  assumes sz: "account_sized (replica_of_inner a)" and wv: "li_write_version a \<noteq> 0" and s: "slice (fst r) (snd r) d = Some b"
  defines "m \<equiv> account_of_decoded d ts r ((account_decode_at P (snd r - fst r) (fields_rest P sl is_startup bank) (replica_of_inner a))
    \<lparr>ad_slot := sl, ad_is_startup := False, ad_bank_id := bank\<rparr>)"
  shows "message_account_data m = Some (li_data a)" and "message_account_txn_signature m = map_option Some (li_txn_signature a)"
    and "message_account_write_version P m = Some (li_write_version a)"
proof -
  let ?a = "replica_of_inner a" and ?S = "fields_rest P sl is_startup bank"
  let ?m = "account_decode_at P (length b) ?S ?a"
  have l: "snd r - fst r = length b" and r: "fst r \<le> snd r" "snd r \<le> length d" using length_slice [OF s] by auto
  have b: "b = (encode_key P 1 LengthDelimited @ encode_varint P (of_nat (length (account_info_encode_raw P ?a)))) @ account_info_encode_raw P ?a @ ?S"
    unfolding b_def fields_layout by simp
  note at = account_at_slices [OF prost_codec_axioms b sz]
  have m: "m = account_of_decoded d ts r (?m\<lparr>ad_slot := sl, ad_is_startup := False, ad_bank_id := bank\<rparr>)" by (simp add: m_def l)
  have lb: "snd (ad_data ?m) \<le> length b" using length_slice [OF at(1)] by simp
  show "message_account_data m = Some (li_data a)"
    using slice_nested [OF s lb] at(1) by (simp add: message_account_data_def m account_of_decoded_def replica_of_inner_def)
  show "message_account_txn_signature m = map_option Some (li_txn_signature a)"
  proof (cases "ad_txn_signature_offset ?m")
    case None
    with at(2) show ?thesis by (simp add: message_account_txn_signature_def m account_of_decoded_def replica_of_inner_def)
  next
    case (Some i)
    with at(2) obtain g where g: "li_txn_signature a = Some g" "slice i (i + 64) b = Some g" by (auto simp: replica_of_inner_def)
    with slice_nested_offset [OF s, of i 64] length_slice [OF g(2)] Some show ?thesis
      by (simp add: message_account_txn_signature_def m account_of_decoded_def)
  qed
  have v: "drop (ad_write_version ?m) b = encode_varint P (li_write_version a) @ account_txn_field P ?a @ ?S"
    using at(3) wv by (simp add: replica_of_inner_def)
  have "encode_varint P (li_write_version a) \<noteq> []"
    using varint_prefix [OF varint_decode [of "li_write_version a" "[]"]] by auto
  then have wl: "ad_write_version ?m \<le> length b" using v by (cases "ad_write_version ?m \<le> length b") auto
  have "drop (fst r) d = b @ drop (snd r) d"
  proof -
    have "b = take (snd r - fst r) (drop (fst r) d)" using s by (auto simp: slice_def split: if_splits)
    moreover have "drop (snd r) d = drop (snd r - fst r) (drop (fst r) d)" using r(1) by simp
    ultimately show ?thesis by (simp only: append_take_drop_id)
  qed
  then have "drop (ad_write_version ?m + fst r) d = encode_varint P (li_write_version a) @ account_txn_field P ?a @ ?S @ drop (snd r) d"
    using v wl by (simp flip: drop_drop)
  moreover have "ad_write_version ?m + fst r \<le> length d" using wl l r by linarith
  ultimately show "message_account_write_version P m = Some (li_write_version a)"
    by (simp add: message_account_write_version_def m account_of_decoded_def varint_decode)
qed

end

subsection \<open>Properties\<close>

text \<open>\<^bold>\<open>C38.\<close> Every update that the filter produces is well-formed, and the encoder neither panics on
  it nor misses its length: for a configuration that the limits accept, with memory comparisons and
  data slices inside the address space, and a message whose ranges are inside its buffer, each
  update has its indexes and ranges in bounds, the buffer is reserved for exactly the bytes that
  are written, and what the buffer held before is kept.\<close>

theorem delivered_updates_encode:
  assumes "prost_codec P" and "update_codec_ok U" and "accepted l c" and "slices_in_range c" and "message_typed P m"
  shows "\<exists>F us. filter_new c = Some F \<and> get_updates_ref vt F m com = Some us \<and> (\<forall>w \<in> set us. update_typed P (fu_update w) \<and>
    (\<exists>d. \<forall>buf. filtered_update_encode P U w buf = Some (length (buf @ d), buf @ d)))"
proof -
  from get_updates_wanted [OF assms(3) message_typed_readable [OF assms(5)]] obtain F us where
    F: "filter_new c = Some F" "get_updates_ref vt F m com = Some us" and named: "\<forall>w \<in> set us. fu_filters w \<noteq> []"
    and w: "\<And>name u. delivered us name u \<longleftrightarrow> wanted vt c com m name u" by blast
  have "update_typed P (fu_update w)" if "w \<in> set us" for w
  proof -
    from named that obtain name where "name \<in> set (fu_filters w)" by fastforce
    with that have "delivered us name (fu_update w)" by (auto simp: delivered_def)
    with w wanted_typed assms(4,5) show ?thesis by blast
  qed
  with F typed_encode [OF assms(1,2)] show ?thesis by blast
qed

text \<open>A codec for the generated messages: varints of the reference wire format.\<close>

definition varints :: "u64 \<Rightarrow> u64 \<Rightarrow> message_obj" where
  "varints a b = (let d = encode_varint prost_ref a @ encode_varint prost_ref b in \<lparr>mo_len = length d, mo_raw = d\<rparr>)"

definition read_varints :: "(u64 \<Rightarrow> u64 \<Rightarrow> 'a) \<Rightarrow> bytes \<Rightarrow> decode_error + 'a" where
  "read_varints f d = and_then (decode_varint prost_ref d) (\<lambda>(a, r). map_ok (\<lambda>(b, _). f a b) (decode_varint prost_ref r))"

definition sample_codec :: "unit update_codec" where
  "sample_codec = \<lparr>uc_tx_error = (\<lambda>_. varints 0 0), uc_block_meta = (\<lambda>_. \<lparr>br_blockhash = [], br_rewards = None, br_block_time = None,
     br_block_height = None, br_parent_slot = 0, br_parent_blockhash = []\<rparr>),
     uc_block_footer = (\<lambda>f _. varints (fm_slot f) (fm_bank_id f)),
     uc_entry_update_parent = (\<lambda>u. varints (um_slot u) (um_cleared_bank_id u))\<rparr>"

definition sample_decoder :: "unit gen_codec" where
  "sample_decoder = rejecting_codec\<lparr>decode_block_footer := read_varints (\<lambda>a b. \<lparr>fm_slot = a, fm_bank_id = b\<rparr>),
     decode_entry_update_parent := read_varints (\<lambda>a b. \<lparr>um_slot = a, um_cleared_bank_id = b\<rparr>)\<rparr>"

lemma read_varints_back: "read_varints f (mo_raw (varints a b)) = Inr (f a b)"
  using reference.varint_decode [of b "[]"] by (simp add: read_varints_def varints_def Let_def reference.varint_decode)

lemma sample_codec_ok: "update_codec_ok sample_codec" "generated_inverse sample_codec sample_decoder"
  by (simp_all add: update_codec_ok_def generated_inverse_def sample_codec_def sample_decoder_def read_varints_back)
    (simp add: varints_def Let_def)

lemma sample_version: "message_account_write_version prost_ref sample_account = Some 5"
proof -
  have "encode_varint prost_ref 5 = [5]" by code_simp
  with reference.varint_decode [of 5 "[]"] show ?thesis by (simp add: message_account_write_version_def sample_account_def)
qed

lemma sample_account_typed: "account_typed prost_ref sample_account"
  unfolding account_typed_def sample_version by (simp add: sample_account_def range_ok_def)

theorem delivered_updates_encode_witness:
  "\<exists>F us. filter_new example_config = Some F \<and>
    get_updates_ref (\<lambda>_. False) F (RP_Account sample_account :: unit parsed_message) Processed = Some us \<and>
    (\<forall>w \<in> set us. update_typed prost_ref (fu_update w) \<and>
      (\<exists>d. \<forall>buf. filtered_update_encode prost_ref sample_codec w buf = Some (length (buf @ d), buf @ d)))"
  by (rule delivered_updates_encode [OF reference.prost_codec_axioms sample_codec_ok(1) example_config_accepted])
    (simp_all add: slices_in_range_def example_config_def sample_account_typed)

text \<open>\<^bold>\<open>C39.\<close> What a subscriber reads is what the server read: encoding the update that carries a whole
  parsed message, for any filter names, and parsing these bytes gives a message of the same
  kind with the same fields, the same bytes and the same values behind its accessors, when the
  generated code reads back what it wrote.\<close>

theorem whole_update_round_trip:
  assumes "prost_codec P" and "update_codec_ok U" and "generated_inverse U G" and "limited_parse P G data = Some (Inr m)"
    and "encode_to_vec P U \<lparr>fu_filters = names, fu_update = whole_update (parsed_from m)\<rparr> = Some d" and "length d < 2 ^ 64"
  shows "\<exists>m'. limited_parse P G d = Some (Inr m') \<and> same_content m m'"
  using prost_codec.parsed_reads_back [OF assms(1-4), of names] assms(5,6) by (auto simp: reads_back_def)

theorem whole_update_round_trip_witness:
  "\<exists>m m' d. limited_parse prost_ref sample_decoder dead_slot_update = Some (Inr (M_Slot m)) \<and>
    encode_to_vec prost_ref sample_codec \<lparr>fu_filters = [''a''], fu_update = whole_update (parsed_from (M_Slot m))\<rparr> = Some d \<and>
    limited_parse prost_ref sample_decoder d = Some (Inr m') \<and> same_content (M_Slot m) m'"
proof -
  have "length dead_slot_update < 2 ^ 64" by (simp add: dead_slot_bytes)
  then obtain m where m: "limited_parse prost_ref sample_decoder dead_slot_update = Some (Inr (M_Slot m))"
    "ms_created_at m = \<lparr>ts_seconds = 7, ts_nanos = 9\<rparr>" "ms_buffer m = dead_slot_update"
    "slice (fst (ms_range m)) (snd (ms_range m)) dead_slot_update = Some (slot_encode_raw prost_ref 5 (Some 4) (SS_Dead [100, 101, 97, 100]) None)"
    unfolding dead_slot_update_def by (rule reference.slot_parse_encoded [where G = sample_decoder])
  let ?d = "update_message_encode_raw prost_ref (UM_Limited [name_bytes ''a''] (LU_Slot [8, 5, 16, 4, 24, 6, 34, 4, 100, 101, 97, 100])
    \<lparr>ts_seconds = 7, ts_nanos = 9\<rparr>)"
  have d: "encode_to_vec prost_ref sample_codec \<lparr>fu_filters = [''a''], fu_update = whole_update (parsed_from (M_Slot m))\<rparr> = Some ?d"
    using m(2-4) by (simp add: encode_to_vec_def filtered_update_encode_def encode_reserved_def range_slice_def dead_slot_inner)
  have "length ?d = 23" by code_simp
  then have "length ?d < 2 ^ 64" by simp
  from whole_update_round_trip [OF reference.prost_codec_axioms sample_codec_ok m(1) d this] m(1) d show ?thesis by blast
qed

text \<open>What a list of data slices asks for: the bytes of each slice that ends inside the data, in the
  order of the list.\<close>

definition requested_data :: "data_slice list \<Rightarrow> bytes \<Rightarrow> bytes" where
  "requested_data ds source = concat (map (\<lambda>d. take (unat (ds_length d)) (drop (unat (ds_offset d)) source))
     (filter (\<lambda>d. unat (ds_offset d) + unat (ds_length d) \<le> length source) ds))"

lemma unat_slice_end:
  "unat (ds_offset d) + unat (ds_length d) < 2 ^ 64 \<Longrightarrow> unat (ds_offset d + ds_length d) = unat (ds_offset d) + unat (ds_length d)"
  by (simp add: unat_word_ariths)

lemma extend_slices_requested:
  "\<forall>d \<in> set ds. unat (ds_offset d) + unat (ds_length d) < 2 ^ 64 \<Longrightarrow>
   extend_slices source (data_slices_new ds) = Some (requested_data ds source)"
  by (induction ds) (auto simp: data_slices_new_def requested_data_def unat_slice_end slice_def)

lemma get_slice_requested:
  assumes "\<forall>d \<in> set ds. unat (ds_offset d) + unat (ds_length d) < 2 ^ 64"
    and "sum_list (map (\<lambda>d. unat (ds_length d)) ds) < 2 ^ 63" and "ds \<noteq> []"
  shows "get_slice (data_slices_new ds) source = Some (requested_data ds source)"
proof -
  have "unat (slices_capacity (data_slices_new ds)) \<le> sum_list (map (\<lambda>d. unat (ds_length d)) ds)"
  proof (induction ds)
    case (Cons d ds)
    have "unat (ds_length d + slices_capacity (data_slices_new ds)) \<le> unat (ds_length d) + unat (slices_capacity (data_slices_new ds))"
      by (simp add: unat_word_ariths)
    with Cons show ?case by (simp add: slices_capacity_def data_slices_new_def)
  qed (simp add: slices_capacity_def data_slices_new_def)
  then have cap: "\<not> 2 ^ 63 \<le> unat (slices_capacity (data_slices_new ds))" using assms(2) by simp
  note ext = extend_slices_requested [OF assms(1), of source]
  show ?thesis
  proof (cases ds)
    case (Cons d r)
    show ?thesis
    proof (cases r)
      case Nil
      with ext Cons show ?thesis by (simp add: get_slice_def data_slices_new_def bind_eq_Some_conv split: if_splits)
    next
      case (Cons d' r')
      with \<open>ds = d # r\<close> have "get_slice (data_slices_new ds) source = (if 2 ^ 63 \<le> unat (slices_capacity (data_slices_new ds)) then None
          else extend_slices source (data_slices_new ds))"
        by (simp add: get_slice_def data_slices_new_def del: extend_slices.simps)
      with cap ext show ?thesis by simp
    qed
  qed (use assms(3) in simp)
qed

text \<open>\<^bold>\<open>C40.\<close> An account that is sent with the data slices of a configuration, none of which ends behind the
  address space and which ask for less than \<open>2 ^ 63\<close> bytes, arrives with the bytes of the slices
  that end inside its data, concatenated in the order of the configuration, and with the key, owner, balance,
  executable flag, rent epoch, signature, slot, bank, time stamp and the write version, which has to
  be other than 0, of the parsed account. Its start-up flag is lost: the encoder writes the flag when it is
  false and omits it when it is true, so the reader always finds false.\<close>

theorem sliced_account_update:
  assumes "prost_codec P" and "length (ma_pubkey m) = PUBKEY_BYTES" and "length (ma_owner m) = PUBKEY_BYTES"
    and "message_account_data m = Some source" and "slices_in_range c" and "cg_accounts_data_slice c \<noteq> []"
    and "message_account_write_version P m = Some v" and "v \<noteq> 0" and "message_account_txn_signature m \<noteq> Some None"
    and "encode_to_vec P U \<lparr>fu_filters = names, fu_update = FU_Account m (data_slices_new (cg_accounts_data_slice c))\<rparr> = Some d"
    and "length d < 2 ^ 64"
  shows "\<exists>m'. limited_parse P G d = Some (Inr (M_Account m')) \<and>
    message_account_data m' = Some (requested_data (cg_accounts_data_slice c) source) \<and>
    ma_pubkey m' = ma_pubkey m \<and> ma_owner m' = ma_owner m \<and> ma_lamports m' = ma_lamports m \<and> ma_executable m' = ma_executable m \<and>
    ma_rent_epoch m' = ma_rent_epoch m \<and> message_account_txn_signature m' = message_account_txn_signature m \<and>
    message_account_write_version P m' = Some v \<and> ma_slot m' = ma_slot m \<and> ma_bank_id m' = ma_bank_id m \<and>
    ma_created_at m' = ma_created_at m \<and> \<not> ma_is_startup m'"
proof -
  let ?slices = "data_slices_new (cg_accounts_data_slice c)" and ?part = "requested_data (cg_accounts_data_slice c) source"
  have part: "get_slice ?slices source = Some ?part"
    using assms(5,6) by (intro get_slice_requested) (auto simp: slices_in_range_def)
  have ne: "?slices \<noteq> []" using assms(6) by (simp add: data_slices_new_def)
  obtain a where a: "account_inner_of P ?slices m = Some a" "account_sized (replica_of_inner a)"
    "li_pubkey a = ma_pubkey m" "li_owner a = ma_owner m" "li_lamports a = ma_lamports m" "li_executable a = ma_executable m"
    "li_rent_epoch a = ma_rent_epoch m" "li_data a = ?part" "li_write_version a = v"
    "message_account_txn_signature m = map_option Some (li_txn_signature a)"
    by (rule sliced_account_back [OF assms(1-4) part ne assms(7-9)])
  have d: "d = update_message_encode_raw P (UM_Limited (map name_bytes names)
      (LU_Account (LA_Fields a (ma_slot m) (ma_is_startup m) (ma_bank_id m))) (ma_created_at m))"
    using ne assms(10) a(1) by (simp add: encode_to_vec_def filtered_update_encode_def encode_reserved_def)
  obtain r where r: "slice (fst r) (snd r) d = Some (limited_account_encode_raw P (LA_Fields a (ma_slot m) (ma_is_startup m) (ma_bank_id m)))"
    "limited_parse P G d = Some (Inr (M_Account (account_of_decoded d (ma_created_at m) r
      ((account_decode_at P (snd r - fst r) (fields_rest P (ma_slot m) (ma_is_startup m) (ma_bank_id m)) (replica_of_inner a))
        \<lparr>ad_slot := ma_slot m, ad_is_startup := False, ad_bank_id := ma_bank_id m\<rparr>))))"
    by (rule prost_codec.fields_parse [OF assms(1) a(2) d assms(11)])
  have "li_write_version a \<noteq> 0" using a(9) assms(8) by simp
  note acc = prost_codec.fields_accessors [OF assms(1) a(2) this r(1), of "ma_created_at m"]
  let ?m' = "account_of_decoded d (ma_created_at m) r
      ((account_decode_at P (snd r - fst r) (fields_rest P (ma_slot m) (ma_is_startup m) (ma_bank_id m)) (replica_of_inner a))
        \<lparr>ad_slot := ma_slot m, ad_is_startup := False, ad_bank_id := ma_bank_id m\<rparr>)"
  have "message_account_data ?m' = Some ?part" "message_account_txn_signature ?m' = message_account_txn_signature m"
    "message_account_write_version P ?m' = Some v" using acc a(8-10) by simp_all
  with r(2) a(3-7) show ?thesis
    by (intro exI [of _ ?m']) (simp add: account_of_decoded_def account_decode_at_def Let_def replica_of_inner_def)
qed

definition sample_sliced :: config_filter where
  "sample_sliced = \<lparr>cg_slots = [], cg_accounts = [], cg_accounts_data_slice = [\<lparr>ds_offset = 0, ds_length = 2\<rparr>,
     \<lparr>ds_offset = 3, ds_length = 1\<rparr>, \<lparr>ds_offset = 3, ds_length = 2\<rparr>], cg_transactions = [], cg_transactions_status = [],
     cg_entries = [], cg_entries_update_parent = {}, cg_blocks_meta = [], cg_blocks = [], cg_block_footer = [], cg_commitment = None\<rparr>"

theorem sliced_account_update_witness:
  "\<exists>d m'. encode_to_vec prost_ref sample_codec
      \<lparr>fu_filters = [''a''], fu_update = FU_Account (sample_account\<lparr>ma_is_startup := True\<rparr>) (data_slices_new (cg_accounts_data_slice sample_sliced))\<rparr> = Some d \<and>
    limited_parse prost_ref sample_decoder d = Some (Inr (M_Account m')) \<and> message_account_data m' = Some [1, 2, 4] \<and>
    message_account_write_version prost_ref m' = Some 5 \<and> \<not> ma_is_startup m'"
proof -
  let ?m = "sample_account\<lparr>ma_is_startup := True\<rparr>" and ?s = "data_slices_new (cg_accounts_data_slice sample_sliced)"
  have data: "message_account_data ?m = Some [1, 2, 3, 4]" by (simp add: message_account_data_def sample_account_def slice_def)
  have s: "?s = [(0, 2), (3, 4), (3, 5)]" by (simp add: sample_sliced_def data_slices_new_def)
  have part: "get_slice ?s [1, 2, 3, 4] = Some [1, 2, 4]" unfolding s by (simp add: get_slice_def slices_capacity_def slice_def)
  have range: "slices_in_range sample_sliced" "cg_accounts_data_slice sample_sliced \<noteq> []"
    by (simp_all add: sample_sliced_def slices_in_range_def)
  have req: "requested_data (cg_accounts_data_slice sample_sliced) [1, 2, 3, 4] = [1, 2, 4]"
    by (simp add: sample_sliced_def requested_data_def)
  have v: "message_account_write_version prost_ref ?m = Some 5" using sample_version unfolding message_account_write_version_def by (simp split: if_splits)
  let ?a = "\<lparr>li_pubkey = replicate 32 7, li_lamports = 6, li_owner = replicate 32 8, li_executable = False, li_rent_epoch = 0,
    li_data = [1, 2, 4], li_write_version = 5, li_txn_signature = None\<rparr>"
  let ?d = "update_message_encode_raw prost_ref (UM_Limited [name_bytes ''a''] (LU_Account (LA_Fields ?a 7 True None)) timestamp_default)"
  have "account_inner_of prost_ref ?s ?m = Some ?a"
    using data part v by (simp add: account_inner_of_def range_slice_def message_account_data_def sample_account_def)
  then have d: "encode_to_vec prost_ref sample_codec \<lparr>fu_filters = [''a''], fu_update = FU_Account ?m ?s\<rparr> = Some ?d"
    using s by (simp add: encode_to_vec_def filtered_update_encode_def encode_reserved_def sample_account_def)
  have "length ?d < 100" by code_simp
  then have "length ?d < 2 ^ 64" by simp
  moreover have "length (ma_pubkey ?m) = PUBKEY_BYTES" "length (ma_owner ?m) = PUBKEY_BYTES" "(5 :: u64) \<noteq> 0"
    "message_account_txn_signature ?m \<noteq> Some None"
    by (simp_all add: sample_account_def PUBKEY_BYTES_def message_account_txn_signature_def)
  ultimately have "\<exists>m'. limited_parse prost_ref sample_decoder ?d = Some (Inr (M_Account m')) \<and> message_account_data m' = Some [1, 2, 4] \<and>
      message_account_write_version prost_ref m' = Some 5 \<and> \<not> ma_is_startup m'"
    using sliced_account_update [OF reference.prost_codec_axioms _ _ data range v _ _ d, of sample_decoder] req by auto
  with d show ?thesis by blast
qed

end
