(* ===== verification/Spec2Isabelle.thy ===== *)
theory Spec2Isabelle
  imports Plugin_Channel Pipeline Storage_Reader Filter_Encode
begin

text \<open>
  Verification of richat, a Geyser plugin and a server that stream the updates of a Solana
  validator to subscribers.

  \<^bold>\<open>The program.\<close> The plugin (\<open>plugin-agave\<close>) runs inside the validator. Its callbacks turn slots,
  accounts, transactions, entries and block metas into Protobuf messages (\<open>protobuf/\<close>) and push
  them into a channel (\<open>channel.rs\<close>): a ring with a limit of messages and of bytes, an index of
  the slots that it holds, and receivers that follow it. The server (\<open>richat\<close>) reads such streams,
  parses each update only as far as it must (\<open>filter/src/protobuf/decode.rs\<close>,
  \<open>filter/src/message.rs\<close>), reconstructs blocks, publishes the messages to one ring per commitment
  level (\<open>richat/src/channel.rs\<close>), and keeps a journal of them on disk (\<open>richat/src/storage/\<close>) from
  which subscribers can replay.

  \<^bold>\<open>The theories.\<close>
  \<^item> \<open>Prelude\<close>, \<open>Ordered_Map\<close>: machine integers, results, and \<open>BTreeMap\<close> as sorted association lists
    with its contract \<open>ordered_map\<close>.
  \<^item> \<open>Prost_Wire\<close>, \<open>Prost_Reference\<close>: the interface of the \<open>prost\<close> crate as a record of functions, its
    documented laws as the locales \<open>prost_codec\<close> and \<open>prost_varint\<close>, and a reference codec that
    satisfies them. The theorems hold for every codec with these laws.
  \<^item> \<open>Plugin_Encoding\<close>, \<open>Plugin_Transaction\<close>, \<open>Plugin_Message\<close>: \<open>encode_raw\<close> and \<open>encoded_len\<close> of all the
    wrappers in \<open>protobuf/encoding\<close>, and the update that contains them. The announced length is
    the written length, and encoding does not panic.
  \<^item> \<open>Ring\<close>: the contract of the cells of a ring buffer (locale \<open>ring_cell\<close>), interpreted by both
    channels.
  \<^item> \<open>Plugin_Channel\<close>: \<open>Sender\<close> and \<open>Receiver\<close> of the plugin. Pushing refines appending to a bounded
    log; receivers are delivered that log without gaps, or are told that they lagged; missed
    statuses of ancestors are sent.
  \<^item> \<open>Filter_Decode\<close>, \<open>Filter_Message\<close>: the partial decoders, the parser and the accessors that slice
    the received buffer, and the in-place rewrite of an account's write version. They end on every
    input, stay inside the buffer, and return what the plugin encoded.
  \<^item> \<open>Pipeline\<close>: encoder and parser composed.
  \<^item> \<open>Filter_Config\<close>: the filters that a subscriber asks for and the limits of the operator
    (\<open>filter/src/config.rs\<close>), with the conversions from and to the subscription request. The text encodings
    of keys and signatures are a record of functions, with the laws of the locale \<open>text_encoding\<close>.
  \<^item> \<open>Filter_Match\<close>: \<open>Filter\<close> and \<open>get_updates\<close> (\<open>filter/src/filter.rs\<close>). A subscriber is sent exactly what its
    configuration, read as a list of conditions, asks for; filters that the limits accept and
    that make the server panic are constructed.
  \<^item> \<open>Filter_Encode\<close>: \<open>FilteredUpdate::encode\<close> and the wrappers of \<open>filter/src/protobuf/encode.rs\<close>, which send
    the received bytes on. Every update of the filter encodes without a panic into exactly the
    announced number of bytes, and what a subscriber parses has the content of what the server
    parsed; with data slices, the data is their concatenation.
  \<^item> \<open>Richat_Message\<close>, \<open>Richat_Channel\<close>: the messages of the server and its rings (\<open>SharedChannel\<close>,
    \<open>SenderShared\<close>, \<open>ReceiverAsync\<close>, \<open>ReceiverSync\<close>): bounded log, completeness of replay from memory,
    and the hand-over from disk to memory by binary search.
  \<^item> \<open>Richat_Block\<close>: \<open>BankInfo\<close> and \<open>SlotInfo\<close>: reconstruction of blocks, and the bank that a commitment
    status selects.
  \<^item> \<open>Richat_Dedup\<close>: the deduplication of several sources in \<open>Sender::push\<close>: every message of a bank is
    sent once, with the index of its transaction as the write version of an account, as long as the indices of
    entries do not run ahead.
  \<^item> \<open>Richat_Sender\<close>: the rest of \<open>Sender::push\<close> (publication to the rings of the three commitments and
    to the journal, promotion of a bank, cleaning, retention), \<open>begin_live_epoch\<close>, \<open>Messages\<close>, and the
    \<open>Storage\<close> facade (\<open>storage/mod.rs\<close>). The streams of a higher commitment carry one bank per slot,
    and the state of the sender is bounded.
  \<^item> \<open>Storage_Collector\<close>: \<open>run_collector\<close> (\<open>segments.rs\<close>), which turns the commands of the sender into
    chunks and replaces repeated payloads by references. Sender and collector are composed: the
    chunks are contiguous, complete, and never split a publication.
  \<^item> \<open>Sender_Slots\<close>: every message is published, to a ring or to the journal, under the slot that it names.
  \<^item> \<open>Storage_Reader\<close>: the chunk format of \<open>run_compressor\<close> and \<open>reader.rs\<close>. The reader returns on every
    input, and composed with the sender and the collector it gives back every published message whose
    payload the codec reads back. The codec is a record of functions; this theory shows the contract for
    the encoder and the parser of the filter.
  \<^item> \<open>Storage_Metadata\<close>, \<open>Storage_Writer\<close>: the rows of the journal's database (\<open>metadata.rs\<close>), with
    RocksDB as the parameter of the locale \<open>kv_store\<close>, and the segment writer (\<open>segments.rs\<close>) with its
    files, crashes at every point and recovery.

  \<^bold>\<open>Conventions.\<close> Operations on state are functions from state to state; a panic is \<open>None\<close>, an error
  is \<open>Inl\<close>. Integers that wrap are words. Loops are recursive functions with a termination proof;
  a loop that may not end (the receivers' scans, the field loops of the decoders) is a
  \<open>partial_function\<close> into \<open>option\<close>, and the theorems show that it returns. No fuel is used.
  Bounds appear as hypotheses: positions of a ring stay below \<open>2 ^ 64\<close>, a ring has \<open>2 ^ k\<close> cells with
  \<open>k < 63\<close>, and fewer than \<open>10 ^ 12\<close> segments are ever created, since the name of a segment file has
  twelve digits; the collector is given fewer than \<open>2 ^ 32\<close> events, since it counts its records as
  \<open>u32\<close>; a chunk is smaller than \<open>2 ^ 63\<close> bytes, the limit of an allocation.

  \<^bold>\<open>Not modelled.\<close> Messages in the \<open>Prost\<close> form, which hold generated structures (block footers and
  entry update parents apart), and the choice between the two forms; the replay workers of
  \<open>storage/mod.rs\<close>. Network services and clients (gRPC, QUIC, WebSocket), threads and locks (an
  operation that holds a lock is one step), metrics, logging and configuration parsing, the code
  generated from the \<open>.proto\<close> files, and zstd.
\<close>

subsection \<open>The payloads of the journal\<close>

text \<open>What \<open>run_compressor\<close> writes for a message is the update that carries it whole, without filter
  names, and \<open>RecordHeader::decode\<close> hands it to \<open>Message::parse\<close>: blocks to the parser of the \<open>Prost\<close> form,
  which is an argument, other messages to the parser of the \<open>Limited\<close> form.\<close>

definition journal_codec :: "prost \<Rightarrow> 'x update_codec \<Rightarrow> 'x gen_codec \<Rightarrow> (bytes \<Rightarrow> error + 'x parsed_message) \<Rightarrow> 'x payload_codec" where
  "journal_codec P U G parse_prost = \<lparr>pc_encode = (\<lambda>m. case encode_to_vec P U \<lparr>fu_filters = [], fu_update = whole_update m\<rparr> of
       Some d \<Rightarrow> d | None \<Rightarrow> []),
     pc_parse = (\<lambda>block b. if block then parse_prost b else (case limited_parse P G b of
       Some (Inr m) \<Rightarrow> Inr (parsed_from m) | _ \<Rightarrow> Inl ''parse''))\<rparr>"

definition same_parsed :: "'x parsed_message \<Rightarrow> 'x parsed_message \<Rightarrow> bool" where
  "same_parsed x y \<longleftrightarrow> (\<exists>m m'. x = parsed_from m \<and> y = parsed_from m' \<and> same_content m m')"

lemma same_content_slot: "same_content m m' \<Longrightarrow> message_slot_of m' = message_slot_of m"
  by (cases m; cases m') (auto dest: arg_cong [where f = ms_slot] arg_cong [where f = ma_slot] arg_cong [where f = mt_slot]
      arg_cong [where f = me_slot] arg_cong [where f = mb_block_meta])

text \<open>The contract that the journal reader needs holds for every message that the parser returned.\<close>

lemma journal_codec_reads_back:
  assumes "prost_codec P" and "update_codec_ok U" and "generated_inverse U G" and "limited_parse P G data = Some (Inr m)"
    and "length (pc_encode (journal_codec P U G pp) (parsed_from m)) < 2 ^ 64"
  shows "codec_reads_back (journal_codec P U G pp) same_parsed (parsed_from m)"
proof -
  from prost_codec.parsed_reads_back [OF assms(1-4), of "[]"] obtain d where
    d: "encode_to_vec P U \<lparr>fu_filters = [], fu_update = whole_update (parsed_from m)\<rparr> = Some d"
    and r: "length d < 2 ^ 64 \<longrightarrow> (\<exists>m'. limited_parse P G d = Some (Inr m') \<and> same_content m m')" by (auto simp: reads_back_def)
  from d have e: "pc_encode (journal_codec P U G pp) (parsed_from m) = d" by (simp add: journal_codec_def)
  with r assms(5) obtain m' where m': "limited_parse P G d = Some (Inr m')" "same_content m m'" by auto
  have "\<not> is_block (parsed_from m)" by (cases m) (simp_all add: is_block_def)
  then have "pc_parse (journal_codec P U G pp) (is_block (parsed_from m)) d = Inr (parsed_from m')"
    using m'(1) by (simp add: journal_codec_def)
  with e m'(2) same_content_slot [OF m'(2)] show ?thesis by (auto simp: codec_reads_back_def same_parsed_def)
qed

end
